(* ===== verification/Badger_Prelude.thy ===== *)
theory Badger_Prelude
  imports Main "HOL-Library.Word"
begin

text \<open>
  Shared vocabulary of the development: the result type of fallible kernel code, the Rust
  integer operations whose overflow behaviour the sources rely on (\<open>checked_add\<close>,
  \<open>wrapping_add\<close>, \<open>saturating_sub\<close>, \<open>div_ceil\<close>, \<open>next_power_of_two\<close>), and
  \<open>slice::binary_search_by\<close>, with the lemmas every component uses about them.
\<close>

named_theorems rust_arith

section \<open>Results\<close>

text \<open>\<open>Result<T, E>\<close> is a sum with the error on the left.\<close>

type_synonym ('e, 'a) result = "'e + 'a"

abbreviation Ok :: "'a \<Rightarrow> ('e, 'a) result" where
  "Ok \<equiv> Inr"

abbreviation Err :: "'e \<Rightarrow> ('e, 'a) result" where
  "Err \<equiv> Inl"

text \<open>The \<open>?\<close> operator.\<close>

definition bind_result :: "('e, 'a) result \<Rightarrow> ('a \<Rightarrow> ('e, 'b) result) \<Rightarrow> ('e, 'b) result" where
  "bind_result r f = (case r of Inl e \<Rightarrow> Inl e | Inr x \<Rightarrow> f x)"

section \<open>Integer operations of the Rust standard library\<close>

text \<open>Unsigned integers are natural numbers with the width's maximum written out.\<close>

definition u32_max :: nat where
  "u32_max = 2 ^ 32 - 1"

definition usize_max :: nat where
  "usize_max = 2 ^ 64 - 1"

definition checked_add :: "nat \<Rightarrow> nat \<Rightarrow> nat \<Rightarrow> nat option" where
  "checked_add mx a b = (if a + b \<le> mx then Some (a + b) else None)"

definition checked_sub :: "nat \<Rightarrow> nat \<Rightarrow> nat option" where
  "checked_sub a b = (if b \<le> a then Some (a - b) else None)"

definition wrapping_add :: "nat \<Rightarrow> nat \<Rightarrow> nat \<Rightarrow> nat" where
  "wrapping_add mx a b = (a + b) mod Suc mx"

definition wrapping_sub :: "nat \<Rightarrow> nat \<Rightarrow> nat \<Rightarrow> nat" where
  "wrapping_sub mx a b = (a + Suc mx - b) mod Suc mx"

definition saturating_add :: "nat \<Rightarrow> nat \<Rightarrow> nat \<Rightarrow> nat" where
  "saturating_add mx a b = min mx (a + b)"

definition div_ceil :: "nat \<Rightarrow> nat \<Rightarrow> nat" where
  "div_ceil a b = (a + b - 1) div b"

definition abs_diff :: "nat \<Rightarrow> nat \<Rightarrow> nat" where
  "abs_diff a b = (if a \<le> b then b - a else a - b)"

text \<open>\<open>trailing_zeros\<close>, \<open>ilog2\<close> and \<open>next_power_of_two\<close> of a 64-bit value.\<close>

fun trailing_zeros :: "nat \<Rightarrow> nat" where
  "trailing_zeros n = (if n = 0 then 64 else if odd n then 0 else Suc (trailing_zeros (n div 2)))"

fun ilog2 :: "nat \<Rightarrow> nat" where
  "ilog2 n = (if n \<le> 1 then 0 else Suc (ilog2 (n div 2)))"

declare trailing_zeros.simps [simp del] ilog2.simps [simp del]

definition next_power_of_two :: "nat \<Rightarrow> nat" where
  "next_power_of_two n = (if n \<le> 1 then 1 else 2 ^ Suc (ilog2 (n - 1)))"

section \<open>Binary search\<close>

datatype ordering = Less | Equal | Greater

definition cmp_nat :: "nat \<Rightarrow> nat \<Rightarrow> ordering" where
  "cmp_nat a b = (if a < b then Less else if a = b then Equal else Greater)"

text \<open>
  \<open>slice::binary_search_by\<close>: \<open>Inr i\<close> is \<open>Ok(i)\<close>, an index that compares equal;
  \<open>Inl i\<close> is \<open>Err(i)\<close>, the index at which the element would be inserted.
\<close>

fun bs_loop :: "('a \<Rightarrow> ordering) \<Rightarrow> 'a list \<Rightarrow> nat \<Rightarrow> nat \<Rightarrow> nat" where
  "bs_loop f xs base sz =
     (if sz > 1 then
        (let half = sz div 2; mid = base + half
         in bs_loop f xs (if f (xs ! mid) = Greater then base else mid) (sz - half))
      else base)"

declare bs_loop.simps [simp del]

definition binary_search_by :: "('a \<Rightarrow> ordering) \<Rightarrow> 'a list \<Rightarrow> nat + nat" where
  "binary_search_by f xs =
     (if xs = [] then Inl 0
      else (let base = bs_loop f xs 0 (length xs)
            in case f (xs ! base) of
                 Equal \<Rightarrow> Inr base
               | Less \<Rightarrow> Inl (base + 1)
               | Greater \<Rightarrow> Inl base))"

text \<open>The comparator partitions the slice: less, then equal, then greater elements.\<close>

fun ord_rank :: "ordering \<Rightarrow> nat" where
  "ord_rank Less = 0"
| "ord_rank Equal = 1"
| "ord_rank Greater = 2"

definition bs_sorted :: "('a \<Rightarrow> ordering) \<Rightarrow> 'a list \<Rightarrow> bool" where
  "bs_sorted f xs \<longleftrightarrow> sorted (map (\<lambda>x. ord_rank (f x)) xs)"

section \<open>Lemmas on the integer operations\<close>

lemma checked_add_Some_iff [simp]:
  "checked_add mx a b = Some c \<longleftrightarrow> c = a + b \<and> a + b \<le> mx"
  by (auto simp: checked_add_def)

lemma checked_add_None_iff [simp]: "checked_add mx a b = None \<longleftrightarrow> mx < a + b"
  by (auto simp: checked_add_def)

lemma checked_sub_Some_iff [simp]: "checked_sub a b = Some c \<longleftrightarrow> b \<le> a \<and> c = a - b"
  by (auto simp: checked_sub_def)

lemma checked_sub_None_iff [simp]: "checked_sub a b = None \<longleftrightarrow> a < b"
  by (auto simp: checked_sub_def)

lemma wrapping_add_small [rust_arith]: "a + b \<le> mx \<Longrightarrow> wrapping_add mx a b = a + b"
  by (simp add: wrapping_add_def)

lemma wrapping_sub_ge [rust_arith]:
  assumes "b \<le> a" "a \<le> mx"
  shows "wrapping_sub mx a b = a - b"
proof -
  have "wrapping_sub mx a b = ((a - b) + Suc mx) mod Suc mx"
    using assms by (simp add: wrapping_sub_def Suc_diff_le)
  also have "\<dots> = (a - b) mod Suc mx" by (rule mod_add_self2)
  finally show ?thesis using assms by simp
qed

lemma wrapping_sub_less [rust_arith]:
  assumes "a < b" "b \<le> mx"
  shows "wrapping_sub mx a b = Suc mx + a - b"
  using assms by (simp add: wrapping_sub_def)

lemma wrapping_sub_mod:
  assumes "a \<le> mx"
  shows "wrapping_sub mx ((a + y) mod Suc mx) a = y mod Suc mx"
proof -
  have "wrapping_sub mx ((a + y) mod Suc mx) a = ((a + y) mod Suc mx + (Suc mx - a)) mod Suc mx"
    using assms by (simp add: wrapping_sub_def)
  also have "\<dots> = (a + y + (Suc mx - a)) mod Suc mx" by (rule mod_add_left_eq)
  also have "a + y + (Suc mx - a) = y + Suc mx" using assms by simp
  also have "(y + Suc mx) mod Suc mx = y mod Suc mx" by (rule mod_add_self2)
  finally show ?thesis .
qed

lemma wrapping_sub_add:
  assumes "b \<le> a + c" "b \<le> mx" "a + c - b \<le> mx"
  shows "wrapping_add mx (wrapping_sub mx a b) c = a + c - b"
proof -
  have "wrapping_add mx (wrapping_sub mx a b) c = (a + Suc mx - b + c) mod Suc mx"
    unfolding wrapping_add_def wrapping_sub_def by (rule mod_add_left_eq)
  also have "a + Suc mx - b + c = a + c - b + Suc mx" using assms by simp
  also have "\<dots> mod Suc mx = (a + c - b) mod Suc mx" by (rule mod_add_self2)
  finally show ?thesis using assms(3) by simp
qed

lemma wrapping_cancel:
  assumes "a \<le> mx" "b \<le> mx" "x \<le> mx"
  shows "wrapping_sub mx (wrapping_sub mx (wrapping_add mx (wrapping_add mx a b) x) a) b = x"
proof -
  have "wrapping_add mx (wrapping_add mx a b) x = (a + (b + x)) mod Suc mx"
    by (simp add: wrapping_add_def mod_simps ac_simps)
  then show ?thesis using assms by (simp add: wrapping_sub_mod)
qed

lemma div_ceil_mult [rust_arith]: "0 < b \<Longrightarrow> a \<le> div_ceil a b * b"
proof -
  assume b: "0 < b"
  have "(a + b - 1) div b * b + (a + b - 1) mod b = a + b - 1" by simp
  moreover have "(a + b - 1) mod b < b" using b by simp
  ultimately show ?thesis unfolding div_ceil_def by linarith
qed

lemma div_ceil_less [rust_arith]: "0 < b \<Longrightarrow> 0 < a \<Longrightarrow> (div_ceil a b - 1) * b < a"
proof -
  assume b: "0 < b" and a: "0 < a"
  have "div_ceil a b * b \<le> a + b - 1" by (simp add: div_ceil_def)
  then show ?thesis using a b by (simp add: diff_mult_distrib)
qed

lemma div_ceil_dvd [simp]: "0 < b \<Longrightarrow> div_ceil (k * b) b = k"
proof -
  assume b: "0 < b"
  have "div_ceil (k * b) b = ((b - 1) + k * b) div b"
    using b by (simp add: div_ceil_def add.commute)
  also have "\<dots> = k + (b - 1) div b"
    using b by (intro div_mult_self1) simp
  finally show ?thesis using b by simp
qed

lemma abs_diff_sym: "abs_diff a b = abs_diff b a"
  by (simp add: abs_diff_def)

lemma trailing_zeros_dvd: "0 < n \<Longrightarrow> 2 ^ trailing_zeros n dvd n"
proof (induction n rule: trailing_zeros.induct)
  case (1 n)
  show ?case
  proof (cases "odd n")
    case True
    then show ?thesis using 1 by (subst trailing_zeros.simps) simp
  next
    case False
    then obtain k where k: "n = 2 * k" by auto
    then have "2 ^ trailing_zeros k dvd k" using 1 False by simp
    then show ?thesis using k "1.prems" by (subst trailing_zeros.simps) simp
  qed
qed

lemma trailing_zeros_power [simp]: "trailing_zeros (2 ^ k) = k"
  by (induction k) (simp_all add: trailing_zeros.simps)

lemma ilog2_bounds: "0 < n \<Longrightarrow> 2 ^ ilog2 n \<le> n \<and> n < 2 ^ Suc (ilog2 n)"
proof (induction n rule: ilog2.induct)
  case (1 n)
  show ?case
  proof (cases "n \<le> 1")
    case True
    then have "n = 1" using 1 by simp
    then show ?thesis by (simp add: ilog2.simps)
  next
    case False
    then have IH: "2 ^ ilog2 (n div 2) \<le> n div 2" "n div 2 < 2 ^ Suc (ilog2 (n div 2))"
      using 1 by auto
    have "ilog2 n = Suc (ilog2 (n div 2))" using False by (simp add: ilog2.simps [of n])
    then show ?thesis using IH by auto
  qed
qed

lemma ilog2_le: "0 < n \<Longrightarrow> n < 2 ^ k \<Longrightarrow> ilog2 n < k"
proof -
  assume "0 < n" "n < 2 ^ k"
  then have "2 ^ ilog2 n < (2::nat) ^ k" using ilog2_bounds [of n] by linarith
  then show ?thesis by simp
qed

lemma ilog2_ge: "2 ^ k \<le> n \<Longrightarrow> k \<le> ilog2 n"
proof -
  assume *: "2 ^ k \<le> n"
  then have "0 < n" by (metis gr0I le_zero_eq power_not_zero zero_neq_numeral)
  then have "2 ^ k < (2::nat) ^ Suc (ilog2 n)" using ilog2_bounds [of n] * by linarith
  then show ?thesis by (simp del: power_Suc)
qed

lemma next_power_of_two_pow: "\<exists>k. next_power_of_two n = 2 ^ k"
  by (cases "n \<le> 1") (auto simp: next_power_of_two_def simp del: power_Suc intro: exI [of _ 0])

lemma next_power_of_two_ge: "n \<le> next_power_of_two n"
  using ilog2_bounds [of "n - 1"] by (auto simp: next_power_of_two_def)

lemma next_power_of_two_least: "n \<le> 2 ^ k \<Longrightarrow> next_power_of_two n \<le> 2 ^ k"
proof -
  assume n: "n \<le> 2 ^ k"
  show ?thesis
  proof (cases "n \<le> 1")
    case False
    then have "ilog2 (n - 1) < k" using n by (intro ilog2_le) auto
    then show ?thesis using False by (simp add: next_power_of_two_def power_increasing Suc_le_eq del: power_Suc)
  qed (simp add: next_power_of_two_def)
qed

lemma trailing_zeros_ge:
  assumes "2 ^ k dvd n" "0 < n"
  shows "k \<le> trailing_zeros n"
  using assms
proof (induction k arbitrary: n)
  case (Suc k)
  then obtain j where j: "n = 2 * (2 ^ k * j)" by (auto simp: dvd_def mult.assoc)
  then have "k \<le> trailing_zeros (2 ^ k * j)" using Suc by simp
  then show ?case using j Suc.prems by (subst trailing_zeros.simps) simp
qed simp

section \<open>Correctness of binary search\<close>

lemma cmp_nat_simps [simp]:
  "cmp_nat a b = Less \<longleftrightarrow> a < b"
  "cmp_nat a b = Equal \<longleftrightarrow> a = b"
  "cmp_nat a b = Greater \<longleftrightarrow> b < a"
  by (auto simp: cmp_nat_def)

lemma ord_rank_simps [simp]:
  "ord_rank c = 0 \<longleftrightarrow> c = Less"
  "2 \<le> ord_rank c \<longleftrightarrow> c = Greater"
  "ord_rank c \<le> Suc 0 \<longleftrightarrow> c \<noteq> Greater"
  by (cases c; simp)+

lemma bs_sorted_nth:
  "bs_sorted f xs \<Longrightarrow> i \<le> j \<Longrightarrow> j < length xs \<Longrightarrow> ord_rank (f (xs ! i)) \<le> ord_rank (f (xs ! j))"
  by (simp add: bs_sorted_def sorted_iff_nth_mono)

lemma bs_sortedI:
  "(\<And>i j. i < j \<Longrightarrow> j < length xs \<Longrightarrow> ord_rank (f (xs ! i)) \<le> ord_rank (f (xs ! j))) \<Longrightarrow> bs_sorted f xs"
  by (simp add: bs_sorted_def sorted_iff_nth_mono_less)

lemma bs_sorted_LessD:
  assumes "bs_sorted f xs" "i \<le> j" "j < length xs" "f (xs ! j) = Less"
  shows "f (xs ! i) = Less"
  using bs_sorted_nth [OF assms(1-3)] assms(4) by simp

lemma bs_sorted_GreaterD:
  assumes "bs_sorted f xs" "i \<le> j" "j < length xs" "f (xs ! i) = Greater"
  shows "f (xs ! j) = Greater"
  using bs_sorted_nth [OF assms(1-3)] assms(4) by simp

lemma bs_loop_inv:
  assumes "bs_sorted f xs" "1 \<le> sz" "base + sz \<le> length xs"
    and "base = 0 \<or> f (xs ! base) \<noteq> Greater"
    and "\<forall>j. base + sz \<le> j \<and> j < length xs \<longrightarrow> f (xs ! j) = Greater"
  shows "bs_loop f xs base sz < length xs \<and>
         (bs_loop f xs base sz = 0 \<or> f (xs ! bs_loop f xs base sz) \<noteq> Greater) \<and>
         (\<forall>j. bs_loop f xs base sz < j \<and> j < length xs \<longrightarrow> f (xs ! j) = Greater)"
  using assms
proof (induction f xs base sz rule: bs_loop.induct)
  case (1 f xs base sz)
  show ?case
  proof (cases "sz > 1")
    case False
    then have "sz = 1" using "1.prems" by simp
    moreover from this have "bs_loop f xs base sz = base" by (simp add: bs_loop.simps [of f xs base])
    ultimately show ?thesis using "1.prems" by auto
  next
    case True
    define half where "half = sz div 2"
    define mid where "mid = base + half"
    define base' where "base' = (if f (xs ! mid) = Greater then base else mid)"
    have half: "0 < half" "half < sz" "half \<le> sz - half" using True by (auto simp: half_def)
    have eq: "bs_loop f xs base sz = bs_loop f xs base' (sz - half)"
      using True by (simp add: bs_loop.simps [of f xs base sz] Let_def half_def mid_def base'_def)
    have mid: "mid < length xs" using half "1.prems" by (simp add: mid_def)
    have g: "\<forall>j. base' + (sz - half) \<le> j \<and> j < length xs \<longrightarrow> f (xs ! j) = Greater"
    proof (cases "f (xs ! mid) = Greater")
      case True
      then have "f (xs ! j) = Greater" if "base + (sz - half) \<le> j" "j < length xs" for j
        using bs_sorted_GreaterD [OF "1.prems"(1), of mid j] half that by (simp add: mid_def)
      then show ?thesis using True by (simp add: base'_def)
    next
      case False
      then show ?thesis using "1.prems"(5) half by (simp add: base'_def mid_def)
    qed
    have b0: "base' = 0 \<or> f (xs ! base') \<noteq> Greater" using "1.prems"(4) by (auto simp: base'_def)
    have len: "base' + (sz - half) \<le> length xs"
      using "1.prems" half by (auto simp: base'_def mid_def)
    have pos: "1 \<le> sz - half" using half by simp
    show ?thesis
      unfolding eq
      by (rule "1.IH" [OF True half_def mid_def, folded base'_def, OF "1.prems"(1) pos len b0 g])
  qed
qed

lemma bs_loop_start:
  assumes "bs_sorted f xs" "xs \<noteq> []"
  shows "bs_loop f xs 0 (length xs) < length xs \<and>
         (bs_loop f xs 0 (length xs) = 0 \<or> f (xs ! bs_loop f xs 0 (length xs)) \<noteq> Greater) \<and>
         (\<forall>j. bs_loop f xs 0 (length xs) < j \<and> j < length xs \<longrightarrow> f (xs ! j) = Greater)"
  using assms by (intro bs_loop_inv) (auto simp: Suc_le_eq)

lemma binary_search_by_Inr:
  assumes "bs_sorted f xs" "binary_search_by f xs = Inr i"
  shows "i < length xs \<and> f (xs ! i) = Equal"
proof -
  have ne: "xs \<noteq> []" using assms(2) by (auto simp: binary_search_by_def)
  then have "bs_loop f xs 0 (length xs) < length xs"
    using bs_loop_start [OF assms(1)] by blast
  then show ?thesis
    using assms(2) ne by (auto simp: binary_search_by_def Let_def split: ordering.splits)
qed

lemma binary_search_by_Inl:
  assumes "bs_sorted f xs" "binary_search_by f xs = Inl i"
  shows "i \<le> length xs \<and> (\<forall>j<i. f (xs ! j) = Less) \<and> (\<forall>j. i \<le> j \<and> j < length xs \<longrightarrow> f (xs ! j) = Greater)"
proof (cases "xs = []")
  case True
  then show ?thesis using assms(2) by (simp add: binary_search_by_def)
next
  case False
  define b where "b = bs_loop f xs 0 (length xs)"
  have b: "b < length xs" "b = 0 \<or> f (xs ! b) \<noteq> Greater"
    "\<forall>j. b < j \<and> j < length xs \<longrightarrow> f (xs ! j) = Greater"
    using bs_loop_start [OF assms(1) False] by (simp_all add: b_def)
  show ?thesis
  proof (cases "f (xs ! b)")
    case Less
    then have "i = b + 1" using assms(2) False by (simp add: binary_search_by_def b_def Let_def)
    then show ?thesis using b Less bs_sorted_LessD [OF assms(1) _ b(1) Less] by auto
  next
    case Equal
    then show ?thesis using assms(2) False by (simp add: binary_search_by_def b_def Let_def)
  next
    case Greater
    then have "b = 0" "i = b" using b assms(2) False by (auto simp: binary_search_by_def b_def Let_def)
    moreover have "f (xs ! j) = Greater" if "0 \<le> j" "j < length xs" for j
      using bs_sorted_GreaterD [OF assms(1), of 0 j] that Greater \<open>b = 0\<close> by simp
    ultimately show ?thesis by simp
  qed
qed

lemma binary_search_by_found_iff:
  assumes "bs_sorted f xs"
  shows "(case binary_search_by f xs of Inr _ \<Rightarrow> True | Inl _ \<Rightarrow> False) \<longleftrightarrow> (\<exists>x\<in>set xs. f x = Equal)"
proof (cases "binary_search_by f xs")
  case (Inr i)
  then show ?thesis using binary_search_by_Inr [OF assms Inr] by auto
next
  case (Inl i)
  have "f (xs ! j) \<noteq> Equal" if "j < length xs" for j
    using binary_search_by_Inl [OF assms Inl] that by (cases "j < i") simp_all
  then show ?thesis using Inl by (auto simp: in_set_conv_nth)
qed

text \<open>Searching a strictly increasing key.\<close>

lemma bs_sorted_key:
  "sorted_wrt (\<lambda>a b. key a < key b) xs \<Longrightarrow> bs_sorted (\<lambda>x. cmp_nat (key x) k) xs"
proof (rule bs_sortedI)
  fix i j assume *: "sorted_wrt (\<lambda>a b. key a < key b) xs" "i < j" "j < length xs"
  then have "key (xs ! i) < key (xs ! j)" by (rule sorted_wrt_nth_less)
  then show "ord_rank (cmp_nat (key (xs ! i)) k) \<le> ord_rank (cmp_nat (key (xs ! j)) k)"
    by (simp add: cmp_nat_def)
qed

end
