(* ===== verification/Id_Alloc.thy ===== *)
theory Id_Alloc
  imports Badger_Prelude
begin

text \<open>
  The 32-bit non-zero ID allocator of \<open>src/util/id_alloc.rs\<close>: a sorted vector of inclusive
  ranges of available IDs and the ID to try next. Allocation of memory for the vector is the
  only outside effect; \<open>try_reserve\<close> succeeding is the boolean argument \<open>mem_ok\<close>.

  The abstract view is the set of free IDs (\<open>free_ids\<close>). Under the invariant
  (\<open>id_inv\<close>: sorted, disjoint, coalesced ranges) \<open>alloc\<close> removes exactly the ID it
  returns, \<open>dealloc\<close> adds exactly the ID it is given, and \<open>is_free\<close> is membership.
\<close>

section \<open>Model\<close>

datatype id_alloc_error = NoId | NoMem

record entry =
  efirst :: nat
  elast :: nat

record id_alloc =
  next_id :: nat
  avail :: "entry list"

definition new_id_alloc :: id_alloc where
  "new_id_alloc = \<lparr>next_id = 1, avail = [\<lparr>efirst = 1, elast = u32_max\<rparr>]\<rparr>"

definition update_next :: "nat \<Rightarrow> nat" where
  "update_next i = (let n = wrapping_add u32_max i 1 in if n = 0 then 1 else n)"

definition vec_insert :: "nat \<Rightarrow> 'a \<Rightarrow> 'a list \<Rightarrow> 'a list" where
  "vec_insert i x xs = take i xs @ x # drop i xs"

definition vec_remove :: "nat \<Rightarrow> 'a list \<Rightarrow> 'a list" where
  "vec_remove i xs = take i xs @ drop (Suc i) xs"

text \<open>
  \<open>IdAlloc::dealloc\<close>. A double free that the search notices (the ID is the first of a
  range) is logged and ignored.
\<close>

definition id_dealloc :: "bool \<Rightarrow> nat \<Rightarrow> id_alloc \<Rightarrow> id_alloc" where
  "id_dealloc mem_ok i al =
     (case binary_search_by (\<lambda>e. cmp_nat (efirst e) i) (avail al) of
        Inr _ \<Rightarrow> al
      | Inl index \<Rightarrow>
          (let av = avail al;
               merge_left = (0 < index \<and>
                 (case checked_add u32_max (elast (av ! (index - 1))) 1 of
                    None \<Rightarrow> False | Some nxt \<Rightarrow> nxt = i));
               merge_right = (index < length av \<and>
                 (case checked_add u32_max i 1 of
                    None \<Rightarrow> False | Some nxt \<Rightarrow> nxt = efirst (av ! index)))
           in if merge_left \<and> merge_right then
                al\<lparr>avail := vec_remove index
                     (av[index - 1 := (av ! (index - 1))\<lparr>elast := elast (av ! index)\<rparr>])\<rparr>
              else if merge_left then
                al\<lparr>avail := av[index - 1 := (av ! (index - 1))\<lparr>elast := i\<rparr>]\<rparr>
              else if merge_right then
                al\<lparr>avail := av[index := (av ! index)\<lparr>efirst := i\<rparr>]\<rparr>
              else if mem_ok then
                al\<lparr>avail := vec_insert index \<lparr>efirst = i, elast = i\<rparr> av\<rparr>
              else al))"

text \<open>
  The second half of \<open>IdAlloc::alloc\<close>: take \<open>i\<close> out of the range at \<open>index\<close>.
  The branch that splits a range writes \<open>entry.last - 1\<close>, as the source does.
\<close>

definition take_id :: "bool \<Rightarrow> nat \<Rightarrow> nat \<Rightarrow> entry \<Rightarrow> id_alloc \<Rightarrow> (id_alloc_error, nat \<times> id_alloc) result" where
  "take_id mem_ok i index ent al =
     (let av = avail al;
          done' = (\<lambda>av'. Ok (i, al\<lparr>avail := av', next_id := update_next i\<rparr>))
      in if i = efirst ent \<and> i = elast ent then done' (vec_remove index av)
         else if i = efirst ent then done' (av[index := (av ! index)\<lparr>efirst := efirst ent + 1\<rparr>])
         else if i = elast ent then done' (av[index := (av ! index)\<lparr>elast := elast ent - 1\<rparr>])
         else if elast ent < i then Err NoId
         else if \<not> mem_ok then Err NoMem
         else done' (vec_insert (index + 1) \<lparr>efirst = i + 1, elast = elast ent\<rparr>
                       (av[index := (av ! index)\<lparr>elast := elast ent - 1\<rparr>])))"

definition id_alloc_alloc :: "bool \<Rightarrow> id_alloc \<Rightarrow> (id_alloc_error, nat \<times> id_alloc) result" where
  "id_alloc_alloc mem_ok al =
     (let av = avail al in
      if length av = 0 then Err NoId
      else
        (let (i, index) =
               (case binary_search_by (\<lambda>e. cmp_nat (efirst e) (next_id al)) av of
                  Inr index \<Rightarrow> (next_id al, index)
                | Inl index \<Rightarrow> if index < length av then (next_id al, index) else (1, 0));
             ent = av ! index
         in if i < efirst ent then take_id mem_ok (efirst ent) index ent al
            else if elast ent < i then
              (if index + 1 < length av
               then take_id mem_ok (efirst (av ! (index + 1))) (index + 1) (av ! (index + 1)) al
               else Err NoId)
            else take_id mem_ok i index ent al))"

definition id_is_free :: "id_alloc \<Rightarrow> nat \<Rightarrow> bool" where
  "id_is_free al i =
     (case binary_search_by
             (\<lambda>e. if i < efirst e then Greater else if elast e < i then Less else Equal) (avail al) of
        Inr _ \<Rightarrow> True | Inl _ \<Rightarrow> False)"

text \<open>The abstract view and the invariant.\<close>

definition entry_ids :: "entry \<Rightarrow> nat set" where
  "entry_ids e = {efirst e..elast e}"

definition range_ids :: "entry list \<Rightarrow> nat set" where
  "range_ids av = (\<Union>e\<in>set av. entry_ids e)"

definition free_ids :: "id_alloc \<Rightarrow> nat set" where
  "free_ids al = (\<Union>e\<in>set (avail al). entry_ids e)"

definition entry_ok :: "entry \<Rightarrow> bool" where
  "entry_ok e \<longleftrightarrow> 1 \<le> efirst e \<and> efirst e \<le> elast e \<and> elast e \<le> u32_max"

definition apart :: "entry \<Rightarrow> entry \<Rightarrow> bool" where
  "apart a b \<longleftrightarrow> elast a + 1 < efirst b"

definition ranges_ok :: "entry list \<Rightarrow> bool" where
  "ranges_ok av \<longleftrightarrow> (\<forall>e\<in>set av. entry_ok e) \<and> sorted_wrt apart av"

definition id_inv :: "id_alloc \<Rightarrow> bool" where
  "id_inv al \<longleftrightarrow> 1 \<le> next_id al \<and> next_id al \<le> u32_max \<and> ranges_ok (avail al)"

text \<open>What allocation leaves of the range it takes the first ID of.\<close>

definition shrink_first :: "entry \<Rightarrow> entry list" where
  "shrink_first e = (if efirst e = elast e then [] else [e\<lparr>efirst := efirst e + 1\<rparr>])"

text \<open>
  Use of an ID allocator by its owners: a sequence of allocations and releases, in which an
  owner only releases an ID it holds. \<open>live\<close> lists the IDs handed out and not released.
\<close>

datatype id_op = AllocId | ReleaseId nat

fun id_op_step ::
  "('s \<Rightarrow> ('e, nat \<times> 's) result) \<Rightarrow> (nat \<Rightarrow> 's \<Rightarrow> 's) \<Rightarrow> 's \<times> nat list \<Rightarrow> id_op \<Rightarrow> 's \<times> nat list" where
  "id_op_step al rel (s, live) AllocId =
     (case al s of Inl _ \<Rightarrow> (s, live) | Inr (i, s') \<Rightarrow> (s', i # live))"
| "id_op_step al rel (s, live) (ReleaseId i) =
     (if i \<in> set live then (rel i s, remove1 i live) else (s, live))"

section \<open>Vectors and sorted ranges\<close>

lemma vec_insert_append [simp]: "vec_insert (length xs) x (xs @ ys) = xs @ x # ys"
  by (simp add: vec_insert_def)

lemma vec_remove_append [simp]: "vec_remove (length xs) (xs @ x # ys) = xs @ ys"
  by (simp add: vec_remove_def)

lemma update_next_range: "1 \<le> update_next i \<and> update_next i \<le> u32_max"
proof -
  have "wrapping_add u32_max i 1 < Suc u32_max" by (simp add: wrapping_add_def del: mod_Suc_eq)
  then show ?thesis by (simp add: update_next_def Let_def u32_max_def)
qed

lemma free_ids_range: "free_ids al = range_ids (avail al)"
  by (simp add: free_ids_def range_ids_def)

lemma range_ids_simps [simp]:
  "range_ids [] = {}"
  "range_ids (e # av) = entry_ids e \<union> range_ids av"
  "range_ids (av @ bv) = range_ids av \<union> range_ids bv"
  by (auto simp: range_ids_def)

lemma ranges_ok_Nil [simp]: "ranges_ok []"
  by (simp add: ranges_ok_def)

lemma ranges_ok_Cons [simp]:
  "ranges_ok (e # av) \<longleftrightarrow> entry_ok e \<and> (\<forall>x\<in>set av. apart e x) \<and> ranges_ok av"
  by (auto simp: ranges_ok_def)

lemma ranges_ok_append [simp]:
  "ranges_ok (av @ bv) \<longleftrightarrow> ranges_ok av \<and> ranges_ok bv \<and> (\<forall>x\<in>set av. \<forall>y\<in>set bv. apart x y)"
  by (auto simp: ranges_ok_def sorted_wrt_append)

lemma ranges_ok_entry: "ranges_ok av \<Longrightarrow> e \<in> set av \<Longrightarrow> entry_ok e"
  by (simp add: ranges_ok_def)

lemma ranges_ok_first_sorted: "ranges_ok av \<Longrightarrow> sorted_wrt (\<lambda>a b. efirst a < efirst b) av"
  by (induction av) (auto simp: apart_def entry_ok_def)

lemma range_ids_mem: "i \<in> range_ids av \<longleftrightarrow> (\<exists>e\<in>set av. efirst e \<le> i \<and> i \<le> elast e)"
  by (auto simp: range_ids_def entry_ids_def)

lemma range_ids_above: "\<forall>x\<in>set av. n < efirst x \<Longrightarrow> i \<in> range_ids av \<Longrightarrow> n < i"
  by (auto simp: range_ids_mem)

lemma range_ids_bound: "ranges_ok av \<Longrightarrow> i \<in> range_ids av \<Longrightarrow> 1 \<le> i \<and> i \<le> u32_max"
  by (auto simp: range_ids_mem dest!: ranges_ok_entry simp: entry_ok_def)

lemma range_ids_empty_iff: "ranges_ok av \<Longrightarrow> range_ids av = {} \<longleftrightarrow> av = []"
  by (cases av) (auto simp: entry_ids_def entry_ok_def)

section \<open>Searching by first ID\<close>

lemma search_first_Inr:
  assumes "ranges_ok av" "binary_search_by (\<lambda>e. cmp_nat (efirst e) i) av = Inr index"
  obtains xs e ys where "av = xs @ e # ys" "index = length xs" "efirst e = i"
proof -
  have "index < length av" "efirst (av ! index) = i"
    using binary_search_by_Inr [OF bs_sorted_key [OF ranges_ok_first_sorted] assms(2)] assms(1)
    by simp_all
  then show ?thesis
    using that [of "take index av" "av ! index" "drop (Suc index) av"] by (simp add: id_take_nth_drop)
qed

lemma search_first_Inl:
  assumes "ranges_ok av" "binary_search_by (\<lambda>e. cmp_nat (efirst e) i) av = Inl index"
  obtains xs ys where "av = xs @ ys" "index = length xs"
    "\<forall>x\<in>set xs. efirst x < i" "\<forall>y\<in>set ys. i < efirst y"
proof -
  have *: "index \<le> length av" "\<forall>j<index. efirst (av ! j) < i"
    "\<forall>j. index \<le> j \<and> j < length av \<longrightarrow> i < efirst (av ! j)"
    using binary_search_by_Inl [OF bs_sorted_key [OF ranges_ok_first_sorted] assms(2)] assms(1)
    by simp_all
  have "\<forall>x\<in>set (take index av). efirst x < i"
    using * by (auto simp: in_set_conv_nth)
  moreover have "\<forall>y\<in>set (drop index av). i < efirst y"
    using * by (auto simp: in_set_conv_nth)
  ultimately show ?thesis
    using that [of "take index av" "drop index av"] * by simp
qed

section \<open>Allocation\<close>

lemma shrink_first_ids: "entry_ok e \<Longrightarrow> range_ids (shrink_first e) = entry_ids e - {efirst e}"
  by (auto simp: shrink_first_def entry_ids_def entry_ok_def)

lemma shrink_first_ok: "entry_ok e \<Longrightarrow> ranges_ok (shrink_first e)"
  by (auto simp: shrink_first_def entry_ok_def)

lemma shrink_first_apart:
  assumes "x \<in> set (shrink_first e)"
  shows "apart a e \<Longrightarrow> apart a x" and "apart e b \<Longrightarrow> apart x b"
  using assms by (auto simp: shrink_first_def apart_def split: if_splits)

lemma take_id_first:
  assumes "avail al = xs @ e # ys"
  shows "take_id m (efirst e) (length xs) e al =
     Ok (efirst e, al\<lparr>avail := xs @ shrink_first e @ ys, next_id := update_next (efirst e)\<rparr>)"
  using assms by (simp add: take_id_def shrink_first_def Let_def)

lemma id_alloc_alloc_cases:
  assumes inv: "id_inv al" and ne: "avail al \<noteq> []"
  obtains xs e ys where "avail al = xs @ e # ys"
    "id_alloc_alloc m al =
       Ok (efirst e, al\<lparr>avail := xs @ shrink_first e @ ys, next_id := update_next (efirst e)\<rparr>)"
    "(\<forall>x\<in>set xs. efirst x < next_id al) \<and> next_id al \<le> efirst e \<or>
     xs = [] \<and> (\<forall>x\<in>set (avail al). efirst x < next_id al)"
proof -
  have ok: "ranges_ok (avail al)" using inv by (simp add: id_inv_def)
  show ?thesis
  proof (cases "binary_search_by (\<lambda>e. cmp_nat (efirst e) (next_id al)) (avail al)")
    case (Inr index)
    from search_first_Inr [OF ok Inr] obtain xs e ys
      where *: "avail al = xs @ e # ys" "index = length xs" "efirst e = next_id al" .
    have "efirst e \<le> elast e" using ok * by (simp add: entry_ok_def)
    then have "id_alloc_alloc m al = take_id m (efirst e) (length xs) e al"
      using * Inr by (simp add: id_alloc_alloc_def Let_def)
    moreover have "\<forall>x\<in>set xs. efirst x < next_id al"
      using ranges_ok_first_sorted [OF ok] * by (simp add: sorted_wrt_append)
    ultimately show ?thesis using that [OF *(1)] * take_id_first [OF *(1), of m] by simp
  next
    case (Inl index)
    from search_first_Inl [OF ok Inl] obtain xs ys
      where *: "avail al = xs @ ys" "index = length xs"
        "\<forall>x\<in>set xs. efirst x < next_id al" "\<forall>y\<in>set ys. next_id al < efirst y" .
    show ?thesis
    proof (cases ys)
      case (Cons e ys')
      then have "id_alloc_alloc m al = take_id m (efirst e) (length xs) e al"
        using * Inl by (simp add: id_alloc_alloc_def Let_def)
      then show ?thesis using that [of xs e ys'] * Cons by (simp add: take_id_first)
    next
      case Nil
      then obtain e es where e: "avail al = e # es" using ne by (cases "avail al") auto
      have eok: "1 \<le> efirst e" "efirst e \<le> elast e" using ok e by (simp_all add: entry_ok_def)
      have "id_alloc_alloc m al = take_id m (efirst e) 0 e al"
        using * Inl Nil e eok by (auto simp: id_alloc_alloc_def Let_def)
      then show ?thesis using that [of "[]" e es] * Nil e take_id_first [of al "[]" e es m] by simp
    qed
  qed
qed

lemma id_alloc_alloc_Ok:
  assumes inv: "id_inv al" and res: "id_alloc_alloc m al = Ok (i, al')"
  shows "i \<in> free_ids al \<and> free_ids al' = free_ids al - {i} \<and> id_inv al'"
proof -
  have "avail al \<noteq> []" using res by (auto simp: id_alloc_alloc_def Let_def)
  from id_alloc_alloc_cases [OF inv this, of m] obtain xs e ys
    where av: "avail al = xs @ e # ys" and eq: "id_alloc_alloc m al =
       Ok (efirst e, al\<lparr>avail := xs @ shrink_first e @ ys, next_id := update_next (efirst e)\<rparr>)" .
  then have *: "avail al = xs @ e # ys"
      "al' = al\<lparr>avail := xs @ shrink_first e @ ys, next_id := update_next (efirst e)\<rparr>"
      "i = efirst e"
    using res by simp_all
  have ok: "ranges_ok xs" "ranges_ok ys" "entry_ok e"
    "\<forall>x\<in>set xs. apart x e \<and> (\<forall>y\<in>set ys. apart x y)" "\<forall>y\<in>set ys. apart e y"
    using inv * by (simp_all add: id_inv_def)
  have "id_inv al'"
    using * ok update_next_range [of "efirst e"] shrink_first_ok [of e]
    by (auto simp: id_inv_def dest: shrink_first_apart)
  moreover have "efirst e \<notin> range_ids xs" "efirst e \<notin> range_ids ys"
    using ok by (fastforce simp: range_ids_mem apart_def entry_ok_def)+
  ultimately show ?thesis
    using * ok by (auto simp: free_ids_range shrink_first_ids entry_ids_def entry_ok_def)
qed

lemma id_alloc_alloc_none_free:
  assumes "id_inv al"
  shows "id_alloc_alloc m al = Err NoId \<longleftrightarrow> free_ids al = {}"
    and "free_ids al \<noteq> {} \<Longrightarrow> \<exists>i al'. id_alloc_alloc m al = Ok (i, al')"
proof -
  have e: "free_ids al = {} \<longleftrightarrow> avail al = []"
    using assms by (simp add: free_ids_range range_ids_empty_iff id_inv_def)
  have "avail al = [] \<Longrightarrow> id_alloc_alloc m al = Err NoId" by (simp add: id_alloc_alloc_def)
  moreover have "avail al \<noteq> [] \<Longrightarrow> \<exists>i al'. id_alloc_alloc m al = Ok (i, al')"
    using id_alloc_alloc_cases [OF assms, of m] by metis
  ultimately show "id_alloc_alloc m al = Err NoId \<longleftrightarrow> free_ids al = {}"
    and "free_ids al \<noteq> {} \<Longrightarrow> \<exists>i al'. id_alloc_alloc m al = Ok (i, al')"
    using e by auto
qed

section \<open>Deallocation\<close>

text \<open>The four ways \<open>dealloc\<close> can change the vector, with the vector split at the search index.\<close>

lemma id_dealloc_merge_both:
  assumes "binary_search_by (\<lambda>e. cmp_nat (efirst e) i) (avail al) = Inl (length (zs @ [l]))"
    and "avail al = (zs @ [l]) @ r # ws"
    and "elast l + 1 = i" "i + 1 = efirst r" "efirst r \<le> u32_max"
  shows "id_dealloc m i al = al\<lparr>avail := zs @ l\<lparr>elast := elast r\<rparr> # ws\<rparr>"
  using assms by (simp add: id_dealloc_def checked_add_def nth_append vec_remove_def)

lemma id_dealloc_merge_left:
  assumes "binary_search_by (\<lambda>e. cmp_nat (efirst e) i) (avail al) = Inl (length (zs @ [l]))"
    and "avail al = (zs @ [l]) @ ys"
    and "elast l + 1 = i" "i \<le> u32_max" "\<forall>y\<in>set ys. i + 1 < efirst y"
  shows "id_dealloc m i al = al\<lparr>avail := zs @ l\<lparr>elast := i\<rparr> # ys\<rparr>"
  using assms by (cases ys) (simp_all add: id_dealloc_def checked_add_def nth_append)

lemma id_dealloc_merge_right:
  assumes "binary_search_by (\<lambda>e. cmp_nat (efirst e) i) (avail al) = Inl (length xs)"
    and "avail al = xs @ r # ws"
    and "\<forall>x\<in>set xs. elast x + 1 < i" "i + 1 = efirst r" "efirst r \<le> u32_max"
  shows "id_dealloc m i al = al\<lparr>avail := xs @ r\<lparr>efirst := i\<rparr> # ws\<rparr>"
  using assms
  by (cases xs rule: rev_cases) (simp_all add: id_dealloc_def checked_add_def nth_append list_update_append)

lemma id_dealloc_no_merge:
  assumes "binary_search_by (\<lambda>e. cmp_nat (efirst e) i) (avail al) = Inl (length xs)"
    and "avail al = xs @ ys"
    and "\<forall>x\<in>set xs. elast x + 1 < i" "\<forall>y\<in>set ys. i + 1 < efirst y"
  shows "id_dealloc m i al = (if m then al\<lparr>avail := xs @ \<lparr>efirst = i, elast = i\<rparr> # ys\<rparr> else al)"
  using assms
  by (cases xs rule: rev_cases; cases ys)
    (auto simp: id_dealloc_def checked_add_def nth_append vec_insert_def Let_def)

lemma dealloc_shape:
  assumes ok: "ranges_ok (xs @ ys)" and xs: "\<forall>x\<in>set xs. elast x < i" and ys: "\<forall>y\<in>set ys. i < efirst y"
  obtains (both) zs l r ws where "xs = zs @ [l]" "elast l + 1 = i" "ys = r # ws" "i + 1 = efirst r"
    | (left) zs l where "xs = zs @ [l]" "elast l + 1 = i" "\<forall>y\<in>set ys. i + 1 < efirst y"
    | (right) r ws where "\<forall>x\<in>set xs. elast x + 1 < i" "ys = r # ws" "i + 1 = efirst r"
    | (neither) "\<forall>x\<in>set xs. elast x + 1 < i" "\<forall>y\<in>set ys. i + 1 < efirst y"
proof -
  have L: "(\<exists>zs l. xs = zs @ [l] \<and> elast l + 1 = i) \<or> (\<forall>x\<in>set xs. elast x + 1 < i)"
  proof (cases xs rule: rev_cases)
    case (snoc zs l)
    have "\<forall>x\<in>set zs. elast x + 1 < efirst l" "efirst l \<le> elast l" "elast l < i"
      using ok xs snoc by (simp_all add: apart_def entry_ok_def)
    then show ?thesis using snoc by (cases "elast l + 1 = i") force+
  qed simp
  have R: "(\<exists>r ws. ys = r # ws \<and> i + 1 = efirst r) \<or> (\<forall>y\<in>set ys. i + 1 < efirst y)"
  proof (cases ys)
    case (Cons r ws)
    have "\<forall>y\<in>set ws. elast r + 1 < efirst y" "efirst r \<le> elast r" "i < efirst r"
      using ok ys Cons by (simp_all add: apart_def entry_ok_def)
    then show ?thesis using Cons by (cases "i + 1 = efirst r") force+
  qed simp
  from L R that show ?thesis by blast
qed

lemma id_dealloc_ids:
  assumes inv: "id_inv al" and i: "1 \<le> i" "i \<le> u32_max" and nf: "i \<notin> free_ids al"
  shows "id_inv (id_dealloc m i al) \<and> free_ids (id_dealloc m i al) = insert i (free_ids al) \<or>
         \<not> m \<and> id_dealloc m i al = al"
proof -
  have ok: "ranges_ok (avail al)" using inv by (simp add: id_inv_def)
  obtain index where srch: "binary_search_by (\<lambda>e. cmp_nat (efirst e) i) (avail al) = Inl index"
  proof (cases "binary_search_by (\<lambda>e. cmp_nat (efirst e) i) (avail al)")
    case (Inr index)
    from search_first_Inr [OF ok Inr] obtain xs e ys
      where "avail al = xs @ e # ys" "efirst e = i" .
    then have "i \<in> free_ids al" using ok by (auto simp: free_ids_range entry_ids_def entry_ok_def)
    then show ?thesis using nf by simp
  qed auto
  from search_first_Inl [OF ok srch] obtain xs ys
    where *: "avail al = xs @ ys" "index = length xs"
      "\<forall>x\<in>set xs. efirst x < i" "\<forall>y\<in>set ys. i < efirst y" .
  note srch' = srch [unfolded *(2)]
  have xs: "\<forall>x\<in>set xs. elast x < i"
    using nf * by (fastforce simp: free_ids_range range_ids_mem not_le)
  have oks: "ranges_ok (xs @ ys)" using ok * by simp
  have nx: "1 \<le> next_id al" "next_id al \<le> u32_max" using inv by (auto simp: id_inv_def)
  from oks xs *(4) show ?thesis
  proof (cases rule: dealloc_shape)
    case (both zs l r ws)
    have "efirst r \<le> u32_max" using oks both by (simp add: entry_ok_def)
    then have "id_dealloc m i al = al\<lparr>avail := zs @ l\<lparr>elast := elast r\<rparr> # ws\<rparr>"
      using id_dealloc_merge_both [of i al zs l r ws] srch' * both by simp
    then show ?thesis using oks both * nx
      by (auto simp: id_inv_def apart_def entry_ok_def free_ids_range entry_ids_def)
  next
    case (left zs l)
    have "id_dealloc m i al = al\<lparr>avail := zs @ l\<lparr>elast := i\<rparr> # ys\<rparr>"
      using id_dealloc_merge_left [of i al zs l ys] srch' * left i by simp
    then show ?thesis using oks left * nx i
      by (auto simp: id_inv_def apart_def entry_ok_def free_ids_range entry_ids_def)
  next
    case (right r ws)
    have "efirst r \<le> u32_max" using oks right by (simp add: entry_ok_def)
    then have "id_dealloc m i al = al\<lparr>avail := xs @ r\<lparr>efirst := i\<rparr> # ws\<rparr>"
      using id_dealloc_merge_right [of i al xs r ws] srch' * right by simp
    then show ?thesis using oks right * nx i
      by (auto simp: id_inv_def apart_def entry_ok_def free_ids_range entry_ids_def)
  next
    case neither
    then have "id_dealloc m i al = (if m then al\<lparr>avail := xs @ \<lparr>efirst = i, elast = i\<rparr> # ys\<rparr> else al)"
      using id_dealloc_no_merge [of i al xs ys] srch' * by simp
    then show ?thesis using oks neither * nx i
      by (auto simp: id_inv_def apart_def entry_ok_def free_ids_range entry_ids_def)
  qed
qed

section \<open>Membership and canonicity\<close>

lemma id_is_free_iff:
  assumes "id_inv al"
  shows "id_is_free al i \<longleftrightarrow> i \<in> free_ids al"
proof -
  let ?f = "\<lambda>e. if i < efirst e then Greater else if elast e < i then Less else Equal"
  have ok: "ranges_ok (avail al)" using assms by (simp add: id_inv_def)
  have srt: "bs_sorted ?f (avail al)"
  proof (rule bs_sortedI)
    fix j k assume jk: "j < k" "k < length (avail al)"
    have "apart (avail al ! j) (avail al ! k)"
      using ok jk by (simp add: ranges_ok_def sorted_wrt_nth_less)
    moreover have "entry_ok (avail al ! j)" "entry_ok (avail al ! k)"
      using ok jk by (auto intro: ranges_ok_entry)
    ultimately show "ord_rank (?f (avail al ! j)) \<le> ord_rank (?f (avail al ! k))"
      by (auto simp: apart_def entry_ok_def)
  qed
  show ?thesis
    unfolding id_is_free_def binary_search_by_found_iff [OF srt] free_ids_range range_ids_mem
    by (auto simp: not_less split: if_splits)
qed

text \<open>The vector is determined by the set of free IDs: the ranges are the maximal runs.\<close>

lemma ranges_canonical:
  "ranges_ok av \<Longrightarrow> ranges_ok bv \<Longrightarrow> range_ids av = range_ids bv \<Longrightarrow> av = bv"
proof (induction av arbitrary: bv)
  case Nil
  then show ?case using range_ids_empty_iff [of bv] by simp
next
  case (Cons a av)
  then obtain b bv' where bv: "bv = b # bv'"
    using range_ids_empty_iff [of bv] by (cases bv) (auto simp: entry_ids_def entry_ok_def)
  have a: "efirst a \<le> elast a" "\<forall>x\<in>set av. elast a + 1 < efirst x"
    and b: "efirst b \<le> elast b" "\<forall>x\<in>set bv'. elast b + 1 < efirst x"
    using Cons.prems bv by (auto simp: entry_ok_def apart_def)
  have aa: "i \<in> range_ids av \<Longrightarrow> elast a + 1 < i" for i using range_ids_above [OF a(2)] .
  have bb: "i \<in> range_ids bv' \<Longrightarrow> elast b + 1 < i" for i using range_ids_above [OF b(2)] .
  have same: "i \<in> entry_ids a \<or> i \<in> range_ids av \<longleftrightarrow> i \<in> entry_ids b \<or> i \<in> range_ids bv'" for i
    using Cons.prems(3) bv by (simp add: set_eq_iff)
  have first: "efirst a = efirst b"
    using same [of "efirst a"] same [of "efirst b"] aa [of "efirst b"] bb [of "efirst a"] a(1) b(1)
    by (auto simp: entry_ids_def)
  have "\<not> elast a < elast b"
    using same [of "elast a + 1"] aa [of "elast a + 1"] first a(1) by (auto simp: entry_ids_def)
  moreover have "\<not> elast b < elast a"
    using same [of "elast b + 1"] bb [of "elast b + 1"] first b(1) by (auto simp: entry_ids_def)
  ultimately have eq: "a = b" using first by simp
  have "range_ids av = range_ids bv'"
  proof (rule set_eqI)
    fix i show "i \<in> range_ids av \<longleftrightarrow> i \<in> range_ids bv'"
      using same [of i] aa [of i] bb [of i] eq by (auto simp: entry_ids_def)
  qed
  then show ?case using Cons.IH [of bv'] Cons.prems eq bv by simp
qed

section \<open>The interface of an ID source and its users\<close>

text \<open>
  What the users of an ID allocator rely on: \<open>ids\<close> is the set of IDs there are, \<open>free\<close>
  the ones not handed out.
\<close>

locale id_source =
  fixes inv :: "'s \<Rightarrow> bool"
    and free :: "'s \<Rightarrow> nat set"
    and al :: "'s \<Rightarrow> ('e, nat \<times> 's) result"
    and rel :: "nat \<Rightarrow> 's \<Rightarrow> 's"
    and ids :: "nat set"
  assumes al_Ok: "inv s \<Longrightarrow> al s = Ok (i, s') \<Longrightarrow> i \<in> free s \<and> free s' = free s - {i} \<and> inv s'"
    and rel_ok: "inv s \<Longrightarrow> i \<in> ids \<Longrightarrow> i \<notin> free s \<Longrightarrow> inv (rel i s) \<and> free (rel i s) = insert i (free s)"
    and free_ids: "inv s \<Longrightarrow> free s \<subseteq> ids"
begin

definition owned :: "'s \<times> nat list \<Rightarrow> bool" where
  "owned sl \<longleftrightarrow> inv (fst sl) \<and> distinct (snd sl) \<and> set (snd sl) \<inter> free (fst sl) = {} \<and>
     set (snd sl) \<union> free (fst sl) = ids"

lemma owned_step:
  assumes "owned sl"
  shows "owned (id_op_step al rel sl x)"
proof -
  obtain s live where sl: "sl = (s, live)" by force
  have o: "inv s" "distinct live" "set live \<inter> free s = {}" "set live \<union> free s = ids"
    using assms by (simp_all add: owned_def sl)
  show ?thesis
  proof (cases x)
    case AllocId
    show ?thesis
    proof (cases "al s")
      case (Inr r)
      obtain i s' where r: "r = (i, s')" by force
      have *: "i \<in> free s" "free s' = free s - {i}" "inv s'"
        using al_Ok [OF o(1)] Inr r by simp_all
      then have "i \<notin> set live" using o(3) by auto
      then show ?thesis using AllocId sl Inr r * o by (auto simp: owned_def)
    qed (use assms AllocId sl in simp)
  next
    case (ReleaseId i)
    show ?thesis
    proof (cases "i \<in> set live")
      case True
      then have "i \<in> ids" "i \<notin> free s" using o by auto
      then have "inv (rel i s)" "free (rel i s) = insert i (free s)" using rel_ok o(1) by auto
      then show ?thesis using ReleaseId sl o True by (auto simp: owned_def)
    qed (use assms ReleaseId sl in simp)
  qed
qed

lemma owned_run: "owned sl \<Longrightarrow> owned (foldl (id_op_step al rel) sl xs)"
  by (induction xs arbitrary: sl) (simp_all add: owned_step)

lemma live_ids:
  assumes "inv s" "free s = ids" "foldl (id_op_step al rel) (s, []) xs = (s', live)"
  shows "inv s' \<and> distinct live \<and> set live = ids - free s'"
proof -
  have "owned (s, [])" using assms by (simp add: owned_def)
  then have "owned (s', live)" using owned_run [of "(s, [])" xs] assms(3) by simp
  then show ?thesis by (auto simp: owned_def)
qed

end

lemma id_inv_new: "id_inv new_id_alloc" and free_ids_new: "free_ids new_id_alloc = {1..u32_max}"
  by (auto simp: new_id_alloc_def id_inv_def entry_ok_def u32_max_def free_ids_range entry_ids_def)

interpretation id_src: id_source id_inv free_ids "id_alloc_alloc m" "id_dealloc True" "{1..u32_max}" for m
proof
  fix s i s'
  assume "id_inv s" "id_alloc_alloc m s = Ok (i, s')"
  then show "i \<in> free_ids s \<and> free_ids s' = free_ids s - {i} \<and> id_inv s'"
    by (rule id_alloc_alloc_Ok)
next
  fix s i
  assume "id_inv s" "i \<in> {1..u32_max}" "i \<notin> free_ids s"
  then show "id_inv (id_dealloc True i s) \<and> free_ids (id_dealloc True i s) = insert i (free_ids s)"
    using id_dealloc_ids [of s i True] by simp
next
  fix s
  assume "id_inv s"
  then show "free_ids s \<subseteq> {1..u32_max}"
    using range_ids_bound [of "avail s"] by (auto simp: id_inv_def free_ids_range)
qed

section \<open>Properties\<close>

text \<open>
  C33. Allocation returns a free ID and takes exactly that ID out of the free set; it keeps the
  invariant, and the ID it picks is the first of the first range that starts at \<open>next\<close> or
  later, or the smallest free ID when no range does.
\<close>

theorem id_alloc_correct:
  assumes "id_inv al" and "id_alloc_alloc mem_ok al = Ok (i, al')"
  shows "i \<in> free_ids al \<and> free_ids al' = free_ids al - {i} \<and> id_inv al' \<and>
         (\<exists>e\<in>set (avail al). i = efirst e) \<and>
         (\<forall>e\<in>set (avail al). next_id al \<le> efirst e \<longrightarrow> next_id al \<le> i \<and> i \<le> efirst e) \<and>
         ((\<forall>e\<in>set (avail al). efirst e < next_id al) \<longrightarrow> (\<forall>j\<in>free_ids al. i \<le> j))"
proof -
  have ne: "avail al \<noteq> []" using assms(2) by (auto simp: id_alloc_alloc_def Let_def)
  from id_alloc_alloc_cases [OF assms(1) ne, of mem_ok] obtain xs e ys
    where av: "avail al = xs @ e # ys" and i: "i = efirst e"
      and pick: "(\<forall>x\<in>set xs. efirst x < next_id al) \<and> next_id al \<le> efirst e \<or>
          xs = [] \<and> (\<forall>x\<in>set (avail al). efirst x < next_id al)"
    using assms(2) by (metis Inr_inject Pair_inject)
  have ok: "ranges_ok (avail al)" using assms(1) by (simp add: id_inv_def)
  have ys: "\<forall>y\<in>set ys. efirst e < efirst y"
    using ranges_ok_first_sorted [OF ok] av by (simp add: sorted_wrt_append)
  have "\<forall>j\<in>free_ids al. efirst e \<le> j" if "xs = []"
    using ys av that by (fastforce simp: free_ids_range range_ids_mem entry_ids_def)
  then show ?thesis
    using id_alloc_alloc_Ok [OF assms] av i pick ys by (auto simp: not_less [symmetric])
qed

theorem id_alloc_correct_witness:
  "id_inv \<lparr>next_id = 5, avail = [\<lparr>efirst = 2, elast = 3\<rparr>, \<lparr>efirst = 7, elast = 9\<rparr>]\<rparr> \<and>
   7 \<in> free_ids \<lparr>next_id = 5, avail = [\<lparr>efirst = 2, elast = 3\<rparr>, \<lparr>efirst = 7, elast = 9\<rparr>]\<rparr>"
proof -
  let ?al = "\<lparr>next_id = 5, avail = [\<lparr>efirst = 2, elast = 3\<rparr>, \<lparr>efirst = 7, elast = 9\<rparr>]\<rparr>"
  have inv: "id_inv ?al" by (simp add: id_inv_def entry_ok_def apart_def u32_max_def)
  have "id_alloc_alloc True ?al =
      Ok (7, \<lparr>next_id = 8, avail = [\<lparr>efirst = 2, elast = 3\<rparr>, \<lparr>efirst = 8, elast = 9\<rparr>]\<rparr>)"
    by (simp add: id_alloc_alloc_def take_id_def binary_search_by_def bs_loop.simps cmp_nat_def
        update_next_def wrapping_add_def u32_max_def)
  from id_alloc_correct [OF inv this] inv show ?thesis by simp
qed

text \<open>
  Allocation fails only when no ID is free, with \<open>NoId\<close>, whatever memory is available:
  the branch of \<open>alloc\<close> that splits a range, and with it \<open>NoMem\<close>, is never taken.
\<close>

theorem id_alloc_fails_iff:
  assumes "id_inv al"
  shows "((\<exists>e. id_alloc_alloc mem_ok al = Err e) \<longleftrightarrow> free_ids al = {}) \<and>
         id_alloc_alloc mem_ok al \<noteq> Err NoMem"
  using id_alloc_alloc_none_free [OF assms, of mem_ok] by fastforce

theorem id_alloc_fails_iff_witness:
  "(\<exists>e. id_alloc_alloc False \<lparr>next_id = 1, avail = []\<rparr> = Err e)"
proof -
  have "id_inv \<lparr>next_id = 1, avail = []\<rparr>" by (simp add: id_inv_def u32_max_def)
  from id_alloc_fails_iff [OF this, of False] show ?thesis by (simp add: free_ids_def)
qed

text \<open>
  C34. Releasing an ID in use adds exactly that ID to the free set and keeps the invariant, merging
  with the neighbouring ranges; only when a new range is needed and memory for it is not available
  does the allocator stay as it was.
\<close>

theorem id_dealloc_correct:
  assumes "id_inv al" "1 \<le> i" "i \<le> u32_max" "\<not> id_is_free al i"
  shows "id_inv (id_dealloc mem_ok i al) \<and> free_ids (id_dealloc mem_ok i al) = insert i (free_ids al) \<or>
         \<not> mem_ok \<and> id_dealloc mem_ok i al = al"
  using id_dealloc_ids [of al i mem_ok] assms by (simp add: id_is_free_iff)

theorem id_dealloc_correct_witness:
  "free_ids (id_dealloc True 4 \<lparr>next_id = 5, avail = [\<lparr>efirst = 2, elast = 3\<rparr>, \<lparr>efirst = 5, elast = 9\<rparr>]\<rparr>) =
   insert 4 (free_ids \<lparr>next_id = 5, avail = [\<lparr>efirst = 2, elast = 3\<rparr>, \<lparr>efirst = 5, elast = 9\<rparr>]\<rparr>)"
proof -
  let ?al = "\<lparr>next_id = 5, avail = [\<lparr>efirst = 2, elast = 3\<rparr>, \<lparr>efirst = 5, elast = 9\<rparr>]\<rparr>"
  have "id_inv ?al" by (simp add: id_inv_def entry_ok_def apart_def u32_max_def)
  moreover have "\<not> id_is_free ?al 4"
    by (simp add: id_is_free_def binary_search_by_def bs_loop.simps)
  ultimately show ?thesis using id_dealloc_correct [of ?al 4 True] by (simp add: u32_max_def)
qed

text \<open>
  Releasing the ID that was just allocated restores the vector of ranges exactly: the vector is
  the canonical list of maximal runs of free IDs, so free and allocate are inverse on it.
\<close>

theorem id_alloc_dealloc_roundtrip:
  assumes "id_inv al" and "id_alloc_alloc mem_ok al = Ok (i, al')"
  shows "avail (id_dealloc True i al') = avail al"
proof -
  have *: "i \<in> free_ids al" "free_ids al' = free_ids al - {i}" "id_inv al'"
    using id_alloc_alloc_Ok [OF assms] by simp_all
  have ok: "ranges_ok (avail al)" using assms(1) by (simp add: id_inv_def)
  then have "1 \<le> i" "i \<le> u32_max" using range_ids_bound * by (auto simp: free_ids_range)
  then have "id_inv (id_dealloc True i al')" "free_ids (id_dealloc True i al') = free_ids al"
    using id_dealloc_ids [OF *(3), of i True] * by auto
  then show ?thesis
    using ok by (intro ranges_canonical) (simp_all add: id_inv_def free_ids_range)
qed

theorem id_alloc_dealloc_roundtrip_witness:
  "avail (id_dealloc True 1 \<lparr>next_id = 2, avail = [\<lparr>efirst = 2, elast = u32_max\<rparr>]\<rparr>) = avail new_id_alloc"
proof -
  have "id_alloc_alloc True new_id_alloc =
      Ok (1, \<lparr>next_id = 2, avail = [\<lparr>efirst = 2, elast = u32_max\<rparr>]\<rparr>)"
    by (simp add: id_alloc_alloc_def new_id_alloc_def take_id_def binary_search_by_def bs_loop.simps
        cmp_nat_def update_next_def wrapping_add_def u32_max_def)
  then show ?thesis by (rule id_alloc_dealloc_roundtrip [OF id_inv_new])
qed

text \<open>
  C35. Over any sequence of allocations and releases by owners that only release what they hold,
  the IDs in use are pairwise distinct, non-zero 32-bit values, and are exactly the IDs that
  \<open>is_free\<close> denies.
\<close>

theorem id_use_unique:
  assumes "foldl (id_op_step (id_alloc_alloc mem_ok) (id_dealloc True)) (new_id_alloc, []) ops = (al, live)"
  shows "distinct live \<and> (\<forall>i. i \<in> set live \<longleftrightarrow> 1 \<le> i \<and> i \<le> u32_max \<and> \<not> id_is_free al i)"
proof -
  have "id_inv al \<and> distinct live \<and> set live = {1..u32_max} - free_ids al"
    by (rule id_src.live_ids [OF id_inv_new free_ids_new assms])
  then show ?thesis by (auto simp: id_is_free_iff)
qed

theorem id_use_unique_witness:
  "snd (foldl (id_op_step (id_alloc_alloc True) (id_dealloc True)) (new_id_alloc, [])
          [AllocId, AllocId, ReleaseId 1, AllocId]) = [3, 2] \<and> distinct [3::nat, 2]"
proof -
  have run: "foldl (id_op_step (id_alloc_alloc True) (id_dealloc True)) (new_id_alloc, [])
      [AllocId, AllocId, ReleaseId 1, AllocId] =
      (\<lparr>next_id = 4, avail = [\<lparr>efirst = 1, elast = 1\<rparr>, \<lparr>efirst = 4, elast = u32_max\<rparr>]\<rparr>, [3, 2])"
    by (simp add: id_alloc_alloc_def new_id_alloc_def take_id_def binary_search_by_def bs_loop.simps
        cmp_nat_def update_next_def wrapping_add_def u32_max_def id_dealloc_def checked_add_def
        vec_insert_def)
  show ?thesis using id_use_unique [OF run] unfolding run snd_conv by (intro conjI refl) (rule conjunct1)
qed

text \<open>
  The double-free check of \<open>dealloc\<close> only compares the ID with the first ID of each range:
  freeing an ID inside a free range enters it a second time, and it can then be handed out twice.
\<close>

lemma id_double_free_undetected:
  "\<not> id_inv (id_dealloc True 5 \<lparr>next_id = 1, avail = [\<lparr>efirst = 1, elast = 9\<rparr>]\<rparr>) \<and>
   avail (id_dealloc True 5 \<lparr>next_id = 1, avail = [\<lparr>efirst = 1, elast = 9\<rparr>]\<rparr>) =
     [\<lparr>efirst = 1, elast = 9\<rparr>, \<lparr>efirst = 5, elast = 5\<rparr>]"
  by (simp add: id_dealloc_def binary_search_by_def bs_loop.simps cmp_nat_def checked_add_def
      u32_max_def vec_insert_def id_inv_def apart_def)

end
