(* ===== verification/Free_List.thy ===== *)
theory Free_List
  imports Badger_Prelude "HOL-Library.Monad_Syntax"
begin

text \<open>
  The free lists of the physical memory manager, \<open>src/mem/pmm/mod.rs\<close>: doubly linked lists
  threaded through the free blocks themselves. A link is two physical addresses, the end of a
  list is \<open>PAddrr::MAX\<close>, and the list head is kept outside, in the array of heads.

  \<open>dll mem p h xs\<close> relates a head and the links to the list of blocks \<open>xs\<close>; linking is
  cons and unlinking is removal, and both leave lists over other blocks alone.
\<close>

section \<open>Model\<close>

definition paddr_max :: nat where
  "paddr_max = 2 ^ 64 - 1"

record fl_link =
  fl_prev :: nat
  fl_next :: nat

type_synonym fl_mem = "nat \<Rightarrow> fl_link"

definition free_list_unlink :: "nat \<Rightarrow> fl_mem \<times> nat \<Rightarrow> fl_mem \<times> nat" where
  "free_list_unlink block mh =
     (let mem = fst mh; list_head = snd mh; link = mem block;
          mem1 = (if fl_next link \<noteq> paddr_max
                  then mem(fl_next link := (mem (fl_next link))\<lparr>fl_prev := fl_prev link\<rparr>) else mem)
      in if fl_prev link \<noteq> paddr_max
         then (mem1(fl_prev link := (mem1 (fl_prev link))\<lparr>fl_next := fl_next link\<rparr>), list_head)
         else (mem1, fl_next link))"

definition free_list_link :: "nat \<Rightarrow> fl_mem \<times> nat \<Rightarrow> fl_mem \<times> nat" where
  "free_list_link block mh =
     (let mem = fst mh; list_head = snd mh;
          mem1 = mem(block := \<lparr>fl_prev = paddr_max, fl_next = list_head\<rparr>);
          mem2 = (if list_head \<noteq> paddr_max
                  then mem1(list_head := (mem1 list_head)\<lparr>fl_prev := block\<rparr>) else mem1)
      in (mem2, block))"

text \<open>The walk may not end on a corrupted list; \<open>None\<close> is not returning.\<close>

partial_function (option) free_list_contains :: "fl_mem \<Rightarrow> nat \<Rightarrow> nat \<Rightarrow> bool option" where
  "free_list_contains mem block cur_node =
     (if cur_node = paddr_max then Some False
      else if cur_node = block then Some True
      else free_list_contains mem block (fl_next (mem cur_node)))"

text \<open>The list a head and its links represent.\<close>

fun dll :: "fl_mem \<Rightarrow> nat \<Rightarrow> nat \<Rightarrow> nat list \<Rightarrow> bool" where
  "dll mem p h [] \<longleftrightarrow> h = paddr_max"
| "dll mem p h (x # xs) \<longleftrightarrow> h = x \<and> x \<noteq> paddr_max \<and> fl_prev (mem x) = p \<and> dll mem x (fl_next (mem x)) xs"

text \<open>A prefix of such a list, up to but not including \<open>e\<close>.\<close>

fun dllseg :: "fl_mem \<Rightarrow> nat \<Rightarrow> nat \<Rightarrow> nat list \<Rightarrow> nat \<Rightarrow> bool" where
  "dllseg mem p h [] e \<longleftrightarrow> h = e"
| "dllseg mem p h (x # xs) e \<longleftrightarrow>
     h = x \<and> x \<noteq> paddr_max \<and> fl_prev (mem x) = p \<and> dllseg mem x (fl_next (mem x)) xs e"

definition head_of :: "nat list \<Rightarrow> nat" where
  "head_of xs = (case xs of [] \<Rightarrow> paddr_max | x # _ \<Rightarrow> x)"

section \<open>Lists over the links\<close>

lemma dll_cong: "(\<And>x. x \<in> set xs \<Longrightarrow> mem x = mem' x) \<Longrightarrow> dll mem p h xs = dll mem' p h xs"
  by (induction xs arbitrary: p h) auto

lemma dll_no_max: "dll mem p h xs \<Longrightarrow> paddr_max \<notin> set xs"
  by (induction xs arbitrary: p h) auto

lemma dll_head: "dll mem p h xs \<Longrightarrow> h = head_of xs"
  by (cases xs) (auto simp: head_of_def)

lemma free_list_link_dll:
  assumes "dll mem paddr_max h xs" "b \<notin> set xs" "b \<noteq> paddr_max" "distinct xs"
  shows "snd (free_list_link b (mem, h)) = b \<and>
         dll (fst (free_list_link b (mem, h))) paddr_max b (b # xs)"
proof (cases xs)
  case Nil
  then show ?thesis using assms by (simp add: free_list_link_def)
next
  case (Cons x xs')
  then have h: "h = x" "x \<noteq> paddr_max" "dll mem x (fl_next (mem x)) xs'" "x \<noteq> b" using assms by auto
  have "dll ((mem(b := \<lparr>fl_prev = paddr_max, fl_next = x\<rparr>))(x := (mem x)\<lparr>fl_prev := b\<rparr>)) x
          (fl_next (mem x)) xs' = dll mem x (fl_next (mem x)) xs'"
    using assms Cons by (intro dll_cong) auto
  then show ?thesis using Cons h assms by (simp add: free_list_link_def Let_def)
qed

lemma free_list_link_frame:
  "c \<noteq> b \<Longrightarrow> c \<noteq> h \<Longrightarrow> fst (free_list_link b (mem, h)) c = mem c"
  by (simp add: free_list_link_def Let_def)

lemma head_of_simps [simp]: "head_of [] = paddr_max" "head_of (x # xs) = x"
  by (simp_all add: head_of_def)

lemma dllseg_cong: "(\<And>x. x \<in> set xs \<Longrightarrow> mem x = mem' x) \<Longrightarrow> dllseg mem p h xs e = dllseg mem' p h xs e"
  by (induction xs arbitrary: p h) auto

lemma dll_append:
  "dll mem p h (xs @ ys) \<longleftrightarrow>
     dllseg mem p h xs (head_of ys) \<and> dll mem (if xs = [] then p else last xs) (head_of ys) ys"
proof (induction xs arbitrary: p h)
  case Nil
  then show ?case by (cases ys) auto
next
  case (Cons x xs)
  then show ?case by auto
qed

lemma dllseg_snoc_upd:
  "dllseg mem p h (xs @ [l]) e \<Longrightarrow> distinct (xs @ [l]) \<Longrightarrow>
   dllseg (mem(l := (mem l)\<lparr>fl_next := n\<rparr>)) p h (xs @ [l]) n"
  by (induction xs arbitrary: p h) auto

lemma dll_set_prev:
  assumes "dll mem p n ys" "distinct ys"
  shows "dll (if n \<noteq> paddr_max then mem(n := (mem n)\<lparr>fl_prev := q\<rparr>) else mem) q n ys"
proof (cases ys)
  case (Cons y ys')
  have "dll (mem(y := (mem y)\<lparr>fl_prev := q\<rparr>)) y (fl_next (mem y)) ys' = dll mem y (fl_next (mem y)) ys'"
    using assms Cons by (intro dll_cong) auto
  then show ?thesis using assms Cons by simp
qed (use assms in simp)

lemma free_list_unlink_dll:
  assumes dll: "dll mem paddr_max h (xs @ b # ys)" and dist: "distinct (xs @ b # ys)"
  shows "dll (fst (free_list_unlink b (mem, h))) paddr_max (snd (free_list_unlink b (mem, h))) (xs @ ys)"
proof -
  have seg: "dllseg mem paddr_max h xs b" and b: "b \<noteq> paddr_max"
    and prev: "fl_prev (mem b) = (if xs = [] then paddr_max else last xs)"
    and rest: "dll mem b (fl_next (mem b)) ys"
    using dll by (simp_all add: dll_append)
  define n where "n = fl_next (mem b)"
  define q where "q = fl_prev (mem b)"
  define mem1 where "mem1 = (if n \<noteq> paddr_max then mem(n := (mem n)\<lparr>fl_prev := q\<rparr>) else mem)"
  have n: "n = head_of ys" using dll_head rest by (simp add: n_def)
  have tail: "dll mem1 q n ys"
    using dll_set_prev [OF rest [folded n_def], of q] dist by (simp add: mem1_def)
  have ny: "n \<notin> set xs"
    using n dist dll_no_max [OF dll] by (cases ys) auto
  have seg1: "dllseg mem1 paddr_max h xs b"
  proof -
    have "dllseg mem1 paddr_max h xs b = dllseg mem paddr_max h xs b"
      using ny by (intro dllseg_cong) (auto simp: mem1_def)
    then show ?thesis using seg by simp
  qed
  show ?thesis
  proof (cases xs rule: rev_cases)
    case Nil
    then have "free_list_unlink b (mem, h) = (mem1, n)"
      using prev by (simp add: free_list_unlink_def mem1_def n_def q_def Let_def)
    then show ?thesis using tail Nil prev by (simp add: q_def)
  next
    case (snoc zs l)
    then have ql: "q = l" using prev by (simp add: q_def)
    have lm: "l \<noteq> paddr_max" using snoc dll_no_max [OF dll] by auto
    define mem2 where "mem2 = mem1(l := (mem1 l)\<lparr>fl_next := n\<rparr>)"
    have "free_list_unlink b (mem, h) = (mem2, h)"
      using ql lm by (simp add: free_list_unlink_def mem1_def mem2_def n_def q_def Let_def)
    moreover have "dllseg mem2 paddr_max h xs n"
      using dllseg_snoc_upd [of mem1 paddr_max h zs l b n] seg1 dist snoc by (simp add: mem2_def)
    moreover have "dll mem2 l n ys"
    proof -
      have "dll mem2 l n ys = dll mem1 l n ys"
        using dist snoc by (intro dll_cong) (auto simp: mem2_def)
      then show ?thesis using tail ql by simp
    qed
    ultimately show ?thesis
      using dll_append [of mem2 paddr_max h xs ys] snoc n by simp
  qed
qed

lemma free_list_unlink_frame:
  assumes "dll mem paddr_max h xs" "b \<in> set xs" "c \<notin> set xs"
  shows "fst (free_list_unlink b (mem, h)) c = mem c"
proof -
  obtain ys zs where xs: "xs = ys @ b # zs" using assms(2) by (auto simp: in_set_conv_decomp)
  then have "fl_prev (mem b) = (if ys = [] then paddr_max else last ys)"
    and "fl_next (mem b) = head_of zs"
    using assms(1) dll_head by (auto simp: dll_append)
  then have "fl_prev (mem b) = paddr_max \<or> fl_prev (mem b) \<noteq> c"
    and "fl_next (mem b) = paddr_max \<or> fl_next (mem b) \<noteq> c"
    using assms(3) xs by (auto simp: head_of_def split: list.splits)
  then show ?thesis by (auto simp: free_list_unlink_def Let_def)
qed

text \<open>On a proper list the walk ends and decides membership.\<close>

lemma free_list_contains_dll: "dll mem p h xs \<Longrightarrow> free_list_contains mem b h = Some (b \<in> set xs)"
proof (induction xs arbitrary: p h)
  case Nil
  then show ?case by (simp add: free_list_contains.simps)
next
  case (Cons x xs)
  then have "free_list_contains mem b (fl_next (mem x)) = Some (b \<in> set xs)" by auto
  then show ?case using Cons.prems by (simp add: free_list_contains.simps [of mem b x])
qed

end
