(* ===== verification/Pmm.thy ===== *)
theory Pmm
  imports Free_List
begin

unbundle bit_operations_syntax

text \<open>
  The physical memory manager of \<open>src/mem/pmm/mod.rs\<close>: a buddy allocator. Its state is the
  array of \<open>Page\<close> structs (here a map from page number to \<open>page\<close>), the free lists per
  order, the links inside the free blocks, and the usage counters. Physical addresses are natural
  numbers; the managed range stays below \<open>2 ^ 64\<close> bytes, so a shift of the page size by the order
  of a block inside it does not overflow.

  Panics (\<open>unreachable!\<close>, \<open>panic!\<close>, an index out of bounds) are the error \<open>Panic\<close>.
  Spinlocks and the IRQ guard around each operation make it atomic and have no other effect here.
\<close>

section \<open>Model\<close>

definition page_size :: nat where
  "page_size = 4096"

definition page_size_log :: nat where
  "page_size_log = 12"

datatype page_usage =
    Unusable | Free | PageTable | Cache | UserAnon | KernelAnon | KernelSlab | KernelSegment

record page =
  refcount :: nat
  porder :: nat
  pusage :: page_usage
  memobject :: "nat option"
  poffset :: nat

definition zeroed_page :: page where
  "zeroed_page = \<lparr>refcount = 0, porder = 0, pusage = Unusable, memobject = None, poffset = 0\<rparr>"

definition max_order :: nat where
  "max_order = 64"

record pmm =
  total_pages :: nat
  kernel_pages :: nat
  cache_pages :: nat
  free_pages :: nat
  used_pages :: nat
  range_start :: nat
  range_end :: nat
  structs_paddr :: nat
  free_list :: "nat list"
  links :: fl_mem
  pages :: "nat \<Rightarrow> page"

datatype pmm_error = AllocError | Panic

definition size_to_order :: "nat \<Rightarrow> nat" where
  "size_to_order byte_size = trailing_zeros (next_power_of_two (div_ceil byte_size page_size))"

definition order_to_size :: "nat \<Rightarrow> nat" where
  "order_to_size order = page_size * 2 ^ order"

definition pages_to_order :: "nat \<Rightarrow> nat" where
  "pages_to_order n = trailing_zeros (next_power_of_two n)"

definition order_to_pages :: "nat \<Rightarrow> nat" where
  "order_to_pages order = 2 ^ order"

text \<open>
  \<open>page_struct\<close> and \<open>Page::paddr\<close>: the virtual address of the struct of a page, and back.
  \<open>size_page\<close> is \<open>size_of::<Page>()\<close> and \<open>hhdm\<close> the offset of the direct map.
\<close>

definition page_struct_vaddr :: "nat \<Rightarrow> nat \<Rightarrow> pmm \<Rightarrow> nat \<Rightarrow> nat" where
  "page_struct_vaddr size_page hhdm s paddr =
     (let ppn = paddr div page_size in
      wrapping_add usize_max (wrapping_add usize_max (structs_paddr s) hhdm)
        ((wrapping_sub usize_max ppn (range_start s) * size_page) mod Suc usize_max))"

definition page_paddr :: "nat \<Rightarrow> nat \<Rightarrow> pmm \<Rightarrow> nat \<Rightarrow> nat" where
  "page_paddr size_page hhdm s vaddr =
     (wrapping_add usize_max
        (wrapping_sub usize_max (wrapping_sub usize_max vaddr (structs_paddr s)) hhdm div size_page)
        (range_start s) * page_size) mod Suc usize_max"

text \<open>\<open>page_struct_base\<close>: the first page of the block a page lies in, and its order.\<close>

definition page_struct_base :: "pmm \<Rightarrow> nat \<Rightarrow> nat \<times> nat" where
  "page_struct_base s paddr =
     (let ppn = paddr div page_size;
          order = porder (pages s ppn);
          shift = order + page_size_log;
          aligned_paddr = push_bit shift (drop_bit shift paddr)
      in (ppn - (paddr - aligned_paddr) div page_size, order))"

text \<open>Writing a run of page structs.\<close>

definition set_pages :: "(page \<Rightarrow> page) \<Rightarrow> nat \<Rightarrow> nat \<Rightarrow> (nat \<Rightarrow> page) \<Rightarrow> (nat \<Rightarrow> page)" where
  "set_pages f ppn n = fold (\<lambda>i m. m(ppn + i := f (m (ppn + i)))) [0..<n]"

text \<open>Unlinking from and linking into the list of one order.\<close>

definition unlink_order :: "nat \<Rightarrow> nat \<Rightarrow> pmm \<Rightarrow> pmm" where
  "unlink_order block order s =
     (let r = free_list_unlink block (links s, free_list s ! order)
      in s\<lparr>links := fst r, free_list := (free_list s)[order := snd r]\<rparr>)"

definition link_order :: "nat \<Rightarrow> nat \<Rightarrow> pmm \<Rightarrow> pmm" where
  "link_order block order s =
     (let r = free_list_link block (links s, free_list s ! order)
      in s\<lparr>links := fst r, free_list := (free_list s)[order := snd r]\<rparr>)"

subsection \<open>Allocation\<close>

text \<open>Determine the order to split at.\<close>

function find_split_order :: "nat list \<Rightarrow> nat \<Rightarrow> nat option" where
  "find_split_order fl split_order =
     (if fl ! split_order = paddr_max then
        (if split_order \<ge> max_order - 1 then None else find_split_order fl (split_order + 1))
      else Some split_order)"
  by pat_completeness auto
termination
  by (relation "measure (\<lambda>(fl, i). max_order - i)") (auto simp: max_order_def)

declare find_split_order.simps [simp del]

text \<open>
  One turn of the splitting loop: the block at the head of the list of \<open>split_order\<close> becomes
  two blocks of the next lower order, the lower half on top. The struct of the lower half gets
  the final order; the struct of the upper half keeps the order it had.
\<close>

definition split_block :: "nat \<Rightarrow> nat \<Rightarrow> pmm \<Rightarrow> pmm" where
  "split_block order split_order s =
     (let block = free_list s ! split_order;
          s1 = unlink_order block split_order s;
          ppn = block div page_size;
          s2 = s1\<lparr>pages := (pages s1)(ppn := (pages s1 ppn)\<lparr>pusage := Free, porder := order\<rparr>)\<rparr>;
          s3 = link_order (block + page_size * 2 ^ (split_order - 1)) (split_order - 1) s2
      in link_order block (split_order - 1) s3)"

definition split_blocks :: "nat \<Rightarrow> nat \<Rightarrow> pmm \<Rightarrow> pmm" where
  "split_blocks order split_order = fold (split_block order) (rev [order + 1..<split_order + 1])"

text \<open>Accounting of a newly allocated block; \<open>None\<close> is the panic on a usage no block can have.\<close>

definition account_alloc :: "page_usage \<Rightarrow> nat \<Rightarrow> pmm \<Rightarrow> pmm option" where
  "account_alloc usage n s =
     (let s = s\<lparr>free_pages := wrapping_sub usize_max (free_pages s) n\<rparr> in
      case usage of
        Free \<Rightarrow> None
      | Unusable \<Rightarrow> None
      | KernelSegment \<Rightarrow> None
      | Cache \<Rightarrow> Some (s\<lparr>cache_pages := wrapping_add usize_max (cache_pages s) n\<rparr>)
      | UserAnon \<Rightarrow> Some (s\<lparr>used_pages := wrapping_add usize_max (used_pages s) n\<rparr>)
      | _ \<Rightarrow> Some (s\<lparr>kernel_pages := wrapping_add usize_max (kernel_pages s) n,
                   used_pages := wrapping_add usize_max (used_pages s) n\<rparr>))"

definition alloc_page_meta :: "nat \<Rightarrow> page_usage \<Rightarrow> page \<Rightarrow> page" where
  "alloc_page_meta order usage p =
     p\<lparr>pusage := usage, porder := order, refcount := 0, memobject := None\<rparr>"

definition page_alloc :: "nat \<Rightarrow> page_usage \<Rightarrow> pmm \<Rightarrow> (pmm_error, nat \<times> pmm) result" where
  "page_alloc order usage s =
     (if order \<ge> max_order then Err Panic
      else case find_split_order (free_list s) order of
        None \<Rightarrow> Err AllocError
      | Some split_order \<Rightarrow>
          (let s1 = split_blocks order split_order s;
               block = free_list s1 ! order
           in if block = paddr_max then Err AllocError
              else
                (let s2 = unlink_order block order s1;
                     s3 = s2\<lparr>pages := set_pages (alloc_page_meta order usage) (block div page_size)
                                        (2 ^ order) (pages s2)\<rparr>
                 in case account_alloc usage (2 ^ order) s3 of
                      None \<Rightarrow> Err Panic
                    | Some s4 \<Rightarrow> Ok (block, s4))))"

subsection \<open>Freeing\<close>

text \<open>Remove the pages from where they were accounted; \<open>None\<close> is \<open>unreachable!\<close>.\<close>

definition account_free :: "page_usage \<Rightarrow> nat \<Rightarrow> pmm \<Rightarrow> pmm option" where
  "account_free usage n s =
     (case usage of
        Free \<Rightarrow> None
      | KernelSegment \<Rightarrow> None
      | Unusable \<Rightarrow> Some s
      | Cache \<Rightarrow> Some (s\<lparr>cache_pages := wrapping_sub usize_max (cache_pages s) n\<rparr>)
      | UserAnon \<Rightarrow> Some (s\<lparr>used_pages := wrapping_sub usize_max (used_pages s) n\<rparr>)
      | _ \<Rightarrow> Some (s\<lparr>kernel_pages := wrapping_sub usize_max (kernel_pages s) n,
                   used_pages := wrapping_sub usize_max (used_pages s) n\<rparr>))"

text \<open>
  \<open>try_coalesce\<close>: \<open>Some\<close> is the state with the buddy taken out of its free list. Flipping a bit is
  \<open>block ^ (PAGE_SIZE << order)\<close>, clearing it is \<open>block & !(PAGE_SIZE << order)\<close>.
\<close>

definition try_coalesce :: "nat \<Rightarrow> nat \<Rightarrow> pmm \<Rightarrow> pmm option" where
  "try_coalesce block order s =
     (let buddy = flip_bit (page_size_log + order) block;
          buddy_ppn = buddy div page_size
      in if \<not> (range_start s \<le> buddy_ppn \<and> buddy_ppn < range_end s) then None
         else if pusage (pages s buddy_ppn) \<noteq> Free \<or> porder (pages s buddy_ppn) \<noteq> order then None
         else Some (unlink_order buddy order s))"

function coalesce :: "nat \<Rightarrow> nat \<Rightarrow> pmm \<Rightarrow> nat \<times> nat \<times> pmm" where
  "coalesce block order s =
     (if order < max_order then
        (case try_coalesce block order s of
           None \<Rightarrow> (block, order, s)
         | Some s' \<Rightarrow> coalesce (unset_bit (page_size_log + order) block) (order + 1) s')
      else (block, order, s))"
  by pat_completeness auto
termination
  by (relation "measure (\<lambda>(b, k, s). max_order - k)") auto

declare coalesce.simps [simp del]

definition free_page_meta :: "nat \<Rightarrow> page \<Rightarrow> page" where
  "free_page_meta order p = p\<lparr>pusage := Free, porder := order\<rparr>"

definition page_free :: "nat \<Rightarrow> nat \<Rightarrow> pmm \<Rightarrow> (pmm_error, pmm) result" where
  "page_free block order s =
     (let pages_freed = 2 ^ order in
      case account_free (pusage (pages s (block div page_size))) pages_freed s of
        None \<Rightarrow> Err Panic
      | Some s1 \<Rightarrow>
          (let (block', order', s2) = coalesce block order s1;
               s3 = s2\<lparr>pages := set_pages (free_page_meta order') (block' div page_size)
                                  (2 ^ order') (pages s2)\<rparr>
           in if order' \<ge> max_order then Err Panic
              else
                (let s4 = link_order block' order' s3
                 in Ok (s4\<lparr>free_pages := wrapping_add usize_max (free_pages s4) pages_freed\<rparr>))))"

text \<open>Free a range of memory as the largest aligned blocks, from its start.\<close>

function mark_free :: "nat \<Rightarrow> nat \<Rightarrow> pmm \<Rightarrow> (pmm_error, pmm) result" where
  "mark_free start end' s =
     (if end' > start then
        (let order = min (trailing_zeros start) (ilog2 (end' - start)) - page_size_log
         in case page_free start order s of
              Inl e \<Rightarrow> Inl e
            | Inr s' \<Rightarrow> mark_free (start + page_size * 2 ^ order) end' s')
      else Ok s)"
  by pat_completeness auto
termination
  by (relation "measure (\<lambda>(a, b, s). b - a)") (auto simp: page_size_def intro!: diff_less_mono2)

declare mark_free.simps [simp del]

text \<open>
  \<open>init\<close>: \<open>mem\<close> (\<open>total\<close> in the source) and \<open>early\<close> are the byte ranges the boot protocol passes. As in the source,
  the number of metadata pages is computed from the length of \<open>mem\<close> in bytes.
\<close>

definition pmm_init :: "nat \<Rightarrow> nat \<times> nat \<Rightarrow> nat \<times> nat \<Rightarrow> pmm \<Rightarrow> (pmm_error, pmm) result" where
  "pmm_init size_page mem early s =
     (let meta_pages = div_ceil (size_page * (snd mem - fst mem)) page_size;
          s1 = s\<lparr>total_pages := snd mem - fst mem,
                 range_start := fst mem div page_size, range_end := snd mem div page_size\<rparr>
      in if snd early - fst early < meta_pages + 64 then Err Panic
         else
           (let s2 = s1\<lparr>structs_paddr := fst early,
                        pages := set_pages (\<lambda>_. zeroed_page) (fst mem div page_size)
                                   (div_ceil (snd mem - fst mem) page_size) (pages s1)\<rparr>
            in mark_free (fst early + meta_pages * page_size) (snd early) s2))"

text \<open>The static initial state: no managed pages and empty free lists.\<close>

definition pmm_empty :: pmm where
  "pmm_empty = \<lparr>total_pages = 0, kernel_pages = 0, cache_pages = 0, free_pages = 0, used_pages = 0,
     range_start = 0, range_end = 0, structs_paddr = 0, free_list = replicate max_order paddr_max,
     links = (\<lambda>_. \<lparr>fl_prev = 0, fl_next = 0\<rparr>), pages = (\<lambda>_. zeroed_page)\<rparr>"

section \<open>Invariant\<close>

text \<open>
  The invariant is stated over the lists \<open>L\<close> of page numbers that the free lists represent.
  \<open>R\<close> is the hole: the pages of a block that an operation has in hand.
\<close>

definition fl_rep :: "pmm \<Rightarrow> (nat \<Rightarrow> nat list) \<Rightarrow> bool" where
  "fl_rep s L \<longleftrightarrow> length (free_list s) = max_order \<and>
     (\<forall>k<max_order. dll (links s) paddr_max (free_list s ! k) (map (\<lambda>p. p * page_size) (L k)))"

definition lists_ok :: "(nat \<Rightarrow> nat list) \<Rightarrow> bool" where
  "lists_ok L \<longleftrightarrow> (\<forall>k<max_order. distinct (L k)) \<and>
     (\<forall>i<max_order. \<forall>j<max_order. i \<noteq> j \<longrightarrow> set (L i) \<inter> set (L j) = {})"

definition block_pages :: "nat \<Rightarrow> nat \<Rightarrow> nat set" where
  "block_pages k p = {p..<p + 2 ^ k}"

definition free_set :: "(nat \<Rightarrow> nat list) \<Rightarrow> nat set" where
  "free_set L = (\<Union>k<max_order. \<Union>p\<in>set (L k). block_pages k p)"

definition block_ok :: "pmm \<Rightarrow> nat set \<Rightarrow> nat \<Rightarrow> nat \<Rightarrow> bool" where
  "block_ok s R k p \<longleftrightarrow> 2 ^ k dvd p \<and> range_start s \<le> p \<and> p + 2 ^ k \<le> range_end s \<and>
     block_pages k p \<inter> R = {}"

definition blocks_disjoint :: "(nat \<Rightarrow> nat list) \<Rightarrow> bool" where
  "blocks_disjoint L \<longleftrightarrow> (\<forall>i<max_order. \<forall>j<max_order. \<forall>p\<in>set (L i). \<forall>q\<in>set (L j).
     (i, p) \<noteq> (j, q) \<longrightarrow> block_pages i p \<inter> block_pages j q = {})"

definition meta_ok :: "(nat \<Rightarrow> page) \<Rightarrow> nat \<Rightarrow> nat \<Rightarrow> bool" where
  "meta_ok pgs k p \<longleftrightarrow> (\<forall>q\<in>block_pages k p. pusage (pgs q) = Free \<and> k \<le> porder (pgs q)) \<and>
     (porder (pgs p) = k \<or> \<not> 2 ^ porder (pgs p) dvd p)"

definition pmm_rep :: "nat set \<Rightarrow> pmm \<Rightarrow> (nat \<Rightarrow> nat list) \<Rightarrow> bool" where
  "pmm_rep R s L \<longleftrightarrow> range_end s \<le> 2 ^ 52 \<and>
     (\<forall>k<max_order. distinct (L k)) \<and> blocks_disjoint L \<and>
     (\<forall>k<max_order. \<forall>p\<in>set (L k). block_ok s R k p \<and> meta_ok (pages s) k p) \<and>
     (\<forall>q. range_start s \<le> q \<and> q < range_end s \<and> pusage (pages s q) = Free \<and> q \<notin> R
        \<longrightarrow> q \<in> free_set L)"

text \<open>The pages that the structs say are free: what the allocator abstracts to.\<close>

definition free_ppns :: "pmm \<Rightarrow> nat set" where
  "free_ppns s = {q. range_start s \<le> q \<and> q < range_end s \<and> pusage (pages s q) = Free}"

definition pmm_inv :: "pmm \<Rightarrow> bool" where
  "pmm_inv s \<longleftrightarrow> (\<exists>L. fl_rep s L \<and> pmm_rep {} s L) \<and> free_pages s = card (free_ppns s)"

section \<open>The free lists\<close>

lemma page_size_pos [simp]: "0 < page_size" "page_size \<noteq> 0"
  by (simp_all add: page_size_def)

lemma page_addr_not_max [simp]: "p * page_size \<noteq> paddr_max"
proof
  assume "p * page_size = paddr_max"
  then have "p * 4096 = 2 ^ 64 - 1" by (simp add: page_size_def paddr_max_def)
  then have "even ((2::nat) ^ 64 - 1)" by (metis dvd_mult even_numeral)
  then show False by simp
qed

lemma page_addr_inj: "inj_on (\<lambda>p. p * page_size) A"
  by (auto simp: inj_on_def)

lemma lists_ok_simps:
  "lists_ok L \<Longrightarrow> k < max_order \<Longrightarrow> distinct (L k)"
  "lists_ok L \<Longrightarrow> i < max_order \<Longrightarrow> j < max_order \<Longrightarrow> i \<noteq> j \<Longrightarrow> p \<in> set (L i) \<Longrightarrow> p \<notin> set (L j)"
  by (auto simp: lists_ok_def)

lemma fl_rep_head:
  "fl_rep s L \<Longrightarrow> k < max_order \<Longrightarrow>
   free_list s ! k = (case L k of [] \<Rightarrow> paddr_max | p # _ \<Rightarrow> p * page_size)"
  using dll_head by (fastforce simp: fl_rep_def head_of_def split: list.splits)

lemma fl_rep_cong:
  "fl_rep s L \<Longrightarrow> free_list t = free_list s \<Longrightarrow> links t = links s \<Longrightarrow> (\<And>k. k < max_order \<Longrightarrow> L' k = L k) \<Longrightarrow> fl_rep t L'"
  by (simp add: fl_rep_def)

lemma link_order_rep:
  assumes rep: "fl_rep s L" and ok: "lists_ok L" and k: "k < max_order"
    and new: "\<And>i. i < max_order \<Longrightarrow> p \<notin> set (L i)"
  shows "fl_rep (link_order (p * page_size) k s) (L(k := p # L k))"
proof -
  let ?xs = "map (\<lambda>p. p * page_size) (L k)"
  let ?r = "free_list_link (p * page_size) (links s, free_list s ! k)"
  have dllk: "dll (links s) paddr_max (free_list s ! k) ?xs" using rep k by (simp add: fl_rep_def)
  have "snd ?r = p * page_size \<and> dll (fst ?r) paddr_max (p * page_size) (p * page_size # ?xs)"
    using new [OF k] lists_ok_simps(1) [OF ok k]
    by (intro free_list_link_dll dllk) (auto simp: distinct_map page_addr_inj)
  moreover have "dll (fst ?r) paddr_max (free_list s ! i) (map (\<lambda>p. p * page_size) (L i))"
    if i: "i < max_order" "i \<noteq> k" for i
  proof -
    have "fst ?r c = links s c" if "c \<in> set (map (\<lambda>p. p * page_size) (L i))" for c
    proof (rule free_list_link_frame)
      from that obtain q where q: "c = q * page_size" "q \<in> set (L i)" by auto
      then show "c \<noteq> p * page_size" using new [OF i(1)] by auto
      show "c \<noteq> free_list s ! k"
        using q lists_ok_simps(2) [OF ok i(1) k i(2) q(2)]
        by (auto simp: fl_rep_head [OF rep k] split: list.splits)
    qed
    then have "dll (fst ?r) paddr_max (free_list s ! i) (map (\<lambda>p. p * page_size) (L i)) =
      dll (links s) paddr_max (free_list s ! i) (map (\<lambda>p. p * page_size) (L i))"
      by (rule dll_cong)
    then show ?thesis using rep i by (simp add: fl_rep_def)
  qed
  ultimately show ?thesis
    using rep k by (simp add: fl_rep_def link_order_def nth_list_update)
qed

lemma unlink_order_rep:
  assumes rep: "fl_rep s L" and ok: "lists_ok L" and k: "k < max_order" and p: "p \<in> set (L k)"
  shows "fl_rep (unlink_order (p * page_size) k s) (L(k := remove1 p (L k)))"
proof -
  let ?f = "map (\<lambda>p. p * page_size)"
  let ?r = "free_list_unlink (p * page_size) (links s, free_list s ! k)"
  have dllk: "dll (links s) paddr_max (free_list s ! k) (?f (L k))" using rep k by (simp add: fl_rep_def)
  obtain xs ys where L: "L k = xs @ p # ys" using p by (auto simp: in_set_conv_decomp)
  have dist: "distinct (xs @ p # ys)" using lists_ok_simps(1) [OF ok k] L by simp
  then have rem: "remove1 p (L k) = xs @ ys" using L by (simp add: remove1_append)
  have "dll (fst ?r) paddr_max (snd ?r) (?f xs @ ?f ys)"
  proof (rule free_list_unlink_dll)
    show "dll (links s) paddr_max (free_list s ! k) (?f xs @ p * page_size # ?f ys)"
      using dllk L by simp
    have "distinct (?f (xs @ p # ys))" using dist by (simp only: distinct_map page_addr_inj)
    then show "distinct (?f xs @ p * page_size # ?f ys)" by simp
  qed
  moreover have "dll (fst ?r) paddr_max (free_list s ! i) (?f (L i))"
    if i: "i < max_order" "i \<noteq> k" for i
  proof -
    have "fst ?r c = links s c" if "c \<in> set (?f (L i))" for c
      using that p lists_ok_simps(2) [OF ok i(1) k i(2)]
      by (intro free_list_unlink_frame [OF dllk]) auto
    then have "dll (fst ?r) paddr_max (free_list s ! i) (?f (L i)) =
      dll (links s) paddr_max (free_list s ! i) (?f (L i))"
      by (rule dll_cong)
    then show ?thesis using rep i by (simp add: fl_rep_def)
  qed
  ultimately show ?thesis
    using rep k rem by (simp add: fl_rep_def unlink_order_def nth_list_update Let_def)
qed

section \<open>Taking blocks out and putting them back\<close>

lemma block_pages_head [simp]: "p \<in> block_pages k p"
  by (simp add: block_pages_def)

lemma card_block_pages [simp]: "card (block_pages k p) = 2 ^ k"
  by (simp add: block_pages_def)

lemma finite_block_pages [simp]: "finite (block_pages k p)"
  by (simp add: block_pages_def)

lemma free_setI: "k < max_order \<Longrightarrow> p \<in> set (L k) \<Longrightarrow> q \<in> block_pages k p \<Longrightarrow> q \<in> free_set L"
  by (auto simp: free_set_def)

lemma free_setE:
  assumes "q \<in> free_set L"
  obtains k p where "k < max_order" "p \<in> set (L k)" "q \<in> block_pages k p"
  using assms by (auto simp: free_set_def)

lemma pmm_repD:
  assumes "pmm_rep R s L"
  shows "range_end s \<le> 2 ^ 52"
    and "k < max_order \<Longrightarrow> distinct (L k)"
    and "blocks_disjoint L"
    and "k < max_order \<Longrightarrow> p \<in> set (L k) \<Longrightarrow> block_ok s R k p"
    and "k < max_order \<Longrightarrow> p \<in> set (L k) \<Longrightarrow> meta_ok (pages s) k p"
    and "range_start s \<le> q \<Longrightarrow> q < range_end s \<Longrightarrow> pusage (pages s q) = Free \<Longrightarrow> q \<notin> R \<Longrightarrow> q \<in> free_set L"
  using assms by (auto simp: pmm_rep_def)

lemma blocks_disjointD:
  "blocks_disjoint L \<Longrightarrow> i < max_order \<Longrightarrow> j < max_order \<Longrightarrow> p \<in> set (L i) \<Longrightarrow> q \<in> set (L j) \<Longrightarrow>
   x \<in> block_pages i p \<Longrightarrow> x \<in> block_pages j q \<Longrightarrow> i = j \<and> p = q"
  unfolding blocks_disjoint_def by blast

lemma pmm_rep_lists_ok:
  assumes "pmm_rep R s L"
  shows "lists_ok L"
  unfolding lists_ok_def
proof (intro conjI allI impI)
  fix i j assume ij: "i < max_order" "j < max_order" "i \<noteq> j"
  show "set (L i) \<inter> set (L j) = {}"
    using blocks_disjointD [OF pmm_repD(3) [OF assms] ij(1,2)] ij(3) block_pages_head by blast
qed (use pmm_repD(2) [OF assms] in auto)

lemma pmm_rep_hole: "pmm_rep R s L \<Longrightarrow> p \<in> R \<Longrightarrow> k < max_order \<Longrightarrow> p \<notin> set (L k)"
  using pmm_repD(4) [of R s L k p] block_pages_head [of p k] unfolding block_ok_def by blast

lemma take_mem:
  assumes "pmm_rep R s L" "k < max_order" "i < max_order"
  shows "q \<in> set ((L(k := remove1 p (L k))) i) \<longleftrightarrow> q \<in> set (L i) \<and> (i, q) \<noteq> (k, p)"
  using pmm_repD(2) [OF assms(1,3)] by auto

lemma blocks_disjoint_mono:
  "blocks_disjoint L \<Longrightarrow> (\<And>i. i < max_order \<Longrightarrow> set (L' i) \<subseteq> set (L i)) \<Longrightarrow> blocks_disjoint L'"
  unfolding blocks_disjoint_def by blast

lemma free_set_take:
  assumes "pmm_rep R s L" "k < max_order" "p \<in> set (L k)"
  shows "free_set (L(k := remove1 p (L k))) = free_set L - block_pages k p"
proof -
  note sets = take_mem [OF assms(1,2), where p = p]
  note disj = blocks_disjointD [OF pmm_repD(3) [OF assms(1)]]
  have "q \<in> free_set L - block_pages k p" if "q \<in> free_set (L(k := remove1 p (L k)))" for q
  proof -
    from that obtain i b
      where b: "i < max_order" "b \<in> set ((L(k := remove1 p (L k))) i)" "q \<in> block_pages i b"
      by (rule free_setE)
    then have "b \<in> set (L i)" "(i, b) \<noteq> (k, p)" using sets [OF b(1)] by blast+
    then show ?thesis using b disj [OF b(1) assms(2) _ assms(3)] free_setI by blast
  qed
  moreover have "q \<in> free_set (L(k := remove1 p (L k)))" if q: "q \<in> free_set L" "q \<notin> block_pages k p" for q
  proof -
    obtain i b where b: "i < max_order" "b \<in> set (L i)" "q \<in> block_pages i b"
      using q(1) by (rule free_setE)
    then have "b \<in> set ((L(k := remove1 p (L k))) i)" using sets [OF b(1)] q(2) by blast
    then show ?thesis using b free_setI [of i b "L(k := remove1 p (L k))"] by blast
  qed
  ultimately show ?thesis by blast
qed

lemma free_set_put:
  assumes "k < max_order"
  shows "free_set (L(k := p # L k)) = free_set L \<union> block_pages k p"
proof -
  have "(\<Union>b\<in>set ((L(k := p # L k)) i). block_pages i b) =
    (\<Union>b\<in>set (L i). block_pages i b) \<union> (if i = k then block_pages k p else {})" for i
    by auto
  then show ?thesis using assms unfolding free_set_def by (auto split: if_splits)
qed

lemma pmm_rep_take:
  assumes rep: "pmm_rep R s L" and k: "k < max_order" and p: "p \<in> set (L k)"
  shows "pmm_rep (R \<union> block_pages k p) s (L(k := remove1 p (L k)))"
proof -
  let ?L = "L(k := remove1 p (L k))"
  note sets = take_mem [OF rep k, where p = p]
  note disj = blocks_disjointD [OF pmm_repD(3) [OF rep]]
  have blk: "block_ok s (R \<union> block_pages k p) i q \<and> meta_ok (pages s) i q"
    if "i < max_order" "q \<in> set (?L i)" for i q
  proof -
    have q: "q \<in> set (L i)" "(i, q) \<noteq> (k, p)" using that sets [OF that(1)] by blast+
    then have "block_pages i q \<inter> block_pages k p = {}"
      using disj [OF that(1) k q(1) p] by blast
    then show ?thesis using pmm_repD(4,5) [OF rep that(1) q(1)] by (auto simp: block_ok_def)
  qed
  have "blocks_disjoint ?L"
    by (rule blocks_disjoint_mono [OF pmm_repD(3) [OF rep]]) (use sets in blast)
  then show ?thesis
    using blk rep unfolding pmm_rep_def free_set_take [OF rep k p]
    by (auto simp: pmm_rep_def)
qed

lemma pmm_rep_put:
  assumes rep: "pmm_rep (R \<union> block_pages k p) s L" and k: "k < max_order"
    and ok: "block_ok s R k p" and meta: "meta_ok (pages s) k p"
  shows "pmm_rep R s (L(k := p # L k))"
proof -
  let ?L = "L(k := p # L k)"
  have blk: "block_ok s R i q \<and> meta_ok (pages s) i q" if "i < max_order" "q \<in> set (?L i)" for i q
    using that pmm_repD(4,5) [OF rep that(1)] ok meta by (auto simp: block_ok_def split: if_splits)
  have old: "block_pages k p \<inter> block_pages i q = {}" if "i < max_order" "q \<in> set (L i)" for i q
    using pmm_repD(4) [OF rep that] by (auto simp: block_ok_def)
  have "blocks_disjoint ?L"
    unfolding blocks_disjoint_def
  proof (intro allI ballI impI)
    fix i j q r
    assume ij: "i < max_order" "j < max_order" and "q \<in> set (?L i)" "r \<in> set (?L j)"
      and ne: "(i, q) \<noteq> (j, r)"
    then consider "q \<in> set (L i)" "r \<in> set (L j)" | "(i, q) = (k, p)" "r \<in> set (L j)"
      | "q \<in> set (L i)" "(j, r) = (k, p)" by (auto split: if_splits)
    then show "block_pages i q \<inter> block_pages j r = {}"
      using old ij ne blocks_disjointD [OF pmm_repD(3) [OF rep] ij] by cases blast+
  qed
  moreover have "distinct (?L i)" if "i < max_order" for i
    using pmm_repD(2) [OF rep] pmm_rep_hole [OF rep, of p k] that k by auto
  ultimately show ?thesis
    using blk rep unfolding pmm_rep_def free_set_put [OF k] by (auto simp: pmm_rep_def)
qed

lemma pmm_rep_frame:
  assumes "pmm_rep R s L" "range_start t = range_start s" "range_end t = range_end s"
    and pages: "\<And>q. q \<notin> R \<Longrightarrow> pages t q = pages s q"
  shows "pmm_rep R t L"
proof -
  have "meta_ok (pages t) k p" if "meta_ok (pages s) k p" "block_ok s R k p" for k p
  proof -
    have "pages t q = pages s q" if "q \<in> block_pages k p" for q
      using \<open>block_ok s R k p\<close> that by (intro pages) (auto simp: block_ok_def)
    then show ?thesis using that by (simp add: meta_ok_def)
  qed
  then show ?thesis using assms unfolding pmm_rep_def by (auto simp: block_ok_def)
qed

lemma pmm_rep_drop_hole:
  "pmm_rep R s L \<Longrightarrow> (\<And>q. q \<in> R \<Longrightarrow> pusage (pages s q) \<noteq> Free) \<Longrightarrow> pmm_rep {} s L"
  by (auto simp: pmm_rep_def block_ok_def)

lemma lists_ok_put:
  "lists_ok L \<Longrightarrow> (\<And>i. i < max_order \<Longrightarrow> p \<notin> set (L i)) \<Longrightarrow> lists_ok (L(k := p # L k))"
  by (auto simp: lists_ok_def)

lemma link_order_fields [simp]:
  "pages (link_order b k s) = pages s" "range_start (link_order b k s) = range_start s"
  "range_end (link_order b k s) = range_end s" "free_pages (link_order b k s) = free_pages s"
  "used_pages (link_order b k s) = used_pages s" "kernel_pages (link_order b k s) = kernel_pages s"
  "cache_pages (link_order b k s) = cache_pages s" "total_pages (link_order b k s) = total_pages s"
  "structs_paddr (link_order b k s) = structs_paddr s"
  by (simp_all add: link_order_def Let_def)

lemma unlink_order_fields [simp]:
  "pages (unlink_order b k s) = pages s" "range_start (unlink_order b k s) = range_start s"
  "range_end (unlink_order b k s) = range_end s" "free_pages (unlink_order b k s) = free_pages s"
  "used_pages (unlink_order b k s) = used_pages s" "kernel_pages (unlink_order b k s) = kernel_pages s"
  "cache_pages (unlink_order b k s) = cache_pages s" "total_pages (unlink_order b k s) = total_pages s"
  "structs_paddr (unlink_order b k s) = structs_paddr s"
  by (simp_all add: unlink_order_def Let_def)

lemma set_pages_apply: "set_pages f p n m q = (if p \<le> q \<and> q < p + n then f (m q) else m q)"
  unfolding set_pages_def by (induction n) auto

lemma set_pages_block: "set_pages f p (2 ^ k) m q = (if q \<in> block_pages k p then f (m q) else m q)"
  by (simp add: set_pages_apply block_pages_def)

lemma block_pages_Suc: "block_pages (Suc d) p = block_pages d p \<union> block_pages d (p + 2 ^ d)"
  by (auto simp: block_pages_def)

lemma block_pages_halves: "block_pages d p \<inter> block_pages d (p + 2 ^ d) = {}"
  by (auto simp: block_pages_def)

section \<open>Splitting\<close>

text \<open>The block at page \<open>p\<close> of order \<open>c\<close> is in hand but still on top of its list.\<close>

definition split_inv :: "pmm \<Rightarrow> nat \<Rightarrow> nat \<Rightarrow> (nat \<Rightarrow> nat list) \<Rightarrow> bool" where
  "split_inv s p c L \<longleftrightarrow> fl_rep s (L(c := p # L c)) \<and> pmm_rep (block_pages c p) s L \<and>
     block_ok s {} c p \<and> (\<forall>q\<in>block_pages c p. pusage (pages s q) = Free) \<and>
     (\<forall>q\<in>block_pages c p - {p}. c \<le> porder (pages s q))"

text \<open>What splitting leaves alone: everything but the order in the struct of the first page.\<close>

definition same_but_order :: "nat \<Rightarrow> pmm \<Rightarrow> pmm \<Rightarrow> bool" where
  "same_but_order p s t \<longleftrightarrow> range_start t = range_start s \<and> range_end t = range_end s \<and>
     free_pages t = free_pages s \<and> used_pages t = used_pages s \<and> kernel_pages t = kernel_pages s \<and>
     cache_pages t = cache_pages s \<and> total_pages t = total_pages s \<and> structs_paddr t = structs_paddr s \<and>
     (\<exists>k. pages t = (pages s)(p := (pages s p)\<lparr>porder := k\<rparr>))"

lemma same_but_order_refl: "same_but_order p s s"
  unfolding same_but_order_def by (auto intro!: exI [of _ "porder (pages s p)"])

lemma same_but_order_trans: "same_but_order p s t \<Longrightarrow> same_but_order p t u \<Longrightarrow> same_but_order p s u"
  by (auto simp: same_but_order_def)

lemma split_inv_head: "split_inv s p c L \<Longrightarrow> c < max_order \<Longrightarrow> free_list s ! c = p * page_size"
  using fl_rep_head [of s "L(c := p # L c)" c] by (simp add: split_inv_def)

lemma split_inv_unlink:
  assumes inv: "split_inv s p c L" and c: "c < max_order"
  shows "fl_rep (unlink_order (p * page_size) c s) L"
proof -
  have rep: "fl_rep s (L(c := p # L c))" and hole: "pmm_rep (block_pages c p) s L"
    using inv by (auto simp: split_inv_def)
  have "lists_ok (L(c := p # L c))"
    using lists_ok_put pmm_rep_lists_ok [OF hole] pmm_rep_hole [OF hole block_pages_head] by blast
  from unlink_order_rep [OF rep this c, of p] show ?thesis by simp
qed

lemma split_block_same:
  assumes "split_inv s p c L" "c < max_order"
  shows "same_but_order p s (split_block order c s)"
proof -
  have "pusage (pages s p) = Free" using assms by (simp add: split_inv_def)
  then show ?thesis
    using split_inv_head [OF assms]
    by (auto simp: same_but_order_def split_block_def Let_def intro!: exI [of _ order])
qed

lemma split_block_inv:
  assumes inv: "split_inv s p (Suc d) L" and d: "Suc d < max_order"
  shows "split_inv (split_block order (Suc d) s) p d (L(d := (p + 2 ^ d) # L d))"
proof -
  let ?u = "p + 2 ^ d" and ?c = "Suc d" and ?t = "split_block order (Suc d) s"
  let ?L = "L(d := ?u # L d)"
  have hole: "pmm_rep (block_pages ?c p) s L" and ok: "block_ok s {} ?c p"
    and free: "\<And>q. q \<in> block_pages ?c p \<Longrightarrow> pusage (pages s q) = Free"
    and ord: "\<And>q. q \<in> block_pages ?c p - {p} \<Longrightarrow> ?c \<le> porder (pages s q)"
    using inv by (auto simp: split_inv_def)
  obtain k where t: "pages ?t = (pages s)(p := (pages s p)\<lparr>porder := k\<rparr>)"
    and rng: "range_start ?t = range_start s" "range_end ?t = range_end s"
    using split_block_same [OF inv d] by (auto simp: same_but_order_def)
  have dvd: "2 ^ ?c dvd p" "2 ^ d dvd p"
    using ok power_le_dvd [of 2 ?c p d] by (auto simp: block_ok_def simp del: power_Suc)
  have u: "?u \<in> block_pages ?c p" and up: "p \<notin> block_pages d ?u"
    by (auto simp: block_pages_def)
  have "fl_rep ?t (?L(d := p # ?L d))"
  proof -
    let ?s1 = "unlink_order (p * page_size) ?c s"
    let ?s2 = "?s1\<lparr>pages := (pages s)(p := (pages s p)\<lparr>pusage := Free, porder := order\<rparr>)\<rparr>"
    let ?s3 = "link_order (?u * page_size) d ?s2"
    have "fl_rep ?s2 L" by (rule fl_rep_cong [OF split_inv_unlink [OF inv d]]) auto
    then have "fl_rep ?s3 ?L"
      using pmm_rep_lists_ok [OF hole] pmm_rep_hole [OF hole u] d by (intro link_order_rep) auto
    from link_order_rep [OF this, of d p]
    have "fl_rep (link_order (p * page_size) d ?s3) (?L(d := p # ?L d))"
      using lists_ok_put [OF pmm_rep_lists_ok [OF hole] pmm_rep_hole [OF hole u]]
        pmm_rep_hole [OF hole block_pages_head] d by simp
    moreover have "p * page_size + page_size * 2 ^ d = ?u * page_size" by (simp add: algebra_simps)
    ultimately show ?thesis
      using split_inv_head [OF inv d] by (simp add: split_block_def Let_def)
  qed
  moreover have "pmm_rep (block_pages d p) ?t ?L"
  proof (rule pmm_rep_put)
    show "pmm_rep (block_pages d p \<union> block_pages d ?u) ?t L"
      unfolding block_pages_Suc [symmetric] by (rule pmm_rep_frame [OF hole rng]) (auto simp: t)
    show "block_ok ?t (block_pages d p) d ?u"
      using ok rng dvd block_pages_halves [of d p] by (simp add: block_ok_def Int_commute)
    have "\<not> 2 ^ ?c dvd ?u"
      using dvd by (simp add: dvd_add_right_iff del: power_Suc) (simp add: power_Suc)
    moreover have "2 ^ ?c dvd ?u" if "2 ^ porder (pages s ?u) dvd ?u"
      using that ord [of ?u] u by (intro power_le_dvd [OF that]) auto
    ultimately have "\<not> 2 ^ porder (pages s ?u) dvd ?u" by blast
    then show "meta_ok (pages ?t) d ?u"
      using free ord up t unfolding meta_ok_def block_pages_Suc by (auto dest: Suc_leD)
  qed (use d in simp)
  moreover have "block_ok ?t {} d p"
    using ok rng dvd by (simp add: block_ok_def)
  ultimately show ?thesis
    using free ord t unfolding split_inv_def block_pages_Suc by (auto dest: Suc_leD)
qed

lemma split_blocks_done: "split_blocks order order s = s"
  by (simp add: split_blocks_def)

lemma split_blocks_step:
  "order < c \<Longrightarrow> split_blocks order c s = split_blocks order (c - 1) (split_block order c s)"
  by (cases c) (simp_all add: split_blocks_def)

lemma split_blocks_inv:
  assumes "split_inv s p c L" "order \<le> c" "c < max_order"
  shows "\<exists>L'. split_inv (split_blocks order c s) p order L' \<and>
     same_but_order p s (split_blocks order c s)"
  using assms
proof (induction "c - order" arbitrary: c s L)
  case 0
  then show ?case using same_but_order_refl by (auto simp: split_blocks_done)
next
  case (Suc n)
  then obtain d where d: "c = Suc d" "order \<le> d" by (cases c) auto
  have "\<exists>L'. split_inv (split_blocks order d (split_block order c s)) p order L' \<and>
     same_but_order p (split_block order c s) (split_blocks order d (split_block order c s))"
    using Suc.prems Suc.hyps(2) d split_block_inv [of s p d L order]
    by (intro Suc.hyps(1) [of d _ "L(d := (p + 2 ^ d) # L d)"]) auto
  then show ?case
    using same_but_order_trans [OF split_block_same [OF Suc.prems(1,3)]] split_blocks_step [of order c s] d
    by auto
qed

lemma find_split_order_Some:
  "find_split_order fl k = Some c \<Longrightarrow>
   k \<le> c \<and> (k < max_order \<longrightarrow> c < max_order) \<and> fl ! c \<noteq> paddr_max \<and> (\<forall>i\<in>{k..<c}. fl ! i = paddr_max)"
proof (induction fl k rule: find_split_order.induct)
  case (1 fl k)
  show ?case
  proof (cases "fl ! k = paddr_max")
    case True
    then have "\<not> max_order - 1 \<le> k" "find_split_order fl (k + 1) = Some c"
      using 1(2) by (simp_all add: find_split_order.simps [of fl k] split: if_splits)
    then show ?thesis using 1(1) [OF True] True le_eq_less_or_eq by auto
  qed (use 1(2) in \<open>simp add: find_split_order.simps [of fl k]\<close>)
qed

lemma find_split_order_None:
  "k < max_order \<Longrightarrow> find_split_order fl k = None \<longleftrightarrow> (\<forall>i\<in>{k..<max_order}. fl ! i = paddr_max)"
proof (induction fl k rule: find_split_order.induct)
  case (1 fl k)
  show ?case
  proof (cases "fl ! k = paddr_max \<and> k < max_order - 1")
    case True
    then have "{k..<max_order} = insert k {k + 1..<max_order}" by auto
    moreover have "k + 1 < max_order" using True by (simp add: less_diff_conv)
    ultimately show ?thesis using 1(1) True by (simp add: find_split_order.simps [of fl k])
  next
    case False
    then have "fl ! k = paddr_max \<Longrightarrow> {k..<max_order} = {k}" using 1(2) by auto
    then show ?thesis using False 1(2) by (auto simp: find_split_order.simps [of fl k])
  qed
qed

section \<open>Allocating\<close>

lemma free_ppns_finite [simp]: "finite (free_ppns s)"
  by (rule finite_subset [of _ "{..<range_end s}"]) (auto simp: free_ppns_def)

lemma free_ppns_small:
  assumes "pmm_rep R s L"
  shows "card (free_ppns s) \<le> 2 ^ 52"
proof -
  have "card (free_ppns s) \<le> card {..<range_end s}"
    by (rule card_mono) (auto simp: free_ppns_def)
  then show ?thesis using pmm_repD(1) [OF assms] by simp
qed

lemma pmm_rep_free_ppns:
  assumes rep: "pmm_rep {} s L"
  shows "free_ppns s = free_set L"
proof -
  have "q \<in> free_ppns s" if q: "q \<in> free_set L" for q
  proof -
    from q obtain k p where kp: "k < max_order" "p \<in> set (L k)" "q \<in> block_pages k p"
      by (rule free_setE)
    then show ?thesis
      using pmm_repD(4,5) [OF rep kp(1,2)]
      by (auto simp: free_ppns_def block_ok_def meta_ok_def) (simp add: block_pages_def)+
  qed
  then show ?thesis using pmm_repD(6) [OF rep] by (auto simp: free_ppns_def)
qed

lemma block_order_small: "pmm_rep R s L \<Longrightarrow> block_ok s R' k p \<Longrightarrow> k \<le> 52"
proof (rule ccontr)
  assume "pmm_rep R s L" "block_ok s R' k p" "\<not> k \<le> 52"
  then have "(2::nat) ^ k \<le> 2 ^ 52"
    using pmm_repD(1) [of R s L] unfolding block_ok_def by linarith
  moreover have "(2::nat) ^ 53 \<le> 2 ^ k" using \<open>\<not> k \<le> 52\<close> by (intro power_increasing) auto
  ultimately show False by simp
qed

definition alloc_usage :: "page_usage \<Rightarrow> bool" where
  "alloc_usage u \<longleftrightarrow> u \<notin> {Free, Unusable, KernelSegment}"

lemma account_alloc_Some:
  assumes "alloc_usage u"
  obtains t where "account_alloc u n s = Some t" "links t = links s" "free_list t = free_list s"
    "range_start t = range_start s" "range_end t = range_end s" "pages t = pages s"
    "free_pages t = wrapping_sub usize_max (free_pages s) n"
  using assms by (cases u) (auto simp: account_alloc_def alloc_usage_def Let_def)

lemma split_inv_start:
  assumes rep: "fl_rep s L" "pmm_rep {} s L" and c: "c < max_order" and L: "L c = p # ps"
  shows "split_inv s p c (L(c := ps))"
proof -
  have "pmm_rep (block_pages c p) s (L(c := ps))"
    using pmm_rep_take [OF rep(2) c, of p] L by simp
  moreover have "fl_rep s ((L(c := ps))(c := p # (L(c := ps)) c))"
    using fl_rep_cong [OF rep(1)] L by simp
  ultimately show ?thesis
    using pmm_repD(4,5) [OF rep(2) c, of p] L by (simp add: split_inv_def meta_ok_def)
qed

text \<open>The block in hand leaves the allocator.\<close>

lemma alloc_finish:
  assumes inv: "split_inv s p k L" and k: "k < max_order" and u: "alloc_usage u"
    and cnt: "free_pages s = card (free_ppns s)"
  defines "s3 \<equiv> (unlink_order (p * page_size) k s)
    \<lparr>pages := set_pages (alloc_page_meta k u) p (2 ^ k) (pages s)\<rparr>"
  shows "\<exists>t. account_alloc u (2 ^ k) s3 = Some t \<and> pmm_inv t \<and>
    free_ppns t = free_ppns s - block_pages k p \<and> pages t = pages s3 \<and>
    range_start t = range_start s \<and> range_end t = range_end s"
proof -
  have hole: "pmm_rep (block_pages k p) s L" and ok: "block_ok s {} k p"
    and free: "\<And>q. q \<in> block_pages k p \<Longrightarrow> pusage (pages s q) = Free"
    using inv by (auto simp: split_inv_def)
  have unf: "u \<noteq> Free" using u by (simp add: alloc_usage_def)
  obtain t where t: "account_alloc u (2 ^ k) s3 = Some t" "links t = links s3" "free_list t = free_list s3"
    "range_start t = range_start s3" "range_end t = range_end s3" "pages t = pages s3"
    "free_pages t = wrapping_sub usize_max (free_pages s3) (2 ^ k)"
    using account_alloc_Some [OF u] by blast
  have pgs: "pages s3 q = (if q \<in> block_pages k p then alloc_page_meta k u (pages s q) else pages s q)" for q
    by (simp add: s3_def set_pages_block)
  have "fl_rep t L"
    by (rule fl_rep_cong [OF split_inv_unlink [OF inv k]]) (auto simp: t s3_def)
  moreover have "pmm_rep {} t L"
  proof (rule pmm_rep_drop_hole)
    show "pmm_rep (block_pages k p) t L"
      by (rule pmm_rep_frame [OF hole]) (auto simp: t pgs, auto simp: s3_def)
  qed (use unf in \<open>simp add: t pgs alloc_page_meta_def\<close>)
  moreover have ppns: "free_ppns t = free_ppns s - block_pages k p"
    using unf unfolding free_ppns_def t pgs by (auto simp: s3_def alloc_page_meta_def)
  moreover have sub: "block_pages k p \<subseteq> free_ppns s"
    using ok free by (auto simp: free_ppns_def block_ok_def) (auto simp: block_pages_def)
  moreover have "free_pages t = card (free_ppns t)"
    using t cnt card_mono [OF _ sub] free_ppns_small [OF hole] ppns sub
    by (simp add: s3_def wrapping_sub_ge card_Diff_subset usize_max_def)
  ultimately show ?thesis using t by (auto simp: pmm_inv_def s3_def)
qed

lemma page_alloc_unfold:
  assumes "order < max_order" "find_split_order (free_list s) order = Some c"
  defines "s1 \<equiv> split_blocks order c s"
  assumes p: "free_list s1 ! order = p * page_size"
  shows "page_alloc order u s =
    (case account_alloc u (2 ^ order) ((unlink_order (p * page_size) order s1)
       \<lparr>pages := set_pages (alloc_page_meta order u) p (2 ^ order) (pages s1)\<rparr>) of
      None \<Rightarrow> Err Panic | Some s4 \<Rightarrow> Ok (p * page_size, s4))"
  using assms by (simp add: page_alloc_def Let_def split: option.split)

lemma page_alloc_finds:
  assumes inv: "pmm_inv s" and order: "order < max_order" and u: "alloc_usage u"
    and c: "find_split_order (free_list s) order = Some c"
  shows "\<exists>p t. page_alloc order u s = Ok (p * page_size, t) \<and> 2 ^ order dvd p \<and>
    block_pages order p \<subseteq> free_ppns s \<and> pmm_inv t \<and> free_ppns t = free_ppns s - block_pages order p \<and>
    pages t = set_pages (alloc_page_meta order u) p (2 ^ order) (pages s) \<and>
    range_start t = range_start s \<and> range_end t = range_end s"
proof -
  obtain L where rep: "fl_rep s L" "pmm_rep {} s L" and cnt: "free_pages s = card (free_ppns s)"
    using inv by (auto simp: pmm_inv_def)
  have c': "order \<le> c" "c < max_order" "free_list s ! c \<noteq> paddr_max"
    using find_split_order_Some [OF c] order by auto
  then obtain p ps where "L c = p # ps" using fl_rep_head [OF rep(1), of c] by (cases "L c") auto
  define s1 where "s1 = split_blocks order c s"
  obtain L' where L': "split_inv s1 p order L'" and same: "same_but_order p s s1"
    using split_blocks_inv [OF split_inv_start [OF rep c'(2) \<open>L c = p # ps\<close>] c'(1,2)] s1_def by blast
  obtain k where k: "pages s1 = (pages s)(p := (pages s p)\<lparr>porder := k\<rparr>)"
    and rng: "range_start s1 = range_start s" "range_end s1 = range_end s" "free_pages s1 = free_pages s"
    using same by (auto simp: same_but_order_def)
  have ppns: "free_ppns s1 = free_ppns s" by (auto simp: free_ppns_def rng k)
  have sub: "block_pages order p \<subseteq> free_ppns s1" and dvd: "2 ^ order dvd p"
    using L' by (auto simp: split_inv_def free_ppns_def block_ok_def) (auto simp: block_pages_def)
  have pgs: "set_pages (alloc_page_meta order u) p (2 ^ order) (pages s1) =
      set_pages (alloc_page_meta order u) p (2 ^ order) (pages s)"
    by (rule ext) (simp add: set_pages_block k alloc_page_meta_def)
  obtain t where t: "account_alloc u (2 ^ order) ((unlink_order (p * page_size) order s1)
      \<lparr>pages := set_pages (alloc_page_meta order u) p (2 ^ order) (pages s1)\<rparr>) = Some t"
    "pmm_inv t" "free_ppns t = free_ppns s1 - block_pages order p"
    "pages t = set_pages (alloc_page_meta order u) p (2 ^ order) (pages s1)"
    "range_start t = range_start s1" "range_end t = range_end s1"
    using alloc_finish [OF L' order u] cnt rng ppns by auto
  have "page_alloc order u s = Ok (p * page_size, t)"
    using page_alloc_unfold [OF order c, of p u] split_inv_head [OF L' order] t(1) by (simp add: s1_def)
  then show ?thesis using t ppns sub dvd rng pgs by auto
qed

section \<open>Coalescing\<close>

definition buddy_of :: "nat \<Rightarrow> nat \<Rightarrow> nat" where
  "buddy_of k p = (if 2 ^ Suc k dvd p then p + 2 ^ k else p - 2 ^ k)"

definition merged :: "nat \<Rightarrow> nat \<Rightarrow> nat" where
  "merged k p = (if 2 ^ Suc k dvd p then p else p - 2 ^ k)"

lemma page_bit:
  assumes "2 ^ k dvd p"
  shows "bit (p * page_size) (page_size_log + k) \<longleftrightarrow> \<not> 2 ^ Suc k dvd p"
proof -
  have "p * page_size div 2 ^ (page_size_log + k) = p div 2 ^ k"
    by (simp add: page_size_def page_size_log_def power_add div_mult2_eq)
  moreover have "even (p div 2 ^ k) \<longleftrightarrow> 2 ^ Suc k dvd p"
    using assms by (auto simp: dvd_def)
  ultimately show ?thesis by (simp add: bit_iff_odd)
qed

lemma page_pow: "(2::nat) ^ (page_size_log + k) = 2 ^ k * page_size"
  by (simp add: page_size_def page_size_log_def power_add)

lemma unset_bit_nat_eq: "unset_bit n (a::nat) = a - of_bool (bit a n) * 2 ^ n"
proof -
  have "int (unset_bit n a) = int a - of_bool (bit a n) * 2 ^ n"
    by (simp add: of_nat_unset_bit_eq unset_bit_eq bit_of_nat_iff_bit)
  moreover have "bit a n \<Longrightarrow> 2 ^ n \<le> a" by (rule ccontr) (simp add: bit_iff_odd)
  ultimately have "int (unset_bit n a) = int (a - of_bool (bit a n) * 2 ^ n)"
    by (simp add: of_nat_diff)
  then show ?thesis by (simp only: of_nat_eq_iff)
qed

lemma unset_page_bit: "2 ^ k dvd p \<Longrightarrow> unset_bit (page_size_log + k) (p * page_size) = merged k p * page_size"
  by (simp add: unset_bit_nat_eq page_bit page_pow merged_def diff_mult_distrib)

lemma flip_page_bit: "2 ^ k dvd p \<Longrightarrow> flip_bit (page_size_log + k) (p * page_size) = buddy_of k p * page_size"
  by (simp add: flip_bit_eq_if page_bit set_bit_eq unset_bit_nat_eq page_pow buddy_of_def
      diff_mult_distrib add_mult_distrib)

lemma not_dvd_ge: "2 ^ k dvd p \<Longrightarrow> \<not> 2 ^ Suc k dvd p \<Longrightarrow> (2::nat) ^ k \<le> p"
  using dvd_imp_le [of "2 ^ k" p] by (cases "p = 0") auto

lemma merged_pages:
  assumes "2 ^ k dvd p"
  shows "block_pages (Suc k) (merged k p) = block_pages k p \<union> block_pages k (buddy_of k p)"
  using not_dvd_ge [OF assms] by (auto simp: merged_def buddy_of_def block_pages_Suc)

lemma buddy_disjoint:
  assumes "2 ^ k dvd p"
  shows "block_pages k p \<inter> block_pages k (buddy_of k p) = {}"
  using not_dvd_ge [OF assms] by (auto simp: buddy_of_def block_pages_def)

lemma buddy_dvd: "2 ^ k dvd p \<Longrightarrow> 2 ^ k dvd buddy_of k p"
  by (simp add: buddy_of_def)

lemma merged_dvd:
  assumes "2 ^ k dvd p"
  shows "2 ^ Suc k dvd merged k p"
proof (cases "2 ^ Suc k dvd p")
  case False
  obtain c where c: "p = 2 ^ k * c" using assms by (auto simp: dvd_def)
  then have "odd c" using False by auto
  then have "p - 2 ^ k = 2 ^ k * (c - 1)" "even (c - 1)" using c by (auto simp: diff_mult_distrib2)
  then show ?thesis using False by (auto simp: merged_def)
qed (simp add: merged_def)

text \<open>The block at page \<open>p\<close> of order \<open>k\<close> is being freed.\<close>

definition free_inv :: "pmm \<Rightarrow> nat \<Rightarrow> nat \<Rightarrow> (nat \<Rightarrow> nat list) \<Rightarrow> bool" where
  "free_inv s p k L \<longleftrightarrow> fl_rep s L \<and> pmm_rep (block_pages k p) s L \<and> block_ok s {} k p"

text \<open>
  A free page whose struct has an order its number is aligned to is the head of a block of that
  order. This is what makes the test in \<open>try_coalesce\<close> sound although the structs of the upper
  halves keep their old order when a block is split.
\<close>

lemma free_head:
  assumes rep: "pmm_rep R s L" and b: "range_start s \<le> b" "b < range_end s" "b \<notin> R"
    and free: "pusage (pages s b) = Free" and dvd: "2 ^ porder (pages s b) dvd b"
  shows "b \<in> set (L (porder (pages s b)))"
proof -
  have "b \<in> free_set L" using pmm_repD(6) [OF rep] b free by blast
  then obtain i q where q: "i < max_order" "q \<in> set (L i)" "b \<in> block_pages i q" by (rule free_setE)
  have ok: "2 ^ i dvd q" and meta: "meta_ok (pages s) i q"
    using pmm_repD(4,5) [OF rep q(1,2)] by (auto simp: block_ok_def)
  have "i \<le> porder (pages s b)" using meta q(3) by (auto simp: meta_ok_def)
  then have "2 ^ i dvd b" using dvd power_le_dvd by blast
  then have "2 ^ i dvd b - q" using ok by simp
  moreover have "q \<le> b" "b - q < 2 ^ i" using q(3) by (auto simp: block_pages_def)
  ultimately have "b = q" using dvd_imp_le [of "2 ^ i" "b - q"] by (cases "b = q") auto
  then show ?thesis using meta dvd q(2) by (auto simp: meta_ok_def)
qed

lemma buddy_in_list:
  assumes inv: "free_inv s p k L" and b: "range_start s \<le> buddy_of k p" "buddy_of k p < range_end s"
    and free: "pusage (pages s (buddy_of k p)) = Free" and ord: "porder (pages s (buddy_of k p)) = k"
  shows "buddy_of k p \<in> set (L k)"
proof -
  have rep: "pmm_rep (block_pages k p) s L" and dvd: "2 ^ k dvd p"
    using inv by (auto simp: free_inv_def block_ok_def)
  have "buddy_of k p \<notin> block_pages k p"
    using buddy_disjoint [OF dvd] block_pages_head [of "buddy_of k p" k] by blast
  from free_head [OF rep b this free] show ?thesis using ord buddy_dvd [OF dvd] by simp
qed

lemma try_coalesce_Some:
  assumes inv: "free_inv s p k L" and k: "k < max_order"
    and t: "try_coalesce (p * page_size) k s = Some t"
  shows "t = unlink_order (buddy_of k p * page_size) k s \<and>
    free_inv t (merged k p) (Suc k) (L(k := remove1 (buddy_of k p) (L k))) \<and>
    block_pages k (buddy_of k p) \<subseteq> free_ppns s"
proof -
  let ?b = "buddy_of k p"
  have rep: "fl_rep s L" "pmm_rep (block_pages k p) s L" and ok: "block_ok s {} k p" and dvd: "2 ^ k dvd p"
    using inv by (auto simp: free_inv_def block_ok_def)
  have b: "range_start s \<le> ?b" "?b < range_end s" "pusage (pages s ?b) = Free" "porder (pages s ?b) = k"
    and t': "t = unlink_order (?b * page_size) k s"
    using t by (auto simp: try_coalesce_def flip_page_bit [OF dvd] Let_def split: if_splits)
  have mem: "?b \<in> set (L k)" by (rule buddy_in_list [OF inv b])
  have bok: "block_ok s (block_pages k p) k ?b" and meta: "meta_ok (pages s) k ?b"
    using pmm_repD(4,5) [OF rep(2) k mem] by auto
  have "fl_rep t (L(k := remove1 ?b (L k)))"
    unfolding t' by (rule unlink_order_rep [OF rep(1) pmm_rep_lists_ok [OF rep(2)] k mem])
  moreover have "pmm_rep (block_pages (Suc k) (merged k p)) t (L(k := remove1 ?b (L k)))"
    unfolding merged_pages [OF dvd] t'
    by (rule pmm_rep_frame [OF pmm_rep_take [OF rep(2) k mem]]) auto
  moreover have "block_ok t {} (Suc k) (merged k p)"
    using ok bok merged_dvd [OF dvd] not_dvd_ge [OF dvd]
    by (auto simp: block_ok_def t' merged_def buddy_of_def split: if_splits)
  moreover have "block_pages k ?b \<subseteq> free_ppns s"
    using bok meta by (auto simp: free_ppns_def block_ok_def meta_ok_def) (auto simp: block_pages_def)
  ultimately show ?thesis using t' by (simp add: free_inv_def)
qed

text \<open>Coalescing changes nothing but the free lists.\<close>

definition same_but_lists :: "pmm \<Rightarrow> pmm \<Rightarrow> bool" where
  "same_but_lists s t \<longleftrightarrow> t = s\<lparr>free_list := free_list t, links := links t\<rparr>"

lemma unlink_order_same: "same_but_lists s (unlink_order b k s)"
  by (simp add: same_but_lists_def unlink_order_def Let_def)

lemma same_but_lists_iff: "same_but_lists s t \<longleftrightarrow> (\<exists>fl lk. t = s\<lparr>free_list := fl, links := lk\<rparr>)"
  by (auto simp: same_but_lists_def)

lemma same_but_lists_trans:
  assumes "same_but_lists s t" "same_but_lists t u"
  shows "same_but_lists s u"
proof -
  obtain fl lk fl' lk' where "t = s\<lparr>free_list := fl, links := lk\<rparr>" "u = t\<lparr>free_list := fl', links := lk'\<rparr>"
    using assms unfolding same_but_lists_iff by blast
  then have "u = s\<lparr>free_list := fl', links := lk'\<rparr>" by simp
  then show ?thesis unfolding same_but_lists_iff by blast
qed

lemma same_but_lists_fields:
  assumes "same_but_lists s t"
  shows "pages t = pages s" "range_start t = range_start s" "range_end t = range_end s"
    "free_pages t = free_pages s" "free_ppns t = free_ppns s"
proof -
  obtain fl lk where "t = s\<lparr>free_list := fl, links := lk\<rparr>" using assms unfolding same_but_lists_def by blast
  then show "pages t = pages s" "range_start t = range_start s" "range_end t = range_end s"
    "free_pages t = free_pages s" "free_ppns t = free_ppns s" by (simp_all add: free_ppns_def)
qed

lemma coalesce_inv:
  assumes "free_inv s p k L"
  shows "\<exists>p' k' t L'. coalesce (p * page_size) k s = (p' * page_size, k', t) \<and> free_inv t p' k' L' \<and>
    k \<le> k' \<and> same_but_lists s t \<and> block_pages k p \<subseteq> block_pages k' p' \<and>
    block_pages k' p' \<subseteq> block_pages k p \<union> free_ppns s"
  using assms
proof (induction "max_order - k" arbitrary: s p k L rule: less_induct)
  case less
  show ?case
  proof (cases "k < max_order \<and> try_coalesce (p * page_size) k s \<noteq> None")
    case False
    then have "coalesce (p * page_size) k s = (p * page_size, k, s)"
      by (subst coalesce.simps) (auto split: option.splits)
    then show ?thesis using less.prems by (auto simp: same_but_lists_def)
  next
    case True
    then obtain t where k: "k < max_order" and t: "try_coalesce (p * page_size) k s = Some t" by auto
    have dvd: "2 ^ k dvd p" using less.prems by (simp add: free_inv_def block_ok_def)
    note inv = try_coalesce_Some [OF less.prems k t]
    have same: "same_but_lists s t" using inv unlink_order_same by simp
    have "coalesce (p * page_size) k s = coalesce (merged k p * page_size) (Suc k) t"
      by (subst coalesce.simps) (simp add: k t unset_page_bit [OF dvd])
    moreover obtain p' k' u L' where IH: "coalesce (merged k p * page_size) (Suc k) t = (p' * page_size, k', u)"
      "free_inv u p' k' L'" "Suc k \<le> k'" "same_but_lists t u"
      "block_pages (Suc k) (merged k p) \<subseteq> block_pages k' p'"
      "block_pages k' p' \<subseteq> block_pages (Suc k) (merged k p) \<union> free_ppns t"
      using less.hyps [OF _ inv [THEN conjunct2, THEN conjunct1]] k diff_less_mono2 [of k "Suc k" max_order]
      by blast
    ultimately show ?thesis
      using inv same_but_lists_trans [OF same IH(4)] same_but_lists_fields [OF same] merged_pages [OF dvd]
      by (intro exI [of _ p'] exI [of _ k'] exI [of _ u] exI [of _ L']) auto
  qed
qed

section \<open>Freeing\<close>

lemma account_free_Some:
  assumes "u \<noteq> Free" "u \<noteq> KernelSegment"
  obtains t where "account_free u n s = Some t" "links t = links s" "free_list t = free_list s"
    "range_start t = range_start s" "range_end t = range_end s" "pages t = pages s"
    "free_pages t = free_pages s" "free_ppns t = free_ppns s"
  using assms by (cases u) (auto simp: account_free_def free_ppns_def)

text \<open>The coalesced block enters the allocator.\<close>

lemma free_finish:
  assumes inv: "free_inv s p k L" and k: "k < max_order"
  defines "t \<equiv> link_order (p * page_size) k
    (s\<lparr>pages := set_pages (free_page_meta k) p (2 ^ k) (pages s)\<rparr>)"
  shows "fl_rep t (L(k := p # L k))" "pmm_rep {} t (L(k := p # L k))"
    "free_ppns t = free_ppns s \<union> block_pages k p"
proof -
  let ?s = "s\<lparr>pages := set_pages (free_page_meta k) p (2 ^ k) (pages s)\<rparr>"
  have rep: "fl_rep s L" "pmm_rep (block_pages k p) s L" and ok: "block_ok s {} k p"
    using inv by (auto simp: free_inv_def)
  have pgs: "pages ?s q = (if q \<in> block_pages k p then free_page_meta k (pages s q) else pages s q)" for q
    by (simp add: set_pages_block)
  show "fl_rep t (L(k := p # L k))"
    unfolding t_def using pmm_rep_lists_ok [OF rep(2)] pmm_rep_hole [OF rep(2) block_pages_head] k
    by (intro link_order_rep fl_rep_cong [OF rep(1)]) auto
  show "pmm_rep {} t (L(k := p # L k))"
  proof (rule pmm_rep_put)
    show "pmm_rep ({} \<union> block_pages k p) t L"
      unfolding Un_empty_left by (rule pmm_rep_frame [OF rep(2)]) (auto simp: t_def set_pages_block)
    show "block_ok t {} k p" using ok by (simp add: block_ok_def t_def)
    show "meta_ok (pages t) k p" by (simp add: meta_ok_def t_def set_pages_block free_page_meta_def)
  qed (rule k)
  have "block_pages k p \<subseteq> {range_start s..<range_end s}"
    using ok by (auto simp: block_ok_def block_pages_def)
  then show "free_ppns t = free_ppns s \<union> block_pages k p"
    by (auto simp: free_ppns_def t_def set_pages_block free_page_meta_def split: if_splits)
qed

lemma pmm_rep_add_hole:
  assumes rep: "pmm_rep {} s L" and disj: "R \<inter> free_ppns s = {}"
  shows "pmm_rep R s L"
proof -
  have "block_pages i q \<inter> R = {}" if "i < max_order" "q \<in> set (L i)" for i q
    using disj free_setI [of i q L] that unfolding pmm_rep_free_ppns [OF rep] by blast
  then show ?thesis using rep by (auto simp: pmm_rep_def block_ok_def)
qed

lemma page_free_start:
  assumes inv: "pmm_inv s" and ok: "block_ok s (free_ppns s) k p"
    and u: "pusage (pages s p) \<noteq> KernelSegment"
  obtains s1 L where "account_free (pusage (pages s p)) (2 ^ k) s = Some s1" "free_inv s1 p k L"
    "range_start s1 = range_start s" "range_end s1 = range_end s" "pages s1 = pages s"
    "free_pages s1 = card (free_ppns s)" "free_ppns s1 = free_ppns s"
proof -
  obtain L where rep: "fl_rep s L" "pmm_rep {} s L" and cnt: "free_pages s = card (free_ppns s)"
    using inv by (auto simp: pmm_inv_def)
  have disj: "block_pages k p \<inter> free_ppns s = {}" using ok by (simp add: block_ok_def)
  have "p \<notin> free_ppns s" using disj block_pages_head by blast
  moreover have "range_start s \<le> p" "p + 2 ^ k \<le> range_end s" using ok by (auto simp: block_ok_def)
  moreover have "p < p + 2 ^ k" by simp
  ultimately have unf: "pusage (pages s p) \<noteq> Free" by (simp add: free_ppns_def)
  obtain s1 where s1: "account_free (pusage (pages s p)) (2 ^ k) s = Some s1" "links s1 = links s"
    "free_list s1 = free_list s" "range_start s1 = range_start s" "range_end s1 = range_end s"
    "pages s1 = pages s" "free_pages s1 = free_pages s" "free_ppns s1 = free_ppns s"
    using account_free_Some [OF unf u] by blast
  have "pmm_rep (block_pages k p) s1 L"
    by (rule pmm_rep_frame [OF pmm_rep_add_hole [OF rep(2) disj]]) (auto simp: s1)
  moreover have "fl_rep s1 L" by (rule fl_rep_cong [OF rep(1)]) (auto simp: s1)
  ultimately have "free_inv s1 p k L" using ok s1 by (simp add: free_inv_def block_ok_def)
  then show ?thesis using that s1 cnt by simp
qed

lemma page_free_ok:
  assumes inv: "pmm_inv s" and ok: "block_ok s (free_ppns s) k p"
    and u: "pusage (pages s p) \<noteq> KernelSegment"
  shows "\<exists>t. page_free (p * page_size) k s = Ok t \<and> pmm_inv t \<and>
    free_ppns t = free_ppns s \<union> block_pages k p \<and>
    range_start t = range_start s \<and> range_end t = range_end s \<and>
    (\<forall>q. q \<notin> free_ppns t \<longrightarrow> pages t q = pages s q)"
proof -
  obtain s1 L where s1: "account_free (pusage (pages s p)) (2 ^ k) s = Some s1" "free_inv s1 p k L"
    "range_start s1 = range_start s" "range_end s1 = range_end s" "pages s1 = pages s"
    "free_pages s1 = card (free_ppns s)" "free_ppns s1 = free_ppns s"
    using page_free_start [OF assms] by blast
  obtain p' k' s2 L' where c: "coalesce (p * page_size) k s1 = (p' * page_size, k', s2)"
    "free_inv s2 p' k' L'" "same_but_lists s1 s2" "block_pages k p \<subseteq> block_pages k' p'"
    "block_pages k' p' \<subseteq> block_pages k p \<union> free_ppns s1"
    using coalesce_inv [OF s1(2)] by blast
  have k': "k' < max_order"
    using c(2) block_order_small [of _ s2 L' "{}" k' p'] by (fastforce simp: free_inv_def max_order_def)
  let ?s3 = "s2\<lparr>pages := set_pages (free_page_meta k') p' (2 ^ k') (pages s2)\<rparr>"
  let ?t = "link_order (p' * page_size) k' ?s3"
  let ?r = "?t\<lparr>free_pages := wrapping_add usize_max (free_pages ?t) (2 ^ k)\<rparr>"
  note fin = free_finish [OF c(2) k'] and same = same_but_lists_fields [OF c(3)]
  have ppns: "free_ppns ?r = free_ppns s \<union> block_pages k p"
    using fin(3) c(4,5) s1 same by (auto simp: free_ppns_def)
  moreover have "card (free_ppns ?r) = card (free_ppns s) + 2 ^ k"
    unfolding ppns using ok by (subst card_Un_disjoint) (auto simp: block_ok_def)
  moreover have "card (free_ppns ?r) \<le> 2 ^ 52"
    using free_ppns_small [OF fin(2)] by (simp add: free_ppns_def)
  ultimately have "free_pages ?r = card (free_ppns ?r)"
    using s1 same by (simp add: wrapping_add_small usize_max_def)
  moreover have "fl_rep ?r (L'(k' := p' # L' k'))" "pmm_rep {} ?r (L'(k' := p' # L' k'))"
    using fin(1,2) by (auto intro: fl_rep_cong pmm_rep_frame)
  ultimately have "pmm_inv ?r" by (auto simp: pmm_inv_def)
  moreover have "page_free (p * page_size) k s = Ok ?r"
    using s1(1) c(1) k' by (simp add: page_free_def Let_def)
  moreover have "pages ?r q = pages s q" if "q \<notin> free_ppns ?r" for q
    using that c(5) s1 same unfolding ppns by (auto simp: set_pages_block)
  ultimately show ?thesis using ppns s1 same by (intro exI [of _ ?r]) auto
qed

end
