(* ===== verification/Page_Source.thy ===== *)
theory Page_Source
  imports Pmm
begin

text \<open>
  The contract of the physical memory manager for its clients (slabs, page tables, anonymous
  memory, page cache) as the locale \<open>page_source\<close>, its interpretation on the buddy allocator, and
  the properties of the allocator: what one call does, what a sequence of calls keeps, and what
  marking a range of memory as free does.
\<close>

section \<open>The contract\<close>

definition releasable :: "pmm \<Rightarrow> nat \<Rightarrow> nat \<Rightarrow> bool" where
  "releasable s k p \<longleftrightarrow> block_ok s (free_ppns s) k p \<and> pusage (pages s p) \<noteq> KernelSegment"

datatype page_op = PAlloc nat page_usage | PFree nat

text \<open>
  A client holds a list of blocks (page number and order). An allocation that fails leaves it as it
  is; a free hands back the \<open>i\<close>-th block it holds.
\<close>

fun page_step :: "(nat \<Rightarrow> page_usage \<Rightarrow> 's \<Rightarrow> (pmm_error, nat \<times> 's) result) \<Rightarrow>
    (nat \<Rightarrow> nat \<Rightarrow> 's \<Rightarrow> (pmm_error, 's) result) \<Rightarrow> page_op \<Rightarrow>
    's \<times> (nat \<times> nat) list \<Rightarrow> (pmm_error, 's \<times> (nat \<times> nat) list) result" where
  "page_step alloc free (PAlloc k u) (s, live) =
     (case alloc k u s of
        Inr (b, t) \<Rightarrow> Ok (t, (b div page_size, k) # live)
      | Inl AllocError \<Rightarrow> Ok (s, live)
      | Inl Panic \<Rightarrow> Err Panic)"
| "page_step alloc free (PFree i) (s, live) =
     (if i < length live then
        (case free (fst (live ! i) * page_size) (snd (live ! i)) s of
           Inr t \<Rightarrow> Ok (t, take i live @ drop (Suc i) live)
         | Inl e \<Rightarrow> Err e)
      else Ok (s, live))"

fun page_run :: "(nat \<Rightarrow> page_usage \<Rightarrow> 's \<Rightarrow> (pmm_error, nat \<times> 's) result) \<Rightarrow>
    (nat \<Rightarrow> nat \<Rightarrow> 's \<Rightarrow> (pmm_error, 's) result) \<Rightarrow> page_op list \<Rightarrow>
    's \<times> (nat \<times> nat) list \<Rightarrow> (pmm_error, 's \<times> (nat \<times> nat) list) result" where
  "page_run alloc free [] st = Ok st"
| "page_run alloc free (op # ops) st =
     (case page_step alloc free op st of Inl e \<Rightarrow> Inl e | Inr st' \<Rightarrow> page_run alloc free ops st')"

fun page_op_ok :: "page_op \<Rightarrow> bool" where
  "page_op_ok (PAlloc k u) \<longleftrightarrow> k < max_order \<and> alloc_usage u"
| "page_op_ok (PFree i) \<longleftrightarrow> True"

definition live_pages :: "(nat \<times> nat) list \<Rightarrow> nat set" where
  "live_pages live = (\<Union>(p, k)\<in>set live. block_pages k p)"

text \<open>No page is in two blocks of the list.\<close>

fun live_disjoint :: "(nat \<times> nat) list \<Rightarrow> bool" where
  "live_disjoint [] \<longleftrightarrow> True"
| "live_disjoint ((p, k) # bs) \<longleftrightarrow> block_pages k p \<inter> live_pages bs = {} \<and> live_disjoint bs"

lemma live_pages_simps [simp]:
  "live_pages [] = {}" "live_pages (b # bs) = block_pages (snd b) (fst b) \<union> live_pages bs"
  "live_pages (xs @ ys) = live_pages xs \<union> live_pages ys"
  by (auto simp: live_pages_def)

lemma live_disjoint_append:
  "live_disjoint (xs @ ys) \<longleftrightarrow> live_disjoint xs \<and> live_disjoint ys \<and> live_pages xs \<inter> live_pages ys = {}"
  by (induction xs rule: live_disjoint.induct) auto

locale page_source =
  fixes inv :: "'s \<Rightarrow> bool"
    and free_of :: "'s \<Rightarrow> nat set"
    and owned :: "'s \<Rightarrow> nat \<Rightarrow> nat \<Rightarrow> bool"
    and alloc :: "nat \<Rightarrow> page_usage \<Rightarrow> 's \<Rightarrow> (pmm_error, nat \<times> 's) result"
    and free :: "nat \<Rightarrow> nat \<Rightarrow> 's \<Rightarrow> (pmm_error, 's) result"
  assumes alloc_ok: "inv s \<Longrightarrow> k < max_order \<Longrightarrow> alloc_usage u \<Longrightarrow> alloc k u s = Ok (b, t) \<Longrightarrow>
      \<exists>p. b = p * page_size \<and> inv t \<and> block_pages k p \<subseteq> free_of s \<and>
        free_of t = free_of s - block_pages k p \<and> owned t k p \<and>
        (\<forall>k' p'. owned s k' p' \<longrightarrow> owned t k' p')"
    and alloc_err: "inv s \<Longrightarrow> k < max_order \<Longrightarrow> alloc_usage u \<Longrightarrow> alloc k u s = Err e \<Longrightarrow> e = AllocError"
    and free_ok: "inv s \<Longrightarrow> owned s k p \<Longrightarrow> \<exists>t. free (p * page_size) k s = Ok t \<and> inv t \<and>
        free_of t = free_of s \<union> block_pages k p \<and>
        (\<forall>k' p'. owned s k' p' \<and> block_pages k' p' \<inter> block_pages k p = {} \<longrightarrow> owned t k' p')"
    and owned_not_free: "owned s k p \<Longrightarrow> block_pages k p \<inter> free_of s = {}"
begin

definition client_ok :: "'s \<times> (nat \<times> nat) list \<Rightarrow> bool" where
  "client_ok st \<longleftrightarrow> inv (fst st) \<and> live_disjoint (snd st) \<and>
     (\<forall>(p, k)\<in>set (snd st). owned (fst st) k p)"

lemma client_not_free: "client_ok (s, live) \<Longrightarrow> live_pages live \<inter> free_of s = {}"
  using owned_not_free by (fastforce simp: client_ok_def live_pages_def)

lemma alloc_step:
  assumes ok: "client_ok (s, live)" and op: "k < max_order" "alloc_usage u"
  shows "\<exists>t live'. page_step alloc free (PAlloc k u) (s, live) = Ok (t, live') \<and> client_ok (t, live') \<and>
     free_of t \<union> live_pages live' = free_of s \<union> live_pages live"
proof (cases "alloc k u s")
  case (Inl e)
  then have "e = AllocError" using ok alloc_err [OF _ op Inl] by (simp add: client_ok_def)
  then show ?thesis using Inl ok by simp
next
  case (Inr bt)
  then obtain b t where bt: "alloc k u s = Ok (b, t)" by (cases bt) auto
  have "inv s" using ok by (simp add: client_ok_def)
  then obtain p where p: "b = p * page_size" "inv t" "block_pages k p \<subseteq> free_of s"
    "free_of t = free_of s - block_pages k p" "owned t k p" "\<forall>k' p'. owned s k' p' \<longrightarrow> owned t k' p'"
    using alloc_ok [OF _ op bt] by blast
  have "client_ok (t, (p, k) # live)"
    using p ok client_not_free [OF ok] by (auto simp: client_ok_def)
  then show ?thesis using p bt by auto
qed

lemma free_step:
  assumes ok: "client_ok (s, live)" and i: "i < length live"
  shows "\<exists>t live'. page_step alloc free (PFree i) (s, live) = Ok (t, live') \<and> client_ok (t, live') \<and>
     free_of t \<union> live_pages live' = free_of s \<union> live_pages live"
proof -
  obtain p k where pk: "live ! i = (p, k)" by fastforce
  have split: "live = take i live @ (p, k) # drop (Suc i) live" using id_take_nth_drop [OF i] pk by simp
  let ?rest = "take i live @ drop (Suc i) live"
  have own: "owned s k p" "inv s" using ok i pk nth_mem [OF i] by (auto simp: client_ok_def)
  then obtain t where t: "free (p * page_size) k s = Ok t" "inv t"
    "free_of t = free_of s \<union> block_pages k p"
    "\<forall>k' p'. owned s k' p' \<and> block_pages k' p' \<inter> block_pages k p = {} \<longrightarrow> owned t k' p'"
    using free_ok by blast
  have "live_disjoint (take i live @ (p, k) # drop (Suc i) live)" using ok split by (simp add: client_ok_def)
  then have disj: "live_disjoint ?rest" "live_pages ?rest \<inter> block_pages k p = {}"
    by (auto simp: live_disjoint_append)
  moreover have "owned t k' p'" if "(p', k') \<in> set ?rest" for p' k'
  proof -
    have "(p', k') \<in> set live" using that by (auto dest: in_set_takeD in_set_dropD)
    moreover have "block_pages k' p' \<subseteq> live_pages ?rest" using that by (auto simp: live_pages_def)
    ultimately show ?thesis using t(4) disj(2) ok by (fastforce simp: client_ok_def)
  qed
  ultimately have "client_ok (t, ?rest)" using t(2) by (auto simp: client_ok_def)
  moreover have "live_pages live = live_pages ?rest \<union> block_pages k p" by (subst split) auto
  ultimately show ?thesis using t i pk by auto
qed

lemma run_safe:
  assumes "client_ok (s, live)" "\<forall>op\<in>set ops. page_op_ok op"
  shows "\<exists>t live'. page_run alloc free ops (s, live) = Ok (t, live') \<and> client_ok (t, live') \<and>
     free_of t \<union> live_pages live' = free_of s \<union> live_pages live"
  using assms
proof (induction ops arbitrary: s live)
  case (Cons op ops)
  have "\<exists>t live'. page_step alloc free op (s, live) = Ok (t, live') \<and> client_ok (t, live') \<and>
     free_of t \<union> live_pages live' = free_of s \<union> live_pages live"
  proof (cases op)
    case (PAlloc k u)
    then show ?thesis using alloc_step Cons.prems by simp
  next
    case (PFree i)
    then show ?thesis using free_step Cons.prems by (cases "i < length live") auto
  qed
  then show ?case using Cons by force
qed simp

end

section \<open>The buddy allocator keeps the contract\<close>

lemma page_alloc_cases:
  assumes "pmm_inv s" "order < max_order" "alloc_usage u"
  obtains (fail) "page_alloc order u s = Err AllocError" "\<forall>k\<in>{order..<max_order}. free_list s ! k = paddr_max"
  | (ok) p t where "page_alloc order u s = Ok (p * page_size, t)" "2 ^ order dvd p"
    "block_pages order p \<subseteq> free_ppns s" "pmm_inv t" "free_ppns t = free_ppns s - block_pages order p"
    "pages t = set_pages (alloc_page_meta order u) p (2 ^ order) (pages s)"
    "range_start t = range_start s" "range_end t = range_end s"
    "\<exists>k\<in>{order..<max_order}. free_list s ! k \<noteq> paddr_max"
proof (cases "find_split_order (free_list s) order")
  case None
  then have "page_alloc order u s = Err AllocError" using assms(2) by (simp add: page_alloc_def)
  then show ?thesis using fail None find_split_order_None [OF assms(2)] by blast
next
  case (Some c)
  have "\<exists>k\<in>{order..<max_order}. free_list s ! k \<noteq> paddr_max"
    using find_split_order_Some [OF Some] assms(2) by auto
  then show ?thesis using ok page_alloc_finds [OF assms Some] by blast
qed

lemma block_in_range:
  assumes "block_pages k p \<subseteq> free_ppns s"
  shows "range_start s \<le> p" "p + 2 ^ k \<le> range_end s"
proof -
  have "(0::nat) < 2 ^ k" by simp
  then have "p + 2 ^ k - 1 \<in> block_pages k p" unfolding block_pages_def atLeastLessThan_iff by linarith
  then have "p \<in> free_ppns s" "p + 2 ^ k - 1 \<in> free_ppns s" using assms block_pages_head by blast+
  then have "range_start s \<le> p" "p + 2 ^ k - 1 < range_end s" by (auto simp: free_ppns_def)
  then show "range_start s \<le> p" "p + 2 ^ k \<le> range_end s" by linarith+
qed

interpretation pmm: page_source pmm_inv free_ppns releasable page_alloc page_free
proof unfold_locales
  fix s k u b t
  assume inv: "pmm_inv s" and k: "k < max_order" and u: "alloc_usage u" and r: "page_alloc k u s = Ok (b, t)"
  show "\<exists>p. b = p * page_size \<and> pmm_inv t \<and> block_pages k p \<subseteq> free_ppns s \<and>
      free_ppns t = free_ppns s - block_pages k p \<and> releasable t k p \<and>
      (\<forall>k' p'. releasable s k' p' \<longrightarrow> releasable t k' p')"
  proof (cases rule: page_alloc_cases [OF inv k u, case_names fail ok])
    case (ok p t')
    then have "releasable t k p"
      using r u block_in_range [OF ok(3)]
      by (auto simp: releasable_def block_ok_def set_pages_block alloc_page_meta_def alloc_usage_def)
    moreover have "releasable t k' p'" if old: "releasable s k' p'" for k' p'
    proof -
      have "block_pages k' p' \<inter> free_ppns s = {}" using old by (simp add: releasable_def block_ok_def)
      then have "p' \<notin> block_pages k p" using ok(3) block_pages_head by blast
      then show ?thesis using old ok r by (auto simp: releasable_def block_ok_def set_pages_block)
    qed
    ultimately show ?thesis using ok r by auto
  qed (use r in simp)
next
  fix s k u e
  assume inv: "pmm_inv s" and k: "k < max_order" and u: "alloc_usage u" and r: "page_alloc k u s = Err e"
  show "e = AllocError" by (cases rule: page_alloc_cases [OF inv k u, case_names fail ok]) (use r in auto)
next
  fix s k p
  assume inv: "pmm_inv s" and own: "releasable s k p"
  then obtain t where t: "page_free (p * page_size) k s = Ok t" "pmm_inv t"
    "free_ppns t = free_ppns s \<union> block_pages k p" "range_start t = range_start s" "range_end t = range_end s"
    "\<And>q. q \<notin> free_ppns t \<Longrightarrow> pages t q = pages s q"
    using page_free_ok [OF inv] unfolding releasable_def by blast
  have "releasable t k' p'" if old: "releasable s k' p'" "block_pages k' p' \<inter> block_pages k p = {}" for k' p'
  proof -
    have "block_pages k' p' \<inter> free_ppns t = {}" using old t(3) by (auto simp: releasable_def block_ok_def)
    moreover from this have "pages t p' = pages s p'" by (intro t(6)) (use block_pages_head in blast)
    ultimately show ?thesis using old t by (simp add: releasable_def block_ok_def)
  qed
  then show "\<exists>t. page_free (p * page_size) k s = Ok t \<and> pmm_inv t \<and>
      free_ppns t = free_ppns s \<union> block_pages k p \<and>
      (\<forall>k' p'. releasable s k' p' \<and> block_pages k' p' \<inter> block_pages k p = {} \<longrightarrow> releasable t k' p')"
    using t by blast
qed (simp add: releasable_def block_ok_def)

section \<open>Properties\<close>

text \<open>
  A memory of four pages, before and after its pages are handed to the allocator as one block of
  order 2.
\<close>

definition pmm_demo0 :: pmm where
  "pmm_demo0 = pmm_empty\<lparr>range_end := 4\<rparr>"

definition pmm_demo :: pmm where
  "pmm_demo = (case page_free 0 2 pmm_demo0 of Inl _ \<Rightarrow> pmm_demo0 | Inr t \<Rightarrow> t)"

lemma pmm_demo0_inv: "pmm_inv pmm_demo0" "free_ppns pmm_demo0 = {}"
proof -
  have "fl_rep pmm_demo0 (\<lambda>_. [])" by (simp add: fl_rep_def pmm_demo0_def pmm_empty_def)
  moreover have "pmm_rep {} pmm_demo0 (\<lambda>_. [])"
    by (simp add: pmm_rep_def pmm_demo0_def pmm_empty_def blocks_disjoint_def zeroed_page_def)
  moreover show "free_ppns pmm_demo0 = {}"
    by (simp add: free_ppns_def pmm_demo0_def pmm_empty_def zeroed_page_def)
  ultimately show "pmm_inv pmm_demo0"
    unfolding pmm_inv_def by (auto simp: pmm_demo0_def pmm_empty_def)
qed

lemma pmm_demo0_block: "block_ok pmm_demo0 (free_ppns pmm_demo0) 2 0" "pusage (pages pmm_demo0 0) \<noteq> KernelSegment"
  by (simp_all add: block_ok_def pmm_demo0_inv) (simp_all add: pmm_demo0_def pmm_empty_def zeroed_page_def)

lemma pmm_demo_inv: "pmm_inv pmm_demo" "free_ppns pmm_demo = {0, 1, 2, 3}"
proof -
  obtain t where t: "page_free (0 * page_size) 2 pmm_demo0 = Ok t" "pmm_inv t"
    "free_ppns t = free_ppns pmm_demo0 \<union> block_pages 2 0"
    using page_free_ok [OF pmm_demo0_inv(1) pmm_demo0_block] by blast
  then have "pmm_demo = t" by (simp add: pmm_demo_def)
  then show "pmm_inv pmm_demo" "free_ppns pmm_demo = {0, 1, 2, 3}"
    using t pmm_demo0_inv(2) by (auto simp: block_pages_def)
qed

lemma div_less_interval:
  assumes "2 ^ k dvd p" "p \<le> q" "q < p + (2::nat) ^ k"
  shows "q div 2 ^ k = p div 2 ^ k"
proof -
  obtain c where "p = 2 ^ k * c" using assms(1) by (auto simp: dvd_def)
  then have "q = (q - p) + c * 2 ^ k" "q - p < 2 ^ k" using assms(2,3) by auto
  moreover have "(r + c * 2 ^ k) div 2 ^ k = c" if "r < (2::nat) ^ k" for r using that by simp
  ultimately have "q div 2 ^ k = c" by metis
  then show ?thesis using \<open>p = 2 ^ k * c\<close> by simp
qed

text \<open>
  C1. An allocation of a valid usage either fails with \<open>AllocError\<close>, exactly when every free list
  from the requested order up is empty, or returns the address of an aligned block all of whose
  pages were free. The block's pages leave the free set and nothing else does, its page structs
  get the usage, the order, a zero reference count and no memory object, no other page struct
  changes, and the invariant of the allocator (free lists, page structs and the count of free
  pages agree) holds again.
\<close>

theorem page_alloc_correct:
  assumes "pmm_inv s" "order < max_order" "alloc_usage usage"
  shows "case page_alloc order usage s of
      Inl e \<Rightarrow> e = AllocError \<and> (\<forall>k\<in>{order..<max_order}. free_list s ! k = paddr_max)
    | Inr (b, t) \<Rightarrow> (\<exists>k\<in>{order..<max_order}. free_list s ! k \<noteq> paddr_max) \<and> pmm_inv t \<and>
        (\<exists>p. b = p * page_size \<and> 2 ^ order dvd p \<and> block_pages order p \<subseteq> free_ppns s \<and>
           free_ppns t = free_ppns s - block_pages order p \<and>
           pages t = (\<lambda>q. if q \<in> block_pages order p
             then (pages s q)\<lparr>pusage := usage, porder := order, refcount := 0, memobject := None\<rparr>
             else pages s q))"
proof (cases rule: page_alloc_cases [OF assms, case_names fail ok])
  case (ok p t)
  have "pages t = (\<lambda>q. if q \<in> block_pages order p
      then (pages s q)\<lparr>pusage := usage, porder := order, refcount := 0, memobject := None\<rparr>
      else pages s q)"
    using ok(6) by (simp add: fun_eq_iff set_pages_block alloc_page_meta_def)
  then show ?thesis using ok by auto
qed simp

lemma page_alloc_single:
  assumes "pmm_inv s" "alloc_usage u" "free_ppns s \<noteq> {}"
  obtains b t where "page_alloc 0 u s = Ok (b, t)"
proof -
  obtain L where rep: "fl_rep s L" "pmm_rep {} s L" using assms(1) by (auto simp: pmm_inv_def)
  obtain q where "q \<in> free_set L" using assms(3) pmm_rep_free_ppns [OF rep(2)] by blast
  then obtain k p where k: "k < max_order" "p \<in> set (L k)" by (auto elim: free_setE)
  then have "free_list s ! k \<noteq> paddr_max" using fl_rep_head [OF rep(1) k(1)] by (cases "L k") auto
  then have "find_split_order (free_list s) 0 \<noteq> None"
    using find_split_order_None [of 0 "free_list s"] k(1) by (auto simp: max_order_def)
  then show ?thesis using page_alloc_finds [OF assms(1) _ assms(2)] that by (fastforce simp: max_order_def)
qed

theorem page_alloc_correct_witness:
  "\<exists>p t. page_alloc 0 KernelAnon pmm_demo = Ok (p * page_size, t) \<and> pmm_inv t \<and>
     p \<in> {0, 1, 2, 3} \<and> free_ppns t = {0, 1, 2, 3} - {p}"
proof -
  obtain b t where "page_alloc 0 KernelAnon pmm_demo = Ok (b, t)"
    using page_alloc_single [of pmm_demo KernelAnon] pmm_demo_inv by (auto simp: alloc_usage_def)
  moreover have "0 < max_order" by (simp add: max_order_def)
  ultimately show ?thesis
    using page_alloc_correct [of pmm_demo 0 KernelAnon] pmm_demo_inv by (auto simp: alloc_usage_def block_pages_def)
qed



text \<open>
  C10. Whatever sequence of allocations and frees a client makes, freeing only blocks it holds, the
  allocator never panics, the blocks held at the end are pairwise disjoint and disjoint from the
  free pages, and no page is lost or invented: the free pages and the pages held are together the
  pages that were free at the start.
\<close>

theorem page_run_safe:
  assumes "pmm_inv s" "\<forall>op\<in>set ops. page_op_ok op"
  shows "\<exists>t live. page_run page_alloc page_free ops (s, []) = Ok (t, live) \<and> pmm_inv t \<and>
    live_disjoint live \<and> live_pages live \<inter> free_ppns t = {} \<and>
    free_ppns t \<union> live_pages live = free_ppns s"
proof -
  have "pmm.client_ok (s, [])" using assms by (simp add: pmm.client_ok_def)
  from pmm.run_safe [OF this assms(2)] obtain t live
    where t: "page_run page_alloc page_free ops (s, []) = Ok (t, live)" "pmm.client_ok (t, live)"
      "free_ppns t \<union> live_pages live = free_ppns s" by auto
  then show ?thesis using pmm.client_not_free [OF t(2)] by (auto simp: pmm.client_ok_def)
qed

theorem page_run_safe_witness:
  "\<exists>t live. page_run page_alloc page_free [PAlloc 0 KernelAnon, PAlloc 1 UserAnon, PFree 1] (pmm_demo, []) = Ok (t, live) \<and>
    pmm_inv t \<and> live_disjoint live \<and> live_pages live \<inter> free_ppns t = {} \<and>
    free_ppns t \<union> live_pages live = {0, 1, 2, 3}"
  using page_run_safe [of pmm_demo "[PAlloc 0 KernelAnon, PAlloc 1 UserAnon, PFree 1]"] pmm_demo_inv
  by (simp add: max_order_def alloc_usage_def)

section \<open>Ranges, orders and page structs\<close>

text \<open>The block that one turn of the loop in \<open>mark_free\<close> frees.\<close>

lemma mark_order:
  assumes "a < b" "b \<le> 2 ^ 52"
  defines "k \<equiv> min (trailing_zeros (a * page_size)) (ilog2 (b * page_size - a * page_size)) - page_size_log"
  shows "2 ^ k dvd a" "a + 2 ^ k \<le> b"
proof -
  have len: "b * page_size - a * page_size = (b - a) * page_size" by (simp add: diff_mult_distrib)
  have ps: "(2::nat) ^ page_size_log = page_size" by (simp add: page_size_def page_size_log_def)
  have "2 ^ page_size_log \<le> (b - a) * page_size" using assms(1) by (simp add: ps)
  then have il: "page_size_log \<le> ilog2 ((b - a) * page_size)" by (rule ilog2_ge)
  have tz: "page_size_log \<le> trailing_zeros (a * page_size)"
  proof (cases "a = 0")
    case True
    then show ?thesis by (simp add: page_size_log_def trailing_zeros.simps)
  next
    case False
    then show ?thesis by (intro trailing_zeros_ge) (auto simp: ps)
  qed
  define e where "e = min (trailing_zeros (a * page_size)) (ilog2 ((b - a) * page_size))"
  have e: "k = e - page_size_log" "page_size_log \<le> e" using il tz by (auto simp: k_def e_def len)
  then have pow: "(2::nat) ^ e = 2 ^ k * page_size" by (simp add: ps [symmetric] power_add [symmetric])
  have "2 ^ e dvd a * page_size"
  proof (cases "a = 0")
    case False
    then have "2 ^ trailing_zeros (a * page_size) dvd a * page_size" by (intro trailing_zeros_dvd) simp
    then show ?thesis using power_le_dvd unfolding e_def by (meson min.cobounded1)
  qed simp
  then show "2 ^ k dvd a" unfolding pow by simp
  have "(2::nat) ^ e \<le> 2 ^ ilog2 ((b - a) * page_size)" unfolding e_def by (intro power_increasing) auto
  also have "\<dots> \<le> (b - a) * page_size" using ilog2_bounds [of "(b - a) * page_size"] assms(1) by simp
  finally have "2 ^ k \<le> b - a" unfolding pow by simp
  then show "a + 2 ^ k \<le> b" using assms(1) by simp
qed

text \<open>
  C36. Marking a page-aligned range as free, whose pages are all inside the managed range, not free
  yet and not part of the kernel image, ends without a panic; exactly the pages of the range become
  free, and the invariant of the allocator holds again.
\<close>

theorem mark_free_correct:
  assumes "pmm_inv s" "range_start s \<le> a" "b \<le> range_end s"
    and "\<forall>q\<in>{a..<b}. pusage (pages s q) \<notin> {Free, KernelSegment}"
  shows "\<exists>t. mark_free (a * page_size) (b * page_size) s = Ok t \<and> pmm_inv t \<and>
    free_ppns t = free_ppns s \<union> {a..<b}"
  using assms
proof (induction "b - a" arbitrary: a s rule: less_induct)
  case less
  show ?case
  proof (cases "a < b")
    case False
    then show ?thesis using less.prems by (subst mark_free.simps) (simp add: not_less)
  next
    case True
    define k where "k = min (trailing_zeros (a * page_size)) (ilog2 (b * page_size - a * page_size)) - page_size_log"
    have "b \<le> 2 ^ 52" using less.prems(1,3) pmm_repD(1) by (force simp: pmm_inv_def)
    then have k: "2 ^ k dvd a" "a + 2 ^ k \<le> b" unfolding k_def by (auto intro: mark_order [OF True])
    have sub: "block_pages k a \<subseteq> {a..<b}" "(0::nat) < 2 ^ k" using k by (auto simp: block_pages_def)
    then have "block_ok s (free_ppns s) k a" "pusage (pages s a) \<noteq> KernelSegment"
      using less.prems k True by (auto simp: block_ok_def free_ppns_def)
    then obtain t where t: "page_free (a * page_size) k s = Ok t" "pmm_inv t"
      "free_ppns t = free_ppns s \<union> block_pages k a" "range_start t = range_start s"
      "range_end t = range_end s" "\<forall>q. q \<notin> free_ppns t \<longrightarrow> pages t q = pages s q"
      using page_free_ok [OF less.prems(1)] by blast
    have "pages t q = pages s q" if q: "q \<in> {a + 2 ^ k..<b}" for q
    proof -
      have "q \<notin> free_ppns t" using q t(3) less.prems(4) by (auto simp: free_ppns_def block_pages_def)
      then show ?thesis using t(6) by blast
    qed
    then have rest: "\<forall>q\<in>{a + 2 ^ k..<b}. pusage (pages t q) \<notin> {Free, KernelSegment}"
      using less.prems(4) by auto
    have "b - (a + 2 ^ k) < b - a" using sub(2) True by linarith
    from less.hyps [OF this t(2) _ _ rest] obtain u where u: "mark_free ((a + 2 ^ k) * page_size) (b * page_size) t = Ok u" "pmm_inv u"
      "free_ppns u = free_ppns t \<union> {a + 2 ^ k..<b}"
      using less.prems(2,3) t(4,5) by auto
    have "a * page_size + page_size * 2 ^ k = (a + 2 ^ k) * page_size" by (simp add: algebra_simps)
    then have "mark_free (a * page_size) (b * page_size) s = Ok u"
      using True t(1) u(1) by (subst mark_free.simps) (simp add: Let_def k_def [symmetric])
    moreover have "free_ppns u = free_ppns s \<union> {a..<b}"
      using u(3) t(3) k by (auto simp: block_pages_def)
    ultimately show ?thesis using u(2) by blast
  qed
qed

theorem mark_free_correct_witness:
  "\<exists>t. mark_free (1 * page_size) (4 * page_size) pmm_demo0 = Ok t \<and> pmm_inv t \<and>
    free_ppns t = free_ppns pmm_demo0 \<union> {1..<4}"
  by (rule mark_free_correct [OF pmm_demo0_inv(1)])
    (simp_all add: pmm_demo0_def pmm_empty_def zeroed_page_def)

text \<open>
  \<open>size_to_order\<close> gives the smallest order whose blocks hold the bytes: a block of that order
  is large enough and one of any smaller order is too small.
\<close>

theorem size_to_order_least:
  assumes "0 < n"
  shows "n \<le> order_to_size (size_to_order n) \<and> (\<forall>k. k < size_to_order n \<longrightarrow> order_to_size k < n)"
proof -
  let ?m = "div_ceil n page_size"
  obtain k where k: "next_power_of_two ?m = 2 ^ k" using next_power_of_two_pow by blast
  then have ord: "size_to_order n = k" by (simp add: size_to_order_def)
  have "n \<le> ?m * page_size" by (rule div_ceil_mult) simp
  also have "\<dots> \<le> order_to_size k"
    using next_power_of_two_ge [of ?m] k by (simp add: order_to_size_def)
  finally have "n \<le> order_to_size (size_to_order n)" using ord by simp
  moreover have "order_to_size j < n" if "j < k" for j
  proof -
    have "\<not> ?m \<le> 2 ^ j" using next_power_of_two_least [of ?m j] k that by auto
    then have "page_size * 2 ^ j \<le> page_size * (?m - 1)" by (intro mult_left_mono) auto
    also have "\<dots> < n" using div_ceil_less [of page_size n] assms by (simp add: mult.commute)
    finally show ?thesis by (simp add: order_to_size_def)
  qed
  ultimately show ?thesis using ord by simp
qed

theorem size_to_order_least_witness:
  "(0::nat) < 5000 \<and> size_to_order 5000 = 1 \<and> 5000 \<le> order_to_size 1 \<and> order_to_size 0 < 5000"
proof -
  have "size_to_order 5000 = 1"
    by (simp add: size_to_order_def div_ceil_def page_size_def next_power_of_two_def ilog2.simps trailing_zeros.simps)
  then show ?thesis using size_to_order_least [of 5000] by auto
qed

text \<open>
  The struct of a page leads back to the page: the physical address computed from the virtual
  address of a page's struct is the address of the page, for every page of the managed range, with
  all the wrapping arithmetic of the source.
\<close>

theorem page_struct_roundtrip:
  assumes "0 < size_page" "range_start s \<le> ppn" "ppn < range_end s" "range_end s \<le> 2 ^ 52"
    and "(range_end s - range_start s) * size_page \<le> usize_max"
    and "structs_paddr s \<le> usize_max" "hhdm \<le> usize_max"
  shows "page_paddr size_page hhdm s (page_struct_vaddr size_page hhdm s (ppn * page_size)) = ppn * page_size"
proof -
  let ?off = "(ppn - range_start s) * size_page"
  have "?off \<le> (range_end s - range_start s) * size_page"
    using assms(2,3) by (intro mult_right_mono) auto
  then have off: "?off \<le> usize_max" using assms(5) by linarith
  have ppn: "ppn \<le> usize_max" "ppn * page_size \<le> usize_max"
    using assms(3,4) by (simp_all add: usize_max_def page_size_def)
  have "wrapping_sub usize_max (wrapping_sub usize_max
      (wrapping_add usize_max (wrapping_add usize_max (structs_paddr s) hhdm) ?off) (structs_paddr s)) hhdm = ?off"
    by (rule wrapping_cancel [OF assms(6,7) off])
  moreover have "wrapping_sub usize_max ppn (range_start s) = ppn - range_start s"
    using assms(2) ppn by (simp add: wrapping_sub_ge)
  moreover have "?off mod Suc usize_max = ?off" using off by simp
  ultimately have "page_paddr size_page hhdm s (page_struct_vaddr size_page hhdm s (ppn * page_size)) =
      wrapping_add usize_max (?off div size_page) (range_start s) * page_size mod Suc usize_max"
    by (simp add: page_paddr_def page_struct_vaddr_def Let_def)
  also have "?off div size_page = ppn - range_start s" using assms(1) by simp
  also have "wrapping_add usize_max (ppn - range_start s) (range_start s) = ppn"
    using assms(2) ppn by (simp add: wrapping_add_small)
  also have "ppn * page_size mod Suc usize_max = ppn * page_size" using ppn(2) by simp
  finally show ?thesis .
qed

theorem page_struct_roundtrip_witness:
  "page_paddr 32 (2 ^ 63) pmm_demo0 (page_struct_vaddr 32 (2 ^ 63) pmm_demo0 (3 * page_size)) = 3 * page_size"
  by (rule page_struct_roundtrip) (simp_all add: pmm_demo0_def pmm_empty_def usize_max_def)

text \<open>
  From any page of an allocated block, \<open>page_struct_base\<close> finds the first page of the block and
  its order.
\<close>

theorem page_struct_base_alloc:
  assumes "pmm_inv s" "order < max_order" "alloc_usage usage"
    and alloc: "page_alloc order usage s = Ok (b, t)" and q: "q \<in> block_pages order (b div page_size)"
  shows "page_struct_base t (q * page_size) = (b div page_size, order)"
proof (cases rule: page_alloc_cases [OF assms(1-3), case_names fail ok])
  case (ok p t')
  have bt: "b = p * page_size" "t' = t" using ok(1) alloc by auto
  have q': "q \<in> block_pages order p" using q bt by simp
  have "porder (pages t q) = order" using ok(6) bt q' by (simp add: set_pages_block alloc_page_meta_def)
  moreover have "q div 2 ^ order = p div 2 ^ order"
    using ok(2) q' div_less_interval [of order p q] by (simp add: block_pages_def)
  then have "push_bit (order + page_size_log) (drop_bit (order + page_size_log) (q * page_size)) = p * page_size"
    using ok(2) page_pow [of order]
    by (simp add: push_bit_eq_mult drop_bit_eq_div add.commute mult.assoc [symmetric])
  moreover have "(q * page_size - p * page_size) div page_size = q - p"
    by (simp add: diff_mult_distrib [symmetric])
  ultimately show ?thesis
    using bt q' by (simp add: page_struct_base_def Let_def block_pages_def)
qed (use alloc in simp)

theorem page_struct_base_alloc_witness:
  "\<exists>b t. page_alloc 0 KernelAnon pmm_demo = Ok (b, t) \<and>
     page_struct_base t (b div page_size * page_size) = (b div page_size, 0)"
proof -
  obtain b t where bt: "page_alloc 0 KernelAnon pmm_demo = Ok (b, t)"
    using page_alloc_single [of pmm_demo KernelAnon] pmm_demo_inv by (auto simp: alloc_usage_def)
  show ?thesis
    using page_struct_base_alloc [OF pmm_demo_inv(1) _ _ bt, of "b div page_size"] bt
    by (simp add: max_order_def alloc_usage_def)
qed

text \<open>
  Splitting writes the new order into the struct of the lower half, which is allocated, and not of
  the upper half, as the comment in the source has it. The upper half keeps the order of the block
  it was split from, so the two halves are not merged again when the lower one is freed.
\<close>

lemma split_halves_not_merged:
  assumes inv: "split_inv s p (Suc d) L" and d: "Suc d < max_order"
    and t: "pages t (p + 2 ^ d) = pages (split_block order (Suc d) s) (p + 2 ^ d)"
  shows "try_coalesce (p * page_size) d t = None"
proof -
  have "2 ^ Suc d dvd p" using inv by (simp add: split_inv_def block_ok_def)
  then have "2 ^ d dvd p" "buddy_of d p = p + 2 ^ d" using power_le_dvd [of 2 "Suc d" p d] by (auto simp: buddy_of_def)
  moreover have "porder (pages t (p + 2 ^ d)) \<ge> Suc d"
  proof -
    have "pages (split_block order (Suc d) s) (p + 2 ^ d) = pages s (p + 2 ^ d)"
      using split_block_same [OF inv d, of order] by (auto simp: same_but_order_def)
    then show ?thesis using inv t by (auto simp: split_inv_def block_pages_def)
  qed
  ultimately show ?thesis by (auto simp: try_coalesce_def flip_page_bit Let_def)
qed

text \<open>
  \<open>init\<close> computes the number of metadata pages from a length in bytes. With an early pool inside
  the memory, the metadata then covers more than the pool, and no page of it becomes free.
\<close>

lemma pmm_init_early_lost:
  assumes "0 < size_page" "fst mem \<le> fst early" "fst early \<le> snd early" "snd early \<le> snd mem"
    and init: "pmm_init size_page mem early s = Ok t"
  shows "free_pages t = free_pages s \<and> free_list t = free_list s"
proof -
  let ?n = "snd mem - fst mem"
  have "?n \<le> size_page * ?n" using assms(1) by simp
  also have "\<dots> \<le> div_ceil (size_page * ?n) page_size * page_size" by (rule div_ceil_mult) simp
  finally have "\<not> snd early > fst early + div_ceil (size_page * ?n) page_size * page_size"
    using assms by linarith
  then show ?thesis
    using init by (auto simp: pmm_init_def Let_def mark_free.simps split: if_splits)
qed

end
