(* ===== verification/Intrusive_List.thy ===== *)
theory Intrusive_List
  imports Badger_Prelude
begin

text \<open>
  The intrusive doubly linked list of \<open>src/util/list.rs\<close>. An item is identified with the address of
  the node inside it (\<open>from_node\<close> and \<open>list_node\<close> add and subtract a constant). A null pointer is 0
  and marks a node that is in no list; the pointer 1 ends a list, so a node in a list never has a
  null link. The state is the memory of nodes and the list header.

  The operations are shown to implement those of a list of addresses.
\<close>

section \<open>Model\<close>

record ilnode =
  iprev :: nat
  inext :: nat

type_synonym il_mem = "nat \<Rightarrow> ilnode"

definition ilnode_new :: ilnode where
  "ilnode_new = \<lparr>iprev = 0, inext = 0\<rparr>"

definition is_in_list :: "ilnode \<Rightarrow> bool" where
  "is_in_list n \<longleftrightarrow> iprev n \<noteq> 0"

record ilist =
  ifirst :: nat
  ilast :: nat
  ilen :: nat

definition ilist_new :: ilist where
  "ilist_new = \<lparr>ifirst = 0, ilast = 0, ilen = 0\<rparr>"

type_synonym il_state = "il_mem \<times> ilist"

definition push_front :: "nat \<Rightarrow> il_state \<Rightarrow> (unit, il_state) result" where
  "push_front node st =
     (let mem = fst st; l = snd st in
      if inext (mem node) \<noteq> 0 then Err ()
      else
        (let mem1 = mem(node := \<lparr>iprev = 1, inext = max (ifirst l) 1\<rparr>);
             mem2 = (if ifirst l \<noteq> 0 then mem1(ifirst l := (mem1 (ifirst l))\<lparr>iprev := node\<rparr>) else mem1);
             l1 = (if ifirst l \<noteq> 0 then l else l\<lparr>ilast := node\<rparr>)
         in Ok (mem2, l1\<lparr>ifirst := node, ilen := ilen l + 1\<rparr>)))"

definition pop_front :: "il_state \<Rightarrow> nat option \<times> il_state" where
  "pop_front st =
     (let mem = fst st; l = snd st in
      if ifirst l = 0 then (None, st)
      else
        (let node = ifirst l; next = inext (mem node);
             (mem1, l1) = (if next > 1 then (mem(next := (mem next)\<lparr>iprev := 1\<rparr>), l\<lparr>ifirst := next\<rparr>)
                           else (mem, l\<lparr>ifirst := 0, ilast := 0\<rparr>))
         in (Some node, (mem1(node := ilnode_new), l1\<lparr>ilen := ilen l - 1\<rparr>))))"

definition il_front :: "il_state \<Rightarrow> nat option" where
  "il_front st = (if ifirst (snd st) = 0 then None else Some (ifirst (snd st)))"

definition push_back :: "nat \<Rightarrow> il_state \<Rightarrow> (unit, il_state) result" where
  "push_back node st =
     (let mem = fst st; l = snd st in
      if inext (mem node) \<noteq> 0 then Err ()
      else
        (let mem1 = mem(node := \<lparr>iprev = max (ilast l) 1, inext = 1\<rparr>);
             mem2 = (if ilast l \<noteq> 0 then mem1(ilast l := (mem1 (ilast l))\<lparr>inext := node\<rparr>) else mem1);
             l1 = (if ilast l \<noteq> 0 then l else l\<lparr>ifirst := node\<rparr>)
         in Ok (mem2, l1\<lparr>ilast := node, ilen := ilen l + 1\<rparr>)))"

definition pop_back :: "il_state \<Rightarrow> nat option \<times> il_state" where
  "pop_back st =
     (let mem = fst st; l = snd st in
      if ilast l = 0 then (None, st)
      else
        (let node = ilast l; prev = iprev (mem node);
             (mem1, l1) = (if prev > 1 then (mem(prev := (mem prev)\<lparr>inext := 1\<rparr>), l\<lparr>ilast := prev\<rparr>)
                           else (mem, l\<lparr>ifirst := 0, ilast := 0\<rparr>))
         in (Some node, (mem1(node := ilnode_new), l1\<lparr>ilen := ilen l - 1\<rparr>))))"

definition il_back :: "il_state \<Rightarrow> nat option" where
  "il_back st = (if ilast (snd st) = 0 then None else Some (ilast (snd st)))"

definition insert_after :: "nat \<Rightarrow> nat \<Rightarrow> il_state \<Rightarrow> il_state" where
  "insert_after at ins st =
     (let mem = fst st; l = snd st; next = inext (mem at);
          (mem1, l1) = (if next > 1 then (mem(next := (mem next)\<lparr>iprev := ins\<rparr>), l)
                        else (mem, l\<lparr>ilast := ins\<rparr>));
          mem2 = mem1(ins := \<lparr>iprev = at, inext = inext (mem1 at)\<rparr>)
      in (mem2(at := (mem2 at)\<lparr>inext := ins\<rparr>), l1\<lparr>ilen := ilen l + 1\<rparr>))"

definition insert_before :: "nat \<Rightarrow> nat \<Rightarrow> il_state \<Rightarrow> il_state" where
  "insert_before at ins st =
     (let mem = fst st; l = snd st; prev = iprev (mem at);
          (mem1, l1) = (if prev > 1 then (mem(prev := (mem prev)\<lparr>inext := ins\<rparr>), l)
                        else (mem, l\<lparr>ifirst := ins\<rparr>));
          mem2 = mem1(ins := \<lparr>iprev = iprev (mem1 at), inext = at\<rparr>)
      in (mem2(at := (mem2 at)\<lparr>iprev := ins\<rparr>), l1\<lparr>ilen := ilen l + 1\<rparr>))"

definition il_next :: "nat \<Rightarrow> il_state \<Rightarrow> nat option" where
  "il_next item st = (if inext (fst st item) > 1 then Some (inext (fst st item)) else None)"

definition il_prev :: "nat \<Rightarrow> il_state \<Rightarrow> nat option" where
  "il_prev item st = (if iprev (fst st item) > 1 then Some (iprev (fst st item)) else None)"

text \<open>The loops follow the links; \<open>None\<close> is not returning.\<close>

partial_function (option) il_clear_loop :: "nat \<Rightarrow> il_mem \<Rightarrow> il_mem option" where
  "il_clear_loop cur mem =
     (if cur > 1 then il_clear_loop (inext (mem cur)) (mem(cur := ilnode_new)) else Some mem)"

definition il_clear :: "il_state \<Rightarrow> il_state option" where
  "il_clear st =
     (case il_clear_loop (ifirst (snd st)) (fst st) of
        None \<Rightarrow> None
      | Some mem \<Rightarrow> Some (mem, (snd st)\<lparr>ifirst := 0, ilast := 0\<rparr>))"

definition il_iter_next :: "il_mem \<Rightarrow> nat \<Rightarrow> nat option \<times> nat" where
  "il_iter_next mem cur = (if cur \<le> 1 then (None, cur) else (Some cur, inext (mem cur)))"

partial_function (option) il_contains_loop :: "il_mem \<Rightarrow> nat \<Rightarrow> nat \<Rightarrow> bool option" where
  "il_contains_loop mem thing cur =
     (case il_iter_next mem cur of
        (None, _) \<Rightarrow> Some False
      | (Some elem, cur') \<Rightarrow> if elem = thing then Some True else il_contains_loop mem thing cur')"

definition il_contains :: "nat \<Rightarrow> il_state \<Rightarrow> bool option" where
  "il_contains thing st =
     (if inext (fst st thing) = 0 then Some False
      else il_contains_loop (fst st) thing (ifirst (snd st)))"

definition il_remove :: "nat \<Rightarrow> il_state \<Rightarrow> il_state" where
  "il_remove node st =
     (let mem = fst st; l = snd st; next = inext (mem node); prev = iprev (mem node);
          (mem1, l1) = (if next > 1 then (mem(next := (mem next)\<lparr>iprev := prev\<rparr>), l)
                        else if prev = 1 then (mem, l\<lparr>ilast := 0\<rparr>)
                        else (mem, l\<lparr>ilast := prev\<rparr>));
          (mem2, l2) = (if prev > 1 then (mem1(prev := (mem1 prev)\<lparr>inext := next\<rparr>), l1)
                        else if next = 1 then (mem1, l1\<lparr>ifirst := 0\<rparr>)
                        else (mem1, l1\<lparr>ifirst := next\<rparr>))
      in (mem2(node := ilnode_new), l2\<lparr>ilen := ilen l - 1\<rparr>))"

definition il_try_remove :: "nat \<Rightarrow> il_state \<Rightarrow> il_state" where
  "il_try_remove item st = (if is_in_list (fst st item) then il_remove item st else st)"

section \<open>The list a header represents\<close>

definition hd_or :: "nat \<Rightarrow> nat list \<Rightarrow> nat" where
  "hd_or d xs = (if xs = [] then d else hd xs)"

definition last_or :: "nat \<Rightarrow> nat list \<Rightarrow> nat" where
  "last_or d xs = (if xs = [] then d else last xs)"

fun chain :: "il_mem \<Rightarrow> nat \<Rightarrow> nat list \<Rightarrow> nat \<Rightarrow> bool" where
  "chain mem p [] n \<longleftrightarrow> True"
| "chain mem p (x # xs) n \<longleftrightarrow> mem x = \<lparr>iprev = p, inext = hd_or n xs\<rparr> \<and> chain mem x xs n"

definition il_rep :: "il_state \<Rightarrow> nat list \<Rightarrow> bool" where
  "il_rep st xs \<longleftrightarrow> chain (fst st) 1 xs 1 \<and> distinct xs \<and> (\<forall>x\<in>set xs. 1 < x) \<and>
     ifirst (snd st) = hd_or 0 xs \<and> ilast (snd st) = last_or 0 xs \<and> ilen (snd st) = length xs"

lemma hd_or_simps [simp]: "hd_or d [] = d" "hd_or d (x # xs) = x" "hd_or d (xs @ ys) = hd_or (hd_or d ys) xs"
  by (auto simp: hd_or_def)

lemma last_or_simps [simp]:
  "last_or d [] = d" "last_or d (xs @ [x]) = x" "last_or d (x # xs) = last_or x xs"
  "last_or d (xs @ ys) = last_or (last_or d xs) ys"
  by (auto simp: last_or_def)

lemma chain_append:
  "chain mem p (xs @ ys) n \<longleftrightarrow> chain mem p xs (hd_or n ys) \<and> chain mem (last_or p xs) ys n"
  by (induction xs arbitrary: p) auto

lemma chain_cong: "(\<And>x. x \<in> set xs \<Longrightarrow> mem x = mem' x) \<Longrightarrow> chain mem p xs n = chain mem' p xs n"
  by (induction xs arbitrary: p) auto

lemma chain_upd [simp]: "a \<notin> set xs \<Longrightarrow> chain (mem(a := v)) p xs n = chain mem p xs n"
  by (rule chain_cong) auto

lemma chain_set_prev:
  "chain mem p (y # ys) n \<Longrightarrow> y \<notin> set ys \<Longrightarrow> chain (mem(y := (mem y)\<lparr>iprev := q\<rparr>)) q (y # ys) n"
  by simp

lemma chain_set_next:
  "chain mem p (ys @ [y]) n \<Longrightarrow> y \<notin> set ys \<Longrightarrow> chain (mem(y := (mem y)\<lparr>inext := m\<rparr>)) p (ys @ [y]) m"
  by (simp add: chain_append)

section \<open>The operations implement a list\<close>

lemma chain_in_list:
  "chain mem p xs n \<Longrightarrow> x \<in> set xs \<Longrightarrow> \<forall>y\<in>set xs. 1 < y \<Longrightarrow> 0 < p \<Longrightarrow> 0 < n \<Longrightarrow>
   iprev (mem x) \<noteq> 0 \<and> inext (mem x) \<noteq> 0"
proof (induction xs arbitrary: p)
  case (Cons y ys)
  then show ?case by (cases ys) auto
qed simp

lemma il_rep_in_list: "il_rep st xs \<Longrightarrow> x \<in> set xs \<Longrightarrow> iprev (fst st x) \<noteq> 0 \<and> inext (fst st x) \<noteq> 0"
  using chain_in_list [of "fst st" 1 xs 1 x] by (auto simp: il_rep_def)

lemma il_rep_new: "il_rep (mem, ilist_new) []"
  by (simp add: il_rep_def ilist_new_def)

lemma push_front_rep:
  assumes rep: "il_rep (mem, l) xs" and node: "1 < node" "inext (mem node) = 0"
  shows "\<exists>mem' l'. push_front node (mem, l) = Ok (mem', l') \<and> il_rep (mem', l') (node # xs) \<and>
    (\<forall>a. a \<notin> set (node # xs) \<longrightarrow> mem' a = mem a)"
proof -
  have new: "node \<notin> set xs" using il_rep_in_list [OF rep, of node] node by auto
  show ?thesis
  proof (cases xs)
    case Nil
    then show ?thesis using rep node by (auto simp: push_front_def il_rep_def max_def)
  next
    case (Cons y ys)
    then show ?thesis using rep node new by (auto simp: push_front_def il_rep_def max_def Let_def)
  qed
qed

lemma pop_front_rep:
  assumes rep: "il_rep (mem, l) (x # xs)"
  shows "\<exists>mem' l'. pop_front (mem, l) = (Some x, (mem', l')) \<and> il_rep (mem', l') xs \<and>
    mem' x = ilnode_new \<and> (\<forall>a. a \<notin> set (x # xs) \<longrightarrow> mem' a = mem a)"
proof (cases xs)
  case Nil
  then show ?thesis using rep by (auto simp: pop_front_def il_rep_def)
next
  case (Cons y ys)
  then show ?thesis using rep by (auto simp: pop_front_def il_rep_def Let_def)
qed

lemma push_back_rep:
  assumes rep: "il_rep (mem, l) xs" and node: "1 < node" "inext (mem node) = 0"
  shows "\<exists>mem' l'. push_back node (mem, l) = Ok (mem', l') \<and> il_rep (mem', l') (xs @ [node]) \<and>
    (\<forall>a. a \<notin> set (node # xs) \<longrightarrow> mem' a = mem a)"
proof -
  have new: "node \<notin> set xs" using il_rep_in_list [OF rep, of node] node by auto
  show ?thesis
  proof (cases xs rule: rev_cases)
    case Nil
    then show ?thesis using rep node by (auto simp: push_back_def il_rep_def max_def)
  next
    case (snoc ys y)
    then show ?thesis
      using rep node new by (auto simp: push_back_def il_rep_def max_def Let_def chain_append)
  qed
qed

lemma pop_back_rep:
  assumes rep: "il_rep (mem, l) (xs @ [x])"
  shows "\<exists>mem' l'. pop_back (mem, l) = (Some x, (mem', l')) \<and> il_rep (mem', l') xs \<and>
    mem' x = ilnode_new \<and> (\<forall>a. a \<notin> set (x # xs) \<longrightarrow> mem' a = mem a)"
proof (cases xs rule: rev_cases)
  case Nil
  then show ?thesis using rep by (auto simp: pop_back_def il_rep_def)
next
  case (snoc ys y)
  then show ?thesis using rep by (auto simp: pop_back_def il_rep_def Let_def chain_append)
qed

lemma il_rep_links:
  assumes "il_rep (mem, l) (xs @ x # ys)"
  shows "mem x = \<lparr>iprev = last_or 1 xs, inext = hd_or 1 ys\<rparr>"
  using assms by (simp add: il_rep_def chain_append)

lemma insert_after_rep:
  assumes rep: "il_rep (mem, l) (xs @ at # ys)" and ins: "1 < ins" "ins \<notin> set (xs @ at # ys)"
  shows "il_rep (insert_after at ins (mem, l)) (xs @ at # ins # ys)"
proof (cases ys)
  case Nil
  then show ?thesis
    using rep ins il_rep_links [OF rep]
    by (cases xs rule: rev_cases) (auto simp: insert_after_def il_rep_def Let_def chain_append)
next
  case (Cons y zs)
  then show ?thesis
    using rep ins il_rep_links [OF rep]
    by (cases xs rule: rev_cases) (auto simp: insert_after_def il_rep_def Let_def chain_append)
qed

lemma insert_before_rep:
  assumes rep: "il_rep (mem, l) (xs @ at # ys)" and ins: "1 < ins" "ins \<notin> set (xs @ at # ys)"
  shows "il_rep (insert_before at ins (mem, l)) (xs @ ins # at # ys)"
proof (cases xs rule: rev_cases)
  case Nil
  then show ?thesis
    using rep ins il_rep_links [OF rep] by (auto simp: insert_before_def il_rep_def Let_def chain_append)
next
  case (snoc zs z)
  then show ?thesis
    using rep ins il_rep_links [OF rep] by (auto simp: insert_before_def il_rep_def Let_def chain_append)
qed

lemma il_remove_rep:
  assumes rep: "il_rep (mem, l) (xs @ x # ys)"
  shows "\<exists>mem' l'. il_remove x (mem, l) = (mem', l') \<and> il_rep (mem', l') (xs @ ys) \<and>
    mem' x = ilnode_new \<and> (\<forall>a. a \<notin> set (xs @ x # ys) \<longrightarrow> mem' a = mem a)"
proof (cases xs rule: rev_cases)
  case Nil
  then show ?thesis
    using rep il_rep_links [OF rep]
    by (cases ys) (auto simp: il_remove_def il_rep_def Let_def chain_append)
next
  case (snoc zs z)
  then show ?thesis
    using rep il_rep_links [OF rep]
    by (cases ys) (auto simp: il_remove_def il_rep_def Let_def chain_append)
qed

lemma il_next_rep:
  assumes "il_rep (mem, l) (xs @ x # ys)"
  shows "il_next x (mem, l) = (case ys of [] \<Rightarrow> None | y # _ \<Rightarrow> Some y)"
  using assms il_rep_links [OF assms] by (auto simp: il_next_def il_rep_def split: list.splits)

lemma il_prev_rep:
  assumes "il_rep (mem, l) (xs @ x # ys)"
  shows "il_prev x (mem, l) = (if xs = [] then None else Some (last xs))"
  using assms il_rep_links [OF assms]
  by (cases xs rule: rev_cases) (auto simp: il_prev_def il_rep_def)

lemma il_clear_loop_chain:
  "chain mem p xs 1 \<Longrightarrow> distinct xs \<Longrightarrow> \<forall>x\<in>set xs. 1 < x \<Longrightarrow> d \<le> 1 \<Longrightarrow>
   il_clear_loop (if xs = [] then d else hd xs) mem = Some (\<lambda>a. if a \<in> set xs then ilnode_new else mem a)"
proof (induction xs arbitrary: mem p d)
  case Nil
  then show ?case by (simp add: il_clear_loop.simps)
next
  case (Cons x xs)
  have "il_clear_loop (if xs = [] then 1 else hd xs) (mem(x := ilnode_new)) =
      Some (\<lambda>a. if a \<in> set xs then ilnode_new else (mem(x := ilnode_new)) a)"
  proof (rule Cons.IH)
    show "chain (mem(x := ilnode_new)) x xs 1" using Cons.prems by simp
  qed (use Cons.prems in auto)
  moreover have "inext (mem x) = (if xs = [] then 1 else hd xs)" using Cons.prems by (simp add: hd_or_def)
  ultimately show ?case
    using Cons.prems by (auto simp: il_clear_loop.simps [of x] fun_eq_iff)
qed

lemma il_clear_rep:
  assumes "il_rep (mem, l) xs"
  shows "il_clear (mem, l) =
    Some (\<lambda>a. if a \<in> set xs then ilnode_new else mem a, l\<lparr>ifirst := 0, ilast := 0\<rparr>)"
  using il_clear_loop_chain [of mem 1 xs 0] assms by (simp add: il_clear_def il_rep_def hd_or_def)

lemma il_contains_loop_chain:
  "chain mem p xs 1 \<Longrightarrow> \<forall>x\<in>set xs. 1 < x \<Longrightarrow> d \<le> 1 \<Longrightarrow>
   il_contains_loop mem t (if xs = [] then d else hd xs) = Some (t \<in> set xs)"
proof (induction xs arbitrary: p d)
  case Nil
  then show ?case by (simp add: il_contains_loop.simps il_iter_next_def)
next
  case (Cons x xs)
  have "il_contains_loop mem t (if xs = [] then 1 else hd xs) = Some (t \<in> set xs)"
    using Cons.prems by (intro Cons.IH [of x]) auto
  moreover have "inext (mem x) = (if xs = [] then 1 else hd xs)" using Cons.prems by (simp add: hd_or_def)
  ultimately show ?case
    using Cons.prems by (simp add: il_contains_loop.simps [of mem t x] il_iter_next_def)
qed

lemma il_contains_rep:
  assumes "il_rep (mem, l) xs"
  shows "il_contains t (mem, l) = Some (t \<in> set xs)"
  using il_contains_loop_chain [of mem 1 xs 0 t] il_rep_in_list [OF assms, of t] assms
  by (auto simp: il_contains_def il_rep_def hd_or_def)

text \<open>
  \<open>clear\<close> empties the list but leaves \<open>len\<close> as it was; the \<open>Arc\<close> and \<open>Box\<close> lists reset it.
\<close>

lemma il_clear_keeps_len:
  assumes "il_rep st xs" "xs \<noteq> []"
  shows "\<exists>st'. il_clear st = Some st' \<and> ilen (snd st') = length xs \<and> \<not> il_rep st' []"
  using il_clear_rep [of "fst st" "snd st" xs] assms by (auto simp: il_rep_def)

section \<open>Refinement over runs\<close>

datatype il_op =
    PushFront nat | PopFront | PushBack nat | PopBack | InsertAfter nat nat | InsertBefore nat nat
  | TryRemove nat

datatype il_out = Done | Refused | Item "nat option"

fun il_step :: "il_op \<Rightarrow> il_state \<Rightarrow> il_out \<times> il_state" where
  "il_step (PushFront x) st = (case push_front x st of Inl _ \<Rightarrow> (Refused, st) | Inr st' \<Rightarrow> (Done, st'))"
| "il_step PopFront st = (case pop_front st of (r, st') \<Rightarrow> (Item r, st'))"
| "il_step (PushBack x) st = (case push_back x st of Inl _ \<Rightarrow> (Refused, st) | Inr st' \<Rightarrow> (Done, st'))"
| "il_step PopBack st = (case pop_back st of (r, st') \<Rightarrow> (Item r, st'))"
| "il_step (InsertAfter at x) st = (Done, insert_after at x st)"
| "il_step (InsertBefore at x) st = (Done, insert_before at x st)"
| "il_step (TryRemove x) st = (Done, il_try_remove x st)"

text \<open>The same operations on a list of items.\<close>

fun ins_after :: "nat \<Rightarrow> nat \<Rightarrow> nat list \<Rightarrow> nat list" where
  "ins_after at x [] = []"
| "ins_after at x (y # ys) = (if y = at then y # x # ys else y # ins_after at x ys)"

fun ins_before :: "nat \<Rightarrow> nat \<Rightarrow> nat list \<Rightarrow> nat list" where
  "ins_before at x [] = []"
| "ins_before at x (y # ys) = (if y = at then x # y # ys else y # ins_before at x ys)"

fun il_spec :: "il_op \<Rightarrow> nat list \<Rightarrow> il_out \<times> nat list" where
  "il_spec (PushFront x) xs = (if x \<in> set xs then (Refused, xs) else (Done, x # xs))"
| "il_spec PopFront xs = (case xs of [] \<Rightarrow> (Item None, []) | x # ys \<Rightarrow> (Item (Some x), ys))"
| "il_spec (PushBack x) xs = (if x \<in> set xs then (Refused, xs) else (Done, xs @ [x]))"
| "il_spec PopBack xs = (if xs = [] then (Item None, []) else (Item (Some (last xs)), butlast xs))"
| "il_spec (InsertAfter at x) xs = (Done, ins_after at x xs)"
| "il_spec (InsertBefore at x) xs = (Done, ins_before at x xs)"
| "il_spec (TryRemove x) xs = (Done, remove1 x xs)"

text \<open>What the callers of the unchecked operations guarantee.\<close>

fun il_op_ok :: "il_op \<Rightarrow> nat list \<Rightarrow> bool" where
  "il_op_ok (PushFront x) xs \<longleftrightarrow> 1 < x"
| "il_op_ok (PushBack x) xs \<longleftrightarrow> 1 < x"
| "il_op_ok (InsertAfter at x) xs \<longleftrightarrow> 1 < x \<and> at \<in> set xs \<and> x \<notin> set xs"
| "il_op_ok (InsertBefore at x) xs \<longleftrightarrow> 1 < x \<and> at \<in> set xs \<and> x \<notin> set xs"
| "il_op_ok _ xs \<longleftrightarrow> True"

fun il_run :: "il_op list \<Rightarrow> il_state \<Rightarrow> il_out list \<times> il_state" where
  "il_run [] st = ([], st)"
| "il_run (op # ops) st =
     (case il_step op st of (r, st') \<Rightarrow> case il_run ops st' of (rs, st'') \<Rightarrow> (r # rs, st''))"

fun il_spec_run :: "il_op list \<Rightarrow> nat list \<Rightarrow> il_out list \<times> nat list" where
  "il_spec_run [] xs = ([], xs)"
| "il_spec_run (op # ops) xs =
     (case il_spec op xs of (r, ys) \<Rightarrow> case il_spec_run ops ys of (rs, zs) \<Rightarrow> (r # rs, zs))"

fun il_ops_ok :: "il_op list \<Rightarrow> nat list \<Rightarrow> bool" where
  "il_ops_ok [] xs \<longleftrightarrow> True"
| "il_ops_ok (op # ops) xs \<longleftrightarrow> il_op_ok op xs \<and> il_ops_ok ops (snd (il_spec op xs))"

text \<open>The list, and every other node is in no list.\<close>

definition il_sole :: "il_state \<Rightarrow> nat list \<Rightarrow> bool" where
  "il_sole st xs \<longleftrightarrow> il_rep st xs \<and> (\<forall>a. a \<notin> set xs \<longrightarrow> fst st a = ilnode_new)"

lemma ins_after_append: "at \<notin> set xs \<Longrightarrow> ins_after at x (xs @ at # ys) = xs @ at # x # ys"
  by (induction xs) auto

lemma ins_before_append: "at \<notin> set xs \<Longrightarrow> ins_before at x (xs @ at # ys) = xs @ x # at # ys"
  by (induction xs) auto

lemma insert_after_frame:
  "a \<noteq> at \<Longrightarrow> a \<noteq> ins \<Longrightarrow> a \<noteq> inext (mem at) \<Longrightarrow> fst (insert_after at ins (mem, l)) a = mem a"
  by (simp add: insert_after_def Let_def)

lemma insert_before_frame:
  "a \<noteq> at \<Longrightarrow> a \<noteq> ins \<Longrightarrow> a \<noteq> iprev (mem at) \<Longrightarrow> fst (insert_before at ins (mem, l)) a = mem a"
  by (simp add: insert_before_def Let_def)

lemma insert_after_sole:
  assumes "il_sole st xs" "1 < x" "at \<in> set xs" "x \<notin> set xs"
  shows "il_sole (insert_after at x st) (ins_after at x xs)"
proof -
  obtain ys zs where xs: "xs = ys @ at # zs" using assms(3) by (auto simp: in_set_conv_decomp)
  have rep: "il_rep (fst st, snd st) (ys @ at # zs)" using assms(1) xs by (simp add: il_sole_def)
  then have at: "at \<notin> set ys" by (auto simp: il_rep_def)
  have "fst (insert_after at x (fst st, snd st)) a = ilnode_new" if "a \<notin> set (ys @ at # x # zs)" for a
  proof -
    have free: "fst st a = ilnode_new" using assms(1) that xs by (simp add: il_sole_def)
    show ?thesis
      using that free il_rep_links [OF rep] by (cases zs) (auto simp: insert_after_def Let_def)
  qed
  then show ?thesis
    using insert_after_rep [OF rep assms(2)] assms(4) xs by (simp add: il_sole_def ins_after_append [OF at])
qed

lemma insert_before_sole:
  assumes "il_sole st xs" "1 < x" "at \<in> set xs" "x \<notin> set xs"
  shows "il_sole (insert_before at x st) (ins_before at x xs)"
proof -
  obtain ys zs where xs: "xs = ys @ at # zs" using assms(3) by (auto simp: in_set_conv_decomp)
  have rep: "il_rep (fst st, snd st) (ys @ at # zs)" using assms(1) xs by (simp add: il_sole_def)
  then have at: "at \<notin> set ys" by (auto simp: il_rep_def)
  have "fst (insert_before at x (fst st, snd st)) a = ilnode_new" if "a \<notin> set (ys @ x # at # zs)" for a
  proof -
    have free: "fst st a = ilnode_new" using assms(1) that xs by (simp add: il_sole_def)
    show ?thesis
      using that free il_rep_links [OF rep]
      by (cases ys rule: rev_cases) (auto simp: insert_before_def Let_def)
  qed
  then show ?thesis
    using insert_before_rep [OF rep assms(2)] assms(4) xs by (simp add: il_sole_def ins_before_append [OF at])
qed

lemma il_try_remove_sole:
  assumes "il_sole st xs"
  shows "il_sole (il_try_remove x st) (remove1 x xs)"
proof (cases "x \<in> set xs")
  case True
  then obtain ys zs where xs: "xs = ys @ x # zs" "x \<notin> set ys" by (meson split_list_first)
  then have "il_rep (fst st, snd st) (ys @ x # zs)" using assms by (simp add: il_sole_def)
  from il_remove_rep [OF this] obtain mem' l' where r: "il_remove x st = (mem', l')"
    "il_rep (mem', l') (ys @ zs)" "mem' x = ilnode_new" "\<forall>a. a \<notin> set (ys @ x # zs) \<longrightarrow> mem' a = fst st a"
    by auto
  have "is_in_list (fst st x)" using il_rep_in_list [of st xs x] assms True by (simp add: il_sole_def is_in_list_def)
  then show ?thesis using r assms xs by (auto simp: il_try_remove_def il_sole_def remove1_append)
next
  case False
  then show ?thesis using assms by (simp add: il_try_remove_def il_sole_def is_in_list_def ilnode_new_def remove1_idem)
qed

lemma push_sole:
  assumes "il_sole st xs" "1 < x"
  shows "x \<in> set xs \<Longrightarrow> push_front x st = Err () \<and> push_back x st = Err ()"
    and "x \<notin> set xs \<Longrightarrow> \<exists>st'. push_front x st = Ok st' \<and> il_sole st' (x # xs)"
    and "x \<notin> set xs \<Longrightarrow> \<exists>st'. push_back x st = Ok st' \<and> il_sole st' (xs @ [x])"
proof -
  have rep: "il_rep (fst st, snd st) xs" using assms(1) by (simp add: il_sole_def)
  show "x \<in> set xs \<Longrightarrow> push_front x st = Err () \<and> push_back x st = Err ()"
    using il_rep_in_list [OF rep, of x] by (simp add: push_front_def push_back_def)
  assume x: "x \<notin> set xs"
  then have "inext (fst st x) = 0" using assms(1) by (simp add: il_sole_def ilnode_new_def)
  then show "\<exists>st'. push_front x st = Ok st' \<and> il_sole st' (x # xs)"
    and "\<exists>st'. push_back x st = Ok st' \<and> il_sole st' (xs @ [x])"
    using push_front_rep [OF rep assms(2)] push_back_rep [OF rep assms(2)] assms(1)
    by (fastforce simp: il_sole_def)+
qed

lemma pop_sole:
  shows "il_sole st (x # xs) \<Longrightarrow> \<exists>st'. pop_front st = (Some x, st') \<and> il_sole st' xs"
    and "il_sole st (xs @ [x]) \<Longrightarrow> \<exists>st'. pop_back st = (Some x, st') \<and> il_sole st' xs"
    and "il_sole st [] \<Longrightarrow> pop_front st = (None, st) \<and> pop_back st = (None, st)"
proof -
  show "il_sole st [] \<Longrightarrow> pop_front st = (None, st) \<and> pop_back st = (None, st)"
    by (simp add: il_sole_def il_rep_def pop_front_def pop_back_def)
  show "\<exists>st'. pop_front st = (Some x, st') \<and> il_sole st' xs" if sole: "il_sole st (x # xs)"
  proof -
    have "il_rep (fst st, snd st) (x # xs)" using sole by (simp add: il_sole_def)
    from pop_front_rep [OF this] show ?thesis using sole by (fastforce simp: il_sole_def)
  qed
  show "\<exists>st'. pop_back st = (Some x, st') \<and> il_sole st' xs" if sole: "il_sole st (xs @ [x])"
  proof -
    have "il_rep (fst st, snd st) (xs @ [x])" using sole by (simp add: il_sole_def)
    from pop_back_rep [OF this] show ?thesis using sole by (fastforce simp: il_sole_def)
  qed
qed

lemma il_step_refines:
  assumes "il_sole st xs" "il_op_ok op xs"
  shows "\<exists>st'. il_step op st = (fst (il_spec op xs), st') \<and> il_sole st' (snd (il_spec op xs))"
proof (cases op)
  case (PushFront x)
  then show ?thesis using push_sole(1,2) [OF assms(1), of x] assms by (cases "x \<in> set xs") auto
next
  case PopFront
  then show ?thesis using pop_sole(1,3) assms by (cases xs) fastforce+
next
  case (PushBack x)
  then show ?thesis using push_sole(1,3) [OF assms(1), of x] assms by (cases "x \<in> set xs") auto
next
  case PopBack
  then show ?thesis using pop_sole(2,3) assms by (cases xs rule: rev_cases) fastforce+
next
  case (InsertAfter at x)
  then show ?thesis using insert_after_sole assms by auto
next
  case (InsertBefore at x)
  then show ?thesis using insert_before_sole assms by auto
next
  case (TryRemove x)
  then show ?thesis using il_try_remove_sole assms by auto
qed


definition il_demo_ops :: "il_op list" where
  "il_demo_ops = [PushBack 5, PushFront 7, PushBack 5, InsertAfter 7 9, TryRemove 5, PopBack, PopFront]"


text \<open>
  C31. \<open>clear\<close> and \<open>contains\<close> end on every well-formed list: \<open>contains\<close> decides membership,
  \<open>clear\<close> takes exactly the nodes of the list out and leaves the header empty.
\<close>

theorem il_walks_end:
  assumes "il_rep st xs"
  shows "il_contains t st = Some (t \<in> set xs) \<and>
    (\<exists>st'. il_clear st = Some st' \<and> ifirst (snd st') = 0 \<and> ilast (snd st') = 0 \<and>
       (\<forall>a. fst st' a = (if a \<in> set xs then ilnode_new else fst st a)))"
  using il_contains_rep [of "fst st" "snd st" xs t] il_clear_rep [of "fst st" "snd st" xs] assms by simp

definition il_demo :: il_state where
  "il_demo = ((\<lambda>_. ilnode_new)(5 := \<lparr>iprev = 1, inext = 1\<rparr>), \<lparr>ifirst = 5, ilast = 5, ilen = 1\<rparr>)"

lemma il_demo_rep: "il_rep il_demo [5]"
  by (simp add: il_rep_def il_demo_def)

theorem il_walks_end_witness:
  "il_contains 5 il_demo = Some True \<and>
    (\<exists>st'. il_clear il_demo = Some st' \<and> ifirst (snd st') = 0 \<and> ilast (snd st') = 0 \<and>
       (\<forall>a. fst st' a = (if a = 5 then ilnode_new else fst il_demo a)))"
  using il_walks_end [OF il_demo_rep, of 5] by simp

section \<open>The queue that schedulers and wait lists see\<close>

text \<open>
  The clients use the list as a first-in first-out queue: they push at the back and pop at the
  front. The locale states that contract, the interpretation discharges it for the intrusive list.
\<close>

fun enq_all :: "('i \<Rightarrow> 's \<Rightarrow> (unit, 's) result) \<Rightarrow> 'i list \<Rightarrow> 's \<Rightarrow> (unit, 's) result" where
  "enq_all enq [] s = Ok s"
| "enq_all enq (x # xs) s = (case enq x s of Inl e \<Rightarrow> Inl e | Inr s' \<Rightarrow> enq_all enq xs s')"

fun deq_many :: "('s \<Rightarrow> 'i option \<times> 's) \<Rightarrow> nat \<Rightarrow> 's \<Rightarrow> 'i list \<times> 's" where
  "deq_many deq 0 s = ([], s)"
| "deq_many deq (Suc n) s =
     (case deq s of (None, s') \<Rightarrow> ([], s')
      | (Some x, s') \<Rightarrow> (case deq_many deq n s' of (xs, s'') \<Rightarrow> (x # xs, s'')))"

locale fifo_queue =
  fixes rep :: "'s \<Rightarrow> 'i list \<Rightarrow> bool"
    and item_ok :: "'i \<Rightarrow> bool"
    and enq :: "'i \<Rightarrow> 's \<Rightarrow> (unit, 's) result"
    and deq :: "'s \<Rightarrow> 'i option \<times> 's"
  assumes enq_rep: "rep s xs \<Longrightarrow> item_ok x \<Longrightarrow> x \<notin> set xs \<Longrightarrow> \<exists>s'. enq x s = Ok s' \<and> rep s' (xs @ [x])"
    and enq_twice: "rep s xs \<Longrightarrow> x \<in> set xs \<Longrightarrow> enq x s = Err ()"
    and deq_rep: "rep s (x # xs) \<Longrightarrow> \<exists>s'. deq s = (Some x, s') \<and> rep s' xs"
    and deq_empty: "rep s [] \<Longrightarrow> deq s = (None, s)"
begin

lemma enq_all_rep:
  "rep s xs \<Longrightarrow> \<forall>y\<in>set ys. item_ok y \<Longrightarrow> distinct ys \<Longrightarrow> set ys \<inter> set xs = {} \<Longrightarrow>
   \<exists>s'. enq_all enq ys s = Ok s' \<and> rep s' (xs @ ys)"
proof (induction ys arbitrary: s xs)
  case (Cons y ys)
  obtain s1 where s1: "enq y s = Ok s1" "rep s1 (xs @ [y])" using enq_rep Cons.prems by force
  then show ?case using Cons.IH [OF s1(2)] Cons.prems by auto
qed simp

lemma deq_many_rep: "rep s xs \<Longrightarrow> \<exists>s'. deq_many deq n s = (take n xs, s') \<and> rep s' (drop n xs)"
proof (induction n arbitrary: s xs)
  case (Suc n)
  show ?case
  proof (cases xs)
    case Nil
    then show ?thesis using Suc.prems deq_empty by simp
  next
    case (Cons x ys)
    then obtain s1 where s1: "deq s = (Some x, s1)" "rep s1 ys" using deq_rep Suc.prems by blast
    then show ?thesis using Suc.IH [OF s1(2)] Cons by auto
  qed
qed simp

lemma served_in_order:
  assumes "rep s []" "\<forall>y\<in>set ys. item_ok y" "distinct ys"
  shows "\<exists>s' s''. enq_all enq ys s = Ok s' \<and> deq_many deq (length ys) s' = (ys, s'') \<and> rep s'' []"
proof -
  obtain s' where s': "enq_all enq ys s = Ok s'" "rep s' ys"
    using enq_all_rep [OF assms(1) assms(2,3)] by auto
  then show ?thesis using deq_many_rep [OF s'(2), of "length ys"] by auto
qed

end

interpretation ilq: fifo_queue il_sole "\<lambda>x. 1 < x" push_back pop_front
proof unfold_locales
  show "push_back x s = Err ()" if "il_sole s xs" "x \<in> set xs" for s xs x
  proof -
    have "1 < x" using that by (simp add: il_sole_def il_rep_def)
    then show ?thesis using push_sole(1) that by blast
  qed
qed (use push_sole(3) pop_sole in blast)+

text \<open>
  Items pushed at the back of an empty list are popped from its front in the order they were
  pushed, each exactly once, and leave the list empty.
\<close>

theorem il_fifo_order:
  assumes "il_sole st []" "\<forall>y\<in>set ys. 1 < y" "distinct ys"
  shows "\<exists>st' st''. enq_all push_back ys st = Ok st' \<and> deq_many pop_front (length ys) st' = (ys, st'') \<and>
    il_sole st'' []"
  by (rule ilq.served_in_order [OF assms])

theorem il_fifo_order_witness:
  "\<exists>st' st''. enq_all push_back [8, 3, 5] (\<lambda>_. ilnode_new, ilist_new) = Ok st' \<and>
     deq_many pop_front (length [8, 3, 5::nat]) st' = ([8, 3, 5], st'') \<and> il_sole st'' []"
  by (rule il_fifo_order) (simp_all add: il_sole_def il_rep_new)

end
