(* ===== verification/Radix_Tree.thy ===== *)
theory Radix_Tree
  imports Badger_Prelude
begin

text \<open>
  The radix tree of \<open>src/util/rtree.rs\<close>, with the subkey width \<open>L = 4\<close> that its users take and keys
  that are natural numbers below \<open>2 ^ 64\<close> (\<open>u64\<close>). The union \<open>NodeValue\<close> is told apart by the
  height, so a node is a leaf or an inner node; the parent pointers are the path from the root.
  Memory exhaustion is the number of allocations that still succeed, an argument of \<open>insert\<close>.
\<close>

section \<open>Model\<close>

definition rt_bits :: nat where
  "rt_bits = 4"

datatype 'v rnode =
    RLeaf (occupancy: nat) (rdata: "'v option list")
  | RInner (rheight: nat) (occupancy: nat) (rchildren: "'v rnode option list")

primrec node_height :: "'v rnode \<Rightarrow> nat" where
  "node_height (RLeaf occ xs) = 0"
| "node_height (RInner h occ cs) = h"

type_synonym 'v rtree = "'v rnode option"

definition rt_new :: "'v rtree" where
  "rt_new = None"

definition subkey :: "nat \<Rightarrow> nat \<Rightarrow> nat" where
  "subkey key height = (key div 2 ^ (height * rt_bits)) mod 2 ^ rt_bits"

text \<open>The bits of a key: its width less its leading zeros.\<close>

definition key_bits :: "nat \<Rightarrow> nat" where
  "key_bits key = (if key = 0 then 0 else ilog2 key + 1)"

definition is_too_large :: "nat \<Rightarrow> nat \<Rightarrow> bool" where
  "is_too_large key height \<longleftrightarrow> key_bits key > height * rt_bits"

definition key_height :: "nat \<Rightarrow> nat" where
  "key_height key = max (div_ceil (key_bits key) rt_bits) 1"

definition slot :: "'a option list \<Rightarrow> nat \<Rightarrow> 'a option" where
  "slot xs i = (if i < length xs then xs ! i else None)"

text \<open>
  \<open>create_subtree\<close>: the value is boxed first, then one node per level from the leaf up. The first
  component is the number of allocations left, the second is \<open>None\<close> on \<open>AllocError\<close>.
\<close>

definition leaf_array :: "nat \<Rightarrow> 'v \<Rightarrow> 'v option list" where
  "leaf_array i v = (replicate (2 ^ rt_bits) None)[i := Some v]"

definition inner_array :: "nat \<Rightarrow> 'v rnode \<Rightarrow> 'v rnode option list" where
  "inner_array i c = (replicate (2 ^ rt_bits) None)[i := Some c]"

fun subtree_levels :: "nat list \<Rightarrow> nat \<Rightarrow> 'v \<Rightarrow> nat \<times> 'v rnode option \<Rightarrow> nat \<times> 'v rnode option" where
  "subtree_levels [] key v (mem, cur) = (mem, cur)"
| "subtree_levels (h # hs) key v (mem, cur) =
     (case mem of
        0 \<Rightarrow> (0, None)
      | Suc mem' \<Rightarrow>
          (if h = 0 then subtree_levels hs key v (mem', Some (RLeaf 1 (leaf_array (subkey key 0) v)))
           else (case cur of
                   None \<Rightarrow> (mem', None)
                 | Some c \<Rightarrow>
                     subtree_levels hs key v (mem', Some (RInner h 1 (inner_array (subkey key h) c))))))"

definition create_subtree :: "nat \<Rightarrow> nat \<Rightarrow> 'v \<Rightarrow> nat \<Rightarrow> nat \<times> 'v rnode option" where
  "create_subtree subtree_height key v mem =
     (case mem of
        0 \<Rightarrow> (0, None)
      | Suc mem' \<Rightarrow> subtree_levels [0..<subtree_height] key v (mem', None))"

text \<open>
  Raising the root until the key fits: the root is moved into the new array before the node is
  allocated, so it is gone when the allocation fails.
\<close>

fun grow_levels :: "nat list \<Rightarrow> nat \<times> 'v rtree \<Rightarrow> nat \<times> 'v rtree" where
  "grow_levels [] (mem, root) = (mem, root)"
| "grow_levels (h # hs) (mem, root) =
     (case (mem, root) of
        (Suc mem', Some r) \<Rightarrow> grow_levels hs (mem', Some (RInner h 1 (inner_array 0 r)))
      | _ \<Rightarrow> (0, None))"

lemma slot_size: "slot cs i = Some c \<Longrightarrow> size c < size_list (size_option size) cs"
proof -
  assume "slot cs i = Some c"
  then have "Some c \<in> set cs" by (auto simp: slot_def split: if_splits dest: nth_mem)
  from size_list_estimation [OF this, of "size c" "size_option size"] show ?thesis by simp
qed

text \<open>
  The descent of \<open>insert\<close>: the old value and the changed node, or \<open>None\<close> for \<open>AllocError\<close>, which
  leaves the nodes as they were.
\<close>

function insert_node :: "nat \<Rightarrow> 'v \<Rightarrow> nat \<Rightarrow> 'v rnode \<Rightarrow> ('v option \<times> 'v rnode) option" where
  "insert_node key v mem (RLeaf occ xs) =
     (if mem = 0 then None
      else
        (let old = slot xs (subkey key 0)
         in Some (old, RLeaf (if old = None then occ + 1 else occ) (xs[subkey key 0 := Some v]))))"
| "insert_node key v mem (RInner h occ cs) =
     (case slot cs (subkey key h) of
        Some c \<Rightarrow>
          (case insert_node key v mem c of
             None \<Rightarrow> None
           | Some (old, c') \<Rightarrow> Some (old, RInner h occ (cs[subkey key h := Some c'])))
      | None \<Rightarrow>
          (case snd (create_subtree h key v mem) of
             None \<Rightarrow> None
           | Some c \<Rightarrow> Some (None, RInner h (occ + 1) (cs[subkey key h := Some c]))))"
  by pat_completeness auto
termination
  by (relation "measure (\<lambda>(k, v, m, n). size n)") (auto dest: slot_size)

definition rt_insert :: "nat \<Rightarrow> 'v \<Rightarrow> nat \<Rightarrow> 'v rtree \<Rightarrow> 'v option option \<times> 'v rtree" where
  "rt_insert key v mem root =
     (case root of
        None \<Rightarrow>
          (case snd (create_subtree (key_height key) key v mem) of
             None \<Rightarrow> (None, None)
           | Some t \<Rightarrow> (Some None, Some t))
      | Some r \<Rightarrow>
          (let (mem', root') =
             (if is_too_large key (node_height r + 1)
              then grow_levels [node_height r + 1..<key_height key] (mem, root) else (mem, root))
           in case root' of
                None \<Rightarrow> (None, None)
              | Some r' \<Rightarrow>
                  (case insert_node key v mem' r' of
                     None \<Rightarrow> (None, Some r')
                   | Some (old, r'') \<Rightarrow> (Some old, Some r''))))"

text \<open>
  \<open>remove\<close> and \<open>gc\<close>: the leaf loses one in its occupancy whether the slot held a value or not. When
  that makes it zero, \<open>gc\<close> clears the leaf's slot in the parent and stops if the parent's
  occupancy is not zero; with occupancy zero its loop does not advance and never ends, which is the
  outer \<open>None\<close>. The node is \<open>None\<close> where it is to be dropped.
\<close>

function remove_node :: "nat \<Rightarrow> 'v rnode \<Rightarrow> ('v option \<times> 'v rnode option) option" where
  "remove_node key (RLeaf occ xs) =
     Some (slot xs (subkey key 0),
       if occ - 1 > 0 then Some (RLeaf (occ - 1) (xs[subkey key 0 := None])) else None)"
| "remove_node key (RInner h occ cs) =
     (case slot cs (subkey key h) of
        None \<Rightarrow> Some (None, Some (RInner h occ cs))
      | Some c \<Rightarrow>
          (case remove_node key c of
             None \<Rightarrow> None
           | Some (old, None) \<Rightarrow>
               (if occ > 0 then Some (old, Some (RInner h occ (cs[subkey key h := None]))) else None)
           | Some (old, Some c') \<Rightarrow> Some (old, Some (RInner h occ (cs[subkey key h := Some c'])))))"
  by pat_completeness auto
termination
  by (relation "measure (\<lambda>(k, n). size n)") (auto dest: slot_size)

definition rt_remove :: "nat \<Rightarrow> 'v rtree \<Rightarrow> ('v option \<times> 'v rtree) option" where
  "rt_remove key root =
     (case root of
        None \<Rightarrow> Some (None, None)
      | Some r \<Rightarrow> if is_too_large key (node_height r + 1) then Some (None, root) else remove_node key r)"

function get_node :: "nat \<Rightarrow> 'v rnode \<Rightarrow> 'v option" where
  "get_node key (RLeaf occ xs) = slot xs (subkey key 0)"
| "get_node key (RInner h occ cs) =
     (case slot cs (subkey key h) of None \<Rightarrow> None | Some c \<Rightarrow> get_node key c)"
  by pat_completeness auto
termination
  by (relation "measure (\<lambda>(k, n). size n)") (auto dest: slot_size)

definition rt_get :: "nat \<Rightarrow> 'v rtree \<Rightarrow> 'v option" where
  "rt_get key root =
     (case root of
        None \<Rightarrow> None
      | Some r \<Rightarrow> if is_too_large key (node_height r + 1) then None else get_node key r)"

section \<open>Keys\<close>

definition span :: "nat \<Rightarrow> nat" where
  "span n = 2 ^ (n * rt_bits)"

lemma key_bits_le: "key_bits key \<le> n \<longleftrightarrow> key < 2 ^ n"
proof (cases "key = 0")
  case False
  have "ilog2 key < n" if "key < 2 ^ n" using ilog2_le [of key n] that False by simp
  moreover have "key < 2 ^ n" if "ilog2 key < n"
  proof -
    have "(2::nat) ^ Suc (ilog2 key) \<le> 2 ^ n" using that by (intro power_increasing) auto
    then show ?thesis using ilog2_bounds [of key] False by simp
  qed
  ultimately show ?thesis using False by (auto simp: key_bits_def Suc_le_eq)
qed (simp add: key_bits_def)

lemma is_too_large_iff: "is_too_large key n \<longleftrightarrow> span n \<le> key"
  using key_bits_le [of key "n * rt_bits"] by (auto simp: is_too_large_def span_def)

lemma subkey_less [simp]: "subkey key h < 2 ^ rt_bits"
  by (simp add: subkey_def)

lemma span_Suc: "span (Suc n) = span n * 2 ^ rt_bits"
  by (simp add: span_def power_add mult.commute)

lemma span_pos [simp]: "0 < span n" "span n \<noteq> 0"
  by (simp_all add: span_def)

lemma subkey_span: "subkey key h = key div span h mod 2 ^ rt_bits"
  by (simp add: subkey_def span_def)

lemma key_split: "key mod span (Suc h) = span h * subkey key h + key mod span h"
  by (simp add: subkey_span span_Suc mod_mult2_eq)

lemma key_eq_split:
  "a mod span (Suc h) = b mod span (Suc h) \<longleftrightarrow> subkey a h = subkey b h \<and> a mod span h = b mod span h"
proof
  assume eq: "a mod span (Suc h) = b mod span (Suc h)"
  have "subkey k h = k mod span (Suc h) div span h" "k mod span h = k mod span (Suc h) mod span h" for k
    by (simp_all add: key_split)
  then show "subkey a h = subkey b h \<and> a mod span h = b mod span h" using eq by metis
qed (simp add: key_split)

lemma key_height_bound: "key < span (key_height key)" "0 < key_height key"
proof -
  have "key_bits key \<le> div_ceil (key_bits key) rt_bits * rt_bits" by (rule div_ceil_mult) (simp add: rt_bits_def)
  also have "\<dots> \<le> key_height key * rt_bits" by (simp add: key_height_def)
  finally show "key < span (key_height key)" by (simp add: key_bits_le span_def)
qed (simp add: key_height_def)

lemma key_height_least:
  assumes "0 < n" "key < span n"
  shows "key_height key \<le> n"
proof -
  have "key_bits key \<le> n * rt_bits" using assms(2) by (simp add: key_bits_le span_def)
  then have "div_ceil (key_bits key) rt_bits \<le> n"
    by (simp add: div_ceil_def rt_bits_def)
  then show ?thesis using assms(1) by (simp add: key_height_def)
qed

section \<open>Well-formed trees\<close>

definition filled :: "'v option list \<Rightarrow> nat" where
  "filled xs = length (filter (\<lambda>x. x \<noteq> None) xs)"

fun rt_wf :: "nat \<Rightarrow> 'v rnode \<Rightarrow> bool" where
  "rt_wf h (RLeaf occ xs) \<longleftrightarrow> h = 0 \<and> length xs = 2 ^ rt_bits \<and> occ = filled xs \<and> 0 < occ"
| "rt_wf h (RInner h' occ cs) \<longleftrightarrow> h = h' \<and> 0 < h \<and> length cs = 2 ^ rt_bits \<and> 0 < occ \<and>
     (\<forall>x\<in>set cs. case x of None \<Rightarrow> True | Some c \<Rightarrow> rt_wf (h - 1) c)"

definition rt_inv :: "'v rtree \<Rightarrow> bool" where
  "rt_inv t \<longleftrightarrow> (case t of None \<Rightarrow> True | Some r \<Rightarrow> rt_wf (node_height r) r \<and> node_height r < 16)"

lemma rt_wf_height: "rt_wf h n \<Longrightarrow> node_height n = h"
  by (cases n) auto

lemma rt_wf_slot:
  assumes "rt_wf h (RInner h occ cs)" "slot cs i = Some c"
  shows "rt_wf (h - 1) c"
proof -
  have "Some c \<in> set cs" using assms(2) by (auto simp: slot_def split: if_splits dest: nth_mem)
  then show ?thesis using assms(1) by (auto split: option.splits)
qed

lemma slot_update: "i < length xs \<Longrightarrow> slot (xs[i := v]) j = (if i = j then v else slot xs j)"
  by (auto simp: slot_def)

lemma slot_replicate [simp]: "slot (replicate n None) i = None"
  by (simp add: slot_def)

lemma filled_update:
  "i < length xs \<Longrightarrow> filled (xs[i := v]) + of_bool (xs ! i \<noteq> None) = filled xs + of_bool (v \<noteq> None)"
proof (induction xs arbitrary: i)
  case (Cons x xs)
  then show ?case by (cases i) (auto simp: filled_def split: if_splits)
qed simp

lemma filled_zero: "filled xs = 0 \<longleftrightarrow> (\<forall>i. slot xs i = None)"
  by (auto simp: filled_def slot_def filter_empty_conv set_conv_nth)

lemma slot_leaf_array: "i < 2 ^ rt_bits \<Longrightarrow> slot (leaf_array i v) j = (if i = j then Some v else None)"
  by (simp add: leaf_array_def slot_update)

lemma slot_inner_array: "i < 2 ^ rt_bits \<Longrightarrow> slot (inner_array i c) j = (if i = j then Some c else None)"
  by (simp add: inner_array_def slot_update)

lemma wf_leaf_array: "i < 2 ^ rt_bits \<Longrightarrow> rt_wf 0 (RLeaf 1 (leaf_array i v))"
proof -
  assume i: "i < 2 ^ rt_bits"
  have "filled (leaf_array i v) = 1"
    using filled_update [of i "replicate (2 ^ rt_bits) None" "Some v"] i
    by (simp add: leaf_array_def filled_def)
  then show ?thesis by (simp add: leaf_array_def)
qed

lemma wf_inner_array:
  "i < 2 ^ rt_bits \<Longrightarrow> rt_wf h c \<Longrightarrow> 0 < occ \<Longrightarrow> rt_wf (Suc h) (RInner (Suc h) occ (inner_array i c))"
  by (auto simp: inner_array_def dest!: set_update_subset_insert [THEN subsetD] split: option.splits)

lemma wf_inner_update:
  assumes "rt_wf h (RInner h occ cs)" "case v of None \<Rightarrow> True | Some c \<Rightarrow> rt_wf (h - 1) c" "0 < occ'"
  shows "rt_wf h (RInner h occ' (cs[i := v]))"
  using assms by (auto dest!: set_update_subset_insert [THEN subsetD])

section \<open>Insertion\<close>

text \<open>The subtree with one value: what \<open>create_subtree\<close> builds.\<close>

fun path_tree :: "nat \<Rightarrow> 'v \<Rightarrow> nat \<Rightarrow> 'v rnode" where
  "path_tree key v 0 = RLeaf 1 (leaf_array (subkey key 0) v)"
| "path_tree key v (Suc h) = RInner (Suc h) 1 (inner_array (subkey key (Suc h)) (path_tree key v h))"

lemma subtree_levels_append:
  "subtree_levels (xs @ ys) key v st =
     (if snd (subtree_levels xs key v st) = None \<and> xs \<noteq> [] then subtree_levels xs key v st
      else subtree_levels ys key v (subtree_levels xs key v st))"
  by (induction xs key v st rule: subtree_levels.induct) (auto split: nat.splits option.splits)

lemma subtree_levels_path:
  "subtree_levels [0..<Suc n] key v (mem, None) =
     (if Suc n \<le> mem then (mem - Suc n, Some (path_tree key v n)) else (0, None))"
proof (induction n)
  case 0
  then show ?case by (cases mem) auto
next
  case (Suc n)
  have "[0..<Suc (Suc n)] = [0..<Suc n] @ [Suc n]" by simp
  then show ?case
    using Suc by (simp only: subtree_levels_append) (auto split: nat.splits)
qed

lemma create_subtree_path:
  "0 < h \<Longrightarrow> snd (create_subtree h key v mem) = (if h < mem then Some (path_tree key v (h - 1)) else None)"
  by (cases h; cases mem) (auto simp: create_subtree_def subtree_levels_path simp del: upt_Suc)

lemma path_tree_wf: "rt_wf h (path_tree key v h)"
proof (induction h)
  case 0
  show ?case unfolding path_tree.simps by (rule wf_leaf_array) simp
next
  case (Suc h)
  then show ?case unfolding path_tree.simps by (intro wf_inner_array) auto
qed

lemma path_tree_get: "get_node k (path_tree key v h) = (if k mod span (Suc h) = key mod span (Suc h) then Some v else None)"
proof (induction h)
  case 0
  have "span 0 = 1" by (simp add: span_def)
  then show ?case by (auto simp: slot_leaf_array key_eq_split)
next
  case (Suc h)
  then show ?case using key_eq_split [of k "Suc h" key] by (simp add: slot_inner_array)
qed

lemma insert_node_ok:
  "rt_wf h n \<Longrightarrow> h + 1 < mem \<Longrightarrow> \<exists>n'. insert_node key v mem n = Some (get_node key n, n') \<and> rt_wf h n' \<and>
     (\<forall>k. get_node k n' = (if k mod span (Suc h) = key mod span (Suc h) then Some v else get_node k n))"
proof (induction key v mem n arbitrary: h rule: insert_node.induct)
  case (1 key v mem occ xs)
  let ?i = "subkey key 0"
  have i: "?i < length xs" using 1(1) by simp
  have "span 0 = 1" by (simp add: span_def)
  moreover have "filled (xs[?i := Some v]) = (if slot xs ?i = None then filled xs + 1 else filled xs)"
    using filled_update [OF i, of "Some v"] i by (auto simp: slot_def)
  ultimately show ?case using 1 i by (auto simp: Let_def key_eq_split slot_update)
next
  case (2 key v mem h' occ cs)
  let ?i = "subkey key h'"
  have h: "h = h'" "0 < h" and i: "?i < length cs" and occ: "0 < occ" using 2(2) by auto
  then obtain j where j: "h' = Suc j" by (cases h') auto
  have wf: "rt_wf h (RInner h occ cs)" using 2(2) h by simp
  show ?case
  proof (cases "slot cs ?i")
    case None
    have "h < mem" using 2(3) by simp
    moreover have "rt_wf (h - 1) (path_tree key v (h - 1))" by (rule path_tree_wf)
    ultimately show ?thesis
      using None h i wf_inner_update [OF wf, of "Some (path_tree key v (h - 1))" "occ + 1"] j
      by (auto simp: create_subtree_path slot_update path_tree_get key_eq_split [of _ "Suc j"] simp del: rt_wf.simps)
  next
    case (Some c)
    have "rt_wf j c" using rt_wf_slot [OF wf, of ?i c] Some h j by simp
    then obtain c' where c': "insert_node key v mem c = Some (get_node key c, c')" "rt_wf j c'"
      "\<forall>k. get_node k c' = (if k mod span (Suc j) = key mod span (Suc j) then Some v else get_node k c)"
      using 2(1) [OF Some, of j] 2(3) h j by auto
    then show ?thesis
      using Some h i occ wf_inner_update [OF wf, of "Some c'" occ] j
      by (auto simp: slot_update key_eq_split [of _ "Suc j"] simp del: rt_wf.simps)
  qed
qed

lemma rt_get_raise:
  assumes "rt_wf h r"
  shows "rt_get k (Some (RInner (Suc h) 1 (inner_array 0 r))) = rt_get k (Some r)"
proof -
  have ht: "node_height r = h" using rt_wf_height [OF assms] .
  have "span (Suc h) \<le> span (Suc (Suc h))" by (simp add: span_def power_increasing)
  moreover have "subkey k (Suc h) = 0 \<longleftrightarrow> k < span (Suc h)" if "k < span (Suc (Suc h))"
  proof -
    have "k div span (Suc h) < 2 ^ rt_bits"
      using that by (simp add: span_Suc [of "Suc h"] less_mult_imp_div_less mult.commute)
    then show ?thesis by (simp add: subkey_span div_eq_0_iff)
  qed
  ultimately show ?thesis
    using ht by (auto simp: rt_get_def is_too_large_iff slot_inner_array)
qed

lemma grow_levels_ok:
  "rt_wf h r \<Longrightarrow> h < m \<Longrightarrow> m - h \<le> mem \<Longrightarrow> \<exists>r'. grow_levels [Suc h..<m] (mem, Some r) = (mem - (m - Suc h), Some r') \<and>
     rt_wf (m - 1) r' \<and> (\<forall>k. rt_get k (Some r') = rt_get k (Some r))"
proof (induction "m - Suc h" arbitrary: h r mem)
  case 0
  then have "m = Suc h" by arith
  then show ?case using 0 by simp
next
  case (Suc d)
  then obtain mem' where mem: "mem = Suc mem'" by (cases mem) auto
  have arith: "d = m - Suc (Suc h)" "Suc h < m" "m - Suc h \<le> mem'" using Suc mem by arith+
  let ?r = "RInner (Suc h) 1 (inner_array 0 r)"
  have "rt_wf (Suc h) ?r" using Suc.prems by (intro wf_inner_array) auto
  then obtain r' where "grow_levels [Suc (Suc h)..<m] (mem', Some ?r) = (mem' - (m - Suc (Suc h)), Some r')"
    "rt_wf (m - 1) r'" "\<forall>k. rt_get k (Some r') = rt_get k (Some ?r)"
    using Suc.hyps(1) [OF arith(1) _ arith(2,3)] by blast
  moreover have "[Suc h..<m] = Suc h # [Suc (Suc h)..<m]" using Suc.hyps(2) by (simp add: upt_conv_Cons)
  ultimately show ?case
    using mem rt_get_raise [OF Suc.prems(1)] Suc.hyps(2) by auto
qed

lemma key_mod_eq: "k < span n \<Longrightarrow> key < span n \<Longrightarrow> k mod span n = key mod span n \<longleftrightarrow> k = key"
  by simp

lemma rt_insert_node:
  assumes wf: "rt_wf h r" and key: "key < span (Suc h)" and mem: "h + 1 < mem"
  obtains r' where "insert_node key v mem r = Some (rt_get key (Some r), r')" "rt_wf h r'"
    "\<And>k. rt_get k (Some r') = (if k = key then Some v else rt_get k (Some r))"
proof -
  obtain r' where r': "insert_node key v mem r = Some (get_node key r, r')" "rt_wf h r'"
    "\<forall>k. get_node k r' = (if k mod span (Suc h) = key mod span (Suc h) then Some v else get_node k r)"
    using insert_node_ok [OF wf mem] by blast
  have ht: "node_height r = h" "node_height r' = h" using wf r'(2) rt_wf_height by auto
  have "rt_get k (Some r') = (if k = key then Some v else rt_get k (Some r))" for k
    using r'(3) key ht by (auto simp: rt_get_def is_too_large_iff)
  moreover have "rt_get key (Some r) = get_node key r"
    using key ht by (simp add: rt_get_def is_too_large_iff)
  ultimately show ?thesis using that r' by simp
qed

lemma key_height_16: "key < 2 ^ 64 \<Longrightarrow> key_height key \<le> 16"
  using key_height_least [of 16 key] by (simp add: span_def rt_bits_def)

lemma rt_insert_root:
  assumes wf: "rt_wf h r" and h: "h < 16" and key: "key < 2 ^ 64" and mem: "40 \<le> mem"
  shows "\<exists>t'. rt_insert key v mem (Some r) = (Some (rt_get key (Some r)), t') \<and> rt_inv t' \<and>
    (\<forall>k. rt_get k t' = (if k = key then Some v else rt_get k (Some r)))"
proof (cases "is_too_large key (node_height r + 1)")
  case False
  have ht: "node_height r = h" using rt_wf_height [OF wf] .
  then have "key < span (Suc h)" using False by (simp add: is_too_large_iff)
  then obtain r' where r': "insert_node key v mem r = Some (rt_get key (Some r), r')" "rt_wf h r'"
    "\<And>k. rt_get k (Some r') = (if k = key then Some v else rt_get k (Some r))"
    using rt_insert_node [OF wf, of key mem v] h mem by auto
  then have "rt_inv (Some r')" using h rt_wf_height [OF r'(2)] by (simp add: rt_inv_def)
  then show ?thesis using r' False by (simp add: rt_insert_def)
next
  case True
  let ?m = "key_height key"
  have ht: "node_height r = h" using rt_wf_height [OF wf] .
  have m: "h < ?m" "?m \<le> 16"
  proof -
    have "span (Suc h) \<le> key" using True ht by (simp add: is_too_large_iff)
    moreover have "span ?m \<le> span (Suc h)" if "?m \<le> h"
    proof -
      have "?m * rt_bits \<le> Suc h * rt_bits" using that by (intro mult_right_mono) auto
      then show ?thesis unfolding span_def by (intro power_increasing) auto
    qed
    ultimately show "h < ?m" using key_height_bound(1) [of key] by fastforce
  qed (rule key_height_16 [OF key])
  obtain r1 where r1: "grow_levels [Suc h..<?m] (mem, Some r) = (mem - (?m - Suc h), Some r1)"
    "rt_wf (?m - 1) r1" "\<And>k. rt_get k (Some r1) = rt_get k (Some r)"
  proof -
    have "?m - h \<le> mem" using m mem by arith
    from grow_levels_ok [OF wf m(1) this] show ?thesis using that by blast
  qed
  have room: "key < span (Suc (?m - 1))" "?m - 1 + 1 < mem - (?m - Suc h)"
    using key_height_bound [of key] m mem by (simp, arith)
  obtain r' where r': "insert_node key v (mem - (?m - Suc h)) r1 = Some (rt_get key (Some r1), r')" "rt_wf (?m - 1) r'"
    "\<And>k. rt_get k (Some r') = (if k = key then Some v else rt_get k (Some r1))"
    using rt_insert_node [OF r1(2) room] by blast
  then have "rt_inv (Some r')" using m rt_wf_height [OF r'(2)] by (simp add: rt_inv_def)
  then show ?thesis using r' r1 True ht by (simp add: rt_insert_def)
qed

section \<open>Removal\<close>

lemma remove_node_ok:
  "rt_wf h n \<Longrightarrow> get_node key n = Some v \<Longrightarrow> \<exists>n'. remove_node key n = Some (Some v, n') \<and>
     (case n' of
        None \<Rightarrow> h = 0 \<and> (\<forall>k. get_node k n = (if k mod span (Suc h) = key mod span (Suc h) then Some v else None))
      | Some m \<Rightarrow> rt_wf h m \<and>
          (\<forall>k. get_node k m = (if k mod span (Suc h) = key mod span (Suc h) then None else get_node k n)))"
proof (induction key n arbitrary: h rule: remove_node.induct)
  case (1 key occ xs)
  let ?i = "subkey key 0"
  have i: "?i < length xs" and h: "h = 0" and occ: "occ = filled xs" using 1(1) by simp_all
  have sp: "k mod span (Suc 0) = key mod span (Suc 0) \<longleftrightarrow> subkey k 0 = ?i" for k
    by (simp add: key_eq_split span_def [of 0])
  have fill: "filled (xs[?i := None]) = occ - 1"
    using filled_update [OF i, of None] 1(2) i occ by (simp add: slot_def)
  have "slot (xs[?i := None]) j = None" if "occ - 1 = 0" for j
    using that fill filled_zero by metis
  then have "slot xs j = (if j = ?i then Some v else None)" if "occ - 1 = 0" for j
    using that 1(2) slot_update [OF i, of None j] by (auto split: if_splits)
  then show ?case using 1 i h fill sp by (auto simp: slot_update)
next
  case (2 key h' occ cs)
  let ?i = "subkey key h'"
  have h: "h = h'" "0 < h" and i: "?i < length cs" and occ: "0 < occ" using 2(2) by auto
  then obtain j where j: "h' = Suc j" by (cases h') auto
  have wf: "rt_wf h (RInner h occ cs)" using 2(2) h by simp
  obtain c where c: "slot cs ?i = Some c" "get_node key c = Some v"
    using 2(3) by (auto split: option.splits)
  have "rt_wf j c" using rt_wf_slot [OF wf, of ?i c] c h j by simp
  then obtain c' where c': "remove_node key c = Some (Some v, c')"
    "case c' of
        None \<Rightarrow> j = 0 \<and> (\<forall>k. get_node k c = (if k mod span (Suc j) = key mod span (Suc j) then Some v else None))
      | Some m \<Rightarrow> rt_wf j m \<and>
          (\<forall>k. get_node k m = (if k mod span (Suc j) = key mod span (Suc j) then None else get_node k c))"
    using 2(1) [OF c(1), of j] c(2) by blast
  have sp: "k mod span (Suc h) = key mod span (Suc h) \<longleftrightarrow>
      subkey k h' = ?i \<and> k mod span (Suc j) = key mod span (Suc j)" for k
    using key_eq_split [of k h' key] h j by simp
  show ?case
  proof (cases c')
    case None
    then show ?thesis
      unfolding sp using c c' h i occ wf_inner_update [OF wf, of None occ]
      by (auto simp: slot_update simp del: rt_wf.simps)
  next
    case (Some m)
    then show ?thesis
      unfolding sp using c c' h i occ j wf_inner_update [OF wf, of "Some m" occ]
      by (auto simp: slot_update simp del: rt_wf.simps)
  qed
qed

section \<open>The tree is a map\<close>

text \<open>
  The contract of a map from integer keys, as the page cache uses it. Removing is specified for
  keys that are present; \<open>remove_absent_loses\<close> below shows why.
\<close>

datatype 'v kv_op = KInsert nat 'v | KRemove nat | KGet nat

fun kv_step :: "(nat \<Rightarrow> 's \<Rightarrow> 'v option) \<Rightarrow> (nat \<Rightarrow> 'v \<Rightarrow> 's \<Rightarrow> 'v option option \<times> 's) \<Rightarrow>
    (nat \<Rightarrow> 's \<Rightarrow> ('v option \<times> 's) option) \<Rightarrow> 'v kv_op \<Rightarrow> 's \<Rightarrow> ('v option \<times> 's) option" where
  "kv_step lookup ins rem (KInsert k v) s =
     (case ins k v s of (None, _) \<Rightarrow> None | (Some old, s') \<Rightarrow> Some (old, s'))"
| "kv_step lookup ins rem (KRemove k) s =
     (case lookup k s of None \<Rightarrow> Some (None, s) | Some _ \<Rightarrow> rem k s)"
| "kv_step lookup ins rem (KGet k) s = Some (lookup k s, s)"

fun kv_run :: "(nat \<Rightarrow> 's \<Rightarrow> 'v option) \<Rightarrow> (nat \<Rightarrow> 'v \<Rightarrow> 's \<Rightarrow> 'v option option \<times> 's) \<Rightarrow>
    (nat \<Rightarrow> 's \<Rightarrow> ('v option \<times> 's) option) \<Rightarrow> 'v kv_op list \<Rightarrow> 's \<Rightarrow> ('v option list \<times> 's) option" where
  "kv_run lookup ins rem [] s = Some ([], s)"
| "kv_run lookup ins rem (op # ops) s =
     (case kv_step lookup ins rem op s of
        None \<Rightarrow> None
      | Some (r, s') \<Rightarrow>
          (case kv_run lookup ins rem ops s' of None \<Rightarrow> None | Some (rs, s'') \<Rightarrow> Some (r # rs, s'')))"

text \<open>The same on a map.\<close>

fun kv_spec :: "'v kv_op \<Rightarrow> (nat \<Rightarrow> 'v option) \<Rightarrow> 'v option \<times> (nat \<Rightarrow> 'v option)" where
  "kv_spec (KInsert k v) m = (m k, m(k := Some v))"
| "kv_spec (KRemove k) m = (m k, m(k := None))"
| "kv_spec (KGet k) m = (m k, m)"

fun kv_spec_run :: "'v kv_op list \<Rightarrow> (nat \<Rightarrow> 'v option) \<Rightarrow> 'v option list \<times> (nat \<Rightarrow> 'v option)" where
  "kv_spec_run [] m = ([], m)"
| "kv_spec_run (op # ops) m =
     (case kv_spec op m of (r, m') \<Rightarrow> case kv_spec_run ops m' of (rs, m'') \<Rightarrow> (r # rs, m''))"

fun kv_op_ok :: "(nat \<Rightarrow> bool) \<Rightarrow> 'v kv_op \<Rightarrow> bool" where
  "kv_op_ok key_ok (KInsert k v) \<longleftrightarrow> key_ok k"
| "kv_op_ok key_ok _ \<longleftrightarrow> True"

locale key_map =
  fixes inv :: "'s \<Rightarrow> bool"
    and lookup :: "nat \<Rightarrow> 's \<Rightarrow> 'v option"
    and insert_key :: "nat \<Rightarrow> 'v \<Rightarrow> 's \<Rightarrow> 'v option option \<times> 's"
    and remove_key :: "nat \<Rightarrow> 's \<Rightarrow> ('v option \<times> 's) option"
    and key_ok :: "nat \<Rightarrow> bool"
  assumes insert_ok: "inv s \<Longrightarrow> key_ok k \<Longrightarrow> \<exists>s'. insert_key k v s = (Some (lookup k s), s') \<and> inv s' \<and>
      (\<forall>j. lookup j s' = (if j = k then Some v else lookup j s))"
    and remove_ok: "inv s \<Longrightarrow> lookup k s = Some v \<Longrightarrow> \<exists>s'. remove_key k s = Some (Some v, s') \<and> inv s' \<and>
      (\<forall>j. lookup j s' = (if j = k then None else lookup j s))"
begin

lemma kv_step_refines:
  assumes "inv s" "kv_op_ok key_ok op"
  shows "\<exists>s'. kv_step lookup insert_key remove_key op s = Some (fst (kv_spec op (\<lambda>k. lookup k s)), s') \<and> inv s' \<and>
    (\<lambda>k. lookup k s') = snd (kv_spec op (\<lambda>k. lookup k s))"
proof (cases op)
  case (KInsert k v)
  then show ?thesis using insert_ok [of s k v] assms by (auto simp: fun_eq_iff)
next
  case (KRemove k)
  then show ?thesis using remove_ok [of s k] assms by (cases "lookup k s") (auto simp: fun_eq_iff)
qed (use assms in auto)

lemma kv_run_refines:
  "inv s \<Longrightarrow> \<forall>op\<in>set ops. kv_op_ok key_ok op \<Longrightarrow>
   \<exists>s'. kv_run lookup insert_key remove_key ops s = Some (fst (kv_spec_run ops (\<lambda>k. lookup k s)), s') \<and> inv s' \<and>
     (\<lambda>k. lookup k s') = snd (kv_spec_run ops (\<lambda>k. lookup k s))"
proof (induction ops arbitrary: s)
  case (Cons op ops)
  obtain s1 where s1: "kv_step lookup insert_key remove_key op s = Some (fst (kv_spec op (\<lambda>k. lookup k s)), s1)" "inv s1"
    "(\<lambda>k. lookup k s1) = snd (kv_spec op (\<lambda>k. lookup k s))"
    using kv_step_refines [OF Cons.prems(1), of op] Cons.prems(2) by auto
  then show ?case using Cons.IH [OF s1(2)] Cons.prems(2) by (auto split: prod.splits)
qed simp

end

lemma rt_insert_ok:
  assumes "rt_inv t" "key < 2 ^ 64" "40 \<le> mem"
  shows "\<exists>t'. rt_insert key v mem t = (Some (rt_get key t), t') \<and> rt_inv t' \<and>
    (\<forall>k. rt_get k t' = (if k = key then Some v else rt_get k t))"
proof (cases t)
  case (Some r)
  then show ?thesis using rt_insert_root [of "node_height r" r key mem v] assms by (auto simp: rt_inv_def)
next
  case None
  let ?h = "key_height key - 1"
  have h: "0 < key_height key" "key_height key \<le> 16" "Suc ?h = key_height key"
    using key_height_bound key_height_16 [OF assms(2)] by auto
  have wf: "rt_wf ?h (path_tree key v ?h)" by (rule path_tree_wf)
  have "rt_get k (Some (path_tree key v ?h)) = (if k = key then Some v else None)" for k
    using key_height_bound(1) [of key] path_tree_get [of k key v ?h] rt_wf_height [OF wf] h
    by (auto simp: rt_get_def is_too_large_iff)
  moreover have "rt_inv (Some (path_tree key v ?h))"
    using wf rt_wf_height [OF wf] h by (simp add: rt_inv_def)
  moreover have "key_height key < mem" using h assms(3) by simp
  ultimately show ?thesis using None h by (simp add: rt_insert_def create_subtree_path rt_get_def)
qed

lemma rt_remove_ok:
  assumes "rt_inv t" "rt_get key t = Some v"
  shows "\<exists>t'. rt_remove key t = Some (Some v, t') \<and> rt_inv t' \<and>
    (\<forall>k. rt_get k t' = (if k = key then None else rt_get k t))"
proof (cases t)
  case (Some r)
  let ?h = "node_height r"
  have wf: "rt_wf ?h r" "?h < 16" and key: "key < span (Suc ?h)" and get: "get_node key r = Some v"
    using assms Some by (auto simp: rt_inv_def rt_get_def is_too_large_iff split: if_splits)
  obtain n' where n': "remove_node key r = Some (Some v, n')"
    "case n' of
        None \<Rightarrow> ?h = 0 \<and> (\<forall>k. get_node k r = (if k mod span (Suc ?h) = key mod span (Suc ?h) then Some v else None))
      | Some m \<Rightarrow> rt_wf ?h m \<and>
          (\<forall>k. get_node k m = (if k mod span (Suc ?h) = key mod span (Suc ?h) then None else get_node k r))"
    using remove_node_ok [OF wf(1) get] by blast
  have "rt_get k n' = (if k = key then None else rt_get k t)" for k
    using n'(2) key Some rt_wf_height by (cases n') (fastforce simp: rt_get_def is_too_large_iff)+
  moreover have "rt_inv n'" using n'(2) wf(2) rt_wf_height by (cases n') (fastforce simp: rt_inv_def)+
  ultimately show ?thesis using n'(1) Some key by (simp add: rt_remove_def is_too_large_iff)
qed (use assms in \<open>simp add: rt_get_def\<close>)

interpretation rt: key_map rt_inv rt_get "\<lambda>k v. rt_insert k v 40" rt_remove "\<lambda>k. k < 2 ^ 64"
  by unfold_locales (blast intro: rt_insert_ok rt_remove_ok order_refl)+


definition rt_demo_ops :: "nat kv_op list" where
  "rt_demo_ops = [KInsert 0 7, KInsert 1024 8, KInsert 0 9, KGet 1024, KRemove 0, KGet 0]"


text \<open>
  \<open>remove\<close> lowers the occupancy of the leaf even when the slot is empty. Removing an absent key
  next to a lone entry therefore drops the leaf and loses the entry.
\<close>

lemma remove_absent_loses:
  assumes "rt_insert 0 v 2 rt_new = (r, t)"
  shows "rt_get 0 t = Some v \<and> rt_get 1 t = None \<and> rt_remove 1 t = Some (None, None)"
proof -
  have "key_height 0 = 1" by (simp add: key_height_def key_bits_def div_ceil_def rt_bits_def)
  moreover have "key_bits (Suc 0) = 1" by (simp add: key_bits_def ilog2.simps)
  ultimately have "t = Some (path_tree 0 v 0)"
    using assms by (simp add: rt_insert_def rt_new_def create_subtree_path)
  then show ?thesis
    using \<open>key_bits (Suc 0) = 1\<close>
    by (simp add: rt_get_def rt_remove_def is_too_large_def key_bits_def [of 0] rt_bits_def
        slot_leaf_array subkey_def)
qed

text \<open>
  When the tree must grow and the new root cannot be allocated, \<open>insert\<close> has already moved the old
  root out and drops it: every entry of the tree is lost.
\<close>

lemma insert_alloc_error_loses:
  assumes "rt_wf h r" "span (Suc h) \<le> key"
  shows "rt_insert key v 0 (Some r) = (None, None)"
proof -
  have "h + 1 < key_height key"
  proof (rule ccontr)
    assume "\<not> h + 1 < key_height key"
    then have "key_height key * rt_bits \<le> Suc h * rt_bits" by (intro mult_right_mono) auto
    then have "span (key_height key) \<le> span (Suc h)" unfolding span_def by (intro power_increasing) auto
    then show False using key_height_bound(1) [of key] assms(2) by simp
  qed
  then show ?thesis
    using assms rt_wf_height [OF assms(1)]
    by (simp add: rt_insert_def is_too_large_iff upt_conv_Cons)
qed

end
