(* ===== verification/Radix_Iter.thy ===== *)
theory Radix_Iter
  imports Radix_Tree
begin

text \<open>
  The iterator of the radix tree (\<open>RadixTreeIterImpl\<close> in \<open>src/util/rtree.rs\<close>). Its \<open>node\<close> pointer
  and the parent pointers above it are the stack of nodes from the current one up to the root.
\<close>

section \<open>Model\<close>

definition u64_max :: nat where
  "u64_max = 2 ^ 64 - 1"

type_synonym 'v rt_iter = "nat option \<times> 'v rnode list"

definition iter_new :: "'v rtree \<Rightarrow> 'v rt_iter" where
  "iter_new root = (case root of None \<Rightarrow> (None, []) | Some r \<Rightarrow> (Some 0, [r]))"

text \<open>\<open>down\<close>: from the current node towards the key, stopping where a child is missing.\<close>

function iter_down :: "nat \<Rightarrow> 'v rnode \<Rightarrow> 'v rnode list \<Rightarrow> 'v option \<times> 'v rnode list" where
  "iter_down key (RLeaf occ xs) st = (slot xs (subkey key 0), RLeaf occ xs # st)"
| "iter_down key (RInner h occ cs) st =
     (case slot cs (subkey key h) of
        None \<Rightarrow> (None, RInner h occ cs # st)
      | Some c \<Rightarrow> iter_down key c (RInner h occ cs # st))"
  by pat_completeness auto
termination
  by (relation "measure (\<lambda>(k, n, st). size n)") (auto dest: slot_size)

fun iter_advance :: "nat \<Rightarrow> 'v rnode list \<Rightarrow> 'v rt_iter" where
  "iter_advance key [] = (None, [])"
| "iter_advance key (n # st) =
     (if subkey key (node_height n) \<noteq> 2 ^ rt_bits - 1
      then
        (let align = 2 ^ (node_height n * rt_bits); aligned = key - key mod align
         in (checked_add u64_max aligned align, n # st))
      else iter_advance key st)"

lemma iter_advance_less:
  "fst (iter_advance key st) = Some key' \<Longrightarrow> key < key' \<and> key' \<le> u64_max"
proof (induction key st rule: iter_advance.induct)
  case (2 key n st)
  have "key < key - key mod a + a" if "0 < a" for a :: nat
    using that mod_less_divisor [OF that, of key] mod_less_eq_dividend [of key a] by linarith
  from this [of "2 ^ (node_height n * rt_bits)"] show ?case
    using 2 by (auto simp: Let_def split: if_splits)
qed simp

definition iter_left :: "'v rt_iter \<Rightarrow> nat" where
  "iter_left it = (case fst it of None \<Rightarrow> 0 | Some k \<Rightarrow> Suc (u64_max - k))"

lemma iter_advance_left: "iter_left (iter_advance key st) < Suc (u64_max - key)"
  using iter_advance_less [of key st] by (fastforce simp: iter_left_def split: option.splits)

text \<open>\<open>next\<close>: step until a value is found or the keys are exhausted.\<close>

function iter_next :: "'v rt_iter \<Rightarrow> (nat \<times> 'v) option \<times> 'v rt_iter" where
  "iter_next (None, st) = (None, (None, st))"
| "iter_next (Some key, []) = (None, (None, []))"
| "iter_next (Some key, n # st) =
     (let (res, st1) = iter_down key n st; it = iter_advance key st1
      in case res of Some v \<Rightarrow> (Some (key, v), it) | None \<Rightarrow> iter_next it)"
  by pat_completeness auto
termination
  by (relation "measure iter_left") (auto simp: iter_left_def [of "(Some k, st)" for k st] iter_advance_left)

lemma iter_next_left: "iter_next it = (Some e, it') \<Longrightarrow> iter_left it' < iter_left it"
proof (induction it rule: iter_next.induct)
  case (3 key n st)
  obtain res st1 where d: "iter_down key n st = (res, st1)" by fastforce
  have adv: "iter_left (iter_advance key st1) < iter_left (Some key, n # st)"
    using iter_advance_left by (simp add: iter_left_def)
  show ?case
  proof (cases res)
    case None
    then have "iter_left it' < iter_left (iter_advance key st1)" using 3 d by auto
    then show ?thesis using adv by simp
  qed (use 3(2) d adv in auto)
qed auto

text \<open>All that an iteration yields.\<close>

function iter_all :: "'v rt_iter \<Rightarrow> (nat \<times> 'v) list" where
  "iter_all it = (case iter_next it of (None, _) \<Rightarrow> [] | (Some e, it') \<Rightarrow> e # iter_all it')"
  by pat_completeness auto
termination
  by (relation "measure iter_left") (auto dest: iter_next_left [OF sym])

declare iter_all.simps [simp del] iter_next.simps [simp del] iter_advance.simps [simp del]

section \<open>The path to a key\<close>

fun path_ok :: "nat \<Rightarrow> 'v rnode \<Rightarrow> 'v rnode list \<Rightarrow> bool" where
  "path_ok key root [] \<longleftrightarrow> False"
| "path_ok key root [n] \<longleftrightarrow> n = root"
| "path_ok key root (n # p # st) \<longleftrightarrow>
     slot (case p of RLeaf _ _ \<Rightarrow> [] | RInner _ _ cs \<Rightarrow> cs) (subkey key (node_height p)) = Some n \<and>
     path_ok key root (p # st)"

lemma path_wf:
  "path_ok key root (n # st) \<Longrightarrow> rt_wf (node_height root) root \<Longrightarrow> rt_wf (node_height n) n"
proof (induction st arbitrary: n)
  case (Cons p st)
  have p: "rt_wf (node_height p) p" using Cons by simp
  then obtain h occ cs where "p = RInner h occ cs" using Cons.prems(1) by (cases p) (auto simp: slot_def)
  then have "rt_wf (h - 1) n" using p Cons.prems(1) rt_wf_slot [of h occ cs "subkey key h" n] by simp
  then show ?case using rt_wf_height by metis
qed simp

lemma path_parent:
  assumes "path_ok key root (n # p # st)" "rt_wf (node_height root) root"
  shows "node_height p = Suc (node_height n)"
proof -
  have p: "rt_wf (node_height p) p" using path_wf assms by force
  then obtain h occ cs where h: "p = RInner h occ cs" "0 < h" using assms(1) by (cases p) (auto simp: slot_def)
  then have "rt_wf (h - 1) n" using p assms(1) rt_wf_slot [of h occ cs "subkey key h" n] by simp
  then show ?thesis using h rt_wf_height by fastforce
qed

lemma path_height:
  "path_ok key root (n # st) \<Longrightarrow> rt_wf (node_height root) root \<Longrightarrow> node_height n \<le> node_height root"
  using path_parent by (induction st arbitrary: n) fastforce+

text \<open>The path serves every key that agrees above the node.\<close>

lemma subkey_above:
  assumes "k div span (Suc h) = j div span (Suc h)" "h < g"
  shows "subkey k g = subkey j g"
proof -
  obtain d where "g = Suc h + d" using assms(2) less_iff_Suc_add by auto
  then have "span g = span (Suc h) * 2 ^ (d * rt_bits)" by (simp add: span_def power_add add_mult_distrib)
  then show ?thesis using assms(1) by (simp add: subkey_span div_mult2_eq)
qed

lemma path_other:
  "path_ok key root (n # st) \<Longrightarrow> rt_wf (node_height root) root \<Longrightarrow>
   k div span (Suc (node_height n)) = key div span (Suc (node_height n)) \<Longrightarrow> path_ok k root (n # st)"
proof (induction st arbitrary: n)
  case (Cons p st)
  have h: "node_height p = Suc (node_height n)" using path_parent Cons.prems by blast
  have "k div span (Suc (node_height n)) div 2 ^ rt_bits = key div span (Suc (node_height n)) div 2 ^ rt_bits"
    using Cons.prems(3) by simp
  then have "k div span (Suc (node_height p)) = key div span (Suc (node_height p))"
    unfolding h span_Suc [of "Suc (node_height n)"] by (simp add: div_mult2_eq)
  moreover have "subkey k (node_height p) = subkey key (node_height p)"
    using subkey_above [OF Cons.prems(3)] h by simp
  ultimately show ?case using Cons by simp
qed simp

lemma path_get: "path_ok key root (n # st) \<Longrightarrow> get_node key root = get_node key n"
proof (induction st arbitrary: n)
  case (Cons p st)
  then show ?case by (cases p) (auto simp: slot_def)
qed simp

text \<open>
  Going down reaches the value of the key. Where it stops early no key of the missing child's range
  has a value.
\<close>

lemma iter_down_ok:
  "path_ok key root (n # st) \<Longrightarrow> rt_wf (node_height root) root \<Longrightarrow>
   \<exists>m st1. iter_down key n st = (get_node key n, m # st1) \<and> path_ok key root (m # st1) \<and>
     (\<forall>k. k div span (node_height m) = key div span (node_height m) \<longrightarrow> get_node k root = get_node key root)"
proof (induction key n st rule: iter_down.induct)
  case (1 key occ xs st)
  then show ?case by (auto simp: span_def)
next
  case (2 key h occ cs st)
  show ?case
  proof (cases "slot cs (subkey key h)")
    case None
    have "get_node k root = None" if k: "k div span h = key div span h" for k
    proof -
      have "k div span (Suc h) = key div span (Suc h)" using k by (simp add: span_Suc div_mult2_eq)
      then have "path_ok k root (RInner h occ cs # st)" using path_other [OF 2(2,3)] by simp
      moreover have "subkey k h = subkey key h" using k by (simp add: subkey_span)
      ultimately show ?thesis using None path_get by fastforce
    qed
    then show ?thesis using None 2(2) path_get [OF 2(2)] by simp
  next
    case (Some c)
    then show ?thesis using 2 by simp
  qed
qed

lemma iter_down_leaf: "iter_down key n st = (Some v, m # st1) \<Longrightarrow> node_height m = 0"
  by (induction key n st rule: iter_down.induct) (auto split: option.splits)

text \<open>
  The next key after a node of height \<open>h\<close> is the first one past the range of \<open>2 ^ (4 * h)\<close> keys
  that the current key lies in.
\<close>

definition next_key :: "nat \<Rightarrow> nat \<Rightarrow> nat" where
  "next_key key h = span h * (key div span h + 1)"

lemma next_key_align: "key - key mod span h + span h = next_key key h"
  by (simp add: next_key_def minus_mod_eq_mult_div)

lemma next_key_carry:
  assumes "subkey key h = 2 ^ rt_bits - 1"
  shows "next_key key (Suc h) = next_key key h"
proof -
  let ?q = "key div span h"
  have "?q mod 2 ^ rt_bits = 2 ^ rt_bits - 1" using assms by (simp add: subkey_span)
  then have "?q + 1 = 2 ^ rt_bits * (?q div 2 ^ rt_bits + 1)"
    using mult_div_mod_eq [of "2 ^ rt_bits" ?q] by (simp add: rt_bits_def)
  then show ?thesis by (simp add: next_key_def span_Suc div_mult2_eq algebra_simps)
qed

lemma next_key_digit:
  assumes "subkey key h \<noteq> 2 ^ rt_bits - 1"
  shows "next_key key h div span (Suc h) = key div span (Suc h)"
proof -
  let ?q = "key div span h"
  have "?q mod 2 ^ rt_bits < 2 ^ rt_bits" by simp
  then have "?q mod 2 ^ rt_bits + 1 < 2 ^ rt_bits" using assms unfolding subkey_span by linarith
  moreover have "(r + 2 ^ rt_bits * d) div 2 ^ rt_bits = d" if "r < 2 ^ rt_bits" for r d :: nat
    using that by simp
  ultimately have "((?q mod 2 ^ rt_bits + 1) + 2 ^ rt_bits * (?q div 2 ^ rt_bits)) div 2 ^ rt_bits = ?q div 2 ^ rt_bits"
    by blast
  moreover have "(?q mod 2 ^ rt_bits + 1) + 2 ^ rt_bits * (?q div 2 ^ rt_bits) = ?q + 1"
    using mod_mult_div_eq [of ?q "2 ^ rt_bits"] by linarith
  ultimately have "(?q + 1) div 2 ^ rt_bits = ?q div 2 ^ rt_bits" by simp
  moreover have "next_key key h div span h = ?q + 1" by (simp add: next_key_def)
  ultimately show ?thesis by (simp add: span_Suc div_mult2_eq)
qed

lemma next_key_gap: "key < k \<Longrightarrow> k < next_key key h \<Longrightarrow> k div span h = key div span h"
proof -
  assume k: "key < k" "k < next_key key h"
  have "key div span h \<le> k div span h" using k(1) by (intro div_le_mono) simp
  moreover have "k div span h < key div span h + 1"
    using k(2) by (simp add: next_key_def less_mult_imp_div_less mult.commute)
  ultimately show ?thesis by simp
qed

lemma next_key_top: "key < span h \<Longrightarrow> next_key key h = span h"
  by (simp add: next_key_def)

lemma div_span_mono:
  assumes "a div span i = b div span i" "i \<le> j"
  shows "a div span j = b div span j"
proof -
  obtain d where "j = i + d" using assms(2) le_Suc_ex by blast
  then have "span j = span i * 2 ^ (d * rt_bits)" by (simp add: span_def power_add add_mult_distrib)
  then show ?thesis using assms(1) by (simp add: div_mult2_eq)
qed

lemma span_max: "h < 16 \<Longrightarrow> span (Suc h) \<le> 2 ^ 64"
proof -
  assume "h < 16"
  then have "Suc h * rt_bits \<le> 64" by (simp add: rt_bits_def)
  then show ?thesis unfolding span_def by (intro power_increasing) auto
qed

lemma iter_advance_here:
  assumes path: "path_ok key root (n # st)" and root: "rt_wf (node_height root) root" "node_height root < 16"
    and key: "key < span (Suc (node_height root))" and sub: "subkey key (node_height n) \<noteq> 2 ^ rt_bits - 1"
  defines "k \<equiv> next_key key (node_height n)"
  shows "iter_advance key (n # st) = (Some k, n # st) \<and> path_ok k root (n # st) \<and> k < span (Suc (node_height root))"
proof -
  have d: "k div span (Suc (node_height n)) = key div span (Suc (node_height n))"
    unfolding k_def by (rule next_key_digit [OF sub])
  have "Suc (node_height n) \<le> Suc (node_height root)" using path_height [OF path root(1)] by simp
  from div_span_mono [OF d this]
  have "k div span (Suc (node_height root)) = key div span (Suc (node_height root))" .
  then have lt: "k < span (Suc (node_height root))" using key by (simp add: div_eq_0_iff)
  moreover have "k \<le> u64_max" using lt span_max [OF root(2)] unfolding u64_max_def by linarith
  moreover have "key - key mod 2 ^ (node_height n * rt_bits) + 2 ^ (node_height n * rt_bits) = k"
    using next_key_align [of key "node_height n"] unfolding k_def span_def .
  ultimately have "checked_add u64_max (key - key mod 2 ^ (node_height n * rt_bits)) (2 ^ (node_height n * rt_bits)) = Some k"
    by (simp add: checked_add_def)
  then have "iter_advance key (n # st) = (Some k, n # st)" using sub by (simp add: iter_advance.simps Let_def)
  then show ?thesis using lt path_other [OF path root(1) d] by simp
qed

lemma iter_advance_ok:
  assumes "path_ok key root (n # st)" "rt_wf (node_height root) root" "node_height root < 16"
    and "key < span (Suc (node_height root))"
  defines "k \<equiv> next_key key (node_height n)"
  shows "(\<exists>m st1. iter_advance key (n # st) = (Some k, m # st1) \<and> path_ok k root (m # st1) \<and>
      k < span (Suc (node_height root))) \<or>
    (fst (iter_advance key (n # st)) = None \<and> span (Suc (node_height root)) \<le> k)"
  using assms(1) unfolding k_def
proof (induction st arbitrary: n)
  case Nil
  show ?case
  proof (cases "subkey key (node_height n) = 2 ^ rt_bits - 1")
    case True
    then have "next_key key (node_height root) = span (Suc (node_height root))"
      using next_key_carry [OF True] next_key_top [OF assms(4)] Nil by simp
    then show ?thesis using True Nil by (simp add: iter_advance.simps)
  qed (use iter_advance_here [OF Nil assms(2-4)] in blast)
next
  case (Cons p st)
  show ?case
  proof (cases "subkey key (node_height n) = 2 ^ rt_bits - 1")
    case True
    have "next_key key (node_height p) = next_key key (node_height n)"
      using path_parent [OF Cons.prems assms(2)] next_key_carry [OF True] by simp
    moreover have "iter_advance key (n # p # st) = iter_advance key (p # st)" using True by (simp add: iter_advance.simps)
    ultimately show ?thesis using Cons.IH [of p] Cons.prems by simp
  qed (use iter_advance_here [OF Cons.prems assms(2-4)] in blast)
qed

section \<open>Iteration\<close>

definition entries_from :: "'v rnode \<Rightarrow> nat \<Rightarrow> (nat \<times> 'v) set" where
  "entries_from root key = {(k, v). key \<le> k \<and> rt_get k (Some root) = Some v}"

lemma entries_step:
  assumes "key < span (Suc (node_height root))" "key < k"
    and "\<And>j. key < j \<Longrightarrow> j < k \<Longrightarrow> get_node j root = get_node key root"
    and "get_node key root = None \<or> k = Suc key"
  shows "entries_from root key = (case get_node key root of None \<Rightarrow> {} | Some v \<Rightarrow> {(key, v)}) \<union> entries_from root k"
proof -
  have "(j, v) \<in> entries_from root key \<longleftrightarrow> (j = key \<and> get_node key root = Some v) \<or> (j, v) \<in> entries_from root k" for j v
  proof (cases "key < j \<and> j < k")
    case True
    then show ?thesis using assms(3) [of j] assms(4) by (auto simp: entries_from_def rt_get_def)
  next
    case False
    then consider "j < key" | "j = key" | "k \<le> j" by linarith
    then show ?thesis
      using assms(1,2) by cases (auto simp: entries_from_def rt_get_def is_too_large_iff)
  qed
  then show ?thesis by (auto split: option.splits)
qed

lemma entries_end: "span (Suc (node_height root)) \<le> k \<Longrightarrow> entries_from root k = {}"
  by (auto simp: entries_from_def rt_get_def is_too_large_iff)

lemma iter_step_ok:
  assumes path: "path_ok key root (n # st)" and root: "rt_wf (node_height root) root" "node_height root < 16"
    and key: "key < span (Suc (node_height root))"
  obtains res it where "iter_next (Some key, n # st) =
      (case res of Some v \<Rightarrow> (Some (key, v), it) | None \<Rightarrow> iter_next it)"
    "iter_left it < iter_left (Some key, n # st)"
    "entries_from root key = (case res of None \<Rightarrow> {} | Some v \<Rightarrow> {(key, v)}) \<union>
       (case fst it of None \<Rightarrow> {} | Some k \<Rightarrow> entries_from root k)"
    "\<And>k. fst it = Some k \<Longrightarrow> key < k \<and> k < span (Suc (node_height root)) \<and>
       (\<exists>m st1. snd it = m # st1 \<and> path_ok k root (m # st1))"
proof -
  obtain m st1 where d: "iter_down key n st = (get_node key n, m # st1)" "path_ok key root (m # st1)"
    "\<forall>k. k div span (node_height m) = key div span (node_height m) \<longrightarrow> get_node k root = get_node key root"
    using iter_down_ok [OF path root(1)] by blast
  define it where "it = iter_advance key (m # st1)"
  define res where "res = get_node key n"
  let ?k = "next_key key (node_height m)"
  have root_get: "get_node key root = res" using path_get [OF path] by (simp add: res_def)
  have "key mod span (node_height m) < span (node_height m)" by simp
  then have lt: "key < ?k"
    using mod_less_eq_dividend [of key "span (node_height m)"] unfolding next_key_align [symmetric] by linarith
  have gap: "get_node j root = get_node key root" if "key < j" "j < ?k" for j
    using d(3) next_key_gap [OF that] by blast
  have "res = None \<or> ?k = Suc key"
  proof (cases res)
    case (Some v)
    then have "node_height m = 0" using d(1) iter_down_leaf [of key n st v m st1] by (simp add: res_def)
    then show ?thesis by (simp add: next_key_def span_def)
  qed simp
  then have ent: "entries_from root key = (case res of None \<Rightarrow> {} | Some v \<Rightarrow> {(key, v)}) \<union> entries_from root ?k"
    using entries_step [OF key lt gap] root_get by simp
  have adv: "(\<exists>m st1. it = (Some ?k, m # st1) \<and> path_ok ?k root (m # st1) \<and> ?k < span (Suc (node_height root))) \<or>
    (fst it = None \<and> span (Suc (node_height root)) \<le> ?k)"
    unfolding it_def by (rule iter_advance_ok [OF d(2) root key])
  show ?thesis
  proof (rule that [where res = res and it = it])
    show "iter_next (Some key, n # st) = (case res of Some v \<Rightarrow> (Some (key, v), it) | None \<Rightarrow> iter_next it)"
      using d(1) by (simp add: it_def res_def Let_def iter_next.simps split: option.split)
    show "iter_left it < iter_left (Some key, n # st)"
      using iter_advance_left [of key "m # st1"] by (simp add: it_def iter_left_def [of "(Some key, n # st)"])
    show "entries_from root key = (case res of None \<Rightarrow> {} | Some v \<Rightarrow> {(key, v)}) \<union>
       (case fst it of None \<Rightarrow> {} | Some k \<Rightarrow> entries_from root k)"
      using adv
    proof
      assume "fst it = None \<and> span (Suc (node_height root)) \<le> ?k"
      then show ?thesis using ent entries_end [of root ?k] by simp
    next
      assume "\<exists>m st1. it = (Some ?k, m # st1) \<and> path_ok ?k root (m # st1) \<and> ?k < span (Suc (node_height root))"
      then have "fst it = Some ?k" by auto
      then show ?thesis using ent by simp
    qed
    show "key < k \<and> k < span (Suc (node_height root)) \<and> (\<exists>m st1. snd it = m # st1 \<and> path_ok k root (m # st1))"
      if "fst it = Some k" for k
      using adv that lt by auto
  qed
qed

lemma iter_all_entries:
  assumes "rt_wf (node_height root) root" "node_height root < 16"
  shows "path_ok key root (n # st) \<Longrightarrow> key < span (Suc (node_height root)) \<Longrightarrow>
    set (iter_all (Some key, n # st)) = entries_from root key \<and> sorted_wrt (<) (map fst (iter_all (Some key, n # st)))"
proof (induction "iter_left (Some key, n # st)" arbitrary: key n st rule: less_induct)
  case less
  obtain res it where it: "iter_next (Some key, n # st) =
      (case res of Some v \<Rightarrow> (Some (key, v), it) | None \<Rightarrow> iter_next it)"
    "iter_left it < iter_left (Some key, n # st)"
    "entries_from root key = (case res of None \<Rightarrow> {} | Some v \<Rightarrow> {(key, v)}) \<union>
       (case fst it of None \<Rightarrow> {} | Some k \<Rightarrow> entries_from root k)"
    "\<And>k. fst it = Some k \<Longrightarrow> key < k \<and> k < span (Suc (node_height root)) \<and>
       (\<exists>m st1. snd it = m # st1 \<and> path_ok k root (m # st1))"
    by (rule iter_step_ok [OF less.prems(1) assms less.prems(2)]) blast
  have rest: "set (iter_all it) = (case fst it of None \<Rightarrow> {} | Some k \<Rightarrow> entries_from root k) \<and>
      sorted_wrt (<) (map fst (iter_all it))"
  proof (cases "fst it")
    case None
    then obtain st0 where "it = (None, st0)" by (cases it) auto
    then show ?thesis by (simp add: iter_all.simps iter_next.simps)
  next
    case (Some k)
    then obtain m st1 where m: "it = (Some k, m # st1)" "path_ok k root (m # st1)" "k < span (Suc (node_height root))"
      using it(4) [OF Some] by (cases it) auto
    then show ?thesis using less.hyps [of k m st1] it(2) by simp
  qed
  have "iter_all (Some key, n # st) = (case res of None \<Rightarrow> iter_all it | Some v \<Rightarrow> (key, v) # iter_all it)"
    using it(1) by (simp add: iter_all.simps [of "(Some key, n # st)"] iter_all.simps [of it] split: option.split)
  moreover have "\<forall>e\<in>set (iter_all it). key < fst e"
    using rest it(4) by (auto simp: entries_from_def split: option.splits)
  ultimately show ?case using rest it(3) by (auto split: option.splits)
qed

text \<open>
  C29. The iterator of the radix tree yields every entry of the tree exactly once, in ascending
  order of the keys, and then ends.
\<close>

theorem rt_iter_sorted:
  assumes "rt_inv t"
  shows "set (iter_all (iter_new t)) = {(k, v). rt_get k t = Some v} \<and>
    sorted_wrt (<) (map fst (iter_all (iter_new t)))"
proof (cases t)
  case None
  then show ?thesis by (simp add: iter_new_def iter_all.simps iter_next.simps rt_get_def)
next
  case (Some r)
  then show ?thesis
    using iter_all_entries [of r 0 r "[]"] assms by (simp add: iter_new_def rt_inv_def entries_from_def)
qed

theorem rt_iter_sorted_witness:
  "\<exists>t. rt_insert 300 (True, False) 40 rt_new = (Some None, t) \<and>
     set (iter_all (iter_new t)) = {(300, (True, False))} \<and> sorted_wrt (<) (map fst (iter_all (iter_new t)))"
proof -
  obtain t where t: "rt_insert 300 (True, False) 40 rt_new = (Some None, t)" "rt_inv t"
    "\<forall>k. rt_get k t = (if k = 300 then Some (True, False) else None)"
    using rt_insert_ok [of rt_new 300 40 "(True, False)"] by (auto simp: rt_new_def rt_inv_def rt_get_def)
  then show ?thesis using rt_iter_sorted [OF t(2)] by (auto split: if_splits)
qed

end
