(* ===== verification/Fifo.thy ===== *)
theory Fifo
  imports Badger_Prelude
begin

text \<open>
  The byte FIFO of \<open>src/util/fifo.rs\<close>, the buffer behind pipes and terminals. The atomic positions
  are natural numbers, the wrapping subtraction of the source is kept. Copying from and to user
  memory may fault; how many bytes were copied before the fault is an argument.

  A call reserves, copies and commits; here a call runs without another one of its kind between its
  reservation and its commit, except that \<open>reserve_read\<close> takes the values that failed
  compare-and-exchanges return. \<open>None\<close> is a commit loop that does not end.
\<close>

section \<open>Model\<close>

record fifo =
  fdata :: "nat list"
  read_resv :: nat
  read_commit :: nat
  write_resv :: nat
  write_commit :: nat

datatype fifo_error = FFault | FPanic

definition fifo_new :: "nat \<Rightarrow> fifo" where
  "fifo_new sz = \<lparr>fdata = replicate sz 0, read_resv = 0, read_commit = 0, write_resv = 0, write_commit = 0\<rparr>"

definition read_space :: "nat \<Rightarrow> nat \<Rightarrow> nat \<Rightarrow> nat" where
  "read_space cap tx rx = wrapping_add usize_max (wrapping_sub usize_max tx rx) cap mod cap"

definition write_space :: "nat \<Rightarrow> nat \<Rightarrow> nat \<Rightarrow> nat" where
  "write_space cap rx tx =
     wrapping_sub usize_max (wrapping_add usize_max (wrapping_sub usize_max rx tx) cap) 1 mod cap"

text \<open>
  The reservation loop of \<open>read\<close>: \<open>tx\<close> was loaded before the loop, \<open>seen\<close> are the positions that
  other readers had stored when an exchange failed. The result is the start and the amount reserved.
\<close>

fun reserve_read :: "nat \<Rightarrow> nat \<Rightarrow> nat \<Rightarrow> nat \<Rightarrow> nat list \<Rightarrow> nat \<times> nat" where
  "reserve_read cap len tx rx [] = (rx, min (read_space cap tx rx) len)"
| "reserve_read cap len tx rx (x # seen) = reserve_read cap len tx x seen"

definition ring_slice :: "nat list \<Rightarrow> nat \<Rightarrow> nat \<Rightarrow> nat list" where
  "ring_slice data start_off end_off =
     (if end_off > start_off then take (end_off - start_off) (drop start_off data)
      else drop start_off data @ take end_off data)"

definition fifo_read :: "nat \<Rightarrow> nat option \<Rightarrow> fifo \<Rightarrow> ((fifo_error, nat list) result \<times> fifo) option" where
  "fifo_read len fault f =
     (let cap = length (fdata f) in
      if cap = 0 then Some (Err FPanic, f)
      else
        (let (rx, recv_cap) = reserve_read cap len (write_commit f) (read_resv f) [];
             f1 = f\<lparr>read_resv := wrapping_add usize_max rx recv_cap mod cap\<rparr>
         in if recv_cap = 0 then Some (Ok [], f1)
            else
              (let start_off = rx;
                   end_off = wrapping_add usize_max rx recv_cap mod cap
               in if read_commit f1 \<noteq> start_off then None
                  else Some (if fault = None then Ok (ring_slice (fdata f) start_off end_off) else Err FFault,
                             f1\<lparr>read_commit := end_off\<rparr>))))"

definition splice :: "nat \<Rightarrow> nat list \<Rightarrow> nat list \<Rightarrow> nat list" where
  "splice i bs xs = take i xs @ bs @ drop (i + length bs) xs"

text \<open>Copying \<open>n\<close> bytes into the ring from \<open>start_off\<close>, in one or two pieces.\<close>

definition ring_store :: "nat list \<Rightarrow> nat \<Rightarrow> nat list \<Rightarrow> nat list" where
  "ring_store data start_off bs =
     (let cap = length data in
      if start_off + length bs \<le> cap then splice start_off bs data
      else splice 0 (drop (cap - start_off) bs) (splice start_off (take (cap - start_off) bs) data))"

definition fifo_write :: "nat list \<Rightarrow> nat option \<Rightarrow> fifo \<Rightarrow> ((fifo_error, nat) result \<times> fifo) option" where
  "fifo_write wdata fault f =
     (let cap = length (fdata f) in
      if cap = 0 then Some (Err FPanic, f)
      else
        (let tx = write_resv f;
             send_cap = min (write_space cap (read_commit f) tx) (length wdata);
             end_off = wrapping_add usize_max tx send_cap mod cap;
             f1 = f\<lparr>write_resv := end_off\<rparr>
         in if send_cap = 0 then Some (Ok 0, f1)
            else if write_commit f1 \<noteq> tx then None
            else
              (let bs = take (case fault of None \<Rightarrow> send_cap | Some n \<Rightarrow> min n send_cap) wdata;
                   f2 = f1\<lparr>fdata := ring_store (fdata f) tx bs, write_commit := end_off\<rparr>
               in Some (if fault = None then Ok send_cap else Err FFault, f2))))"

definition read_avl :: "fifo \<Rightarrow> nat" where
  "read_avl f = read_space (length (fdata f)) (write_commit f) (read_resv f)"

definition write_avl :: "fifo \<Rightarrow> nat" where
  "write_avl f = write_space (length (fdata f)) (read_resv f) (write_commit f)"

section \<open>The bytes in the buffer\<close>

text \<open>No call is between its reservation and its commit.\<close>

definition fifo_ok :: "fifo \<Rightarrow> bool" where
  "fifo_ok f \<longleftrightarrow> 0 < length (fdata f) \<and> length (fdata f) < 2 ^ 62 \<and> read_resv f = read_commit f \<and>
     write_resv f = write_commit f \<and> read_commit f < length (fdata f) \<and> write_commit f < length (fdata f)"

definition amount :: "fifo \<Rightarrow> nat" where
  "amount f = (if read_commit f \<le> write_commit f then write_commit f - read_commit f
               else length (fdata f) - (read_commit f - write_commit f))"

definition ring_nth :: "nat list \<Rightarrow> nat \<Rightarrow> nat" where
  "ring_nth xs i = xs ! (if i < length xs then i else i - length xs)"

definition content :: "fifo \<Rightarrow> nat list" where
  "content f = map (\<lambda>i. ring_nth (fdata f) (read_commit f + i)) [0..<amount f]"

lemma wrap_mod: "0 < c \<Longrightarrow> x < 2 * c \<Longrightarrow> x mod c = (if x < c then x else x - c)" for c x :: nat
  by (simp add: mod_if)

lemma read_space_eq:
  assumes "0 < cap" "cap < 2 ^ 62" "tx < cap" "rx < cap"
  shows "read_space cap tx rx = (if rx \<le> tx then tx - rx else cap - (rx - tx))"
proof -
  have "read_space cap tx rx = (tx + cap - rx) mod cap"
    using assms by (simp add: read_space_def wrapping_sub_add usize_max_def)
  also have "\<dots> = (if rx \<le> tx then tx - rx else cap - (rx - tx))"
    using assms by (subst wrap_mod) auto
  finally show ?thesis .
qed

lemma write_space_eq:
  assumes "0 < cap" "cap < 2 ^ 62" "tx < cap" "rx < cap"
  shows "write_space cap rx tx = cap - 1 - (if rx \<le> tx then tx - rx else cap - (rx - tx))"
proof -
  have "write_space cap rx tx = (rx + cap - tx - 1) mod cap"
    using assms by (simp add: write_space_def wrapping_sub_add wrapping_sub_ge usize_max_def)
  also have "\<dots> = cap - 1 - (if rx \<le> tx then tx - rx else cap - (rx - tx))"
    using assms by (subst wrap_mod) auto
  finally show ?thesis .
qed

lemma amount_less: "fifo_ok f \<Longrightarrow> amount f < length (fdata f)"
  by (auto simp: fifo_ok_def amount_def)

lemma read_avl_amount: "fifo_ok f \<Longrightarrow> read_avl f = amount f"
  by (auto simp: fifo_ok_def read_avl_def read_space_eq amount_def)

lemma write_avl_amount: "fifo_ok f \<Longrightarrow> write_avl f = length (fdata f) - 1 - amount f"
  by (auto simp: fifo_ok_def write_avl_def write_space_eq amount_def)

lemma ring_slice_nth:
  assumes "start_off < length xs" "n < length xs" "0 < n"
    and e: "e = (if start_off + n < length xs then start_off + n else start_off + n - length xs)"
  shows "ring_slice xs start_off e = map (\<lambda>i. ring_nth xs (start_off + i)) [0..<n]"
  by (rule nth_equalityI) (use assms in \<open>auto simp: ring_slice_def ring_nth_def nth_append add.commute split: if_splits\<close>)

lemma splice_nth:
  "i + length bs \<le> length xs \<Longrightarrow> k < length xs \<Longrightarrow>
   splice i bs xs ! k = (if i \<le> k \<and> k < i + length bs then bs ! (k - i) else xs ! k)"
  by (auto simp: splice_def nth_append)

lemma splice_length: "i + length bs \<le> length xs \<Longrightarrow> length (splice i bs xs) = length xs"
  by (simp add: splice_def)

lemma ring_store_nth:
  assumes "start_off < length xs" "length bs \<le> length xs" "k < length xs"
  shows "ring_store xs start_off bs ! k =
    (let j = (if start_off \<le> k then k - start_off else k + length xs - start_off)
     in if j < length bs then bs ! j else xs ! k)" "length (ring_store xs start_off bs) = length xs"
  using assms by (auto simp: ring_store_def Let_def splice_nth splice_length add.commute)

section \<open>Reading and writing\<close>

lemma content_length [simp]: "length (content f) = amount f"
  by (simp add: content_def)

lemma fifo_read_ok:
  assumes ok: "fifo_ok f" and n_def: "n = min (amount f) len"
  obtains f' where "fifo_read len fault f =
      Some (if n = 0 then Ok [] else if fault = None then Ok (take n (content f)) else Err FFault, f')"
    "fifo_ok f'" "content f' = drop n (content f)" "length (fdata f') = length (fdata f)"
proof -
  let ?cap = "length (fdata f)" and ?rx = "read_commit f"
  let ?e = "if ?rx + n < ?cap then ?rx + n else ?rx + n - ?cap"
  let ?f = "f\<lparr>read_resv := ?e, read_commit := ?e\<rparr>"
  have n: "n < ?cap" "n \<le> amount f" using amount_less [OF ok] by (auto simp: n_def)
  have "wrapping_add usize_max ?rx n mod ?cap = ?e"
    using ok n by (simp add: fifo_ok_def wrapping_add_small usize_max_def wrap_mod)
  moreover have "min (read_space ?cap (write_commit f) ?rx) len = n"
    using read_avl_amount [OF ok] ok by (simp add: read_avl_def n_def fifo_ok_def)
  moreover have "ring_slice (fdata f) ?rx ?e = take n (content f)" if "0 < n"
  proof -
    have "ring_slice (fdata f) ?rx ?e = map (\<lambda>i. ring_nth (fdata f) (?rx + i)) [0..<n]"
      using ok n that by (intro ring_slice_nth) (auto simp: fifo_ok_def)
    also have "\<dots> = take n (content f)" using n by (simp add: content_def take_map)
    finally show ?thesis .
  qed
  ultimately have "fifo_read len fault f =
      Some (if n = 0 then Ok [] else if fault = None then Ok (take n (content f)) else Err FFault, ?f)"
    using ok by (auto simp: fifo_read_def fifo_ok_def Let_def)
  moreover have "fifo_ok ?f" using ok n by (auto simp: fifo_ok_def)
  moreover have am: "amount ?f = amount f - n"
    using ok n by (auto simp: amount_def fifo_ok_def)
  moreover have "content ?f = drop n (content f)"
  proof (rule nth_equalityI)
    fix i assume "i < length (content ?f)"
    then have i: "i < amount f - n" using am by simp
    have "ring_nth (fdata f) (?e + i) = ring_nth (fdata f) (?rx + (n + i))"
      using i n ok amount_less [OF ok] by (auto simp: ring_nth_def fifo_ok_def ac_simps)
    then show "content ?f ! i = drop n (content f) ! i"
      using i am less_diff_conv [of i "amount f" n] by (simp add: content_def add.commute)
  qed (use am in simp)
  ultimately show ?thesis using that by force
qed

lemma fifo_write_ok:
  assumes ok: "fifo_ok f" and n_def: "n = min (length (fdata f) - 1 - amount f) (length w)"
  obtains f' where "fifo_write w None f = Some (Ok n, f')" "fifo_ok f'"
    "content f' = content f @ take n w" "length (fdata f') = length (fdata f)"
proof -
  let ?cap = "length (fdata f)" and ?tx = "write_commit f"
  let ?e = "if ?tx + n < ?cap then ?tx + n else ?tx + n - ?cap"
  let ?f = "f\<lparr>fdata := ring_store (fdata f) ?tx (take n w), write_resv := ?e, write_commit := ?e\<rparr>"
  have n: "n + amount f < ?cap" "n \<le> length w" using amount_less [OF ok] by (auto simp: n_def)
  have tx: "?tx < ?cap" using ok by (simp add: fifo_ok_def)
  have st: "ring_store (fdata f) ?tx (take n w) ! k =
    (let j = (if ?tx \<le> k then k - ?tx else k + ?cap - ?tx) in if j < n then w ! j else fdata f ! k)"
    "length (ring_store (fdata f) ?tx (take n w)) = ?cap" if "k < ?cap" for k
    using ring_store_nth [OF tx, of "take n w" k] n that by (auto simp: Let_def)
  have len: "length (fdata ?f) = ?cap" using st(2) tx by simp
  have "wrapping_add usize_max ?tx n mod ?cap = ?e"
    using ok n by (simp add: fifo_ok_def wrapping_add_small usize_max_def wrap_mod)
  moreover have "min (write_space ?cap (read_commit f) ?tx) (length w) = n"
    using write_avl_amount [OF ok] ok by (simp add: write_avl_def n_def fifo_ok_def)
  moreover have "ring_store (fdata f) ?tx [] = fdata f"
    by (simp add: ring_store_def splice_def Let_def)
  ultimately have "fifo_write w None f = Some (Ok n, ?f)"
    using ok by (auto simp: fifo_write_def fifo_ok_def Let_def)
  moreover have "fifo_ok ?f" using ok n len by (auto simp: fifo_ok_def)
  moreover have am: "amount ?f = amount f + n"
    using ok n len by (auto simp: amount_def fifo_ok_def)
  moreover have "content ?f = content f @ take n w"
  proof (rule nth_equalityI)
    fix i assume i: "i < length (content ?f)"
    define p where "p = (if read_commit f + i < ?cap then read_commit f + i else read_commit f + i - ?cap)"
    have i': "i < amount f + n" using i am by simp
    then have p: "p < ?cap" using ok n by (auto simp: p_def fifo_ok_def)
    have "content ?f ! i = ring_store (fdata f) ?tx (take n w) ! p"
      using i am len by (auto simp: content_def ring_nth_def p_def)
    also have "\<dots> = (if i < amount f then fdata f ! p else w ! (i - amount f))"
    proof -
      have "(if ?tx \<le> p then p - ?tx else p + ?cap - ?tx) = (if i < amount f then ?cap - amount f + i else i - amount f)"
        using ok n i' by (auto simp: p_def amount_def fifo_ok_def)
      then show ?thesis using st(1) [OF p] n i' by (auto simp: Let_def)
    qed
    also have "\<dots> = (content f @ take n w) ! i"
      using i' n by (auto simp: nth_append content_def ring_nth_def p_def)
    finally show "content ?f ! i = (content f @ take n w) ! i" .
  qed (use am n in simp)
  ultimately show ?thesis using that len by blast
qed

section \<open>A bounded queue of bytes\<close>

datatype fifo_op = FRead nat | FWrite "nat list"

datatype fifo_out = Got "nat list" | Put nat | Failed fifo_error

fun fifo_step :: "fifo_op \<Rightarrow> fifo \<Rightarrow> (fifo_out \<times> fifo) option" where
  "fifo_step (FRead n) f =
     (case fifo_read n None f of
        None \<Rightarrow> None
      | Some (Inl e, f') \<Rightarrow> Some (Failed e, f')
      | Some (Inr bs, f') \<Rightarrow> Some (Got bs, f'))"
| "fifo_step (FWrite w) f =
     (case fifo_write w None f of
        None \<Rightarrow> None
      | Some (Inl e, f') \<Rightarrow> Some (Failed e, f')
      | Some (Inr n, f') \<Rightarrow> Some (Put n, f'))"

fun fifo_run :: "fifo_op list \<Rightarrow> fifo \<Rightarrow> (fifo_out list \<times> fifo) option" where
  "fifo_run [] f = Some ([], f)"
| "fifo_run (op # ops) f =
     (case fifo_step op f of
        None \<Rightarrow> None
      | Some (r, f') \<Rightarrow> (case fifo_run ops f' of None \<Rightarrow> None | Some (rs, f'') \<Rightarrow> Some (r # rs, f'')))"

text \<open>A queue that holds up to \<open>k\<close> bytes.\<close>

fun queue_step :: "nat \<Rightarrow> fifo_op \<Rightarrow> nat list \<Rightarrow> fifo_out \<times> nat list" where
  "queue_step k (FRead n) q = (Got (take n q), drop n q)"
| "queue_step k (FWrite w) q = (let m = min (k - length q) (length w) in (Put m, q @ take m w))"

fun queue_run :: "nat \<Rightarrow> fifo_op list \<Rightarrow> nat list \<Rightarrow> fifo_out list \<times> nat list" where
  "queue_run k [] q = ([], q)"
| "queue_run k (op # ops) q =
     (case queue_step k op q of (r, q') \<Rightarrow> case queue_run k ops q' of (rs, q'') \<Rightarrow> (r # rs, q''))"

lemma fifo_step_refines:
  assumes ok: "fifo_ok f"
  shows "\<exists>f'. fifo_step op f = Some (fst (queue_step (length (fdata f) - 1) op (content f)), f') \<and> fifo_ok f' \<and>
    content f' = snd (queue_step (length (fdata f) - 1) op (content f)) \<and> length (fdata f') = length (fdata f)"
proof (cases op)
  case (FRead len)
  obtain f' where f': "fifo_read len None f =
      Some (if min (amount f) len = 0 then Ok [] else if (None :: nat option) = None then Ok (take (min (amount f) len) (content f)) else Err FFault, f')"
    "fifo_ok f'" "content f' = drop (min (amount f) len) (content f)" "length (fdata f') = length (fdata f)"
    using fifo_read_ok [OF ok refl] by blast
  moreover have "take (min (amount f) len) (content f) = take len (content f)"
    "drop (min (amount f) len) (content f) = drop len (content f)"
    by (cases "len \<le> amount f"; simp add: min_def)+
  moreover have "take len (content f) = []" if "min (amount f) len = 0" using that content_length [of f] by (cases "content f") (auto simp: min_def split: if_splits)
  ultimately show ?thesis using FRead by (auto split: if_splits)
next
  case (FWrite w)
  then show ?thesis using fifo_write_ok [OF ok refl, of w] by (fastforce simp: Let_def)
qed


lemma fifo_new_ok: "0 < n \<Longrightarrow> n < 2 ^ 62 \<Longrightarrow> fifo_ok (fifo_new n) \<and> content (fifo_new n) = []"
  by (simp add: fifo_ok_def fifo_new_def content_def amount_def)

lemma fifo_new_len: "length (fdata (fifo_new n)) = n"
  by (simp add: fifo_new_def)


text \<open>
  C37. The amounts that \<open>read_avl\<close> and \<open>write_avl\<close> report are the bytes that can be read and the
  bytes that can be written, and together they make the capacity less one.
\<close>

theorem fifo_space:
  assumes "fifo_ok f"
  shows "read_avl f = length (content f) \<and> read_avl f + write_avl f = length (fdata f) - 1"
  using read_avl_amount [OF assms] write_avl_amount [OF assms] amount_less [OF assms] by simp

theorem fifo_space_witness:
  "read_avl (fifo_new 8) = length (content (fifo_new 8)) \<and> read_avl (fifo_new 8) + write_avl (fifo_new 8) = 7"
  using fifo_space [of "fifo_new 8"] fifo_new_ok [of 8] by (simp add: fifo_new_len)

text \<open>
  A write that faults commits its reservation all the same: the bytes that were not copied become
  readable with whatever the ring held.
\<close>

lemma fifo_fault_commits:
  "\<exists>f. fifo_write [7, 8] (Some 0) (fifo_new 4) = Some (Err FFault, f) \<and> content f = [0, 0]"
  by (simp add: fifo_write_def fifo_new_def write_space_def wrapping_sub_def wrapping_add_def usize_max_def
      ring_store_def splice_def content_def amount_def ring_nth_def Let_def upt_rec)

text \<open>
  The reservation of a read keeps the \<open>write_commit\<close> it loaded before the loop. With a second reader
  that has taken everything up to a later commit, the stale value makes a reader reserve bytes that
  were never written: here 13 bytes of an empty buffer.
\<close>

lemma stale_reservation: "reserve_read 16 100 5 0 [8] = (8, 13) \<and> read_space 16 8 8 = 0"
  by (simp add: read_space_def wrapping_sub_def wrapping_add_def usize_max_def)

end
