(* ===== verification/Slabs.thy ===== *)
theory Slabs
  imports Badger_Prelude
begin

text \<open>
  The slab allocator of the kernel heap (\<open>src/mem/heap/slabs.rs\<close>, \<open>src/mem/heap/mod.rs\<close>). A block is
  \<open>BLOCK_SIZE\<close> bytes at a multiple of \<open>BLOCK_SIZE\<close>: a header and slots of one size, the free ones in
  a singly linked list through the slots. Blocks are named by their address; the memory of links
  is shared. The page allocator's answer to a request for a new block is an argument.
\<close>

section \<open>Model\<close>

definition smallest :: nat where
  "smallest = 8"

definition sizes :: nat where
  "sizes = 9"

definition largest :: nat where
  "largest = smallest * 2 ^ (sizes - 1)"

definition block_size :: nat where
  "block_size = 4096 * 2 ^ 2"

text \<open>\<open>size_of::<SlabBlockHeader>()\<close>: a list node of two pointers, two counters and a pointer.\<close>

definition header_size :: nat where
  "header_size = 40"

record slab_header =
  occupancy :: nat
  capacity :: nat
  list_head :: nat

record slab_heap =
  slinks :: "nat \<Rightarrow> nat"
  sblocks :: "nat \<Rightarrow> slab_header"

record slab_pool =
  sempty :: "nat option"
  spartial :: "nat list"
  sfull :: "nat list"

datatype slab_error = SAllocError | SPanic

fun link_slots :: "nat \<Rightarrow> nat \<Rightarrow> nat \<Rightarrow> (nat \<Rightarrow> nat) \<Rightarrow> (nat \<Rightarrow> nat)" where
  "link_slots slab_size 0 ptr mem = mem"
| "link_slots slab_size (Suc n) ptr mem =
     (let next = ptr + slab_size in link_slots slab_size n next (mem(ptr := next)))"

definition block_init :: "nat \<Rightarrow> nat \<Rightarrow> slab_heap \<Rightarrow> slab_heap" where
  "block_init slab_size block h =
     (let overhead = div_ceil header_size slab_size;
          first = overhead * slab_size - header_size;
          ptr = block + header_size + first;
          cap = block_size div slab_size - overhead
      in h\<lparr>sblocks := (sblocks h)(block := \<lparr>occupancy = 0, capacity = cap, list_head = ptr\<rparr>),
           slinks := link_slots slab_size cap ptr (slinks h)\<rparr>)"

definition block_alloc :: "nat \<Rightarrow> slab_heap \<Rightarrow> (slab_error, nat \<times> slab_heap) result" where
  "block_alloc block h =
     (let hd = sblocks h block; ptr = list_head hd in
      if ptr = 0 then Err SAllocError
      else Ok (ptr, h\<lparr>sblocks := (sblocks h)(block :=
                 hd\<lparr>list_head := slinks h ptr, occupancy := occupancy hd + 1\<rparr>)\<rparr>))"

definition block_free :: "nat \<Rightarrow> nat \<Rightarrow> slab_heap \<Rightarrow> slab_heap" where
  "block_free block ptr h =
     (let hd = sblocks h block in
      h\<lparr>slinks := (slinks h)(ptr := list_head hd),
        sblocks := (sblocks h)(block := hd\<lparr>occupancy := occupancy hd - 1, list_head := ptr\<rparr>)\<rparr>)"

definition pool_new :: slab_pool where
  "pool_new = \<lparr>sempty = None, spartial = [], sfull = []\<rparr>"

text \<open>\<open>new_block\<close> is the page allocator's block, or \<open>None\<close> when it has none.\<close>

definition pool_alloc :: "nat \<Rightarrow> nat option \<Rightarrow> slab_pool \<times> slab_heap \<Rightarrow>
    (slab_error, nat \<times> slab_pool \<times> slab_heap) result" where
  "pool_alloc slab_size new_block ph =
     (let p = fst ph; h = snd ph in
      case spartial p of
        block # rest \<Rightarrow>
          (case block_alloc block h of
             Inl _ \<Rightarrow> Err SPanic
           | Inr (ptr, h') \<Rightarrow>
               Ok (ptr, if occupancy (sblocks h' block) = capacity (sblocks h' block)
                        then p\<lparr>spartial := rest, sfull := sfull p @ [block]\<rparr> else p, h'))
      | [] \<Rightarrow>
          (case sempty p of
             Some block \<Rightarrow>
               (case block_alloc block h of
                  Inl _ \<Rightarrow> Err SPanic
                | Inr (ptr, h') \<Rightarrow> Ok (ptr, p\<lparr>sempty := None, spartial := [block]\<rparr>, h'))
           | None \<Rightarrow>
               (case new_block of
                  None \<Rightarrow> Err SAllocError
                | Some block \<Rightarrow>
                    (case block_alloc block (block_init slab_size block h) of
                       Inl _ \<Rightarrow> Err SPanic
                     | Inr (ptr, h') \<Rightarrow> Ok (ptr, p\<lparr>spartial := [block]\<rparr>, h')))))"

text \<open>The last component is the block that goes back to the page allocator, if one does.\<close>

definition pool_free :: "nat \<Rightarrow> slab_pool \<times> slab_heap \<Rightarrow> slab_pool \<times> slab_heap \<times> nat option" where
  "pool_free ptr ph =
     (let p = fst ph; h = snd ph;
          block = ptr - ptr mod block_size;
          was_full = (occupancy (sblocks h block) = capacity (sblocks h block));
          h' = block_free block ptr h
      in if was_full
         then (p\<lparr>sfull := remove1 block (sfull p), spartial := spartial p @ [block]\<rparr>, h', None)
         else if occupancy (sblocks h' block) = 0
         then (let p' = p\<lparr>spartial := remove1 block (spartial p)\<rparr>
               in if sempty p = None then (p'\<lparr>sempty := Some block\<rparr>, h', None) else (p', h', Some block))
         else (p, h', None))"

text \<open>A layout is a size and an alignment; \<open>pad_to_align\<close> rounds the size up to the alignment.\<close>

definition pad_to_align :: "nat \<Rightarrow> nat \<Rightarrow> nat" where
  "pad_to_align sz align = div_ceil sz align * align"

definition bucket_for :: "nat \<Rightarrow> nat \<Rightarrow> (slab_error, (nat \<times> nat) option) result" where
  "bucket_for sz align =
     (if sz = 0 then Err SPanic
      else
        (let size_pow2 = next_power_of_two (div_ceil (pad_to_align sz align) smallest);
             log_size_mul = trailing_zeros size_pow2 div trailing_zeros 2
         in if log_size_mul \<ge> sizes then Ok None
            else Ok (Some (log_size_mul, smallest * 2 ^ log_size_mul))))"

text \<open>\<open>SlabsAlloc\<close>: one pool for each slab size.\<close>

definition slabs_new :: "slab_pool list" where
  "slabs_new = replicate sizes pool_new"

definition slabs_allocate :: "nat \<Rightarrow> nat \<Rightarrow> nat option \<Rightarrow> slab_pool list \<times> slab_heap \<Rightarrow>
    (slab_error, nat \<times> slab_pool list \<times> slab_heap) result" where
  "slabs_allocate sz align new_block ph =
     (case bucket_for sz align of
        Inl e \<Rightarrow> Err e
      | Inr None \<Rightarrow> Err SAllocError
      | Inr (Some (bucket, slab_size)) \<Rightarrow>
          (case pool_alloc slab_size new_block (fst ph ! bucket, snd ph) of
             Inl e \<Rightarrow> Err e
           | Inr (ptr, p, h) \<Rightarrow> Ok (ptr, (fst ph)[bucket := p], h)))"

definition slabs_deallocate :: "nat \<Rightarrow> nat \<Rightarrow> nat \<Rightarrow> slab_pool list \<times> slab_heap \<Rightarrow>
    (slab_error, slab_pool list \<times> slab_heap \<times> nat option) result" where
  "slabs_deallocate ptr sz align ph =
     (case bucket_for sz align of
        Inl e \<Rightarrow> Err e
      | Inr None \<Rightarrow> Err SPanic
      | Inr (Some (bucket, _)) \<Rightarrow>
          (case pool_free ptr (fst ph ! bucket, snd ph) of
             (p, h, dropped) \<Rightarrow> Ok ((fst ph)[bucket := p], h, dropped)))"

text \<open>Which allocator the global heap sends a layout to, on allocation and on deallocation.\<close>

definition heap_alloc_slab :: "nat \<Rightarrow> nat \<Rightarrow> bool" where
  "heap_alloc_slab sz align \<longleftrightarrow> pad_to_align sz align \<le> largest"

definition heap_dealloc_slab :: "nat \<Rightarrow> nat \<Rightarrow> bool" where
  "heap_dealloc_slab sz align \<longleftrightarrow> sz \<le> largest"

section \<open>Invariant\<close>

definition slab_ok :: "nat \<Rightarrow> bool" where
  "slab_ok slab_size \<longleftrightarrow> slab_size \<in> {8, 16, 32, 64, 128, 256, 512, 1024, 2048}"

definition slot_addr :: "nat \<Rightarrow> nat \<Rightarrow> nat \<Rightarrow> nat" where
  "slot_addr slab_size block i = block + (div_ceil header_size slab_size + i) * slab_size"

definition block_capacity :: "nat \<Rightarrow> nat" where
  "block_capacity slab_size = block_size div slab_size - div_ceil header_size slab_size"

definition slots :: "nat \<Rightarrow> nat \<Rightarrow> nat set" where
  "slots slab_size block = slot_addr slab_size block ` {..<block_capacity slab_size}"

fun free_chain :: "(nat \<Rightarrow> nat) \<Rightarrow> nat \<Rightarrow> nat \<Rightarrow> nat list" where
  "free_chain mem p 0 = []"
| "free_chain mem p (Suc n) = p # free_chain mem (mem p) n"

definition free_slots :: "slab_heap \<Rightarrow> nat \<Rightarrow> nat list" where
  "free_slots h block =
     (let hd = sblocks h block in free_chain (slinks h) (list_head hd) (capacity hd - occupancy hd))"

definition block_inv :: "nat \<Rightarrow> slab_heap \<Rightarrow> nat \<Rightarrow> bool" where
  "block_inv slab_size h block \<longleftrightarrow> block_size dvd block \<and> 0 < block \<and>
     capacity (sblocks h block) = block_capacity slab_size \<and>
     occupancy (sblocks h block) \<le> capacity (sblocks h block) \<and>
     distinct (free_slots h block) \<and> set (free_slots h block) \<subseteq> slots slab_size block"

definition pool_blocks :: "slab_pool \<Rightarrow> nat list" where
  "pool_blocks p = spartial p @ sfull p @ (case sempty p of None \<Rightarrow> [] | Some b \<Rightarrow> [b])"

definition pool_inv :: "nat \<Rightarrow> slab_pool \<times> slab_heap \<Rightarrow> bool" where
  "pool_inv slab_size ph \<longleftrightarrow> distinct (pool_blocks (fst ph)) \<and>
     (\<forall>b\<in>set (pool_blocks (fst ph)). block_inv slab_size (snd ph) b) \<and>
     (\<forall>b\<in>set (spartial (fst ph)). 0 < occupancy (sblocks (snd ph) b) \<and>
        occupancy (sblocks (snd ph) b) < capacity (sblocks (snd ph) b)) \<and>
     (\<forall>b\<in>set (sfull (fst ph)). occupancy (sblocks (snd ph) b) = capacity (sblocks (snd ph) b)) \<and>
     (\<forall>b. sempty (fst ph) = Some b \<longrightarrow> occupancy (sblocks (snd ph) b) = 0)"

text \<open>The slots that clients hold.\<close>

definition live_slots :: "nat \<Rightarrow> slab_pool \<times> slab_heap \<Rightarrow> nat set" where
  "live_slots slab_size ph =
     (\<Union>b\<in>set (pool_blocks (fst ph)). slots slab_size b - set (free_slots (snd ph) b))"

section \<open>Slots\<close>

lemma slab_ok_facts:
  assumes "slab_ok slab_size"
  shows "0 < slab_size" "0 < block_capacity slab_size" "header_size \<le> div_ceil header_size slab_size * slab_size"
    "(div_ceil header_size slab_size + block_capacity slab_size) * slab_size = block_size"
    "slab_size dvd block_size" "div_ceil header_size slab_size * slab_size - header_size + header_size =
       div_ceil header_size slab_size * slab_size"
  using assms
  by (auto simp: slab_ok_def block_capacity_def block_size_def header_size_def div_ceil_def)

lemma block_capacity_2: "slab_ok slab_size \<Longrightarrow> 2 \<le> block_capacity slab_size"
  by (auto simp: slab_ok_def block_capacity_def block_size_def header_size_def div_ceil_def)

lemma slot_range:
  assumes "slab_ok slab_size" "ptr \<in> slots slab_size block"
  shows "block + header_size \<le> ptr \<and> ptr + slab_size \<le> block + block_size"
proof -
  obtain i where i: "i < block_capacity slab_size" "ptr = slot_addr slab_size block i"
    using assms(2) by (auto simp: slots_def)
  let ?o = "div_ceil header_size slab_size"
  have "(?o + i + 1) * slab_size \<le> (?o + block_capacity slab_size) * slab_size"
    using i(1) by (intro mult_right_mono) auto
  then have "(?o + i) * slab_size + slab_size \<le> block_size"
    using slab_ok_facts(4) [OF assms(1)] by (simp add: algebra_simps)
  moreover have "?o * slab_size \<le> (?o + i) * slab_size" by (intro mult_right_mono) auto
  ultimately show ?thesis using slab_ok_facts(3) [OF assms(1)] i(2) unfolding slot_addr_def by linarith
qed

lemma block_of:
  assumes "block_size dvd block" "block \<le> ptr" "ptr < block + block_size"
  shows "ptr - ptr mod block_size = block"
proof -
  obtain c where c: "block = block_size * c" using assms(1) by (auto simp: dvd_def)
  have "ptr div block_size = c"
    using assms(2,3) c by (intro div_nat_eqI) (simp_all add: algebra_simps)
  then show ?thesis using c by (simp add: minus_mod_eq_mult_div)
qed

lemma slot_block:
  assumes "slab_ok slab_size" "block_size dvd block" "ptr \<in> slots slab_size block"
  shows "ptr - ptr mod block_size = block"
  using slot_range [OF assms(1,3)] slab_ok_facts(1) [OF assms(1)] by (intro block_of assms(2)) auto

lemma slots_disjoint:
  assumes "slab_ok slab_size" "block_size dvd a" "block_size dvd b" "a \<noteq> b"
  shows "slots slab_size a \<inter> slots slab_size b = {}"
  using slot_block [OF assms(1,2)] slot_block [OF assms(1,3)] assms(4) by blast

lemma slot_inj: "slab_ok slab_size \<Longrightarrow> inj_on (slot_addr slab_size block) A"
  using slab_ok_facts(1) by (fastforce simp: inj_on_def slot_addr_def)

lemma card_slots: "slab_ok slab_size \<Longrightarrow> card (slots slab_size block) = block_capacity slab_size"
  by (simp add: slots_def card_image slot_inj)

lemma finite_slots [simp]: "finite (slots slab_size block)"
  by (simp add: slots_def)

section \<open>Blocks\<close>

lemma free_chain_length [simp]: "length (free_chain mem p n) = n"
  by (induction n arbitrary: p) auto

lemma free_chain_cong:
  "(\<And>q. q \<in> set (free_chain mem p n) \<Longrightarrow> mem' q = mem q) \<Longrightarrow> free_chain mem' p n = free_chain mem p n"
  by (induction n arbitrary: p) auto

lemma link_slots_frame:
  "0 < s \<Longrightarrow> a < ptr \<or> ptr + n * s \<le> a \<Longrightarrow> link_slots s n ptr mem a = mem a"
  by (induction n arbitrary: ptr mem) (auto simp: Let_def algebra_simps)

lemma link_slots_chain:
  "0 < s \<Longrightarrow> free_chain (link_slots s n ptr mem) ptr n = map (\<lambda>i. ptr + i * s) [0..<n]"
proof (induction n arbitrary: ptr mem)
  case (Suc n)
  have "link_slots s n (ptr + s) (mem(ptr := ptr + s)) ptr = ptr + s"
    using Suc.prems by (subst link_slots_frame) auto
  moreover have "map (\<lambda>i. ptr + i * s) [0..<Suc n] = ptr # map (\<lambda>i. ptr + s + i * s) [0..<n]"
    by (simp add: upt_conv_Cons map_Suc_upt [symmetric] o_def add.assoc del: upt_Suc)
  ultimately show ?case
    using Suc.IH [OF Suc.prems, of "ptr + s" "mem(ptr := ptr + s)"]
    by (simp add: Let_def del: upt_Suc fun_upd_apply)
qed simp

lemma block_init_ok:
  assumes s: "slab_ok slab_size" and b: "block_size dvd block" "0 < block"
    and h'_def: "h' = block_init slab_size block h"
  shows "block_inv slab_size h' block" "occupancy (sblocks h' block) = 0"
    "set (free_slots h' block) = slots slab_size block"
    "\<And>c. c \<noteq> block \<Longrightarrow> sblocks h' c = sblocks h c"
    "\<And>a. a < block \<or> block + block_size \<le> a \<Longrightarrow> slinks h' a = slinks h a"
proof -
  let ?o = "div_ceil header_size slab_size" and ?n = "block_capacity slab_size"
  have ptr: "block + header_size + (?o * slab_size - header_size) = slot_addr slab_size block 0"
    using slab_ok_facts(3) [OF s] by (simp add: slot_addr_def)
  have h': "h' = h\<lparr>sblocks := (sblocks h)(block := \<lparr>occupancy = 0, capacity = ?n, list_head = slot_addr slab_size block 0\<rparr>),
      slinks := link_slots slab_size ?n (slot_addr slab_size block 0) (slinks h)\<rparr>"
    using ptr by (simp add: h'_def block_init_def block_capacity_def Let_def)
  have fs: "free_slots h' block = map (slot_addr slab_size block) [0..<?n]"
    using link_slots_chain [OF slab_ok_facts(1) [OF s]]
    by (simp add: h' free_slots_def slot_addr_def algebra_simps)
  then show set: "set (free_slots h' block) = slots slab_size block"
    by (auto simp: slots_def)
  have "distinct (free_slots h' block)" using fs slot_inj [OF s] by (simp add: distinct_map)
  then show "block_inv slab_size h' block" using b set by (simp add: block_inv_def h')
  show "occupancy (sblocks h' block) = 0" "\<And>c. c \<noteq> block \<Longrightarrow> sblocks h' c = sblocks h c" by (simp_all add: h')
  show "slinks h' a = slinks h a" if "a < block \<or> block + block_size \<le> a" for a
  proof -
    have "a < slot_addr slab_size block 0 \<or> slot_addr slab_size block 0 + ?n * slab_size \<le> a"
      using that slab_ok_facts(4) [OF s] by (auto simp: slot_addr_def algebra_simps)
    then show ?thesis using link_slots_frame [OF slab_ok_facts(1) [OF s]] by (simp add: h')
  qed
qed

lemma block_alloc_ok:
  assumes inv: "block_inv slab_size h block" and s: "slab_ok slab_size"
    and occ: "occupancy (sblocks h block) < capacity (sblocks h block)"
  shows "\<exists>ptr fs h'. block_alloc block h = Ok (ptr, h') \<and> free_slots h block = ptr # fs \<and>
    free_slots h' block = fs \<and> block_inv slab_size h' block \<and> slinks h' = slinks h \<and>
    occupancy (sblocks h' block) = occupancy (sblocks h block) + 1 \<and>
    capacity (sblocks h' block) = capacity (sblocks h block) \<and> (\<forall>c. c \<noteq> block \<longrightarrow> sblocks h' c = sblocks h c)"
proof -
  let ?hd = "sblocks h block" and ?ptr = "list_head (sblocks h block)"
  obtain k where k: "capacity ?hd - occupancy ?hd = Suc k" using occ by (metis Suc_diff_Suc)
  let ?h = "h\<lparr>sblocks := (sblocks h)(block := ?hd\<lparr>list_head := slinks h ?ptr, occupancy := occupancy ?hd + 1\<rparr>)\<rparr>"
  have fs: "free_slots h block = ?ptr # free_chain (slinks h) (slinks h ?ptr) k"
    using k by (simp add: free_slots_def Let_def)
  then have "?ptr \<in> slots slab_size block" using inv by (simp add: block_inv_def)
  then have "?ptr \<noteq> 0" using slot_range [OF s] inv by (fastforce simp: block_inv_def)
  then have "block_alloc block h = Ok (?ptr, ?h)" by (simp add: block_alloc_def Let_def)
  moreover have fs': "free_slots ?h block = free_chain (slinks h) (slinks h ?ptr) k"
  proof -
    have "capacity ?hd - (occupancy ?hd + 1) = k" using k by simp
    then show ?thesis by (simp add: free_slots_def)
  qed
  moreover have "block_inv slab_size ?h block"
    using inv fs fs' occ by (auto simp: block_inv_def)
  ultimately show ?thesis using fs by auto
qed

lemma block_free_ok:
  assumes inv: "block_inv slab_size h block" and s: "slab_ok slab_size"
    and ptr: "ptr \<in> slots slab_size block" "ptr \<notin> set (free_slots h block)"
  defines "h' \<equiv> block_free block ptr h"
  shows "0 < occupancy (sblocks h block)" "free_slots h' block = ptr # free_slots h block"
    "block_inv slab_size h' block" "occupancy (sblocks h' block) = occupancy (sblocks h block) - 1"
    "capacity (sblocks h' block) = capacity (sblocks h block)"
    "\<And>c. c \<noteq> block \<Longrightarrow> sblocks h' c = sblocks h c" "\<And>a. a \<noteq> ptr \<Longrightarrow> slinks h' a = slinks h a"
proof -
  let ?hd = "sblocks h block"
  show occ: "0 < occupancy ?hd"
  proof (rule ccontr)
    assume "\<not> 0 < occupancy ?hd"
    then have "length (free_slots h block) = capacity ?hd" by (simp add: free_slots_def Let_def)
    then have "card (set (free_slots h block)) = card (slots slab_size block)"
      using inv card_slots [OF s] by (simp add: block_inv_def distinct_card)
    then have "set (free_slots h block) = slots slab_size block"
      using inv by (intro card_subset_eq) (auto simp: block_inv_def)
    then show False using ptr by simp
  qed
  have len: "capacity ?hd - (occupancy ?hd - 1) = Suc (capacity ?hd - occupancy ?hd)"
    using occ inv unfolding block_inv_def by linarith
  have "free_chain ((slinks h)(ptr := list_head ?hd)) (list_head ?hd) (capacity ?hd - occupancy ?hd) = free_slots h block"
    using ptr(2) by (subst free_chain_cong) (auto simp: free_slots_def Let_def)
  then show fs: "free_slots h' block = ptr # free_slots h block"
    using len by (simp add: h'_def block_free_def free_slots_def [of "_ \<lparr>sblocks := _\<rparr>"] Let_def)
  then show "block_inv slab_size h' block"
    using inv ptr by (auto simp: block_inv_def) (auto simp: h'_def block_free_def Let_def)
qed (simp_all add: h'_def block_free_def Let_def)

section \<open>Pools\<close>

definition block_live :: "nat \<Rightarrow> slab_heap \<Rightarrow> nat \<Rightarrow> nat set" where
  "block_live slab_size h b = slots slab_size b - set (free_slots h b)"

lemma live_slots_blocks: "live_slots slab_size (p, h) = (\<Union>b\<in>set (pool_blocks p). block_live slab_size h b)"
  by (simp add: live_slots_def block_live_def)

lemma block_frame:
  assumes "block_inv slab_size h c" "sblocks h' c = sblocks h c"
    and "\<And>a. a \<in> set (free_slots h c) \<Longrightarrow> slinks h' a = slinks h a"
  shows "block_inv slab_size h' c" "block_live slab_size h' c = block_live slab_size h c"
proof -
  have "free_slots h' c = free_slots h c"
    unfolding free_slots_def Let_def assms(2)
    by (rule free_chain_cong) (simp add: assms(3) free_slots_def Let_def)
  then show "block_inv slab_size h' c" "block_live slab_size h' c = block_live slab_size h c"
    using assms(1,2) by (simp_all add: block_inv_def block_live_def)
qed

lemma pool_invD:
  assumes "pool_inv slab_size (p, h)"
  shows "distinct (pool_blocks p)" "\<And>b. b \<in> set (pool_blocks p) \<Longrightarrow> block_inv slab_size h b"
    "\<And>b. b \<in> set (spartial p) \<Longrightarrow> 0 < occupancy (sblocks h b) \<and> occupancy (sblocks h b) < capacity (sblocks h b)"
    "\<And>b. b \<in> set (sfull p) \<Longrightarrow> occupancy (sblocks h b) = capacity (sblocks h b)"
    "\<And>b. sempty p = Some b \<Longrightarrow> occupancy (sblocks h b) = 0"
  using assms by (auto simp: pool_inv_def)

lemma live_aligned:
  assumes "slab_ok slab_size" "block_size dvd block" "ptr \<in> slots slab_size block"
  shows "slab_size dvd ptr"
  using assms slab_ok_facts(5) [OF assms(1)] by (auto simp: slots_def slot_addr_def intro: dvd_trans)

text \<open>Taking a slot from a block of the pool; \<open>h\<close> is the heap after a new block was set up.\<close>

definition slot_taken :: "nat \<Rightarrow> nat set \<Rightarrow> nat \<Rightarrow> slab_heap \<Rightarrow> nat \<Rightarrow> slab_heap \<Rightarrow> bool" where
  "slot_taken slab_size B b h ptr h' \<longleftrightarrow> block_alloc b h = Ok (ptr, h') \<and>
     (\<forall>c\<in>B. block_inv slab_size h' c) \<and> slab_size dvd ptr \<and>
     ptr \<notin> (\<Union>c\<in>B. block_live slab_size h c) \<and>
     (\<Union>c\<in>B. block_live slab_size h' c) = insert ptr (\<Union>c\<in>B. block_live slab_size h c) \<and>
     occupancy (sblocks h' b) = occupancy (sblocks h b) + 1 \<and>
     capacity (sblocks h' b) = capacity (sblocks h b) \<and> (\<forall>c. c \<noteq> b \<longrightarrow> sblocks h' c = sblocks h c)"

lemma take_slot:
  assumes s: "slab_ok slab_size" and inv: "\<And>c. c \<in> B \<Longrightarrow> block_inv slab_size h c" and b: "b \<in> B"
    and occ: "occupancy (sblocks h b) < capacity (sblocks h b)"
  shows "\<exists>ptr h'. slot_taken slab_size B b h ptr h'"
proof -
  obtain ptr fs h' where a: "block_alloc b h = Ok (ptr, h')" "free_slots h b = ptr # fs"
    "free_slots h' b = fs" "block_inv slab_size h' b" "slinks h' = slinks h"
    "occupancy (sblocks h' b) = occupancy (sblocks h b) + 1"
    "capacity (sblocks h' b) = capacity (sblocks h b)" "\<forall>c. c \<noteq> b \<longrightarrow> sblocks h' c = sblocks h c"
    using block_alloc_ok [OF inv [OF b] s occ] by blast
  have frame: "block_inv slab_size h' c" "block_live slab_size h' c = block_live slab_size h c" if "c \<in> B" "c \<noteq> b" for c
    using block_frame [OF inv [OF that(1)], of h'] a(5,8) that(2) by auto
  have slot: "ptr \<in> slots slab_size b" "ptr \<notin> set fs" using inv [OF b] a(2) by (auto simp: block_inv_def)
  have own: "block_live slab_size h' b = insert ptr (block_live slab_size h b)" "ptr \<notin> block_live slab_size h b"
    using slot a(2,3) by (auto simp: block_live_def)
  have other: "ptr \<notin> block_live slab_size h c" if "c \<in> B" "c \<noteq> b" for c
    using slots_disjoint [OF s] inv [OF b] inv [OF that(1)] that(2) slot(1) by (auto simp: block_inv_def block_live_def)
  have un: "(\<Union>c\<in>B. block_live slab_size h' c) = insert ptr (\<Union>c\<in>B. block_live slab_size h c)"
    using frame(2) own b by auto
  have dv: "slab_size dvd ptr" using live_aligned [OF s _ slot(1)] inv [OF b] by (simp add: block_inv_def)
  have nl: "ptr \<notin> (\<Union>c\<in>B. block_live slab_size h c)" using other own(2) by auto
  have bi: "block_inv slab_size h' c" if "c \<in> B" for c using frame(1) [OF that] a(4) by (cases "c = b") auto
  have "slot_taken slab_size B b h ptr h'"
    unfolding slot_taken_def using a(1,6-8) bi nl dv un by blast
  then show ?thesis by blast
qed

lemma pool_invI:
  assumes "distinct (pool_blocks p)" "\<And>b. b \<in> set (pool_blocks p) \<Longrightarrow> block_inv slab_size h b"
    "\<And>b. b \<in> set (spartial p) \<Longrightarrow> 0 < occupancy (sblocks h b) \<and> occupancy (sblocks h b) < capacity (sblocks h b)"
    "\<And>b. b \<in> set (sfull p) \<Longrightarrow> occupancy (sblocks h b) = capacity (sblocks h b)"
    "\<And>b. sempty p = Some b \<Longrightarrow> occupancy (sblocks h b) = 0"
  shows "pool_inv slab_size (p, h)"
  using assms by (simp add: pool_inv_def)

definition alloc_post :: "nat \<Rightarrow> nat option \<Rightarrow> slab_pool \<Rightarrow> slab_heap \<Rightarrow> bool" where
  "alloc_post slab_size new_block p h \<longleftrightarrow> (\<exists>ptr p' h'. pool_alloc slab_size new_block (p, h) = Ok (ptr, p', h') \<and>
     pool_inv slab_size (p', h') \<and> slab_size dvd ptr \<and> ptr \<notin> live_slots slab_size (p, h) \<and>
     live_slots slab_size (p', h') = insert ptr (live_slots slab_size (p, h)))"

lemma alloc_postI:
  assumes "pool_alloc slab_size new_block (p, h) = Ok (ptr, p', h')" "pool_inv slab_size (p', h')"
    "slab_size dvd ptr" "ptr \<notin> live_slots slab_size (p, h)"
    "live_slots slab_size (p', h') = insert ptr (live_slots slab_size (p, h))"
  shows "alloc_post slab_size new_block p h"
  unfolding alloc_post_def using assms by (intro exI [of _ ptr] exI [of _ p'] exI [of _ h'] conjI)

lemma pool_alloc_partial:
  assumes s: "slab_ok slab_size" and inv: "pool_inv slab_size (p, h)" and b: "spartial p = b # rest"
  shows "alloc_post slab_size new_block p h"
proof -
  note d = pool_invD [OF inv]
  let ?B = "set (pool_blocks p)"
  have bB: "b \<in> ?B" and occ: "occupancy (sblocks h b) < capacity (sblocks h b)"
    using b d(3) by (auto simp: pool_blocks_def)
  obtain ptr h' where st: "slot_taken slab_size ?B b h ptr h'" using take_slot [OF s d(2) bB occ] by blast
  then have t: "block_alloc b h = Ok (ptr, h')" "\<And>c. c \<in> ?B \<Longrightarrow> block_inv slab_size h' c"
    "ptr \<notin> (\<Union>c\<in>?B. block_live slab_size h c)" "slab_size dvd ptr"
    "(\<Union>c\<in>?B. block_live slab_size h' c) = insert ptr (\<Union>c\<in>?B. block_live slab_size h c)"
    "occupancy (sblocks h' b) = occupancy (sblocks h b) + 1"
    "capacity (sblocks h' b) = capacity (sblocks h b)" "\<And>c. c \<noteq> b \<Longrightarrow> sblocks h' c = sblocks h c"
    unfolding slot_taken_def by simp_all
  define full where "full \<longleftrightarrow> occupancy (sblocks h b) + 1 = capacity (sblocks h b)"
  define p' where "p' = (if full then p\<lparr>spartial := rest, sfull := sfull p @ [b]\<rparr> else p)"
  have res: "pool_alloc slab_size new_block (p, h) = Ok (ptr, p', h')"
    using b t(1,6,7) by (simp add: pool_alloc_def p'_def full_def)
  have set: "set (pool_blocks p') = ?B" and dist: "distinct (pool_blocks p')"
    using b d(1) by (auto simp: p'_def pool_blocks_def)
  have nb: "b \<notin> set rest" "b \<notin> set (sfull p)" "sempty p \<noteq> Some b"
    using b d(1) by (auto simp: pool_blocks_def)
  have "pool_inv slab_size (p', h')"
  proof (rule pool_invI [OF dist])
    show "block_inv slab_size h' c" if "c \<in> set (pool_blocks p')" for c using that set t(2) by simp
    show "0 < occupancy (sblocks h' c) \<and> occupancy (sblocks h' c) < capacity (sblocks h' c)"
      if c: "c \<in> set (spartial p')" for c
    proof (cases "c = b")
      case True
      then have "\<not> full" using c nb by (auto simp: p'_def split: if_splits)
      then show ?thesis using True t(6,7) occ by (simp add: full_def)
    next
      case False
      then have "c \<in> set (spartial p)" using c b by (auto simp: p'_def split: if_splits)
      then show ?thesis using d(3) t(8) [OF False] by simp
    qed
    show "occupancy (sblocks h' c) = capacity (sblocks h' c)" if c: "c \<in> set (sfull p')" for c
    proof (cases "c = b")
      case True
      then have full using c nb by (simp add: p'_def split: if_splits)
      then show ?thesis using True t(6,7) by (simp add: full_def)
    next
      case False
      then have "c \<in> set (sfull p)" using c by (simp add: p'_def split: if_splits)
      then show ?thesis using d(4) t(8) [OF False] by simp
    qed
    show "occupancy (sblocks h' c) = 0" if c: "sempty p' = Some c" for c
    proof -
      have e: "sempty p = Some c" using c by (simp add: p'_def split: if_splits)
      then have "c \<noteq> b" using nb(3) by blast
      then show ?thesis using d(5) [OF e] t(8) by simp
    qed
  qed
  then show ?thesis using alloc_postI [OF res _ t(4)] t(3,5) set by (simp add: live_slots_blocks)
qed

lemma pool_alloc_empty:
  assumes s: "slab_ok slab_size" and inv: "pool_inv slab_size (p, h)" and e: "spartial p = []" "sempty p = Some b"
  shows "alloc_post slab_size new_block p h"
proof -
  note d = pool_invD [OF inv]
  let ?B = "set (pool_blocks p)"
  have bB: "b \<in> ?B" and occ: "occupancy (sblocks h b) = 0" using e d(5) by (auto simp: pool_blocks_def)
  have cap: "capacity (sblocks h b) = block_capacity slab_size" "2 \<le> block_capacity slab_size"
    using d(2) [OF bB] block_capacity_2 [OF s] by (auto simp: block_inv_def)
  have lt: "occupancy (sblocks h b) < capacity (sblocks h b)" using cap occ by simp
  obtain ptr h' where st: "slot_taken slab_size ?B b h ptr h'" using take_slot [OF s d(2) bB lt] by blast
  then have t: "block_alloc b h = Ok (ptr, h')" "\<And>c. c \<in> ?B \<Longrightarrow> block_inv slab_size h' c"
    "ptr \<notin> (\<Union>c\<in>?B. block_live slab_size h c)" "slab_size dvd ptr"
    "(\<Union>c\<in>?B. block_live slab_size h' c) = insert ptr (\<Union>c\<in>?B. block_live slab_size h c)"
    "occupancy (sblocks h' b) = occupancy (sblocks h b) + 1"
    "capacity (sblocks h' b) = capacity (sblocks h b)" "\<And>c. c \<noteq> b \<Longrightarrow> sblocks h' c = sblocks h c"
    unfolding slot_taken_def by simp_all
  define p' where "p' = p\<lparr>sempty := None, spartial := [b]\<rparr>"
  have res: "pool_alloc slab_size new_block (p, h) = Ok (ptr, p', h')"
    using e t(1) by (simp add: pool_alloc_def p'_def)
  have set: "set (pool_blocks p') = ?B" and dist: "distinct (pool_blocks p')" and nb: "b \<notin> set (sfull p)"
    using e d(1) by (auto simp: p'_def pool_blocks_def)
  have "pool_inv slab_size (p', h')"
  proof (rule pool_invI [OF dist])
    show "block_inv slab_size h' c" if "c \<in> set (pool_blocks p')" for c using that set t(2) by simp
    show "0 < occupancy (sblocks h' c) \<and> occupancy (sblocks h' c) < capacity (sblocks h' c)"
      if "c \<in> set (spartial p')" for c using that cap occ t(6,7) by (simp add: p'_def)
    show "occupancy (sblocks h' c) = capacity (sblocks h' c)" if "c \<in> set (sfull p')" for c
      using that d(4) nb t(8) by (cases "c = b") (auto simp: p'_def)
  qed (simp add: p'_def)
  then show ?thesis using alloc_postI [OF res _ t(4)] t(3,5) set by (simp add: live_slots_blocks)
qed

lemma init_frame:
  assumes s: "slab_ok slab_size" and b: "block_size dvd b" "0 < b" and c: "block_inv slab_size h c" "c \<noteq> b"
  shows "block_inv slab_size (block_init slab_size b h) c"
    "block_live slab_size (block_init slab_size b h) c = block_live slab_size h c"
proof -
  note i = block_init_ok [OF s b refl [of "block_init slab_size b h"]]
  have "a < b \<or> b + block_size \<le> a" if "a \<in> set (free_slots h c)" for a
  proof (rule ccontr)
    assume "\<not> (a < b \<or> b + block_size \<le> a)"
    then have "a - a mod block_size = b" using block_of [OF b(1)] by simp
    moreover have "a - a mod block_size = c"
      using slot_block [OF s, of c a] c(1) that by (auto simp: block_inv_def)
    ultimately show False using c(2) by simp
  qed
  then have f: "\<And>a. a \<in> set (free_slots h c) \<Longrightarrow> slinks (block_init slab_size b h) a = slinks h a"
    using i(5) by blast
  show "block_inv slab_size (block_init slab_size b h) c"
    "block_live slab_size (block_init slab_size b h) c = block_live slab_size h c"
    using block_frame [OF c(1) i(4) [OF c(2)] f] by simp_all
qed

lemma pool_alloc_new:
  assumes s: "slab_ok slab_size" and inv: "pool_inv slab_size (p, h)" and e: "spartial p = []" "sempty p = None"
    and b: "block_size dvd b" "0 < b" "b \<notin> set (pool_blocks p)"
  shows "alloc_post slab_size (Some b) p h"
proof -
  note d = pool_invD [OF inv]
  let ?h = "block_init slab_size b h" and ?B = "insert b (set (pool_blocks p))"
  note i = block_init_ok [OF s b(1,2) refl [of "block_init slab_size b h"]]
  have fr: "block_inv slab_size ?h c" "block_live slab_size ?h c = block_live slab_size h c"
    if "c \<in> set (pool_blocks p)" for c
    using init_frame [OF s b(1,2) d(2) [OF that]] b(3) that by metis+
  have binv: "block_inv slab_size ?h c" if "c \<in> ?B" for c using that fr(1) i(1) by auto
  have cap: "capacity (sblocks ?h b) = block_capacity slab_size" "2 \<le> block_capacity slab_size"
    using i(1) block_capacity_2 [OF s] by (auto simp: block_inv_def)
  have lt: "occupancy (sblocks ?h b) < capacity (sblocks ?h b)" using cap i(2) by simp
  obtain ptr h' where st: "slot_taken slab_size ?B b ?h ptr h'" using take_slot [OF s binv _ lt] by blast
  have nl: "(\<Union>c\<in>?B. block_live slab_size ?h c) = live_slots slab_size (p, h)"
    using fr(2) i(3) by (auto simp: live_slots_blocks block_live_def)
  from st have t: "block_alloc b ?h = Ok (ptr, h')" "\<And>c. c \<in> ?B \<Longrightarrow> block_inv slab_size h' c"
    "ptr \<notin> live_slots slab_size (p, h)" "slab_size dvd ptr"
    "(\<Union>c\<in>?B. block_live slab_size h' c) = insert ptr (live_slots slab_size (p, h))"
    "occupancy (sblocks h' b) = occupancy (sblocks ?h b) + 1"
    "capacity (sblocks h' b) = capacity (sblocks ?h b)" "\<And>c. c \<noteq> b \<Longrightarrow> sblocks h' c = sblocks ?h c"
    unfolding slot_taken_def nl by auto
  define p' where "p' = p\<lparr>spartial := [b]\<rparr>"
  have res: "pool_alloc slab_size (Some b) (p, h) = Ok (ptr, p', h')"
    using e t(1) by (simp add: pool_alloc_def p'_def)
  have set: "set (pool_blocks p') = ?B" and dist: "distinct (pool_blocks p')" and nb: "b \<notin> set (sfull p)"
    using e d(1) b(3) by (auto simp: p'_def pool_blocks_def)
  have "pool_inv slab_size (p', h')"
  proof (rule pool_invI [OF dist])
    show "block_inv slab_size h' c" if "c \<in> set (pool_blocks p')" for c using that set t(2) by simp
    show "0 < occupancy (sblocks h' c) \<and> occupancy (sblocks h' c) < capacity (sblocks h' c)"
      if "c \<in> set (spartial p')" for c using that cap i(2) t(6,7) by (simp add: p'_def)
    show "occupancy (sblocks h' c) = capacity (sblocks h' c)" if c: "c \<in> set (sfull p')" for c
    proof -
      have "c \<in> set (sfull p)" "c \<noteq> b" using c nb by (auto simp: p'_def)
      then show ?thesis using d(4) t(8) i(4) by simp
    qed
  qed (simp add: p'_def e)
  moreover have "live_slots slab_size (p', h') = insert ptr (live_slots slab_size (p, h))"
    using t(5) set by (simp add: live_slots_blocks)
  ultimately show ?thesis by (rule alloc_postI [OF res _ t(4,3)])
qed

text \<open>Returning a slot: the heap after \<open>block_free\<close>, seen from the blocks \<open>B\<close> of the pool.\<close>

lemma return_slot:
  assumes s: "slab_ok slab_size" and inv: "\<And>c. c \<in> B \<Longrightarrow> block_inv slab_size h c" and b: "b \<in> B"
    and ptr: "ptr \<in> block_live slab_size h b" and h': "h' = block_free b ptr h"
  shows "\<And>c. c \<in> B \<Longrightarrow> block_inv slab_size h' c"
    "(\<Union>c\<in>B. block_live slab_size h' c) = (\<Union>c\<in>B. block_live slab_size h c) - {ptr}"
    "0 < occupancy (sblocks h b)" "occupancy (sblocks h' b) = occupancy (sblocks h b) - 1"
    "capacity (sblocks h' b) = capacity (sblocks h b)" "\<And>c. c \<noteq> b \<Longrightarrow> sblocks h' c = sblocks h c"
proof -
  have p: "ptr \<in> slots slab_size b" "ptr \<notin> set (free_slots h b)" using ptr by (auto simp: block_live_def)
  note f = block_free_ok [OF inv [OF b] s p, folded h']
  have al: "block_size dvd c" if "c \<in> B" for c using inv [OF that] by (simp add: block_inv_def)
  have nin: "ptr \<notin> slots slab_size c" if "c \<in> B" "c \<noteq> b" for c
    using slots_disjoint [OF s al [OF that(1)] al [OF b] that(2)] p(1) by blast
  have frame: "block_inv slab_size h' c" "block_live slab_size h' c = block_live slab_size h c" if c: "c \<in> B" "c \<noteq> b" for c
  proof -
    have fr: "slinks h' a = slinks h a" if "a \<in> set (free_slots h c)" for a
      using nin [OF c] inv [OF c(1)] that by (intro f(7)) (auto simp: block_inv_def)
    show "block_inv slab_size h' c" "block_live slab_size h' c = block_live slab_size h c"
      using block_frame [OF inv [OF c(1)] f(6) [OF c(2)] fr] by simp_all
  qed
  show "block_inv slab_size h' c" if "c \<in> B" for c using frame(1) [OF that] f(3) by (cases "c = b") auto
  have own: "block_live slab_size h' b = block_live slab_size h b - {ptr}"
    using f(2) by (auto simp: block_live_def)
  have other: "block_live slab_size h' c = block_live slab_size h c - {ptr}" if "c \<in> B" for c
    using own frame(2) [OF that] nin [OF that] by (cases "c = b") (auto simp: block_live_def)
  show "(\<Union>c\<in>B. block_live slab_size h' c) = (\<Union>c\<in>B. block_live slab_size h c) - {ptr}"
    using other by auto
  show "0 < occupancy (sblocks h b)" "occupancy (sblocks h' b) = occupancy (sblocks h b) - 1"
    "capacity (sblocks h' b) = capacity (sblocks h b)" by (rule f)+
  show "sblocks h' c = sblocks h c" if "c \<noteq> b" for c by (rule f(6) [OF that])
qed

lemma empty_block_live:
  assumes "block_inv slab_size h b" "occupancy (sblocks h b) = 0" "slab_ok slab_size"
  shows "block_live slab_size h b = {}"
proof -
  have "length (free_slots h b) = capacity (sblocks h b)" using assms(2) by (simp add: free_slots_def Let_def)
  then have "card (set (free_slots h b)) = card (slots slab_size b)"
    using assms(1) card_slots [OF assms(3)] by (simp add: block_inv_def distinct_card)
  then have "set (free_slots h b) = slots slab_size b"
    using assms(1) by (intro card_subset_eq) (auto simp: block_inv_def slots_def)
  then show ?thesis by (simp add: block_live_def)
qed

definition free_post :: "nat \<Rightarrow> nat \<Rightarrow> slab_pool \<Rightarrow> slab_heap \<Rightarrow> bool" where
  "free_post slab_size ptr p h \<longleftrightarrow> (case pool_free ptr (p, h) of (p', h', dropped) \<Rightarrow>
     pool_inv slab_size (p', h') \<and> live_slots slab_size (p', h') = live_slots slab_size (p, h) - {ptr} \<and>
     set (pool_blocks p') = set (pool_blocks p) - set_option dropped \<and>
     (\<forall>b. dropped = Some b \<longrightarrow> slots slab_size b \<inter> live_slots slab_size (p', h') = {}))"

lemma pool_inv_update:
  assumes inv: "pool_inv slab_size (p, h)" and bi: "\<And>c. c \<in> set (pool_blocks p) \<Longrightarrow> block_inv slab_size h' c"
    and un: "\<And>c. c \<noteq> b \<Longrightarrow> sblocks h' c = sblocks h c"
    and blocks: "distinct (pool_blocks p')" "set (pool_blocks p') \<subseteq> set (pool_blocks p)"
    and sub: "set (spartial p') \<subseteq> insert b (set (spartial p))" "set (sfull p') \<subseteq> insert b (set (sfull p))"
      "set_option (sempty p') \<subseteq> insert b (set_option (sempty p))"
    and own: "b \<in> set (spartial p') \<Longrightarrow> 0 < occupancy (sblocks h' b) \<and> occupancy (sblocks h' b) < capacity (sblocks h' b)"
      "b \<in> set (sfull p') \<Longrightarrow> occupancy (sblocks h' b) = capacity (sblocks h' b)"
      "sempty p' = Some b \<Longrightarrow> occupancy (sblocks h' b) = 0"
  shows "pool_inv slab_size (p', h')"
proof (rule pool_invI [OF blocks(1)])
  note d = pool_invD [OF inv]
  show "block_inv slab_size h' c" if "c \<in> set (pool_blocks p')" for c using bi blocks(2) that by blast
  show "0 < occupancy (sblocks h' c) \<and> occupancy (sblocks h' c) < capacity (sblocks h' c)" if "c \<in> set (spartial p')" for c
    using that own(1) d(3) [of c] un [of c] sub(1) by (cases "c = b") auto
  show "occupancy (sblocks h' c) = capacity (sblocks h' c)" if "c \<in> set (sfull p')" for c
    using that own(2) d(4) [of c] un [of c] sub(2) by (cases "c = b") auto
  show "occupancy (sblocks h' c) = 0" if "sempty p' = Some c" for c
    using that own(3) d(5) [of c] un [of c] sub(3) by (cases "c = b") auto
qed

definition returned :: "nat \<Rightarrow> nat \<Rightarrow> slab_pool \<Rightarrow> slab_heap \<Rightarrow> nat \<Rightarrow> slab_heap \<Rightarrow> bool" where
  "returned slab_size ptr p h b h' \<longleftrightarrow>
     (\<forall>c\<in>set (pool_blocks p). block_inv slab_size h' c) \<and> 0 < occupancy (sblocks h b) \<and>
     occupancy (sblocks h' b) = occupancy (sblocks h b) - 1 \<and> capacity (sblocks h' b) = capacity (sblocks h b) \<and>
     2 \<le> capacity (sblocks h b) \<and> (\<forall>c. c \<noteq> b \<longrightarrow> sblocks h' c = sblocks h c) \<and>
     (\<Union>c\<in>set (pool_blocks p). block_live slab_size h' c) = live_slots slab_size (p, h) - {ptr} \<and>
     sempty p \<noteq> Some b \<and> (b \<in> set (spartial p) \<or> b \<in> set (sfull p)) \<and>
     pool_free ptr (p, h) =
      (if occupancy (sblocks h b) = capacity (sblocks h b)
       then (p\<lparr>sfull := remove1 b (sfull p), spartial := spartial p @ [b]\<rparr>, h', None)
       else if occupancy (sblocks h b) = 1
       then (let p' = p\<lparr>spartial := remove1 b (spartial p)\<rparr>
             in if sempty p = None then (p'\<lparr>sempty := Some b\<rparr>, h', None) else (p', h', Some b))
       else (p, h', None))"

lemma slot_returned:
  assumes s: "slab_ok slab_size" and inv: "pool_inv slab_size (p, h)" and live: "ptr \<in> live_slots slab_size (p, h)"
  shows "\<exists>b h'. returned slab_size ptr p h b h'"
proof -
  note d = pool_invD [OF inv]
  let ?B = "set (pool_blocks p)"
  obtain b where b: "b \<in> ?B" "ptr \<in> block_live slab_size h b" using live by (auto simp: live_slots_blocks)
  have blk: "ptr - ptr mod block_size = b"
    using slot_block [OF s] d(2) [OF b(1)] b(2) by (auto simp: block_inv_def block_live_def)
  define h' where "h' = block_free b ptr h"
  note r = return_slot [OF s d(2) b(1) b(2) h'_def]
  have cap: "2 \<le> capacity (sblocks h b)" using d(2) [OF b(1)] block_capacity_2 [OF s] by (simp add: block_inv_def)
  have ne: "sempty p \<noteq> Some b" using d(5) r(3) by auto
  have mem: "b \<in> set (spartial p) \<or> b \<in> set (sfull p)"
    using b(1) ne by (auto simp: pool_blocks_def split: option.splits)
  have "returned slab_size ptr p h b h'"
    using r cap ne mem unfolding returned_def
    by (auto simp: pool_free_def blk h'_def [symmetric] Let_def live_slots_blocks)
  then show ?thesis by blast
qed

lemma returnedD:
  assumes "returned slab_size ptr p h b h'"
  shows "\<And>c. c \<in> set (pool_blocks p) \<Longrightarrow> block_inv slab_size h' c" "0 < occupancy (sblocks h b)"
    "occupancy (sblocks h' b) = occupancy (sblocks h b) - 1" "capacity (sblocks h' b) = capacity (sblocks h b)"
    "\<And>c. c \<noteq> b \<Longrightarrow> sblocks h' c = sblocks h c" "2 \<le> capacity (sblocks h b)"
    "(\<Union>c\<in>set (pool_blocks p). block_live slab_size h' c) = live_slots slab_size (p, h) - {ptr}"
    "sempty p \<noteq> Some b" "b \<in> set (spartial p) \<or> b \<in> set (sfull p)"
  using assms by (auto simp: returned_def)

lemma pool_free_full:
  assumes inv: "pool_inv slab_size (p, h)" and ret: "returned slab_size ptr p h b h'"
    and full: "occupancy (sblocks h b) = capacity (sblocks h b)"
  shows "free_post slab_size ptr p h"
proof -
  note d = pool_invD [OF inv] and r = returnedD [OF ret]
  have nb: "b \<notin> set (spartial p)" "b \<in> set (sfull p)" using full d(3) [of b] r(9) by auto
  let ?p = "p\<lparr>sfull := remove1 b (sfull p), spartial := spartial p @ [b]\<rparr>"
  have B: "set (pool_blocks ?p) = set (pool_blocks p)" "distinct (pool_blocks ?p)" "b \<notin> set (remove1 b (sfull p))"
    using d(1) nb r(8) by (auto simp: pool_blocks_def split: option.splits)
  have "pool_inv slab_size (?p, h')"
    by (rule pool_inv_update [OF inv r(1,5)]) (use B r(3,4,6,8) full in \<open>auto dest: notin_set_remove1\<close>)
  then show ?thesis using full ret B(1) r(7) by (simp add: free_post_def returned_def live_slots_blocks)
qed

lemma pool_free_more:
  assumes inv: "pool_inv slab_size (p, h)" and ret: "returned slab_size ptr p h b h'"
    and more: "occupancy (sblocks h b) \<noteq> capacity (sblocks h b)" "occupancy (sblocks h b) \<noteq> 1"
  shows "free_post slab_size ptr p h"
proof -
  note d = pool_invD [OF inv] and r = returnedD [OF ret]
  have nb: "b \<in> set (spartial p)" "b \<notin> set (sfull p)" using more d(4) [of b] r(9) by auto
  have "pool_inv slab_size (p, h')"
    by (rule pool_inv_update [OF inv r(1,5)]) (use d(1) d(3) [OF nb(1)] nb more r(2,3,4,8) in auto)
  then show ?thesis using more ret r(7) by (simp add: free_post_def returned_def live_slots_blocks)
qed

lemma pool_free_last:
  assumes s: "slab_ok slab_size" and inv: "pool_inv slab_size (p, h)" and ret: "returned slab_size ptr p h b h'"
    and last: "occupancy (sblocks h b) \<noteq> capacity (sblocks h b)" "occupancy (sblocks h b) = 1"
  shows "free_post slab_size ptr p h"
proof -
  note d = pool_invD [OF inv] and r = returnedD [OF ret]
  have nb: "b \<in> set (spartial p)" "b \<notin> set (sfull p)" using last d(4) [of b] r(9) by auto
  let ?q = "p\<lparr>spartial := remove1 b (spartial p)\<rparr>" and ?p = "p\<lparr>spartial := remove1 b (spartial p), sempty := Some b\<rparr>"
  have bi: "block_inv slab_size h' b" using r(1) nb(1) by (simp add: pool_blocks_def)
  have sp: "set (remove1 b (spartial p)) = set (spartial p) - {b}" "distinct (remove1 b (spartial p))"
    using d(1) by (auto simp: pool_blocks_def)
  show ?thesis
  proof (cases "sempty p")
    case None
    have B: "set (pool_blocks ?p) = set (pool_blocks p)" "distinct (pool_blocks ?p)"
      using d(1) nb None sp by (auto simp: pool_blocks_def)
    have "pool_inv slab_size (?p, h')"
      by (rule pool_inv_update [OF inv r(1,5)]) (use B sp nb r(3) last in auto)
    then show ?thesis using last ret None B(1) r(7) by (simp add: free_post_def returned_def live_slots_blocks Let_def)
  next
    case (Some e)
    have B: "set (pool_blocks ?q) = set (pool_blocks p) - {b}" "distinct (pool_blocks ?q)"
      using d(1) nb Some sp r(8) by (auto simp: pool_blocks_def)
    have i: "pool_inv slab_size (?q, h')"
      by (rule pool_inv_update [OF inv r(1,5)]) (use B sp nb r(3,8) last in auto)
    have "block_live slab_size h' b = {}" using empty_block_live [OF bi _ s] r(3) last by simp
    then have l: "live_slots slab_size (?q, h') = live_slots slab_size (p, h) - {ptr}"
      using B(1) r(7) by (auto simp: live_slots_blocks)
    have "slots slab_size b \<inter> slots slab_size c = {}" if "c \<in> set (pool_blocks p)" "c \<noteq> b" for c
      using slots_disjoint [OF s] bi r(1) [OF that(1)] that(2) by (simp add: block_inv_def)
    then have "slots slab_size b \<inter> live_slots slab_size (?q, h') = {}"
      using B(1) by (auto simp: live_slots_def)
    then show ?thesis using i l last ret Some B(1) by (simp add: free_post_def returned_def Let_def)
  qed
qed

section \<open>Properties\<close>

text \<open>
  C26. \<open>SlabPool::alloc\<close>: on a well-formed pool, and for a new block from the page allocator that is
  aligned and not already in the pool, an allocation fails only when no block has room and the page
  allocator has none; otherwise it returns a slot aligned to the slab size that no client holds,
  exactly that slot becomes held, and the pool stays well formed. The \<open>expect\<close> calls never panic.
\<close>

theorem slab_alloc_correct:
  assumes "slab_ok slab_size" "pool_inv slab_size (p, h)"
    and "\<And>b. new_block = Some b \<Longrightarrow> block_size dvd b \<and> 0 < b \<and> b \<notin> set (pool_blocks p)"
  shows "case pool_alloc slab_size new_block (p, h) of
      Inl e \<Rightarrow> e = SAllocError \<and> spartial p = [] \<and> sempty p = None \<and> new_block = None
    | Inr (ptr, p', h') \<Rightarrow> pool_inv slab_size (p', h') \<and> slab_size dvd ptr \<and>
        ptr \<notin> live_slots slab_size (p, h) \<and> live_slots slab_size (p', h') = insert ptr (live_slots slab_size (p, h))"
proof (cases "spartial p = [] \<and> sempty p = None \<and> new_block = None")
  case True
  then show ?thesis by (simp add: pool_alloc_def)
next
  case False
  have "alloc_post slab_size new_block p h"
  proof (cases "spartial p")
    case Nil
    show ?thesis
    proof (cases "sempty p")
      case None
      then obtain b where "new_block = Some b" using False Nil by auto
      then show ?thesis using pool_alloc_new [OF assms(1,2) Nil None] assms(3) by blast
    next
      case (Some b)
      then show ?thesis by (rule pool_alloc_empty [OF assms(1,2) Nil])
    qed
  next
    case (Cons b rest)
    then show ?thesis by (rule pool_alloc_partial [OF assms(1,2)])
  qed
  then show ?thesis by (auto simp: alloc_post_def)
qed

lemma pool_inv_new: "pool_inv slab_size (pool_new, h)" "live_slots slab_size (pool_new, h) = {}"
  by (simp_all add: pool_inv_def pool_new_def pool_blocks_def live_slots_def)

definition heap0 :: slab_heap where
  "heap0 = \<lparr>slinks = (\<lambda>_. 0), sblocks = (\<lambda>_. \<lparr>occupancy = 0, capacity = 0, list_head = 0\<rparr>)\<rparr>"

lemma pool_alloc_first:
  "slab_ok slab_size \<Longrightarrow> \<exists>p' h'. pool_alloc slab_size (Some block_size) (pool_new, heap0) =
     Ok (block_size + div_ceil header_size slab_size * slab_size, p', h')"
  by (auto simp: pool_alloc_def pool_new_def block_alloc_def block_init_def Let_def block_size_def
      header_size_def slab_ok_def div_ceil_def)

theorem slab_alloc_correct_witness:
  "\<exists>p h. pool_alloc 2048 (Some block_size) (pool_new, heap0) = Ok (block_size + 2048, p, h) \<and>
     pool_inv 2048 (p, h) \<and> live_slots 2048 (p, h) = {block_size + 2048}"
proof -
  have s: "slab_ok 2048" by (simp add: slab_ok_def)
  obtain p h where a: "pool_alloc 2048 (Some block_size) (pool_new, heap0) = Ok (block_size + 2048, p, h)"
    using pool_alloc_first [OF s] by (auto simp: header_size_def div_ceil_def)
  have "set (pool_blocks pool_new) = {}" by (simp add: pool_new_def pool_blocks_def)
  then show ?thesis
    using slab_alloc_correct [OF s pool_inv_new(1) [of _ heap0], of "Some block_size"] a
    by (auto simp: pool_inv_new(2) block_size_def)
qed

lemma pool_alloc_2048:
  obtains p h where "pool_alloc 2048 (Some block_size) (pool_new, heap0) = Ok (block_size + 2048, p, h)"
    "pool_inv 2048 (p, h)" "live_slots 2048 (p, h) = {block_size + 2048}"
proof -
  have s: "slab_ok 2048" by (simp add: slab_ok_def)
  obtain p h where a: "pool_alloc 2048 (Some block_size) (pool_new, heap0) = Ok (block_size + 2048, p, h)"
    using pool_alloc_first [OF s] by (auto simp: header_size_def div_ceil_def)
  have "alloc_post 2048 (Some block_size) pool_new heap0"
    by (rule pool_alloc_new [OF s pool_inv_new(1)]) (auto simp: pool_new_def pool_blocks_def block_size_def)
  then show ?thesis using that a by (auto simp: alloc_post_def pool_inv_new)
qed

text \<open>
  C27. \<open>SlabPool::free\<close> of a slot a client holds: exactly that slot stops being held, the pool stays
  well formed, and a block that goes back to the page allocator holds no slot of any client.
\<close>

theorem slab_free_correct:
  assumes "slab_ok slab_size" "pool_inv slab_size (p, h)" "ptr \<in> live_slots slab_size (p, h)"
  shows "case pool_free ptr (p, h) of (p', h', dropped) \<Rightarrow>
     pool_inv slab_size (p', h') \<and> live_slots slab_size (p', h') = live_slots slab_size (p, h) - {ptr} \<and>
     set (pool_blocks p') = set (pool_blocks p) - set_option dropped \<and>
     (\<forall>b. dropped = Some b \<longrightarrow> slots slab_size b \<inter> live_slots slab_size (p', h') = {})"
proof -
  obtain b h' where r: "returned slab_size ptr p h b h'" using slot_returned [OF assms] by blast
  have "free_post slab_size ptr p h"
    using pool_free_full [OF assms(2) r] pool_free_more [OF assms(2) r] pool_free_last [OF assms(1,2) r] by blast
  then show ?thesis by (simp add: free_post_def)
qed

theorem slab_free_correct_witness:
  "\<exists>p h. pool_alloc 2048 (Some block_size) (pool_new, heap0) = Ok (block_size + 2048, p, h) \<and>
     (case pool_free (block_size + 2048) (p, h) of (p', h', _) \<Rightarrow> pool_inv 2048 (p', h') \<and> live_slots 2048 (p', h') = {})"
proof -
  obtain p h where a: "pool_alloc 2048 (Some block_size) (pool_new, heap0) = Ok (block_size + 2048, p, h)"
    "pool_inv 2048 (p, h)" "live_slots 2048 (p, h) = {block_size + 2048}" by (rule pool_alloc_2048)
  then show ?thesis using slab_free_correct [of 2048 p h "block_size + 2048"] by (auto simp: slab_ok_def)
qed

lemma pad_to_align: "0 < align \<Longrightarrow> sz \<le> pad_to_align sz align" "align dvd pad_to_align sz align"
  by (simp_all add: pad_to_align_def div_ceil_mult)

text \<open>
  \<open>SlabsAlloc::bucket_for\<close> on a layout of nonzero size: it never panics, it answers \<open>None\<close> exactly
  when the padded size exceeds the largest slab, and otherwise names the smallest slab the padded
  layout fits, a size whose slots are aligned as the layout asks.
\<close>

theorem bucket_for_fits:
  assumes sz: "0 < sz"
  shows "case bucket_for sz (2 ^ a) of
      Inl _ \<Rightarrow> False
    | Inr None \<Rightarrow> largest < pad_to_align sz (2 ^ a)
    | Inr (Some (k, slab)) \<Rightarrow> k < sizes \<and> slab = smallest * 2 ^ k \<and> slab_ok slab \<and>
        sz \<le> slab \<and> pad_to_align sz (2 ^ a) \<le> slab \<and> 2 ^ a dvd slab \<and>
        (\<forall>j<k. smallest * 2 ^ j < pad_to_align sz (2 ^ a))"
proof -
  let ?p = "pad_to_align sz (2 ^ a)" let ?n = "div_ceil ?p smallest"
  obtain k where k: "next_power_of_two ?n = 2 ^ k" using next_power_of_two_pow by blast
  have p: "sz \<le> ?p" "2 ^ a dvd ?p" using pad_to_align [of "2 ^ a" sz] by auto
  have fit: "?p \<le> smallest * 2 ^ k"
    using div_ceil_mult [of smallest ?p] next_power_of_two_ge [of ?n] k by (simp add: smallest_def)
  have least: "smallest * 2 ^ j < ?p" if "j < k" for j
  proof (rule ccontr)
    assume "\<not> smallest * 2 ^ j < ?p"
    then have "?n \<le> 2 ^ j" by (simp add: div_ceil_def smallest_def)
    then show False using next_power_of_two_least [of ?n j] k that by simp
  qed
  have b: "bucket_for sz (2 ^ a) = (if k \<ge> sizes then Ok None else Ok (Some (k, smallest * 2 ^ k)))"
    using sz k trailing_zeros_power [of 1] by (simp add: bucket_for_def Let_def)
  show ?thesis
  proof (cases "k \<ge> sizes")
    case True
    then have "largest < ?p" unfolding largest_def using least [of "sizes - 1"] by (simp add: sizes_def)
    then show ?thesis using b True by simp
  next
    case False
    have "2 ^ a \<le> smallest * 2 ^ k" using dvd_imp_le [OF p(2)] p(1) sz fit by linarith
    then have "(2::nat) ^ a \<le> 2 ^ (k + 3)" by (simp add: smallest_def power_add mult.commute)
    then have "(2::nat) ^ a dvd 2 ^ (k + 3)" by (intro le_imp_power_dvd) simp
    then have al: "2 ^ a dvd smallest * 2 ^ k" by (simp add: smallest_def power_add mult.commute)
    have "k \<in> {0, 1, 2, 3, 4, 5, 6, 7, 8}" using False by (auto simp: sizes_def)
    then have "slab_ok (smallest * 2 ^ k)" by (auto simp: slab_ok_def smallest_def)
    then show ?thesis using b False p fit al least by simp
  qed
qed

theorem bucket_for_fits_witness:
  "(0::nat) < 24 \<and> bucket_for 24 (2 ^ 3) = Ok (Some (2, 32)) \<and> slab_ok 32"
proof -
  have "bucket_for 24 (2 ^ 3) = Ok (Some (2, 32))"
    by (simp add: bucket_for_def Let_def pad_to_align_def div_ceil_def smallest_def sizes_def next_power_of_two_def
        ilog2.simps trailing_zeros.simps)
  then show ?thesis using bucket_for_fits [of 24 3] by simp
qed

section \<open>Layouts the heap frees to the wrong allocator\<close>

text \<open>
  \<open>Heap::alloc\<close> decides by the padded size and \<open>Heap::dealloc\<close> by the plain one: a layout of 1025 bytes
  aligned to a page comes from the page allocator and is freed to the slabs, where
  \<open>bucket_for(..).expect(..)\<close> panics.
\<close>

lemma heap_dealloc_panics:
  "\<not> heap_alloc_slab 1025 4096" "heap_dealloc_slab 1025 4096" "slabs_deallocate ptr 1025 4096 ph = Err SPanic"
  by (simp_all add: heap_alloc_slab_def heap_dealloc_slab_def slabs_deallocate_def bucket_for_def Let_def
      pad_to_align_def div_ceil_def smallest_def sizes_def largest_def next_power_of_two_def
      ilog2.simps trailing_zeros.simps)

text \<open>
  \<open>SlabBlock::init\<close> links the last slot to the address after the block, so the free list of a block
  taken to its capacity is not null: \<open>SlabBlock::alloc\<close> would hand that address out.
\<close>

lemma link_slots_last: "0 < s \<Longrightarrow> link_slots s (Suc n) ptr mem (ptr + n * s) = ptr + Suc n * s"
proof (induction n arbitrary: ptr mem)
  case (Suc n)
  show ?case using Suc.IH [OF Suc.prems, of "ptr + s" "mem(ptr := ptr + s)"]
    by (subst link_slots.simps(2)) (simp add: Let_def algebra_simps del: link_slots.simps fun_upd_apply)
qed simp

lemma full_block_not_exhausted:
  assumes s: "slab_ok slab_size" and n: "block_capacity slab_size = Suc n"
  shows "slinks (block_init slab_size block h) (slot_addr slab_size block n) = block + block_size"
proof -
  let ?o = "div_ceil header_size slab_size"
  have "block + header_size + (?o * slab_size - header_size) = block + ?o * slab_size"
    using slab_ok_facts(3) [OF s] by simp
  then show ?thesis
    using link_slots_last [OF slab_ok_facts(1) [OF s], of n "block + ?o * slab_size" "slinks h"] n slab_ok_facts(4) [OF s]
    by (simp add: block_init_def Let_def block_capacity_def [symmetric] slot_addr_def algebra_simps del: link_slots.simps)
qed

end
