(* ===== verification/Page_Table.thy ===== *)
theory Page_Table
  imports Badger_Prelude
begin

unbundle bit_operations_syntax

text \<open>
  Page table entries: the generic form and its flags (\<open>src/mem/vmm/physmap.rs\<close>), the two
  architectures' packed forms (\<open>src/arch/riscv64/mmu.rs\<close>, \<open>src/arch/x86_64/mmu.rs\<close>), the conversion
  between protection and page table flags (\<open>src/mem/vmm/mod.rs\<close>), and the tests for canonical
  addresses. Addresses and packed entries are natural numbers below \<open>2 ^ 64\<close>.
\<close>

section \<open>Model\<close>

definition page_bytes :: nat where
  "page_bytes = 4096"

definition bits_per_level :: nat where
  "bits_per_level = 9"

definition pte_per_page :: nat where
  "pte_per_page = 2 ^ bits_per_level"

definition fl_R :: nat where "fl_R = 2"
definition fl_W :: nat where "fl_W = 4"
definition fl_X :: nat where "fl_X = 8"
definition fl_U :: nat where "fl_U = 16"
definition fl_G :: nat where "fl_G = 32"
definition fl_A :: nat where "fl_A = 64"
definition fl_D :: nat where "fl_D = 128"
definition fl_REFCOUNT :: nat where "fl_REFCOUNT = 256"
definition fl_IO :: nat where "fl_IO = 1024"
definition fl_WC :: nat where "fl_WC = 2048"
definition fl_RWX :: nat where "fl_RWX = (fl_R OR fl_W OR fl_X)"

lemmas fl_defs = fl_R_def fl_W_def fl_X_def fl_U_def fl_G_def fl_A_def fl_D_def fl_REFCOUNT_def
  fl_IO_def fl_WC_def fl_RWX_def

record pte =
  ppn :: nat
  flags :: nat
  level :: nat
  valid :: bool
  leaf :: bool

definition pte_eq :: "pte \<Rightarrow> pte \<Rightarrow> bool" where
  "pte_eq a b \<longleftrightarrow> ppn a = ppn b \<and> flags a AND fl_RWX = flags b AND fl_RWX \<and> level a = level b \<and>
     valid a = valid b \<and> (leaf a = leaf b \<or> \<not> valid a \<and> \<not> valid b)"

definition pte_NULL :: pte where
  "pte_NULL = \<lparr>ppn = 0, flags = 0, level = 0, valid = False, leaf = False\<rparr>"

definition pte_is_null :: "pte \<Rightarrow> bool" where
  "pte_is_null p \<longleftrightarrow> ppn p = 0 \<and> flags p = 0 \<and> \<not> valid p"

subsection \<open>RISC-V\<close>

text \<open>\<open>HAS_PBMT\<close> is a static that no code of the kernel sets.\<close>

definition riscv_pack :: "bool \<Rightarrow> pte \<Rightarrow> nat" where
  "riscv_pack has_pbmt p =
     (let pbmt = (if has_pbmt then push_bit 61 (drop_bit 10 (flags p) AND 3) else 0)
      in (pbmt + push_bit 10 (ppn p) mod 2 ^ 64 + (flags p AND 0x3FE) + of_bool (valid p)) mod 2 ^ 64)"

definition riscv_unpack :: "nat \<Rightarrow> nat \<Rightarrow> pte" where
  "riscv_unpack raw lev =
     \<lparr>ppn = drop_bit 10 raw mod 2 ^ 57,
      flags = (raw AND 0x3FE) + push_bit 10 (drop_bit 61 raw AND 3),
      level = lev, valid = (raw AND 1 \<noteq> 0), leaf = (raw AND 0xE \<noteq> 0)\<rparr>"

text \<open>The entry format of the running kernel.\<close>

definition pack :: "pte \<Rightarrow> nat" where
  "pack = riscv_pack False"

definition unpack :: "nat \<Rightarrow> nat \<Rightarrow> pte" where
  "unpack = riscv_unpack"

definition riscv_satp :: "nat \<Rightarrow> nat \<Rightarrow> nat \<Rightarrow> nat" where
  "riscv_satp nlev root asid = drop_bit 12 root + push_bit 44 asid + push_bit 60 (nlev - 3 + 8)"

definition satp_page_table :: "nat \<Rightarrow> nat" where
  "satp_page_table satp = push_bit 12 (satp AND 0xFFFFFFFFFFF)"

definition satp_asid :: "nat \<Rightarrow> nat" where
  "satp_asid satp = (drop_bit 44 satp) mod 2 ^ 32 AND 0xFFFF"

definition satp_levels :: "nat \<Rightarrow> nat" where
  "satp_levels satp = drop_bit 60 satp - 8 + 3"

subsection \<open>x86-64\<close>

definition x86_REFCOUNT :: nat where "x86_REFCOUNT = 2 ^ 9"
definition x86_NX :: nat where "x86_NX = 2 ^ 63"
definition x86_G :: nat where "x86_G = 2 ^ 8"
definition x86_PS :: nat where "x86_PS = 2 ^ 7"
definition x86_D :: nat where "x86_D = 2 ^ 5"
definition x86_A :: nat where "x86_A = 2 ^ 5"
definition x86_PCD :: nat where "x86_PCD = 2 ^ 4"
definition x86_PWT :: nat where "x86_PWT = 2 ^ 3"
definition x86_US :: nat where "x86_US = 2 ^ 2"
definition x86_RW :: nat where "x86_RW = 2 ^ 1"
definition x86_P :: nat where "x86_P = 2 ^ 0"

lemmas x86_defs = x86_REFCOUNT_def x86_NX_def x86_G_def x86_PS_def x86_D_def x86_A_def x86_PCD_def
  x86_PWT_def x86_US_def x86_RW_def x86_P_def

definition if_bit :: "bool \<Rightarrow> nat \<Rightarrow> nat \<Rightarrow> nat" where
  "if_bit c b x = (if c then x OR b else x)"

definition has_flag :: "nat \<Rightarrow> nat \<Rightarrow> bool" where
  "has_flag x f \<longleftrightarrow> x AND f \<noteq> 0"

text \<open>\<open>g\<close> and \<open>nx\<close> are the statics \<open>PTE_G\<close> and \<open>PTE_NX\<close>, read from \<open>cpuid\<close> at boot.\<close>

definition x86_pack :: "bool \<Rightarrow> bool \<Rightarrow> pte \<Rightarrow> nat" where
  "x86_pack g nx p =
     (let packed = if_bit (valid p) x86_P (push_bit 12 (ppn p) mod 2 ^ 64) in
      if leaf p then
        (let a = if_bit (level p > 0) x86_PS packed;
             a = if_bit (g \<and> has_flag (flags p) fl_G) x86_G a;
             a = if_bit (nx \<and> \<not> has_flag (flags p) fl_X) x86_NX a;
             a = if_bit (has_flag (flags p) fl_W) x86_RW a;
             a = if_bit (has_flag (flags p) fl_A) x86_A a;
             a = if_bit (has_flag (flags p) fl_D) x86_D a;
             a = if_bit (has_flag (flags p) fl_REFCOUNT) x86_REFCOUNT a
         in if has_flag (flags p) fl_IO then a OR x86_PCD
            else if_bit (has_flag (flags p) fl_WC) x86_PWT a)
      else packed OR (x86_RW OR x86_US))"

definition x86_unpack :: "bool \<Rightarrow> bool \<Rightarrow> nat \<Rightarrow> nat \<Rightarrow> pte" where
  "x86_unpack g nx raw lev =
     (let lf = (lev = 0 \<or> has_flag raw x86_PS);
          fl = (if lf then
            (let a = fl_R;
                 a = if_bit (g \<and> has_flag raw x86_G) fl_G a;
                 a = if_bit (\<not> nx \<or> \<not> has_flag raw x86_NX) fl_X a;
                 a = if_bit (has_flag raw x86_RW) fl_W a;
                 a = if_bit (has_flag raw x86_A) fl_A a;
                 a = if_bit (has_flag raw x86_D) fl_D a;
                 a = if_bit (has_flag raw x86_REFCOUNT) fl_REFCOUNT a
             in if has_flag raw x86_PCD then a OR fl_IO else if_bit (has_flag raw x86_PWT) fl_WC a)
            else 0)
      in \<lparr>ppn = drop_bit 12 (raw AND 0x0007FFFFFFFFF000), flags = fl, level = lev,
          valid = has_flag raw x86_P, leaf = lf\<rparr>)"

subsection \<open>Protection flags\<close>

definition prot_READ :: nat where "prot_READ = 1"
definition prot_WRITE :: nat where "prot_WRITE = 2"
definition prot_EXEC :: nat where "prot_EXEC = 4"
definition prot_WC :: nat where "prot_WC = 8"
definition prot_IO :: nat where "prot_IO = 16"

lemmas prot_defs = prot_READ_def prot_WRITE_def prot_EXEC_def prot_WC_def prot_IO_def

definition from_mmu_flags :: "nat \<Rightarrow> nat" where
  "from_mmu_flags mmu =
     (let prot = 0;
          prot = if_bit (has_flag mmu fl_R) prot_READ prot;
          prot = if_bit (has_flag mmu fl_W) prot_WRITE prot;
          prot = if_bit (has_flag mmu fl_X) prot_EXEC prot;
          prot = if_bit (has_flag mmu fl_WC) prot_WC prot
      in if_bit (has_flag mmu fl_IO) prot_IO prot)"

definition into_mmu_flags :: "nat \<Rightarrow> nat" where
  "into_mmu_flags prot =
     (let mmu = 0;
          mmu = if_bit (has_flag prot prot_READ) fl_R mmu;
          mmu = if_bit (has_flag prot prot_WRITE) fl_W mmu;
          mmu = if_bit (has_flag prot prot_EXEC) fl_X mmu;
          mmu = if_bit (has_flag prot prot_WC) fl_WC mmu
      in if_bit (has_flag prot prot_IO) fl_IO mmu)"

subsection \<open>Addresses\<close>

definition get_vpn_index :: "nat \<Rightarrow> nat \<Rightarrow> nat" where
  "get_vpn_index vaddr lev = drop_bit (lev * bits_per_level + 12) vaddr mod 2 ^ bits_per_level"

definition calc_superpage :: "nat \<Rightarrow> nat \<Rightarrow> nat \<Rightarrow> nat" where
  "calc_superpage paddr vaddr len =
     (trailing_zeros (paddr OR vaddr OR len) - 12) div bits_per_level"

text \<open>\<open>addr as isize\<close>, and the wrapping left and the arithmetic right shift of an \<open>isize\<close>.\<close>

definition as_isize :: "nat \<Rightarrow> int" where
  "as_isize n = (if n < 2 ^ 63 then int n else int n - 2 ^ 64)"

definition isize_shl :: "int \<Rightarrow> nat \<Rightarrow> int" where
  "isize_shl x k = (x * 2 ^ k + 2 ^ 63) mod 2 ^ 64 - 2 ^ 63"

definition isize_shr :: "int \<Rightarrow> nat \<Rightarrow> int" where
  "isize_shr x k = x div 2 ^ k"

definition is_canon_addr :: "nat \<Rightarrow> nat \<Rightarrow> bool" where
  "is_canon_addr nlev a =
     (let exp = 64 - 12 - bits_per_level * nlev;
          canon = isize_shr (isize_shl (as_isize a) exp) exp
      in canon = as_isize a)"

definition is_canon_kernel_addr :: "nat \<Rightarrow> nat \<Rightarrow> bool" where
  "is_canon_kernel_addr nlev a \<longleftrightarrow> is_canon_addr nlev a \<and> as_isize a < 0"

definition is_canon_user_addr :: "nat \<Rightarrow> nat \<Rightarrow> bool" where
  "is_canon_user_addr nlev a \<longleftrightarrow> is_canon_addr nlev a \<and> as_isize a \<ge> 0"

text \<open>A range is a start and an end; \<open>len()\<close> of one whose end is before its start is 0.\<close>

definition is_canon_range :: "nat \<Rightarrow> nat \<times> nat \<Rightarrow> bool" where
  "is_canon_range nlev r \<longleftrightarrow> is_canon_addr nlev (fst r) \<and> (snd r - fst r = 0 \<or> is_canon_addr nlev (snd r - 1))"

definition is_canon_kernel_range :: "nat \<Rightarrow> nat \<times> nat \<Rightarrow> bool" where
  "is_canon_kernel_range nlev r \<longleftrightarrow>
     is_canon_kernel_addr nlev (fst r) \<and> (snd r - fst r = 0 \<or> is_canon_kernel_addr nlev (snd r - 1))"

definition is_canon_user_range :: "nat \<Rightarrow> nat \<times> nat \<Rightarrow> bool" where
  "is_canon_user_range nlev r \<longleftrightarrow>
     is_canon_user_addr nlev (fst r) \<and> (snd r - fst r = 0 \<or> is_canon_user_addr nlev (snd r - 1))"

definition is_canon_page :: "nat \<Rightarrow> nat \<Rightarrow> bool" where
  "is_canon_page nlev a =
     (let x = isize_shr (isize_shl (as_isize a) 12) 12;
          exp = 64 - bits_per_level * nlev;
          canon = isize_shr (isize_shl x exp) exp
      in canon = x)"

definition is_canon_kernel_page :: "nat \<Rightarrow> nat \<Rightarrow> bool" where
  "is_canon_kernel_page nlev a \<longleftrightarrow> is_canon_page nlev a \<and> isize_shl (as_isize a) 12 < 0"

definition is_canon_user_page :: "nat \<Rightarrow> nat \<Rightarrow> bool" where
  "is_canon_user_page nlev a \<longleftrightarrow> is_canon_page nlev a \<and> as_isize a \<ge> 0"

definition is_canon_page_range :: "nat \<Rightarrow> nat \<times> nat \<Rightarrow> bool" where
  "is_canon_page_range nlev r \<longleftrightarrow> is_canon_page nlev (fst r) \<and> (snd r - fst r = 0 \<or> is_canon_page nlev (snd r - 1))"

definition is_canon_kernel_page_range :: "nat \<Rightarrow> nat \<times> nat \<Rightarrow> bool" where
  "is_canon_kernel_page_range nlev r \<longleftrightarrow>
     is_canon_kernel_page nlev (fst r) \<and> (snd r - fst r = 0 \<or> is_canon_kernel_page nlev (snd r - 1))"

definition is_canon_user_page_range :: "nat \<Rightarrow> nat \<times> nat \<Rightarrow> bool" where
  "is_canon_user_page_range nlev r \<longleftrightarrow>
     is_canon_user_page nlev (fst r) \<and> (snd r - fst r = 0 \<or> is_canon_user_page nlev (snd r - 1))"

definition canon_half_pages :: "nat \<Rightarrow> nat" where
  "canon_half_pages nlev = 2 ^ (bits_per_level * nlev - 1)"

definition canon_half_size :: "nat \<Rightarrow> nat" where
  "canon_half_size nlev = page_bytes * 2 ^ (bits_per_level * nlev - 1)"

definition higher_half_vaddr :: "nat \<Rightarrow> nat" where
  "higher_half_vaddr nlev = (2 ^ 64 - canon_half_size nlev) mod 2 ^ 64"

definition higher_half_page :: "nat \<Rightarrow> nat" where
  "higher_half_page nlev = higher_half_vaddr nlev div page_bytes"

section \<open>Packing\<close>

lemma and_push_mask: "(n::nat) AND push_bit k (mask m) = push_bit k (take_bit m (drop_bit k n))"
  by (rule bit_eqI) (auto simp: bit_simps)

lemma and_3FE: "(n::nat) AND 0x3FE = 2 * (n div 2 mod 512)"
proof -
  have "(0x3FE::nat) = push_bit 1 (mask 9)" by (simp add: mask_eq_exp_minus_1 push_bit_eq_mult)
  then have "n AND 0x3FE = push_bit 1 (take_bit 9 (drop_bit 1 n))" by (simp only: and_push_mask)
  then show ?thesis by (simp add: push_bit_eq_mult take_bit_eq_mod drop_bit_eq_div)
qed

lemma and_E: "(n::nat) AND 0xE = 2 * (n div 2 mod 8)"
proof -
  have "(0xE::nat) = push_bit 1 (mask 3)" by (simp add: mask_eq_exp_minus_1 push_bit_eq_mult)
  then have "n AND 0xE = push_bit 1 (take_bit 3 (drop_bit 1 n))" by (simp only: and_push_mask)
  then show ?thesis by (simp add: push_bit_eq_mult take_bit_eq_mod drop_bit_eq_div)
qed

lemma mid_bits:
  fixes c f v :: nat
  assumes "v \<le> 1"
  shows "(c * 1024 + 2 * (f mod 512) + v) div 2 mod 512 = f mod 512" "(c * 1024 + 2 * (f mod 512) + v) div 2 mod 8 = f mod 8"
    "(c * 1024 + 2 * (f mod 512) + v) div 1024 = c" "(c * 1024 + 2 * (f mod 512) + v) mod 2 = v"
proof -
  have r: "2 * (f mod 512) + v < 1024" using assms mod_less_divisor [of 512 f] by linarith
  have e: "c * 1024 + 2 * (f mod 512) + v = v + 2 * (c * 512 + f mod 512)" by simp
  have h: "(c * 1024 + 2 * (f mod 512) + v) div 2 = c * 512 + f mod 512"
    unfolding e using assms by (subst div_mult_self2) auto
  then show "(c * 1024 + 2 * (f mod 512) + v) div 2 mod 512 = f mod 512" by simp
  have "c * 512 + f mod 512 = (c * 64) * 8 + f mod 512" by simp
  then have "(c * 512 + f mod 512) mod 8 = f mod 512 mod 8" by (metis mod_mult_self3)
  also have "\<dots> = f mod 8" by (rule mod_mod_cancel) simp
  finally show "(c * 1024 + 2 * (f mod 512) + v) div 2 mod 8 = f mod 8" using h by simp
  show "(c * 1024 + 2 * (f mod 512) + v) div 1024 = c" using r by (intro div_nat_eqI) simp_all
  show "(c * 1024 + 2 * (f mod 512) + v) mod 2 = v"
    unfolding e mod_mult_self2 using assms by simp
qed

lemma pack_eq:
  assumes "ppn p < 2 ^ 51"
  shows "pack p = ppn p * 1024 + 2 * (flags p div 2 mod 512) + of_bool (valid p)" "pack p < 2 ^ 61"
proof -
  let ?n = "ppn p * 1024 + 2 * (flags p div 2 mod 512) + of_bool (valid p)"
  have v: "of_bool (valid p) \<le> (1::nat)" by simp
  have f: "flags p div 2 mod 512 < 512" by simp
  have c: "(2::nat) ^ 51 = 2251799813685248" "(2::nat) ^ 61 = 2305843009213693952" "(2::nat) ^ 64 = 18446744073709551616"
    by simp_all
  have s: "?n < 2 ^ 61" using assms v f unfolding c by linarith
  then have "?n < 2 ^ 64" "ppn p * 1024 < 2 ^ 64" unfolding c by linarith+
  note mod_less [OF this(1)] mod_less [OF this(2)]
  then show e: "pack p = ?n"
    unfolding pack_def riscv_pack_def Let_def if_False push_bit_eq_mult and_3FE by simp
  show "pack p < 2 ^ 61" unfolding e by (rule s)
qed

lemma unpack_pack:
  assumes "ppn p < 2 ^ 51"
  shows "unpack (pack p) lev =
    \<lparr>ppn = ppn p, flags = flags p AND 0x3FE, level = lev, valid = valid p, leaf = (flags p AND 0xE \<noteq> 0)\<rparr>"
proof -
  have v: "of_bool (valid p) \<le> (1::nat)" by simp
  note e = pack_eq(1) [OF assms] and m = mid_bits [OF v, of "ppn p" "flags p div 2"]
  have "drop_bit 61 (pack p) = 0" using pack_eq(2) [OF assms] by (simp add: drop_bit_eq_div)
  moreover have "drop_bit 10 (pack p) mod 2 ^ 57 = ppn p"
    using m(3) assms unfolding e drop_bit_eq_div by simp
  moreover have "pack p AND 0x3FE = flags p AND 0x3FE" unfolding and_3FE e m(1) ..
  moreover have "pack p AND 0xE = flags p AND 0xE" unfolding and_E e m(2) ..
  moreover have "(pack p AND 1 \<noteq> 0) = valid p" unfolding and_one_eq e m(4) by simp
  ultimately show ?thesis unfolding unpack_def riscv_unpack_def by (simp only: push_bit_of_0 and_zero_eq zero_and_eq add_0_right)
qed

lemma unpack_0: "unpack 0 lev = pte_NULL\<lparr>level := lev\<rparr>"
  by (simp add: unpack_def riscv_unpack_def pte_NULL_def)

section \<open>Canonical addresses\<close>

lemma shl_shr:
  assumes "e \<le> 63"
  shows "isize_shr (isize_shl x e) e = (x + 2 ^ (63 - e)) mod 2 ^ (64 - e) - 2 ^ (63 - e)"
proof -
  have p: "(2::int) ^ 63 = 2 ^ (63 - e) * 2 ^ e" "(2::int) ^ 64 = 2 ^ (64 - e) * 2 ^ e"
    using assms by (simp_all add: power_add [symmetric])
  have "x * 2 ^ e + 2 ^ 63 = (x + 2 ^ (63 - e)) * 2 ^ e" unfolding p(1) by (simp add: distrib_right)
  then have "isize_shl x e = ((x + 2 ^ (63 - e)) * 2 ^ e) mod (2 ^ (64 - e) * 2 ^ e) - 2 ^ (63 - e) * 2 ^ e"
    unfolding isize_shl_def p(2) [symmetric] p(1) [symmetric] by (simp only:)
  also have "\<dots> = ((x + 2 ^ (63 - e)) mod 2 ^ (64 - e) - 2 ^ (63 - e)) * 2 ^ e"
    by (simp add: mult_mod_left left_diff_distrib)
  finally show ?thesis by (simp add: isize_shr_def)
qed

lemma signed_fits:
  "((x::int) + 2 ^ n) mod 2 ^ (Suc n) - 2 ^ n = x \<longleftrightarrow> - (2 ^ n) \<le> x \<and> x < 2 ^ n"
proof
  assume "(x + 2 ^ n) mod 2 ^ (Suc n) - 2 ^ n = x"
  moreover have "0 \<le> (x + 2 ^ n) mod 2 ^ (Suc n)" "(x + 2 ^ n) mod 2 ^ (Suc n) < 2 ^ Suc n"
    by (simp_all only: pos_mod_sign pos_mod_bound zero_less_power zero_less_numeral)
  ultimately show "- (2 ^ n) \<le> x \<and> x < 2 ^ n" unfolding power_Suc by linarith
qed simp

lemma as_isize_half:
  assumes "P \<le> 2 ^ 56" "a < 2 ^ 64"
  shows "- int P \<le> as_isize a \<and> as_isize a < int P \<longleftrightarrow> a < P \<or> 2 ^ 64 - P \<le> a"
  using assms unfolding as_isize_def by auto

lemma is_canon_addr_iff:
  assumes "1 \<le> nlev" "nlev \<le> 5" "a < 2 ^ 64"
  shows "is_canon_addr nlev a \<longleftrightarrow> a < canon_half_size nlev \<or> higher_half_vaddr nlev \<le> a"
proof -
  let ?e = "64 - 12 - bits_per_level * nlev"
  have e: "?e \<le> 63" "63 - ?e = 11 + 9 * nlev" "64 - ?e = Suc (11 + 9 * nlev)"
    using assms(1,2) unfolding bits_per_level_def by linarith+
  have "11 + 9 * nlev = 12 + (9 * nlev - 1)" using assms(1) by linarith
  then have "(2::nat) ^ (11 + 9 * nlev) = 2 ^ 12 * 2 ^ (9 * nlev - 1)" by (simp only: power_add)
  then have c: "canon_half_size nlev = 2 ^ (11 + 9 * nlev)"
    by (simp add: canon_half_size_def page_bytes_def bits_per_level_def)
  have le: "(2::nat) ^ (11 + 9 * nlev) \<le> 2 ^ 56" using assms(2) by (intro power_increasing) auto
  have "is_canon_addr nlev a \<longleftrightarrow> - (2 ^ (11 + 9 * nlev)) \<le> as_isize a \<and> as_isize a < 2 ^ (11 + 9 * nlev)"
    unfolding is_canon_addr_def Let_def shl_shr [OF e(1)] e(2,3) signed_fits ..
  also have "\<dots> \<longleftrightarrow> a < 2 ^ (11 + 9 * nlev) \<or> 2 ^ 64 - 2 ^ (11 + 9 * nlev) \<le> a"
    using as_isize_half [OF le assms(3)] unfolding of_nat_power of_nat_numeral .
  also have "2 ^ 64 - 2 ^ (11 + 9 * nlev) = higher_half_vaddr nlev"
    unfolding higher_half_vaddr_def c by (rule mod_less [symmetric]) simp
  finally show ?thesis unfolding c .
qed

lemma as_isize_sign:
  assumes "a < 2 ^ 64"
  shows "as_isize a < 0 \<longleftrightarrow> 2 ^ 63 \<le> a"
  using assms by (auto simp: as_isize_def)

lemma half_bounds:
  assumes "1 \<le> nlev" "nlev \<le> 5"
  shows "canon_half_size nlev \<le> 2 ^ 56" "2 ^ 63 \<le> higher_half_vaddr nlev" "0 < canon_half_size nlev"
proof -
  have "(2::nat) ^ (9 * nlev - 1) \<le> 2 ^ 44" using assms by (intro power_increasing) auto
  then have "4096 * (2::nat) ^ (9 * nlev - 1) \<le> 4096 * 2 ^ 44" by (intro mult_le_mono2)
  then show c: "canon_half_size nlev \<le> 2 ^ 56" by (simp add: canon_half_size_def page_bytes_def bits_per_level_def)
  show p: "0 < canon_half_size nlev" by (simp add: canon_half_size_def page_bytes_def)
  have "higher_half_vaddr nlev = 2 ^ 64 - canon_half_size nlev"
    unfolding higher_half_vaddr_def by (rule mod_less) (use p in simp)
  then show "2 ^ 63 \<le> higher_half_vaddr nlev" using c by simp
qed

lemma canon_user_iff:
  assumes "1 \<le> nlev" "nlev \<le> 5" "a < 2 ^ 64"
  shows "is_canon_user_addr nlev a \<longleftrightarrow> a < canon_half_size nlev"
  using is_canon_addr_iff [OF assms] as_isize_sign [OF assms(3)] half_bounds [OF assms(1,2)]
  unfolding is_canon_user_addr_def by auto

lemma canon_kernel_iff:
  assumes "1 \<le> nlev" "nlev \<le> 5" "a < 2 ^ 64"
  shows "is_canon_kernel_addr nlev a \<longleftrightarrow> higher_half_vaddr nlev \<le> a"
  using is_canon_addr_iff [OF assms] as_isize_sign [OF assms(3)] half_bounds [OF assms(1,2)]
  unfolding is_canon_kernel_addr_def by auto

lemma satp_fields:
  assumes "r < 2 ^ 44" "asid < 2 ^ 16" "m < 16"
  shows "(r + asid * 2 ^ 44 + m * 2 ^ 60) mod 2 ^ 44 = r" "(r + asid * 2 ^ 44 + m * 2 ^ 60) div 2 ^ 44 mod 2 ^ 16 = asid"
    "(r + asid * 2 ^ 44 + m * 2 ^ 60) div 2 ^ 60 = (m::nat)"
proof -
  have e: "r + asid * 2 ^ 44 + m * 2 ^ 60 = r + (asid + m * 2 ^ 16) * 2 ^ 44" by simp
  show "(r + asid * 2 ^ 44 + m * 2 ^ 60) mod 2 ^ 44 = r" unfolding e mod_mult_self1 by (rule mod_less [OF assms(1)])
  have d: "(r + asid * 2 ^ 44 + m * 2 ^ 60) div 2 ^ 44 = asid + m * 2 ^ 16"
    unfolding e using assms(1) by (subst div_mult_self1) auto
  show "(r + asid * 2 ^ 44 + m * 2 ^ 60) div 2 ^ 44 mod 2 ^ 16 = asid"
    unfolding d mod_mult_self1 by (rule mod_less [OF assms(2)])
  have "r + asid * 2 ^ 44 < 2 ^ 60" using assms(1,2) by simp
  then show "(r + asid * 2 ^ 44 + m * 2 ^ 60) div 2 ^ 60 = m" by (subst div_mult_self1) auto
qed

lemma satp_roundtrip:
  assumes "root mod 4096 = 0" "root < 2 ^ 56" "asid < 2 ^ 16" "3 \<le> nlev" "nlev \<le> 5"
  shows "satp_page_table (riscv_satp nlev root asid) = root" "satp_asid (riscv_satp nlev root asid) = asid"
    "satp_levels (riscv_satp nlev root asid) = nlev"
proof -
  have r: "root div 2 ^ 12 < 2 ^ 44" using assms(2) by (simp add: less_mult_imp_div_less)
  have m: "nlev - 3 + 8 < 16" using assms(4,5) by linarith
  note f = satp_fields [OF r assms(3) m]
  have s: "riscv_satp nlev root asid = root div 2 ^ 12 + asid * 2 ^ 44 + (nlev - 3 + 8) * 2 ^ 60"
    unfolding riscv_satp_def push_bit_eq_mult drop_bit_eq_div ..
  have m44: "n AND 0xFFFFFFFFFFF = n mod 2 ^ 44" for n :: nat
    using and_push_mask [of n 0 44] by (simp add: mask_eq_exp_minus_1 take_bit_eq_mod)
  have m16: "n mod 2 ^ 32 AND 0xFFFF = n mod 2 ^ 16" for n :: nat
    using and_push_mask [of "n mod 2 ^ 32" 0 16] by (simp add: mask_eq_exp_minus_1 take_bit_eq_mod mod_mod_cancel)
  show "satp_page_table (riscv_satp nlev root asid) = root"
    unfolding satp_page_table_def m44 s f(1) push_bit_eq_mult using assms(1) div_mult_mod_eq [of root 4096] by simp
  show "satp_asid (riscv_satp nlev root asid) = asid"
    unfolding satp_asid_def drop_bit_eq_div m16 s f(2) ..
  show "satp_levels (riscv_satp nlev root asid) = nlev"
    unfolding satp_levels_def drop_bit_eq_div s f(3) using assms(4) by simp
qed

lemma low_bit:
  assumes "(n::nat) < 2 * m"
  obtains b k where "n = of_bool b + 2 * k" "k < m"
proof
  show "n = of_bool (odd n) + 2 * (n div 2)" by (auto simp: odd_iff_mod_2_eq_one)
  show "n div 2 < m" using assms by (simp add: less_mult_imp_div_less mult.commute)
qed

section \<open>Properties\<close>

text \<open>
  C38. The packed forms of the RISC-V MMU lose nothing: unpacking a packed page table entry gives back
  its page number, validity and the hardware flags, as a leaf exactly when it is readable, writable
  or executable; and the root, the address space and the number of levels read back from the value
  written to \<open>satp\<close> are those it was made of.
\<close>

theorem riscv_mmu_roundtrip:
  assumes "ppn p < 2 ^ 51" "root mod 4096 = 0" "root < 2 ^ 56" "asid < 2 ^ 16" "3 \<le> nlev" "nlev \<le> 5"
  shows "riscv_unpack (riscv_pack False p) lev =
      \<lparr>ppn = ppn p, flags = flags p AND 0x3FE, level = lev, valid = valid p, leaf = has_flag (flags p) fl_RWX\<rparr> \<and>
    satp_page_table (riscv_satp nlev root asid) = root \<and> satp_asid (riscv_satp nlev root asid) = asid \<and>
    satp_levels (riscv_satp nlev root asid) = nlev"
  using unpack_pack [OF assms(1)] satp_roundtrip [OF assms(2-6)]
  by (simp add: pack_def unpack_def has_flag_def fl_RWX_def fl_defs)

theorem riscv_mmu_roundtrip_witness:
  "riscv_unpack (riscv_pack False \<lparr>ppn = 5, flags = 22, level = 0, valid = True, leaf = True\<rparr>) 0 =
     \<lparr>ppn = 5, flags = 22, level = 0, valid = True, leaf = True\<rparr> \<and> satp_page_table (riscv_satp 3 4096 1) = 4096"
  using riscv_mmu_roundtrip [of "\<lparr>ppn = 5, flags = 22, level = 0, valid = True, leaf = True\<rparr>" 4096 1 3 0]
  by (simp add: has_flag_def fl_RWX_def fl_defs)

text \<open>
  The tests for canonical addresses, written with shifts of signed integers, are the two intervals
  of the address space: an address is canonical when it is below the lower half's size or from the
  start of the higher half on, a user address when it is in the first and a kernel address when it
  is in the second interval; and a user range has only user addresses.
\<close>

theorem canon_addr_halves:
  assumes "1 \<le> nlev" "nlev \<le> 5" "a < 2 ^ 64" "e \<le> 2 ^ 64"
  shows "(is_canon_addr nlev a \<longleftrightarrow> a < canon_half_size nlev \<or> higher_half_vaddr nlev \<le> a) \<and>
    (is_canon_user_addr nlev a \<longleftrightarrow> a < canon_half_size nlev) \<and>
    (is_canon_kernel_addr nlev a \<longleftrightarrow> higher_half_vaddr nlev \<le> a) \<and>
    canon_half_size nlev < higher_half_vaddr nlev \<and>
    (is_canon_user_range nlev (b, e) \<and> b \<le> a \<and> a < e \<longrightarrow> is_canon_user_addr nlev a)"
proof -
  have "is_canon_user_addr nlev a" if "is_canon_user_range nlev (b, e)" "b \<le> a" "a < e"
  proof -
    have "is_canon_user_addr nlev (e - 1)" using that by (auto simp: is_canon_user_range_def)
    then have "e - 1 < canon_half_size nlev" using canon_user_iff [OF assms(1,2), of "e - 1"] assms(4) that(3) by simp
    then show ?thesis using canon_user_iff [OF assms(1-3)] that(3) by simp
  qed
  then show ?thesis
    using is_canon_addr_iff [OF assms(1-3)] canon_user_iff [OF assms(1-3)] canon_kernel_iff [OF assms(1-3)]
      half_bounds [OF assms(1,2)] by auto
qed

theorem canon_addr_halves_witness:
  "is_canon_user_addr 3 4096 \<and> \<not> is_canon_addr 3 (2 ^ 40)"
  using canon_addr_halves [of 3 4096 0 0] canon_addr_halves [of 3 "2 ^ 40" 0 0]
  by (simp add: canon_half_size_def higher_half_vaddr_def page_bytes_def bits_per_level_def)

text \<open>
  Converting protection flags to page table flags and back gives the same protection flags.
\<close>

theorem prot_flags_roundtrip:
  assumes "prot < 32"
  shows "from_mmu_flags (into_mmu_flags prot) = prot"
proof -
  obtain a k where a: "prot = of_bool a + 2 * k" "k < 16" using low_bit [of prot 16] assms by auto
  obtain b l where b: "k = of_bool b + 2 * l" "l < 8" using low_bit [of k 8] a(2) by auto
  obtain c m where c: "l = of_bool c + 2 * m" "m < 4" using low_bit [of l 4] b(2) by auto
  obtain d n where d: "m = of_bool d + 2 * n" "n < 2" using low_bit [of m 2] c(2) by auto
  have e: "n = of_bool (n = 1)" using d(2) by auto
  show ?thesis unfolding a(1) b(1) c(1) d(1)
    by (subst (1 2) e, cases a; cases b; cases c; cases d; cases "n = 1")
      (simp_all add: numeral_2_eq_2 [symmetric] from_mmu_flags_def into_mmu_flags_def if_bit_def has_flag_def fl_defs prot_defs)
qed

theorem prot_flags_roundtrip_witness: "(3::nat) < 32 \<and> into_mmu_flags 3 = 6 \<and> from_mmu_flags 6 = 3"
  using prot_flags_roundtrip [of 3] by (simp add: into_mmu_flags_def if_bit_def has_flag_def fl_defs prot_defs)

section \<open>Entries the code packs wrongly\<close>

text \<open>
  On x86-64 \<open>pte::A\<close> and \<open>pte::D\<close> are the same bit, so a clean page that was accessed reads back as
  dirty; and no leaf entry ever carries \<open>pte::US\<close>, so the user flag is lost.
\<close>

lemma x86_accessed_is_dirty:
  "flags (x86_unpack True True (x86_pack True True \<lparr>ppn = 1, flags = fl_R OR fl_A, level = 0, valid = True, leaf = True\<rparr>) 0) =
     (fl_R OR fl_A OR fl_D)"
  by (simp add: x86_unpack_def x86_pack_def Let_def if_bit_def has_flag_def fl_defs x86_defs push_bit_eq_mult)

lemma x86_user_lost:
  "flags (x86_unpack True True (x86_pack True True \<lparr>ppn = 1, flags = fl_R OR fl_U, level = 0, valid = True, leaf = True\<rparr>) 0) = fl_R"
  by (simp add: x86_unpack_def x86_pack_def Let_def if_bit_def has_flag_def fl_defs x86_defs push_bit_eq_mult)

text \<open>A range from the lower to the higher half has canonical ends and is accepted.\<close>

lemma canon_range_spans_hole: "is_canon_range 3 (0, 2 ^ 64) \<and> \<not> is_canon_addr 3 (2 ^ 40)"
  using is_canon_addr_iff [of 3 0] is_canon_addr_iff [of 3 "2 ^ 64 - 1"] is_canon_addr_iff [of 3 "2 ^ 40"]
  by (simp add: is_canon_range_def canon_half_size_def higher_half_vaddr_def page_bytes_def bits_per_level_def)

end
