(* ===== verification/Mem_Object.thy ===== *)
theory Mem_Object
  imports Page_Table
begin

text \<open>
  Mappable pages and raw memory objects (\<open>src/mem/vmm/memobject.rs\<close>). A \<open>MappablePage\<close> is one word: a
  page-aligned physical address with four flags in its low bits.
\<close>

section \<open>Model\<close>

definition mp_WRITABLE :: nat where "mp_WRITABLE = 1"
definition mp_REFCOUNTED :: nat where "mp_REFCOUNTED = 2"
definition mp_TRACK_DIRTY :: nat where "mp_TRACK_DIRTY = 4"
definition mp_VALID :: nat where "mp_VALID = 8"

lemmas mp_defs = mp_WRITABLE_def mp_REFCOUNTED_def mp_TRACK_DIRTY_def mp_VALID_def

definition mp_word :: "nat \<Rightarrow> bool \<Rightarrow> bool \<Rightarrow> bool \<Rightarrow> nat" where
  "mp_word paddr refcounted writable tracks_dirty =
     paddr + of_bool tracks_dirty * mp_TRACK_DIRTY + of_bool refcounted * mp_REFCOUNTED +
     of_bool writable * mp_WRITABLE + mp_VALID"

text \<open>\<open>None\<close> is the failed assertion on an address that is not aligned.\<close>

definition mp_new :: "nat \<Rightarrow> bool \<Rightarrow> bool \<Rightarrow> bool \<Rightarrow> nat option" where
  "mp_new paddr refcounted writable tracks_dirty =
     (if paddr mod page_bytes \<noteq> 0 then None else Some (mp_word paddr refcounted writable tracks_dirty))"

definition mp_clear_writable :: "nat \<Rightarrow> nat" where
  "mp_clear_writable page = (page AND (2 ^ 64 - 2))"

definition mp_paddr :: "nat \<Rightarrow> nat" where
  "mp_paddr page = (page AND (2 ^ 64 - page_bytes))"

definition mp_writable :: "nat \<Rightarrow> bool" where
  "mp_writable page \<longleftrightarrow> page AND mp_WRITABLE \<noteq> 0"

definition mp_refcounted :: "nat \<Rightarrow> bool" where
  "mp_refcounted page \<longleftrightarrow> page AND mp_REFCOUNTED \<noteq> 0"

definition mp_tracks_dirty :: "nat \<Rightarrow> bool" where
  "mp_tracks_dirty page \<longleftrightarrow> page AND mp_TRACK_DIRTY \<noteq> 0"

record raw_memory =
  rm_paddr :: nat
  rm_len :: nat

definition raw_memory_new :: "nat \<Rightarrow> nat \<Rightarrow> raw_memory" where
  "raw_memory_new paddr len =
     (let (paddr, len) = (if paddr mod page_bytes \<noteq> 0
            then (paddr - paddr mod page_bytes, len + paddr mod page_bytes) else (paddr, len));
          len = (if len mod page_bytes \<noteq> 0 then len + (page_bytes - len mod page_bytes) else len)
      in \<lparr>rm_paddr = paddr, rm_len = len\<rparr>)"

text \<open>
  A page and the bytes from it on that are contiguous; \<open>checked_add\<close> is on 64 bits. Offsets are
  page-aligned, so the assertion of \<open>MappablePage::new\<close> holds.
\<close>

definition raw_memory_get :: "nat \<Rightarrow> raw_memory \<Rightarrow> (nat \<times> nat) option" where
  "raw_memory_get offset m =
     (case checked_add (2 ^ 64 - 1) offset page_bytes of
        None \<Rightarrow> None
      | Some e \<Rightarrow>
          if e > rm_len m then None
          else Some (mp_word (rm_paddr m + offset) False True False, rm_len m - offset))"

datatype mo_error = MoFault

definition raw_memory_alloc :: "nat \<Rightarrow> raw_memory \<Rightarrow> (mo_error, nat \<times> nat) result" where
  "raw_memory_alloc offset m =
     (case checked_add (2 ^ 64 - 1) offset page_bytes of
        None \<Rightarrow> Err MoFault
      | Some e \<Rightarrow>
          if e > rm_len m then Err MoFault
          else Ok (mp_word (rm_paddr m + offset) False True False, rm_len m - offset))"

section \<open>Lemmas\<close>

lemma low_flags:
  assumes "paddr mod page_bytes = 0" "f < 16"
  shows "(paddr + f) mod 16 = f" "(paddr + f) div page_bytes = paddr div page_bytes"
proof -
  obtain k where k: "paddr = 4096 * k" using assms(1) by (auto simp: page_bytes_def)
  have "(256 * k * 16 + f) mod 16 = f mod 16" by (rule mod_mult_self3)
  moreover have "4096 * k = 256 * k * 16" by simp
  ultimately show "(paddr + f) mod 16 = f" using assms(2) unfolding k by (simp only: mod_less)
  show "(paddr + f) div page_bytes = paddr div page_bytes" using assms(2) unfolding k page_bytes_def by simp
qed

lemma and_low: "(n::nat) AND 1 = n mod 16 mod 2" "(n::nat) AND 2 = 2 * (n mod 16 div 2 mod 2)" "(n::nat) AND 4 = 4 * (n mod 16 div 4 mod 2)"
proof -
  have m: "n AND 2 ^ k = 2 ^ k * (n mod 16 div 2 ^ k mod 2)" if "k < 4" for k
  proof -
    have "n AND push_bit k (mask 1) = push_bit k (take_bit 1 (drop_bit k n))" by (rule and_push_mask)
    also have "take_bit 1 (drop_bit k n) = take_bit 1 (drop_bit k (take_bit 4 n))"
      using that by (simp add: drop_bit_take_bit)
    finally show ?thesis by (simp add: push_bit_eq_mult take_bit_eq_mod drop_bit_eq_div mult.commute)
  qed
  show "n AND 1 = n mod 16 mod 2" using m [of 0] by simp
  show "n AND 2 = 2 * (n mod 16 div 2 mod 2)" using m [of 1] by simp
  show "n AND 4 = 4 * (n mod 16 div 4 mod 2)" using m [of 2] by simp
qed

lemma and_page_mask: "n < 2 ^ 64 \<Longrightarrow> n AND (2 ^ 64 - page_bytes) = n div page_bytes * page_bytes"
proof -
  assume n: "n < 2 ^ 64"
  have "(2 ^ 64 - page_bytes :: nat) = push_bit 12 (mask 52)"
    by (simp add: page_bytes_def push_bit_eq_mult mask_eq_exp_minus_1)
  then have "n AND (2 ^ 64 - page_bytes) = push_bit 12 (take_bit 52 (drop_bit 12 n))" by (simp only: and_push_mask)
  moreover have "n div 4096 < 2 ^ 52" using n by (intro less_mult_imp_div_less) simp
  ultimately show ?thesis by (simp add: page_bytes_def push_bit_eq_mult take_bit_eq_mod drop_bit_eq_div)
qed

lemma and_clear_low: "n < 2 ^ 64 \<Longrightarrow> n AND (2 ^ 64 - 2) = n div 2 * (2::nat)"
proof -
  assume n: "n < 2 ^ 64"
  have "(2 ^ 64 - 2 :: nat) = push_bit 1 (mask 63)" by (simp add: push_bit_eq_mult mask_eq_exp_minus_1)
  then have "n AND (2 ^ 64 - 2) = push_bit 1 (take_bit 63 (drop_bit 1 n))" by (simp only: and_push_mask)
  moreover have "n div 2 < 2 ^ 63" using n by (intro less_mult_imp_div_less) simp
  ultimately show ?thesis by (simp add: push_bit_eq_mult take_bit_eq_mod drop_bit_eq_div)
qed

lemma mp_fields:
  assumes "mp_new paddr rc w td = Some page" "paddr < 2 ^ 64"
  shows "mp_paddr page = paddr" "mp_writable page = w" "mp_refcounted page = rc" "mp_tracks_dirty page = td"
proof -
  define f where "f = of_bool td * 4 + of_bool rc * 2 + of_bool w + (8::nat)"
  have al: "paddr mod page_bytes = 0" and page: "page = paddr + f"
    using assms(1) by (auto simp: mp_new_def mp_word_def mp_defs f_def split: if_splits)
  have f: "f < 16" by (cases td; cases rc; cases w) (simp_all add: f_def)
  note l = low_flags [OF al f]
  obtain k where k: "paddr = 4096 * k" using al by (auto simp: page_bytes_def)
  then have "k < 2 ^ 52" using assms(2) by simp
  then have "4096 * (k + 1) \<le> 2 ^ 64" by simp
  then have "page < 2 ^ 64" using f unfolding page k by simp
  then have "mp_paddr page = page div page_bytes * page_bytes" unfolding mp_paddr_def by (rule and_page_mask)
  then show "mp_paddr page = paddr" using f unfolding page l(2) k by (simp add: page_bytes_def)
  show "mp_writable page = w" "mp_refcounted page = rc" "mp_tracks_dirty page = td"
    unfolding mp_writable_def mp_refcounted_def mp_tracks_dirty_def mp_defs and_low page l(1)
    by (cases td; cases rc; cases w; simp add: f_def)+
qed

lemma mp_clear:
  assumes "mp_new paddr rc w td = Some page" "paddr < 2 ^ 64"
  shows "mp_new paddr rc False td = Some (mp_clear_writable page)"
proof -
  define g where "g = of_bool td * 4 + of_bool rc * 2 + (8::nat)"
  have al: "paddr mod page_bytes = 0" and page: "page = paddr + g + of_bool w"
    using assms(1) by (auto simp: mp_new_def mp_word_def mp_defs g_def split: if_splits)
  have "even g" "g < 16" by (simp_all add: g_def)
  obtain k where k: "paddr = 4096 * k" using al by (auto simp: page_bytes_def)
  then have "k < 2 ^ 52" using assms(2) by simp
  then have "4096 * (k + 1) \<le> 2 ^ 64" by simp
  moreover have "g + of_bool w < 4096" using \<open>g < 16\<close> by (cases w) auto
  ultimately have "page < 2 ^ 64" unfolding page k by simp
  moreover have "page div 2 * 2 = paddr + g"
    using \<open>even g\<close> unfolding page k by (cases w) (auto elim!: evenE)
  ultimately have "mp_clear_writable page = paddr + g" unfolding mp_clear_writable_def using and_clear_low by simp
  then show ?thesis using al by (simp add: mp_new_def mp_word_def mp_defs g_def)
qed

section \<open>Properties\<close>

text \<open>
  A mappable page keeps what it was made of: its address and three flags read back, and clearing
  the writable flag changes only that flag. The page a raw memory object returns for an
  aligned offset lies inside the object, at the offset asked for, and what it says is contiguous ends exactly at the object's end.
\<close>

theorem mappable_page_roundtrip:
  assumes "mp_new paddr rc w td = Some page" "paddr < 2 ^ 64" "raw_memory_get offset m = Some (q, n)"
    and "rm_paddr m + offset < 2 ^ 64" "(rm_paddr m + offset) mod page_bytes = 0"
  shows "mp_paddr page = paddr \<and> mp_writable page = w \<and> mp_refcounted page = rc \<and> mp_tracks_dirty page = td \<and>
    mp_new paddr rc False td = Some (mp_clear_writable page) \<and>
    mp_paddr q = rm_paddr m + offset \<and> page_bytes \<le> n \<and> mp_paddr q + n = rm_paddr m + rm_len m"
proof -
  have g: "mp_new (rm_paddr m + offset) False True False = Some q" "n = rm_len m - offset" "offset + page_bytes \<le> rm_len m"
    using assms(3,5) by (auto simp: raw_memory_get_def checked_add_def mp_new_def split: option.splits if_splits)
  show ?thesis using mp_fields [OF assms(1,2)] mp_clear [OF assms(1,2)] mp_fields(1) [OF g(1) assms(4)] g(2,3) by auto
qed

theorem mappable_page_roundtrip_witness:
  "mp_new 8192 True True False = Some 8203 \<and> mp_paddr 8203 = 8192 \<and>
   raw_memory_get 4096 (raw_memory_new 8192 10000) = Some (12297, 8192) \<and> mp_paddr 12297 = 12288"
proof -
  have a: "mp_new 8192 True True False = Some 8203"
    "raw_memory_get 4096 (raw_memory_new 8192 10000) = Some (12297, 8192)" "rm_paddr (raw_memory_new 8192 10000) = 8192"
    by (simp_all add: mp_new_def mp_word_def mp_defs page_bytes_def raw_memory_get_def raw_memory_new_def checked_add_def)
  then show ?thesis using mappable_page_roundtrip [OF a(1) _ a(2)] by (simp add: page_bytes_def)
qed

end
