(* ===== verification/Vm_Entry.thy ===== *)
theory Vm_Entry
  imports Mem_Object
begin

text \<open>
  One entry of an address space (\<open>AnonMap\<close> and \<open>MapEntryInner\<close> of \<open>src/mem/vmm/map.rs\<close>): the overlay of
  anonymous pages, the memory object below it, copy on write, and splitting an entry in two. Whether
  an \<open>Arc\<close> is unique is an argument of the operations that ask; the memory objects' \<open>get\<close> and \<open>alloc\<close>
  are arguments too, as is the page of zeroes.
\<close>

section \<open>Model\<close>

definition SHARED :: nat where "SHARED = 1"
definition PRIVATE :: nat where "PRIVATE = 2"
definition FIXED :: nat where "FIXED = 16"
definition DENYWRITE :: nat where "DENYWRITE = 64"
definition POPULATE :: nat where "POPULATE = 32768"
definition LAZY_KERNEL :: nat where "LAZY_KERNEL = 2 ^ 31"

datatype vm_error = VNoMem | VInval | VNxio | VFault | VObject | VPanic

record mapping =
  m_offset :: nat
  m_object :: nat

record anon_map =
  am_offset :: nat
  am_pages :: "nat option list"

record map_inner =
  prot_flags :: nat
  map_flags :: nat
  amap :: "anon_map option"
  mapping :: "mapping option"

text \<open>
  The resources an operation draws on: the outcomes of the fallible heap calls to come (\<open>try_new\<close>,
  \<open>try_reserve\<close>, \<open>try_with_capacity\<close>; none left is failure), the pages the page allocator hands out, and
  a log of new pages with what they were filled with (a copy of a page, or zeroes). The heap calls that
  panic instead of failing are taken to succeed.
\<close>

record vm_res =
  r_tries :: "bool list"
  r_pages :: "nat list"
  r_fills :: "(nat \<times> nat option) list"

fun attempt :: "nat \<Rightarrow> bool list \<Rightarrow> bool \<times> bool list" where
  "attempt 0 ts = (True, ts)"
| "attempt (Suc n) [] = (False, [])"
| "attempt (Suc n) (t # ts) = (if t then attempt n ts else (False, ts))"

definition try_alloc :: "nat \<Rightarrow> vm_res \<Rightarrow> bool \<times> vm_res" where
  "try_alloc n r = (let (ok, ts) = attempt n (r_tries r) in (ok, r\<lparr>r_tries := ts\<rparr>))"

definition anon_split :: "nat \<Rightarrow> anon_map \<Rightarrow> anon_map option \<times> anon_map option" where
  "anon_split offset a =
     (if offset < am_offset a then (None, Some a)
      else if offset = am_offset a then (Some a, None)
      else
        (let first = []; first_len = length first
         in (Some \<lparr>am_offset = am_offset a, am_pages = first @ take first_len (am_pages a)\<rparr>,
             Some \<lparr>am_offset = offset, am_pages = drop first_len (am_pages a)\<rparr>)))"

definition anon_get_page :: "bool \<Rightarrow> nat \<Rightarrow> anon_map \<Rightarrow> nat option" where
  "anon_get_page unique offset a =
     (if offset < am_offset a then None
      else
        (let page_index = (offset - am_offset a) div page_bytes in
         if page_index \<ge> length (am_pages a) then None
         else (case am_pages a ! page_index of
                 None \<Rightarrow> None | Some paddr \<Rightarrow> Some (mp_word paddr False unique False))))"

text \<open>Making room for a page in the overlay: the first half of \<open>AnonMap::alloc_page\<close>.\<close>

definition anon_extend :: "nat \<Rightarrow> anon_map \<Rightarrow> anon_map" where
  "anon_extend offset a =
     (if length (am_pages a) = 0 then \<lparr>am_offset = offset, am_pages = [None]\<rparr>
      else if offset < am_offset a then
        (let shift = (am_offset a - offset) div page_bytes
         in \<lparr>am_offset = am_offset a - shift * page_bytes, am_pages = replicate shift None @ am_pages a\<rparr>)
      else if offset \<ge> am_offset a + length (am_pages a) * page_bytes then
        (let shift = offset + 1 - am_offset a - length (am_pages a) * page_bytes
         in a\<lparr>am_pages := am_pages a @ replicate shift None\<rparr>)
      else a)"

definition anon_needs_room :: "nat \<Rightarrow> anon_map \<Rightarrow> bool" where
  "anon_needs_room offset a \<longleftrightarrow> length (am_pages a) = 0 \<or> offset < am_offset a \<or>
     offset \<ge> am_offset a + length (am_pages a) * page_bytes"

definition anon_alloc_page :: "nat \<Rightarrow> nat option \<Rightarrow> anon_map \<Rightarrow> vm_res \<Rightarrow> (vm_error, nat) result \<times> anon_map \<times> vm_res" where
  "anon_alloc_page offset orig a r =
     (case try_alloc (of_bool (anon_needs_room offset a)) r of
        (False, r1) \<Rightarrow> (Err VNoMem, if length (am_pages a) = 0 then a\<lparr>am_offset := offset\<rparr> else a, r1)
      | (True, r1) \<Rightarrow>
          (let a1 = anon_extend offset a in
           case r_pages r1 of
             [] \<Rightarrow> (Err VNoMem, a1, r1)
           | p # ps \<Rightarrow>
               (case try_alloc 1 r1 of
                  (False, r2) \<Rightarrow> (Err VNoMem, a1, r2)
                | (True, r2) \<Rightarrow>
                    (Ok (mp_word p False True False),
                     a1\<lparr>am_pages := (am_pages a1)[(offset - am_offset a1) div page_bytes := Some p]\<rparr>,
                     r2\<lparr>r_pages := ps, r_fills := r_fills r2 @ [(p, orig)]\<rparr>))))"

text \<open>The fallible heap calls a split of an entry makes, the box of the new entry included.\<close>

definition split_cost :: "nat \<Rightarrow> map_inner \<Rightarrow> nat" where
  "split_cost offset m =
     (case amap m of
        None \<Rightarrow> 1
      | Some a \<Rightarrow> if offset \<le> am_offset a then 2 else 5)"

definition inner_split :: "nat \<Rightarrow> map_inner \<Rightarrow> map_inner \<times> map_inner" where
  "inner_split offset m =
     (let (a0, a1) = (case amap m of None \<Rightarrow> (None, None) | Some a \<Rightarrow> anon_split offset a)
      in (m\<lparr>amap := a0\<rparr>, m\<lparr>amap := a1\<rparr>))"

text \<open>\<open>u\<close> says whether the \<open>Arc\<close> of the overlay is unique and \<open>up\<close> whether that of the page is.\<close>

definition inner_get_page :: "(nat \<Rightarrow> nat \<Rightarrow> (nat \<times> nat) option) \<Rightarrow> nat \<Rightarrow> bool \<Rightarrow> bool \<Rightarrow> nat \<Rightarrow> map_inner \<Rightarrow> (nat \<times> nat) option" where
  "inner_get_page obj_get zeroes u up offset m =
     (case (case amap m of None \<Rightarrow> None | Some a \<Rightarrow> anon_get_page up offset a) of
        Some page \<Rightarrow> Some (if \<not> u then mp_clear_writable page else page, page_bytes)
      | None \<Rightarrow>
          (case mapping m of
             Some mp \<Rightarrow>
               (case obj_get (m_object mp) (offset + m_offset mp) of
                  None \<Rightarrow> None
                | Some (page, n) \<Rightarrow>
                    Some (if \<not> has_flag (map_flags m) SHARED then mp_clear_writable page else page, n))
           | None \<Rightarrow> Some (mp_word zeroes False False False, page_bytes)))"

text \<open>Making sure of an overlay that may be changed, the last part of \<open>MapEntryInner::alloc_page\<close>.\<close>

definition own_amap :: "bool \<Rightarrow> map_inner \<Rightarrow> vm_res \<Rightarrow> (vm_error, anon_map) result \<times> vm_res" where
  "own_amap u m r =
     (case amap m of
        Some a \<Rightarrow>
          if u then (Ok a, r)
          else (case try_alloc 1 r of (False, r1) \<Rightarrow> (Err VNoMem, r1) | (True, r1) \<Rightarrow> (Ok a, r1))
      | None \<Rightarrow>
          (case try_alloc 1 r of
             (False, r1) \<Rightarrow> (Err VNoMem, r1)
           | (True, r1) \<Rightarrow> (Ok \<lparr>am_offset = 0, am_pages = []\<rparr>, r1)))"

definition copy_page :: "bool \<Rightarrow> nat \<Rightarrow> nat option \<Rightarrow> map_inner \<Rightarrow> vm_res \<Rightarrow> (vm_error, nat \<times> nat) result \<times> map_inner \<times> vm_res" where
  "copy_page u offset orig m r =
     (case own_amap u m r of
        (Inl e, r') \<Rightarrow> (Err e, m, r')
      | (Inr a, r') \<Rightarrow>
          (case anon_alloc_page offset orig a r' of
             (Inl e, a', r'') \<Rightarrow> (Err e, m\<lparr>amap := Some a'\<rparr>, r'')
           | (Inr page, a', r'') \<Rightarrow> (Ok (page, page_bytes), m\<lparr>amap := Some a'\<rparr>, r'')))"

definition inner_alloc_page :: "(nat \<Rightarrow> nat \<Rightarrow> (vm_error, nat \<times> nat) result) \<Rightarrow> nat \<Rightarrow> bool \<Rightarrow> bool \<Rightarrow> nat \<Rightarrow> bool \<Rightarrow>
    map_inner \<Rightarrow> vm_res \<Rightarrow> (vm_error, nat \<times> nat) result \<times> map_inner \<times> vm_res" where
  "inner_alloc_page obj_alloc zeroes u up offset for_writing m r =
     (case (case amap m of None \<Rightarrow> None | Some a \<Rightarrow> anon_get_page up offset a) of
        Some page0 \<Rightarrow>
          (let page = (if \<not> u then mp_clear_writable page0 else page0) in
           if \<not> for_writing \<or> mp_writable page then (Ok (page, page_bytes), m, r)
           else copy_page u offset (Some (mp_paddr page)) m r)
      | None \<Rightarrow>
          (case (case mapping m of
                   Some mp \<Rightarrow> obj_alloc (m_object mp) (offset + m_offset mp)
                 | None \<Rightarrow> Ok (mp_word zeroes False False False, page_bytes)) of
             Inl e \<Rightarrow> (Err e, m, r)
           | Inr (page, n) \<Rightarrow>
               if \<not> for_writing \<or> has_flag (map_flags m) SHARED \<and> mapping m \<noteq> None
               then (Ok (if \<not> has_flag (map_flags m) SHARED then mp_clear_writable page else page, n), m, r)
               else copy_page u offset (if mapping m \<noteq> None then Some (mp_paddr page) else None) m r))"

section \<open>The overlay\<close>

text \<open>The page of the overlay at an offset: what the vector of pages and its offset stand for.\<close>

definition am_lookup :: "anon_map \<Rightarrow> nat \<Rightarrow> nat option" where
  "am_lookup a offset =
     (if offset < am_offset a \<or> (offset - am_offset a) div page_bytes \<ge> length (am_pages a) then None
      else am_pages a ! ((offset - am_offset a) div page_bytes))"

definition am_ok :: "anon_map \<Rightarrow> bool" where
  "am_ok a \<longleftrightarrow> am_offset a mod page_bytes = 0"

lemma anon_get_page_lookup:
  "anon_get_page up offset a = map_option (\<lambda>p. mp_word p False up False) (am_lookup a offset)"
  by (auto simp: anon_get_page_def am_lookup_def Let_def split: option.splits)

lemma page_bytes_pos [simp]: "page_bytes > 0" by (simp add: page_bytes_def)

lemma page_multiple: "n mod page_bytes = 0 \<Longrightarrow> \<exists>k. n = k * page_bytes"
  by (rule exI [of _ "n div page_bytes"]) (metis add.right_neutral div_mult_mod_eq)

lemma am_lookup_mult:
  "am_lookup \<lparr>am_offset = k * page_bytes, am_pages = ps\<rparr> (j * page_bytes) =
     (if j < k \<or> j - k \<ge> length ps then None else ps ! (j - k))"
  by (simp add: am_lookup_def diff_mult_distrib [symmetric])

lemma anon_extend_ok:
  assumes "am_ok a" "offset mod page_bytes = 0" "anon_extend offset a = a'"
  shows "am_ok a'" "am_offset a' \<le> offset" "(offset - am_offset a') div page_bytes < length (am_pages a')"
    "\<And>j. am_lookup a' (j * page_bytes) = am_lookup a (j * page_bytes)"
proof -
  obtain k where "am_offset a = k * page_bytes" using page_multiple [OF assms(1) [unfolded am_ok_def]] by blast
  then obtain ps where a: "a = \<lparr>am_offset = k * page_bytes, am_pages = ps\<rparr>" by (cases a) auto
  obtain i where i: "offset = i * page_bytes" using page_multiple [OF assms(2)] by blast
  have d: "(k * page_bytes - i * page_bytes) div page_bytes = k - i" by (simp add: diff_mult_distrib [symmetric])
  have up: "k * page_bytes + length ps * page_bytes \<le> i * page_bytes \<longleftrightarrow> k + length ps \<le> i"
    by (simp add: add_mult_distrib [symmetric])
  have down: "k * page_bytes - (k - i) * page_bytes = i * page_bytes" if "i < k"
    using that by (simp add: diff_mult_distrib [symmetric])
  have sh: "i * page_bytes + 1 - k * page_bytes - length ps * page_bytes = (i - k - length ps) * page_bytes + 1"
    if "k + length ps \<le> i"
  proof -
    have "(k + length ps) * page_bytes \<le> i * page_bytes" using that by simp
    then show ?thesis by (simp add: diff_mult_distrib add_mult_distrib)
  qed
  have e: "a' = (if ps = [] then \<lparr>am_offset = i * page_bytes, am_pages = [None]\<rparr>
      else if i < k then \<lparr>am_offset = i * page_bytes, am_pages = replicate (k - i) None @ ps\<rparr>
      else if i \<ge> k + length ps
        then \<lparr>am_offset = k * page_bytes, am_pages = ps @ replicate ((i - k - length ps) * page_bytes + 1) None\<rparr>
      else a)"
    using assms(3) down sh unfolding a i anon_extend_def Let_def
    by (simp add: d up cong: if_cong)
  have len: "i - k < length ps + Suc ((i - k - length ps) * page_bytes)"
  proof -
    have "i - k - length ps \<le> (i - k - length ps) * page_bytes" by (simp add: page_bytes_def)
    then show ?thesis by linarith
  qed
  have nth_rep: "(None # replicate n None) ! x = None" if "x < Suc n" for n x and v :: "nat option"
    using that nth_replicate [of x "Suc n"] by (metis replicate_Suc)
  show "am_ok a'" "am_offset a' \<le> offset" unfolding e a i am_ok_def by auto
  show "(offset - am_offset a') div page_bytes < length (am_pages a')"
    using len unfolding e a i by (auto simp: diff_mult_distrib [symmetric])
  show "am_lookup a' (j * page_bytes) = am_lookup a (j * page_bytes)" for j
    unfolding e a by (auto simp: am_lookup_mult nth_append nth_rep)
qed

lemma try_alloc_fields:
  assumes "try_alloc n r = (ok, r')"
  shows "r_pages r' = r_pages r \<and> r_fills r' = r_fills r"
  using assms by (auto simp: try_alloc_def Let_def split: prod.splits)

text \<open>\<open>overlaid\<close>: two overlays hold the same pages at every page.\<close>

definition overlaid :: "anon_map option \<Rightarrow> nat \<Rightarrow> nat option" where
  "overlaid a i = (case a of None \<Rightarrow> None | Some a \<Rightarrow> am_lookup a (i * page_bytes))"

lemma anon_alloc_page_ok:
  assumes "am_ok a" "anon_alloc_page (i * page_bytes) orig a r = (res, a', r')"
  shows "am_ok a'"
    "\<And>e. res = Inl e \<Longrightarrow> overlaid (Some a') = overlaid (Some a) \<and> r_pages r' = r_pages r \<and> r_fills r' = r_fills r"
    "\<And>page. res = Inr page \<Longrightarrow> \<exists>p ps. r_pages r = p # ps \<and> r_pages r' = ps \<and> r_fills r' = r_fills r @ [(p, orig)] \<and>
       page = mp_word p False True False \<and> overlaid (Some a') = (overlaid (Some a))(i := Some p)"
proof -
  let ?o = "i * page_bytes"
  define a1 where "a1 = anon_extend ?o a"
  have al: "?o mod page_bytes = 0" by simp
  note ext = anon_extend_ok [OF assms(1) al a1_def [symmetric]]
  have same: "overlaid (Some a1) = overlaid (Some a)" by (simp add: fun_eq_iff overlaid_def ext(4))
  have upd: "overlaid (Some (a1\<lparr>am_pages := (am_pages a1)[(?o - am_offset a1) div page_bytes := Some p]\<rparr>)) =
      (overlaid (Some a))(i := Some p)" for p
  proof
    fix j
    obtain k where k: "am_offset a1 = k * page_bytes" using page_multiple [OF ext(1) [unfolded am_ok_def]] by blast
    then obtain ps where a1: "a1 = \<lparr>am_offset = k * page_bytes, am_pages = ps\<rparr>" by (cases a1) auto
    have ik: "k \<le> i" "i - k < length ps" using ext(2,3) unfolding a1 by (simp_all add: diff_mult_distrib [symmetric])
    have "overlaid (Some a1) j = overlaid (Some a) j" using same by simp
    then show "overlaid (Some (a1\<lparr>am_pages := (am_pages a1)[(?o - am_offset a1) div page_bytes := Some p]\<rparr>)) j =
        ((overlaid (Some a))(i := Some p)) j"
      using ik unfolding overlaid_def a1
      by (auto simp: am_lookup_mult diff_mult_distrib [symmetric] nth_list_update)
  qed
  have empty: "overlaid (Some (a\<lparr>am_offset := ?o\<rparr>)) = overlaid (Some a)" "am_ok (a\<lparr>am_offset := ?o\<rparr>)" if "am_pages a = []"
    using that by (auto simp: overlaid_def am_lookup_def am_ok_def)
  note d = assms(2) [unfolded anon_alloc_page_def, folded a1_def, unfolded Let_def]
  note cs = prod.splits bool.splits list.splits if_splits
  show "am_ok a'" using d assms(1) ext(1) empty(2) by (auto simp: am_ok_def split: cs)
  show "overlaid (Some a') = overlaid (Some a) \<and> r_pages r' = r_pages r \<and> r_fills r' = r_fills r" if "res = Inl e" for e
    using d that same empty(1) by (auto dest!: try_alloc_fields split: cs)
  show "\<exists>p ps. r_pages r = p # ps \<and> r_pages r' = ps \<and> r_fills r' = r_fills r @ [(p, orig)] \<and>
       page = mp_word p False True False \<and> overlaid (Some a') = (overlaid (Some a))(i := Some p)" if "res = Inr page" for page
    using d that by (auto simp: upd dest!: try_alloc_fields split: cs)
qed

section \<open>Copy on write\<close>

text \<open>A page the page allocator can hand out.\<close>

definition page_ok :: "nat \<Rightarrow> bool" where
  "page_ok p \<longleftrightarrow> p mod page_bytes = 0 \<and> p < 2 ^ 64"

definition inner_ok :: "map_inner \<Rightarrow> bool" where
  "inner_ok m \<longleftrightarrow> (case amap m of None \<Rightarrow> True | Some a \<Rightarrow> am_ok a)"

lemma mp_word_fields [simp]:
  assumes "page_ok p"
  shows "mp_paddr (mp_word p rc w td) = p" "mp_writable (mp_word p rc w td) = w"
    "mp_clear_writable (mp_word p rc w td) = mp_word p rc False td"
proof -
  have n: "mp_new p rc w td = Some (mp_word p rc w td)" using assms by (simp add: mp_new_def page_ok_def)
  have lt: "p < 2 ^ 64" using assms by (simp add: page_ok_def)
  show "mp_paddr (mp_word p rc w td) = p" "mp_writable (mp_word p rc w td) = w" using mp_fields [OF n lt] by auto
  show "mp_clear_writable (mp_word p rc w td) = mp_word p rc False td"
    using mp_clear [OF n lt] assms by (simp add: mp_new_def page_ok_def)
qed

text \<open>A page was copied into the overlay at page \<open>i\<close>: the first page of the allocator, filled from \<open>orig\<close>.\<close>

definition copied :: "nat \<Rightarrow> nat option \<Rightarrow> map_inner \<Rightarrow> vm_res \<Rightarrow> nat \<times> nat \<Rightarrow> map_inner \<Rightarrow> vm_res \<Rightarrow> bool" where
  "copied i orig m r pg m' r' \<longleftrightarrow> inner_ok m' \<and> m' = m\<lparr>amap := amap m'\<rparr> \<and>
     (\<exists>p ps. r_pages r = p # ps \<and> r_pages r' = ps \<and> r_fills r' = r_fills r @ [(p, orig)] \<and>
       pg = (mp_word p False True False, page_bytes) \<and> overlaid (amap m') = (overlaid (amap m))(i := Some p))"

text \<open>No page was touched: the overlay stands for what it did and no page was taken.\<close>

definition untouched :: "map_inner \<Rightarrow> vm_res \<Rightarrow> map_inner \<Rightarrow> vm_res \<Rightarrow> bool" where
  "untouched m r m' r' \<longleftrightarrow> inner_ok m' \<and> m' = m\<lparr>amap := amap m'\<rparr> \<and> overlaid (amap m') = overlaid (amap m) \<and>
     r_pages r' = r_pages r \<and> r_fills r' = r_fills r"

lemma own_amap_ok:
  assumes "inner_ok m" "own_amap u m r = (res, r')"
  shows "r_pages r' = r_pages r \<and> r_fills r' = r_fills r"
    "\<And>a. res = Inr a \<Longrightarrow> am_ok a \<and> overlaid (Some a) = overlaid (amap m)"
  using assms
  by (auto simp: own_amap_def inner_ok_def am_ok_def overlaid_def am_lookup_def fun_eq_iff
      dest!: try_alloc_fields split: option.splits prod.splits bool.splits if_splits)

lemma copy_page_ok:
  assumes "inner_ok m" "copy_page u (i * page_bytes) orig m r = (res, m', r')"
  shows "case res of Inl e \<Rightarrow> untouched m r m' r' | Inr pg \<Rightarrow> copied i orig m r pg m' r'"
proof -
  obtain ra r1 where o: "own_amap u m r = (ra, r1)" by fastforce
  note ok = own_amap_ok [OF assms(1) o]
  show ?thesis
  proof (cases ra)
    case (Inl e)
    then show ?thesis using assms o ok(1) by (auto simp: copy_page_def untouched_def)
  next
    case (Inr a)
    then have a: "am_ok a" "overlaid (Some a) = overlaid (amap m)" using ok(2) by auto
    obtain rb a2 r2 where b: "anon_alloc_page (i * page_bytes) orig a r1 = (rb, a2, r2)" by (metis prod_cases3)
    note ab = anon_alloc_page_ok [OF a(1) b]
    have res: "m' = m\<lparr>amap := Some a2\<rparr>" "r' = r2" "res = (case rb of Inl e \<Rightarrow> Err e | Inr page \<Rightarrow> Ok (page, page_bytes))"
      using assms(2) o Inr b by (auto simp: copy_page_def split: sum.splits)
    show ?thesis
    proof (cases rb)
      case (Inl e)
      then show ?thesis using ab(1,2) ok(1) a(2) res by (simp add: untouched_def inner_ok_def)
    next
      case (Inr page)
      then show ?thesis using ab(1) ab(3) [OF Inr] ok(1) a(2) res by (auto simp: copied_def inner_ok_def)
    qed
  qed
qed

lemma overlay_page:
  "(case amap m of None \<Rightarrow> None | Some a \<Rightarrow> anon_get_page up (i * page_bytes) a) =
     map_option (\<lambda>p. mp_word p False up False) (overlaid (amap m) i)"
  by (simp add: overlaid_def anon_get_page_lookup split: option.splits)

text \<open>What a private page is copied from: its page of the overlay, or that of the memory object.\<close>

definition cow_source :: "(nat \<Rightarrow> nat \<Rightarrow> (vm_error, nat \<times> nat) result) \<Rightarrow> map_inner \<Rightarrow> nat \<Rightarrow> nat option" where
  "cow_source obj_alloc m i =
     (case overlaid (amap m) i of
        Some p \<Rightarrow> Some p
      | None \<Rightarrow>
          (case mapping m of
             None \<Rightarrow> None
           | Some mp \<Rightarrow>
               (case obj_alloc (m_object mp) (i * page_bytes + m_offset mp) of
                  Inl e \<Rightarrow> None | Inr (page, n) \<Rightarrow> Some (mp_paddr page))))"

lemma inner_alloc_page_overlay:
  assumes "overlaid (amap m) i = Some p" "page_ok p"
  shows "inner_alloc_page obj_alloc zeroes u up (i * page_bytes) w m r =
     (if \<not> w \<or> u \<and> up then (Ok (mp_word p False (u \<and> up) False, page_bytes), m, r)
      else copy_page u (i * page_bytes) (Some p) m r)"
  using assms by (cases u; cases up; simp add: inner_alloc_page_def overlay_page Let_def)

lemma inner_alloc_page_private:
  assumes "overlaid (amap m) i = None" "\<not> has_flag (map_flags m) SHARED"
  shows "(\<exists>e. inner_alloc_page obj_alloc zeroes u up (i * page_bytes) True m r = (Err e, m, r)) \<or>
     inner_alloc_page obj_alloc zeroes u up (i * page_bytes) True m r =
       copy_page u (i * page_bytes) (cow_source obj_alloc m i) m r"
  using assms
  by (auto simp: inner_alloc_page_def overlay_page cow_source_def split: option.splits sum.splits prod.splits)

section \<open>Properties\<close>

text \<open>
  C16. A write to a page of a private mapping never reaches memory anyone else sees. When the overlay
  and its page are this mapping's alone, the page itself is given out and nothing changes. Otherwise
  the page given out is a new one, taken from the page allocator, filled with a copy of the overlay's
  or the memory object's page (zeroes for an anonymous mapping) and entered in the overlay, all of
  whose other pages stay; it is writable. On an error no page is taken and the overlay is what it was.
\<close>

theorem private_write_copies:
  assumes "inner_ok m" "\<not> has_flag (map_flags m) SHARED" "list_all page_ok (r_pages r)"
    and "\<And>p. overlaid (amap m) i = Some p \<Longrightarrow> page_ok p"
    and "inner_alloc_page obj_alloc zeroes u up (i * page_bytes) True m r = (res, m', r')"
  shows "case res of
      Inl e \<Rightarrow> untouched m r m' r'
    | Inr (page, n) \<Rightarrow> mp_writable page \<and> n = page_bytes \<and> overlaid (amap m') i = Some (mp_paddr page) \<and>
        (if u \<and> up \<and> overlaid (amap m) i \<noteq> None then m' = m \<and> r' = r
         else copied i (cow_source obj_alloc m i) m r (page, n) m' r')"
proof -
  have cp: ?thesis if c: "copy_page u (i * page_bytes) (cow_source obj_alloc m i) m r = (res, m', r')"
      and n: "\<not> (u \<and> up \<and> overlaid (amap m) i \<noteq> None)"
    using copy_page_ok [OF assms(1) c] n assms(3) by (auto simp: copied_def split: sum.splits)
  show ?thesis
  proof (cases "overlaid (amap m) i")
    case None
    consider e where "(res, m', r') = (Err e, m, r)"
      | "copy_page u (i * page_bytes) (cow_source obj_alloc m i) m r = (res, m', r')"
      using inner_alloc_page_private [OF None assms(2), of obj_alloc zeroes u up r] assms(5) by auto
    then show ?thesis
      by cases (simp add: untouched_def assms(1), rule cp, simp_all add: None)
  next
    case (Some p)
    note ov = inner_alloc_page_overlay [OF Some assms(4) [OF Some], of obj_alloc zeroes u up True r]
    show ?thesis
    proof (cases "u \<and> up")
      case True
      then show ?thesis using ov assms(5) Some assms(4) [OF Some] by auto
    next
      case False
      then have "copy_page u (i * page_bytes) (cow_source obj_alloc m i) m r = (res, m', r')"
        using ov assms(5) Some by (auto simp: cow_source_def)
      then show ?thesis by (rule cp) (use False in blast)
    qed
  qed
qed

definition cow_demo :: map_inner where
  "cow_demo = \<lparr>prot_flags = 3, map_flags = 2, amap = None, mapping = Some \<lparr>m_offset = 8192, m_object = 0\<rparr>\<rparr>"

theorem private_write_copies_witness:
  "\<exists>m' r'. inner_alloc_page (\<lambda>ob off. Ok (mp_word (65536 + off) False True False, 4096)) 4096 False False (3 * page_bytes) True
      cow_demo \<lparr>r_tries = [True, True, True], r_pages = [32768], r_fills = []\<rparr> = (Ok (mp_word 32768 False True False, 4096), m', r') \<and>
    overlaid (amap m') 3 = Some 32768 \<and> r_fills r' = [(32768, Some 86016)]"
proof -
  let ?f = "\<lambda>ob off. Ok (mp_word (65536 + off) False True False, 4096)"
  let ?r = "\<lparr>r_tries = [True, True, True], r_pages = [32768], r_fills = []\<rparr>"
  obtain m' r' where e: "inner_alloc_page ?f 4096 False False (3 * page_bytes) True cow_demo ?r =
      (Ok (mp_word 32768 False True False, 4096), m', r')"
    by (simp add: inner_alloc_page_def cow_demo_def copy_page_def own_amap_def try_alloc_def anon_alloc_page_def
        anon_needs_room_def anon_extend_def has_flag_def SHARED_def page_bytes_def)
  have p: "page_ok 32768" "page_ok 86016" by (simp_all add: page_ok_def page_bytes_def)
  have a: "inner_ok cow_demo" "\<not> has_flag (map_flags cow_demo) SHARED" "overlaid (amap cow_demo) 3 = None"
    by (simp_all add: inner_ok_def cow_demo_def overlaid_def has_flag_def SHARED_def)
  have s: "cow_source ?f cow_demo 3 = Some 86016"
    using p(2) by (simp add: cow_source_def a(3)) (simp add: cow_demo_def page_bytes_def)
  show ?thesis
    using private_write_copies [OF a(1,2) _ _ e] a(3) p s e by (auto simp: copied_def)
qed

text \<open>
  Splitting an overlay above its first page moves all its pages to the second half: the vector of the
  first half is empty when its length is taken, so the pages before the split are lost to it and
  appear at the wrong offsets of the second half.
\<close>

lemma anon_split_misplaces:
  "anon_split 4096 \<lparr>am_offset = 0, am_pages = [Some 8192, Some 12288]\<rparr> =
     (Some \<lparr>am_offset = 0, am_pages = []\<rparr>, Some \<lparr>am_offset = 4096, am_pages = [Some 8192, Some 12288]\<rparr>)"
  by (simp add: anon_split_def)

text \<open>The second half of a split entry keeps the object's offset, so it shows the object's start again.\<close>

lemma inner_split_keeps_offset:
  "mapping (snd (inner_split offset m)) = mapping m"
  by (simp add: inner_split_def split: prod.splits option.splits)

text \<open>Growing the overlay upwards counts bytes as pages.\<close>

lemma anon_extend_overgrows:
  "length (am_pages (anon_extend 8192 \<lparr>am_offset = 0, am_pages = [None]\<rparr>)) = 4098"
  by (simp add: anon_extend_def page_bytes_def)


end
