(* ===== verification/Phys_Map.thy ===== *)
theory Phys_Map
  imports Page_Table
begin

text \<open>
  The page tables (\<open>PhysMap\<close> of \<open>src/mem/vmm/physmap.rs\<close>): mapping, unmapping and protecting pages,
  walking the tables, and dropping them. Tables are rows of packed entries named by the physical
  address of their page; the pages the page allocator hands out for tables are a list, and running
  out of them is \<open>PtNoMem\<close>. Each operation runs alone, so the compare-and-exchange of a table entry
  succeeds at its first attempt.
\<close>

section \<open>Model\<close>

datatype pt_error = PtNoMem | PtPanic

text \<open>
  \<open>pt_freed\<close> are the table pages given back, \<open>pt_unref\<close> the mapped pages whose reference count was
  decremented and \<open>pt_dirtied\<close> those whose memory object, if any, is told they are dirty.
\<close>

record pt_state =
  pt_mem :: "nat \<Rightarrow> nat \<Rightarrow> nat"
  pt_avail :: "nat list"
  pt_freed :: "nat list"
  pt_unref :: "nat list"
  pt_dirtied :: "nat list"

definition read_pte :: "nat \<Rightarrow> nat \<Rightarrow> pt_state \<Rightarrow> nat" where
  "read_pte pagetable index s = pt_mem s pagetable index"

definition write_pte :: "nat \<Rightarrow> nat \<Rightarrow> nat \<Rightarrow> pt_state \<Rightarrow> pt_state" where
  "write_pte pagetable index raw s =
     s\<lparr>pt_mem := (pt_mem s)(pagetable := (pt_mem s pagetable)(index := raw))\<rparr>"

text \<open>The loops that fill a new table write each of its entries once.\<close>

definition fill_table :: "nat \<Rightarrow> (nat \<Rightarrow> nat) \<Rightarrow> pt_state \<Rightarrow> pt_state" where
  "fill_table pagetable f s = fold (\<lambda>i. write_pte pagetable i (f i)) [0..<pte_per_page] s"

definition alloc_page :: "pt_state \<Rightarrow> nat option \<times> pt_state" where
  "alloc_page s = (case pt_avail s of [] \<Rightarrow> (None, s) | p # ps \<Rightarrow> (Some p, s\<lparr>pt_avail := ps\<rparr>))"

definition alloc_pgtable_page :: "pt_state \<Rightarrow> nat option \<times> pt_state" where
  "alloc_pgtable_page s =
     (case alloc_page s of
        (None, s') \<Rightarrow> (None, s')
      | (Some p, s') \<Rightarrow> (Some p, fill_table p (\<lambda>i. 0) s'))"

definition split_pgtable_leaf :: "pte \<Rightarrow> nat \<Rightarrow> pt_state \<Rightarrow> nat option \<times> pt_state" where
  "split_pgtable_leaf orig new_level s =
     (case alloc_page s of
        (None, s') \<Rightarrow> (None, s')
      | (Some p, s') \<Rightarrow>
          (Some p, fill_table p
             (\<lambda>i. pack (orig\<lparr>ppn := ppn orig + push_bit (new_level * bits_per_level) i, level := new_level\<rparr>)) s'))"

definition table_pte :: "nat \<Rightarrow> nat \<Rightarrow> nat \<Rightarrow> nat" where
  "table_pte paddr global_flag lev =
     pack \<lparr>ppn = paddr div page_bytes, flags = global_flag, level = lev, valid = True, leaf = False\<rparr>"

definition cleanup_pte :: "pte \<Rightarrow> pt_state \<Rightarrow> pt_state" where
  "cleanup_pte old s =
     (if \<not> valid old \<or> \<not> has_flag (flags old) fl_REFCOUNT then s
      else
        (let paddr = ppn old * page_bytes; s' = s\<lparr>pt_unref := pt_unref s @ [paddr]\<rparr>
         in if has_flag (flags old) fl_D then s'\<lparr>pt_dirtied := pt_dirtied s' @ [paddr]\<rparr> else s'))"

text \<open>The loop of \<open>map_raw_impl\<close> over the levels above the target; \<open>None\<close> is its early return.\<close>

fun descend :: "nat \<Rightarrow> bool \<Rightarrow> nat \<Rightarrow> nat list \<Rightarrow> nat \<Rightarrow> pt_state \<Rightarrow> (pt_error, nat option) result \<times> pt_state" where
  "descend vaddr null_pte global_flag [] pagetable s = (Ok (Some pagetable), s)"
| "descend vaddr null_pte global_flag (lev # levs) pagetable s =
     (let index = get_vpn_index vaddr lev; pte = unpack (read_pte pagetable index s) lev in
      if \<not> valid pte then
        (if null_pte then (Ok None, s)
         else
           (case alloc_pgtable_page s of
              (None, s') \<Rightarrow> (Err PtNoMem, s')
            | (Some paddr, s') \<Rightarrow>
                descend vaddr null_pte global_flag levs paddr
                  (write_pte pagetable index (table_pte paddr global_flag lev) s')))
      else if leaf pte then
        (case split_pgtable_leaf pte (lev - 1) s of
           (None, s') \<Rightarrow> (Err PtNoMem, s')
         | (Some paddr, s') \<Rightarrow>
             descend vaddr null_pte global_flag levs paddr
               (write_pte pagetable index (table_pte paddr global_flag lev) s'))
      else descend vaddr null_pte global_flag levs (ppn pte * page_bytes) s)"

definition map_raw_impl :: "nat \<Rightarrow> nat \<Rightarrow> nat \<Rightarrow> pte option \<Rightarrow> nat \<Rightarrow> pt_state \<Rightarrow> (pt_error, unit) result \<times> pt_state" where
  "map_raw_impl nlev root vaddr new_pte lev s =
     (let null_pte = (case new_pte of None \<Rightarrow> False | Some p \<Rightarrow> pte_is_null p);
          global_flag = of_bool (is_canon_kernel_addr nlev vaddr) * fl_G
      in case descend vaddr null_pte global_flag (rev [lev + 1..<nlev]) root s of
           (Inl e, s') \<Rightarrow> (Err e, s')
         | (Inr None, s') \<Rightarrow> (Ok (), s')
         | (Inr (Some pagetable), s') \<Rightarrow>
             (let index = get_vpn_index vaddr lev;
                  old = read_pte pagetable index s';
                  s'' = write_pte pagetable index (case new_pte of None \<Rightarrow> 0 | Some p \<Rightarrow> pack p) s'
              in (Ok (), cleanup_pte (unpack old lev) s'')))"

definition pmap_map :: "nat \<Rightarrow> nat \<Rightarrow> nat \<Rightarrow> nat \<Rightarrow> nat \<Rightarrow> pt_state \<Rightarrow> (pt_error, unit) result \<times> pt_state" where
  "pmap_map nlev root vaddr paddr fl s =
     map_raw_impl nlev root vaddr
       (Some \<lparr>ppn = paddr div page_bytes, flags = fl, level = 0, valid = True, leaf = True\<rparr>) 0 s"

text \<open>\<open>unmap\<close> turns a failure into a panic.\<close>

definition pmap_unmap :: "nat \<Rightarrow> nat \<Rightarrow> nat \<Rightarrow> pt_state \<Rightarrow> (pt_error, unit) result \<times> pt_state" where
  "pmap_unmap nlev root vaddr s =
     (case map_raw_impl nlev root vaddr None 0 s of
        (Inl _, s') \<Rightarrow> (Err PtPanic, s')
      | (Inr _, s') \<Rightarrow> (Ok (), s'))"

function map_multiple :: "nat \<Rightarrow> nat \<Rightarrow> nat \<Rightarrow> nat \<Rightarrow> nat \<Rightarrow> nat \<Rightarrow> pt_state \<Rightarrow> (pt_error, unit) result \<times> pt_state" where
  "map_multiple nlev root vaddr paddr fl len s =
     (if len = 0 then (Ok (), s)
      else
        (let lev = calc_superpage paddr vaddr len; mx = push_bit (bits_per_level * lev) page_bytes in
         case map_raw_impl nlev root vaddr
                (Some \<lparr>ppn = paddr div page_bytes, flags = fl, level = lev, valid = True, leaf = True\<rparr>) lev s of
           (Inl e, s') \<Rightarrow> (Err e, s')
         | (Inr _, s') \<Rightarrow>
             if len < mx then (Err PtPanic, s')
             else map_multiple nlev root (vaddr + mx) (paddr + mx) fl (len - mx) s'))"
  by pat_completeness auto
termination
  by (relation "measure (\<lambda>(_, _, _, _, _, len, _). len)") (auto simp: page_bytes_def push_bit_eq_mult)

function unmap_multiple :: "nat \<Rightarrow> nat \<Rightarrow> nat \<Rightarrow> nat \<Rightarrow> pt_state \<Rightarrow> (pt_error, unit) result \<times> pt_state" where
  "unmap_multiple nlev root vaddr sz s =
     (if sz = 0 then (Ok (), s)
      else
        (case pmap_unmap nlev root vaddr s of
           (Inl e, s') \<Rightarrow> (Err e, s')
         | (Inr _, s') \<Rightarrow>
             if sz < page_bytes then (Err PtPanic, s')
             else unmap_multiple nlev root (vaddr + page_bytes) (sz - page_bytes) s'))"
  by pat_completeness auto
termination
  by (relation "measure (\<lambda>(_, _, _, sz, _). sz)") (auto simp: page_bytes_def)

text \<open>Walking down; \<open>None\<close> is the \<open>unreachable!\<close> at the end of the loop.\<close>

fun walk_levels :: "pt_state \<Rightarrow> nat \<Rightarrow> nat \<Rightarrow> nat list \<Rightarrow> nat \<Rightarrow> pte option" where
  "walk_levels s vaddr min_level [] pagetable = None"
| "walk_levels s vaddr min_level (lev # levs) pagetable =
     (let pte = unpack (read_pte pagetable (get_vpn_index vaddr lev) s) lev in
      if lev = min_level \<or> \<not> valid pte \<and> lev > 0 then Some pte
      else if valid pte \<and> \<not> leaf pte then walk_levels s vaddr min_level levs (ppn pte * page_bytes)
      else Some pte)"

definition walk_shallow :: "nat \<Rightarrow> nat \<Rightarrow> nat \<Rightarrow> nat \<Rightarrow> pt_state \<Rightarrow> pte option" where
  "walk_shallow nlev root vaddr min_level s = walk_levels s vaddr min_level (rev [0..<nlev]) root"

definition walk :: "nat \<Rightarrow> nat \<Rightarrow> nat \<Rightarrow> pt_state \<Rightarrow> pte option" where
  "walk nlev root vaddr s = walk_shallow nlev root vaddr 0 s"

text \<open>\<open>flags & (max_prot | !RWX)\<close> on 32-bit flags.\<close>

definition limit_flags :: "nat \<Rightarrow> nat \<Rightarrow> nat" where
  "limit_flags fl max_prot = (fl AND (max_prot OR (2 ^ 32 - 1 - fl_RWX)))"

function protect :: "nat \<Rightarrow> nat \<Rightarrow> nat \<Rightarrow> nat \<Rightarrow> nat \<Rightarrow> pt_state \<Rightarrow> (pt_error, unit) result \<times> pt_state" where
  "protect nlev root vaddr sz max_prot s =
     (if sz = 0 then (Ok (), s)
      else
        (case walk nlev root vaddr s of
           None \<Rightarrow> (Err PtPanic, s)
         | Some pte \<Rightarrow>
             (let newfl = limit_flags (flags pte) max_prot;
                  (r, s') = (if newfl \<noteq> flags pte
                    then map_raw_impl nlev root vaddr (Some (pte\<lparr>flags := newfl\<rparr>)) (level pte) s else (Ok (), s))
              in case r of
                   Inl _ \<Rightarrow> (Err PtPanic, s')
                 | Inr _ \<Rightarrow>
                     if sz < page_bytes then (Err PtPanic, s')
                     else protect nlev root (vaddr + page_bytes) (sz - page_bytes) max_prot s')))"
  by pat_completeness auto
termination
  by (relation "measure (\<lambda>(_, _, _, sz, _, _). sz)") (auto simp: page_bytes_def)

record virt2phys_result =
  v_page_vaddr :: nat
  v_page_paddr :: nat
  v_size :: nat
  v_paddr :: nat
  v_flags :: nat
  v_valid :: bool

definition virt2phys :: "nat \<Rightarrow> nat \<Rightarrow> nat \<Rightarrow> pt_state \<Rightarrow> virt2phys_result option" where
  "virt2phys nlev root vaddr s =
     (if \<not> is_canon_addr nlev vaddr
      then Some \<lparr>v_page_vaddr = vaddr - vaddr mod page_bytes, v_page_paddr = 0, v_size = page_bytes,
                 v_paddr = 0, v_flags = 0, v_valid = False\<rparr>
      else
        (case walk nlev root vaddr s of
           None \<Rightarrow> None
         | Some pte \<Rightarrow>
             (let sz = push_bit (bits_per_level * level pte) page_bytes;
                  page_vaddr = vaddr - vaddr mod sz;
                  page_paddr = ppn pte * page_bytes;
                  offset = vaddr - page_vaddr
              in Some \<lparr>v_page_vaddr = page_vaddr, v_page_paddr = page_paddr, v_size = sz,
                       v_paddr = page_paddr + offset, v_flags = flags pte, v_valid = valid pte\<rparr>)))"

definition page_free_pt :: "nat \<Rightarrow> pt_state \<Rightarrow> pt_state" where
  "page_free_pt p s = s\<lparr>pt_freed := pt_freed s @ [p]\<rparr>"

text \<open>\<open>drop_impl\<close>: \<open>None\<close> is its assertion failing.\<close>

fun drop_impl :: "nat \<Rightarrow> nat list \<Rightarrow> nat \<Rightarrow> pt_state \<Rightarrow> pt_state option"
  and drop_entry :: "nat \<Rightarrow> nat \<Rightarrow> nat \<Rightarrow> pt_state \<Rightarrow> pt_state option" where
  "drop_impl pagetable [] lev s = Some (page_free_pt pagetable s)"
| "drop_impl pagetable (i # is) lev s =
     (case drop_entry pagetable i lev s of None \<Rightarrow> None | Some s' \<Rightarrow> drop_impl pagetable is lev s')"
| "drop_entry pagetable i 0 s =
     (let pte = unpack (read_pte pagetable i s) 0 in
      if \<not> valid pte then Some s else if leaf pte then Some (cleanup_pte pte s) else None)"
| "drop_entry pagetable i (Suc lev) s =
     (let pte = unpack (read_pte pagetable i s) (Suc lev) in
      if \<not> valid pte then Some s else if leaf pte then Some (cleanup_pte pte s)
      else drop_impl (ppn pte * page_bytes) [0..<pte_per_page] lev s)"

definition pmap_drop :: "nat \<Rightarrow> nat \<Rightarrow> pt_state \<Rightarrow> pt_state option" where
  "pmap_drop nlev root s = drop_impl root [0..<pte_per_page div 2] (nlev - 1) s"

definition pmap_new :: "pt_state \<Rightarrow> nat option \<times> pt_state" where
  "pmap_new s = alloc_pgtable_page s"

fun populate_entries :: "nat \<Rightarrow> nat \<Rightarrow> nat list \<Rightarrow> pt_state \<Rightarrow> (pt_error, unit) result \<times> pt_state" where
  "populate_entries nlev root [] s = (Ok (), s)"
| "populate_entries nlev root (i # is) s =
     (case alloc_pgtable_page s of
        (None, s') \<Rightarrow> (Err PtNoMem, s')
      | (Some paddr, s') \<Rightarrow>
          populate_entries nlev root is
            (write_pte root i (pack \<lparr>ppn = paddr div page_bytes, flags = fl_G, level = nlev - 2, valid = True, leaf = False\<rparr>) s'))"

definition populate_higher_half :: "nat \<Rightarrow> nat \<Rightarrow> pt_state \<Rightarrow> (pt_error, unit) result \<times> pt_state" where
  "populate_higher_half nlev root s = populate_entries nlev root [pte_per_page div 2..<pte_per_page] s"

definition broadcast_higher_half :: "nat \<Rightarrow> nat \<Rightarrow> pt_state \<Rightarrow> pt_state" where
  "broadcast_higher_half from_root to_root s =
     fold (\<lambda>i s. write_pte to_root i (read_pte from_root i s) s) [pte_per_page div 2..<pte_per_page] s"

declare map_multiple.simps [simp del] unmap_multiple.simps [simp del] protect.simps [simp del]

end
