(* ===== verification/Phys_Map_Tree.thy ===== *)
theory Phys_Map_Tree
  imports Phys_Map
begin

text \<open>
  The page tables as a tree: the tables reachable from a root, their well-formedness (a tree, in
  which no table is shared and the last level holds leaves only), the translation of page numbers
  they define, and how one changed entry changes it.
\<close>

section \<open>The tree\<close>

definition idx :: "nat \<Rightarrow> nat \<Rightarrow> nat" where
  "idx v l = v div 512 ^ l mod 512"

definition is_table :: "nat \<Rightarrow> bool" where
  "is_table raw \<longleftrightarrow> valid (unpack raw 0) \<and> \<not> leaf (unpack raw 0)"

definition next_table :: "nat \<Rightarrow> nat" where
  "next_table raw = ppn (unpack raw 0) * page_bytes"

fun tables :: "(nat \<Rightarrow> nat \<Rightarrow> nat) \<Rightarrow> nat \<Rightarrow> nat \<Rightarrow> nat set" where
  "tables mem 0 t = {t}"
| "tables mem (Suc l) t =
     insert t (\<Union>i\<in>{..<512}. if is_table (mem t i) then tables mem l (next_table (mem t i)) else {})"

definition entry_tables :: "(nat \<Rightarrow> nat \<Rightarrow> nat) \<Rightarrow> nat \<Rightarrow> nat \<Rightarrow> nat set" where
  "entry_tables mem l raw = (if l > 0 \<and> is_table raw then tables mem (l - 1) (next_table raw) else {})"

lemma tables_eq: "tables mem l t = insert t (\<Union>i\<in>{..<512}. entry_tables mem l (mem t i))"
  by (cases l) (auto simp: entry_tables_def)

definition leaf_ok :: "nat \<Rightarrow> nat \<Rightarrow> bool" where
  "leaf_ok l raw \<longleftrightarrow> (valid (unpack raw 0) \<longrightarrow> raw < 2 ^ 64 \<and> ppn (unpack raw 0) + 512 ^ l \<le> 2 ^ 44)"

primrec pt_wf :: "(nat \<Rightarrow> nat \<Rightarrow> nat) \<Rightarrow> nat \<Rightarrow> nat \<Rightarrow> bool" where
  "pt_wf mem 0 t \<longleftrightarrow> (\<forall>i<512. \<not> is_table (mem t i) \<and> leaf_ok 0 (mem t i))"
| "pt_wf mem (Suc l) t \<longleftrightarrow>
     (\<forall>i<512. (if is_table (mem t i) then pt_wf mem l (next_table (mem t i)) else leaf_ok (Suc l) (mem t i)) \<and>
        t \<notin> entry_tables mem (Suc l) (mem t i)) \<and>
     (\<forall>i<512. \<forall>j<512. i \<noteq> j \<longrightarrow> entry_tables mem (Suc l) (mem t i) \<inter> entry_tables mem (Suc l) (mem t j) = {})"

definition entry_wf :: "(nat \<Rightarrow> nat \<Rightarrow> nat) \<Rightarrow> nat \<Rightarrow> nat \<Rightarrow> bool" where
  "entry_wf mem l raw \<longleftrightarrow> (if is_table raw then l > 0 \<and> pt_wf mem (l - 1) (next_table raw) else leaf_ok l raw)"

lemma pt_wf_eq:
  "pt_wf mem l t \<longleftrightarrow>
     (\<forall>i<512. entry_wf mem l (mem t i) \<and> t \<notin> entry_tables mem l (mem t i)) \<and>
     (\<forall>i<512. \<forall>j<512. i \<noteq> j \<longrightarrow> entry_tables mem l (mem t i) \<inter> entry_tables mem l (mem t j) = {})"
  by (cases l) (auto simp: entry_wf_def entry_tables_def)

text \<open>The translation of page number \<open>v\<close>: the page number it is mapped to and the flags.\<close>

primrec lookup :: "(nat \<Rightarrow> nat \<Rightarrow> nat) \<Rightarrow> nat \<Rightarrow> nat \<Rightarrow> nat \<Rightarrow> (nat \<times> nat) option" where
  "lookup mem 0 t v =
     (let p = unpack (mem t (idx v 0)) 0 in if valid p then Some (ppn p, flags p) else None)"
| "lookup mem (Suc l) t v =
     (let raw = mem t (idx v (Suc l)); p = unpack raw 0 in
      if \<not> valid p then None
      else if leaf p then Some (ppn p + v mod 512 ^ Suc l, flags p)
      else lookup mem l (next_table raw) v)"

definition entry_lookup :: "(nat \<Rightarrow> nat \<Rightarrow> nat) \<Rightarrow> nat \<Rightarrow> nat \<Rightarrow> nat \<Rightarrow> (nat \<times> nat) option" where
  "entry_lookup mem l raw v =
     (let p = unpack raw 0 in
      if \<not> valid p then None
      else if l = 0 \<or> leaf p then Some (ppn p + v mod 512 ^ l, flags p)
      else lookup mem (l - 1) (next_table raw) v)"

lemma lookup_eq: "lookup mem l t v = entry_lookup mem l (mem t (idx v l)) v"
  by (cases l) (auto simp: entry_lookup_def Let_def)

lemma idx_less [simp]: "idx v l < 512"
  by (simp add: idx_def)

section \<open>Frames\<close>

lemma table_in: "t \<in> tables mem l t"
  by (cases l) auto

lemma entry_tables_sub: "i < 512 \<Longrightarrow> entry_tables mem l (mem t i) \<subseteq> tables mem l t"
  by (subst tables_eq) auto

lemma tables_frame:
  assumes "\<And>q. q \<in> tables mem l t \<Longrightarrow> mem' q = mem q"
  shows "tables mem' l t = tables mem l t \<and> pt_wf mem' l t = pt_wf mem l t \<and> lookup mem' l t v = lookup mem l t v"
  using assms
proof (induction l arbitrary: t)
  case 0
  then have "mem' t = mem t" by simp
  then show ?case by simp
next
  case (Suc l)
  have t: "mem' t = mem t" using Suc.prems table_in by blast
  have c: "tables mem' l (next_table (mem t i)) = tables mem l (next_table (mem t i)) \<and>
      pt_wf mem' l (next_table (mem t i)) = pt_wf mem l (next_table (mem t i)) \<and>
      lookup mem' l (next_table (mem t i)) v = lookup mem l (next_table (mem t i)) v"
    if "i < 512" "is_table (mem t i)" for i
    using that by (intro Suc.IH Suc.prems) auto
  have e: "entry_tables mem' (Suc l) (mem t i) = entry_tables mem (Suc l) (mem t i)" if "i < 512" for i
    using c [OF that] by (simp add: entry_tables_def)
  have "tables mem' (Suc l) t = tables mem (Suc l) t"
    unfolding tables_eq [of _ "Suc l"] t using e by simp
  moreover have "pt_wf mem' (Suc l) t = pt_wf mem (Suc l) t" using c e by (simp add: t cong: if_cong)
  moreover have "lookup mem' (Suc l) t v = lookup mem (Suc l) t v"
    using c [of "idx v (Suc l)"] by (auto simp: t Let_def is_table_def)
  ultimately show ?case by simp
qed

lemma entry_frame:
  assumes "\<And>q. q \<in> entry_tables mem l raw \<Longrightarrow> mem' q = mem q" "entry_wf mem l raw"
  shows "entry_tables mem' l raw = entry_tables mem l raw" "entry_wf mem' l raw"
    "entry_lookup mem' l raw v = entry_lookup mem l raw v"
proof -
  have "tables mem' (l - 1) (next_table raw) = tables mem (l - 1) (next_table raw) \<and>
    pt_wf mem' (l - 1) (next_table raw) = pt_wf mem (l - 1) (next_table raw) \<and>
    lookup mem' (l - 1) (next_table raw) v = lookup mem (l - 1) (next_table raw) v" if "l > 0" "is_table raw"
    using assms(1) that by (intro tables_frame) (auto simp: entry_tables_def)
  then show "entry_tables mem' l raw = entry_tables mem l raw" "entry_wf mem' l raw"
    "entry_lookup mem' l raw v = entry_lookup mem l raw v"
    using assms(2) by (auto simp: entry_tables_def entry_wf_def entry_lookup_def is_table_def Let_def)
qed

section \<open>Changing one entry\<close>

text \<open>The table at level \<open>lo\<close> on the path of page \<open>v\<close> from table \<open>t\<close> of level \<open>l\<close>.\<close>

fun node_at :: "(nat \<Rightarrow> nat \<Rightarrow> nat) \<Rightarrow> nat \<Rightarrow> nat \<Rightarrow> nat \<Rightarrow> nat \<Rightarrow> nat option" where
  "node_at mem 0 t v lo = (if lo = 0 then Some t else None)"
| "node_at mem (Suc l) t v lo =
     (if lo = Suc l then Some t
      else if is_table (mem t (idx v (Suc l))) then node_at mem l (next_table (mem t (idx v (Suc l)))) v lo
      else None)"

lemma node_at_self [simp]: "node_at mem l t v l = Some t"
  by (cases l) auto

lemma node_at_le: "node_at mem l t v lo = Some t' \<Longrightarrow> lo \<le> l"
  by (induction l arbitrary: t) (auto split: if_splits dest!: le_SucI)

lemma node_at_in: "node_at mem l t v lo = Some t' \<Longrightarrow> t' \<in> tables mem l t"
proof (induction l arbitrary: t)
  case (Suc l)
  show ?case
  proof (cases "lo = Suc l")
    case False
    let ?raw = "mem t (idx v (Suc l))"
    have r: "is_table ?raw" "node_at mem l (next_table ?raw) v lo = Some t'" using Suc.prems False by (auto split: if_splits)
    then have "t' \<in> entry_tables mem (Suc l) ?raw" using Suc.IH by (simp add: entry_tables_def)
    then show ?thesis using entry_tables_sub [of "idx v (Suc l)" mem "Suc l" t] by auto
  qed (use Suc.prems in simp)
qed (simp split: if_splits)

lemma node_at_step:
  assumes "node_at mem L t v (Suc k) = Some t'" "is_table (mem t' (idx v (Suc k)))"
  shows "node_at mem L t v k = Some (next_table (mem t' (idx v (Suc k))))"
  using assms
proof (induction L arbitrary: t)
  case (Suc l)
  then show ?case by (auto split: if_splits dest: node_at_le)
qed simp

definition same_path :: "nat \<Rightarrow> nat \<Rightarrow> nat \<Rightarrow> nat \<Rightarrow> bool" where
  "same_path lo L v w \<longleftrightarrow> (\<forall>k. lo \<le> k \<and> k \<le> L \<longrightarrow> idx w k = idx v k)"

lemma same_path_Suc: "lo \<le> l \<Longrightarrow> same_path lo (Suc l) v w \<longleftrightarrow> idx w (Suc l) = idx v (Suc l) \<and> same_path lo l v w"
  by (auto simp: same_path_def le_Suc_eq)

text \<open>What the change of one entry on the path of \<open>v\<close> makes of the tree.\<close>

definition updated :: "(nat \<Rightarrow> nat \<Rightarrow> nat) \<Rightarrow> (nat \<Rightarrow> nat \<Rightarrow> nat) \<Rightarrow> nat \<Rightarrow> nat \<Rightarrow> nat \<Rightarrow> nat \<Rightarrow> nat \<Rightarrow> nat \<Rightarrow> bool" where
  "updated mem mem' L t v lo t' raw \<longleftrightarrow> pt_wf mem' L t \<and>
     tables mem' L t \<subseteq> tables mem L t \<union> entry_tables mem' lo raw \<and> node_at mem' L t v lo = Some t' \<and>
     (\<forall>w. lookup mem' L t w = (if same_path lo L v w then entry_lookup mem' lo raw w else lookup mem L t w))"

lemma update_here:
  assumes wf: "pt_wf mem lo t" and i: "i = idx v lo" and raw: "mem' t i = raw"
    and frame: "\<And>q. q \<in> tables mem lo t \<Longrightarrow> q \<noteq> t \<Longrightarrow> mem' q = mem q" "\<And>j. j \<noteq> i \<Longrightarrow> mem' t j = mem t j"
    and new: "entry_wf mem' lo raw" "entry_tables mem' lo raw \<inter> tables mem lo t = {}"
  shows "updated mem mem' lo t v lo t raw"
proof -
  have W: "entry_wf mem lo (mem t j)" "t \<notin> entry_tables mem lo (mem t j)" if "j < 512" for j
    using wf that unfolding pt_wf_eq by blast+
  have D: "entry_tables mem lo (mem t j) \<inter> entry_tables mem lo (mem t k) = {}" if "j < 512" "k < 512" "j \<noteq> k" for j k
    using wf that unfolding pt_wf_eq by blast
  have fr: "mem' q = mem q" if "j < 512" "q \<in> entry_tables mem lo (mem t j)" for j q
  proof (rule frame(1))
    show "q \<in> tables mem lo t" using entry_tables_sub [OF that(1)] that(2) by blast
    show "q \<noteq> t" using W(2) [OF that(1)] that(2) by blast
  qed
  have E: "entry_tables mem' lo (mem t j) = entry_tables mem lo (mem t j)" "entry_wf mem' lo (mem t j)"
      "entry_lookup mem' lo (mem t j) w = entry_lookup mem lo (mem t j) w" if "j < 512" for j w
    using entry_frame [OF fr [OF that] W(1) [OF that]] by simp_all
  have et: "entry_tables mem' lo (mem' t j) = (if j = i then entry_tables mem' lo raw else entry_tables mem lo (mem t j))"
    if "j < 512" for j
    using E(1) [OF that] frame(2) [of j] raw by simp
  have sub: "entry_tables mem lo (mem t j) \<subseteq> tables mem lo t" if "j < 512" for j by (rule entry_tables_sub [OF that])
  have t: "t \<in> tables mem lo t" by (rule table_in)
  have 1: "t \<notin> entry_tables mem' lo (mem' t j)" "entry_wf mem' lo (mem' t j)" if "j < 512" for j
  proof -
    show "t \<notin> entry_tables mem' lo (mem' t j)" unfolding et [OF that] using W(2) [OF that] new(2) t by auto
    show "entry_wf mem' lo (mem' t j)" using E(2) [OF that] frame(2) [of j] raw new(1) by (cases "j = i") auto
  qed
  have 2: "entry_tables mem' lo (mem' t j) \<inter> entry_tables mem' lo (mem' t k) = {}" if "j < 512" "k < 512" "j \<noteq> k" for j k
    using et [OF that(1)] et [OF that(2)] D [OF that] new(2) sub [OF that(1)] sub [OF that(2)] that(3) by auto
  have "tables mem' lo t \<subseteq> tables mem lo t \<union> entry_tables mem' lo raw"
    unfolding tables_eq [of mem'] using et t sub by auto
  moreover have "lookup mem' lo t w = (if same_path lo lo v w then entry_lookup mem' lo raw w else lookup mem lo t w)" for w
    using E(3) [of "idx w lo" w] frame(2) [of "idx w lo"] raw unfolding lookup_eq
    by (auto simp: same_path_def i)
  ultimately show ?thesis using 1 2 unfolding updated_def pt_wf_eq [of mem'] by simp
qed

lemma update_below:
  assumes memt: "mem' t = mem t" and lt: "i < 512" and r: "is_table (mem t i)" and i: "i = idx v (Suc l)"
    and c: "c = next_table (mem t i)" and IH: "updated mem mem' l c v lo t' raw"
    and W: "\<And>j. j < 512 \<Longrightarrow> entry_wf mem (Suc l) (mem t j)" "\<And>j. j < 512 \<Longrightarrow> t \<notin> entry_tables mem (Suc l) (mem t j)"
    and D: "\<And>j k. j < 512 \<Longrightarrow> k < 512 \<Longrightarrow> j \<noteq> k \<Longrightarrow>
      entry_tables mem (Suc l) (mem t j) \<inter> entry_tables mem (Suc l) (mem t k) = {}"
    and E: "\<And>j. j < 512 \<Longrightarrow> j \<noteq> i \<Longrightarrow> entry_tables mem' (Suc l) (mem t j) = entry_tables mem (Suc l) (mem t j)"
      "\<And>j. j < 512 \<Longrightarrow> j \<noteq> i \<Longrightarrow> entry_wf mem' (Suc l) (mem t j)"
      "\<And>j w. j < 512 \<Longrightarrow> j \<noteq> i \<Longrightarrow> entry_lookup mem' (Suc l) (mem t j) w = entry_lookup mem (Suc l) (mem t j) w"
    and new: "entry_tables mem' lo raw \<inter> tables mem (Suc l) t = {}" and lo: "lo \<le> l"
  shows "updated mem mem' (Suc l) t v lo t' raw"
proof -
  let ?X = "entry_tables mem' lo raw"
  have IH': "pt_wf mem' l c" "tables mem' l c \<subseteq> tables mem l c \<union> ?X" "node_at mem' l c v lo = Some t'"
    "\<And>w. lookup mem' l c w = (if same_path lo l v w then entry_lookup mem' lo raw w else lookup mem l c w)"
    using IH by (auto simp: updated_def)
  have ci: "entry_tables m (Suc l) (mem t i) = tables m l c" for m using r by (simp add: entry_tables_def c)
  have sub: "entry_tables mem (Suc l) (mem t j) \<subseteq> tables mem (Suc l) t" if "j < 512" for j
    by (rule entry_tables_sub [OF that])
  have et: "entry_tables mem' (Suc l) (mem t j) \<subseteq> entry_tables mem (Suc l) (mem t j) \<union> (if j = i then ?X else {})"
    if "j < 512" for j
    using IH'(2) ci E(1) [OF that] by (cases "j = i") auto
  have t: "t \<in> tables mem (Suc l) t" by (rule table_in)
  have 1: "t \<notin> entry_tables mem' (Suc l) (mem t j)" if "j < 512" for j
    using et [OF that] W(2) [OF that] new t by (auto split: if_splits)
  have 2: "entry_wf mem' (Suc l) (mem t j)" if "j < 512" for j
    using E(2) [OF that] IH'(1) r by (cases "j = i") (auto simp: entry_wf_def c)
  have 3: "entry_tables mem' (Suc l) (mem t j) \<inter> entry_tables mem' (Suc l) (mem t k) = {}" if "j < 512" "k < 512" "j \<noteq> k" for j k
    using et [OF that(1)] et [OF that(2)] D [OF that] sub [OF that(1)] sub [OF that(2)] new that(3)
    by (cases "j = i"; cases "k = i") (simp_all del: tables.simps, blast+)
  have "x \<in> tables mem (Suc l) t \<union> ?X" if "j < 512" "x \<in> entry_tables mem' (Suc l) (mem t j)" for j x
    using et [OF that(1)] sub [OF that(1)] that(2) by (cases "j = i") (simp_all del: tables.simps, blast+)
  then have tab: "tables mem' (Suc l) t \<subseteq> tables mem (Suc l) t \<union> ?X"
    unfolding tables_eq [of mem'] memt using t by (auto simp del: tables.simps)
  have look: "lookup mem' (Suc l) t w =
      (if same_path lo (Suc l) v w then entry_lookup mem' lo raw w else lookup mem (Suc l) t w)" for w
  proof (cases "idx w (Suc l) = i")
    case True
    have v: "valid (unpack (mem t i) 0)" "\<not> leaf (unpack (mem t i) 0)" using r by (simp_all add: is_table_def)
    have "lookup m (Suc l) t w = lookup m l c w" if "m t = mem t" for m using v True that by (simp add: Let_def c)
    then show ?thesis using IH'(4) [of w] memt True i by (simp add: same_path_Suc [OF lo])
  next
    case False
    then show ?thesis using E(3) [of "idx w (Suc l)" w] i unfolding lookup_eq [of _ "Suc l"] memt
      by (simp add: same_path_Suc [OF lo])
  qed
  have "node_at mem' (Suc l) t v lo = Some t'" using IH'(3) r lo by (simp add: memt i [symmetric] c)
  then show ?thesis using 1 2 3 tab look unfolding updated_def pt_wf_eq [of mem'] memt by simp
qed

lemma update_entry:
  assumes "pt_wf mem L t" "node_at mem L t v lo = Some t'" "mem' t' (idx v lo) = raw"
    and "\<And>q. q \<in> tables mem L t \<Longrightarrow> q \<noteq> t' \<Longrightarrow> mem' q = mem q" "\<And>j. j \<noteq> idx v lo \<Longrightarrow> mem' t' j = mem t' j"
    and "entry_wf mem' lo raw" "entry_tables mem' lo raw \<inter> tables mem L t = {}"
  shows "updated mem mem' L t v lo t' raw"
  using assms(1,2,4,7)
proof (induction L arbitrary: t)
  case 0
  then have lo: "lo = 0" and t: "t = t'" by (auto split: if_splits)
  have "updated mem mem' lo t' v lo t' raw"
    by (rule update_here [where i = "idx v lo"]) (use 0 lo t assms(3,5,6) in auto)
  then show ?case by (simp add: lo t)
next
  case (Suc l)
  note path = Suc.prems(2) and frame = Suc.prems(3)
  show ?case
  proof (cases "lo = Suc l")
    case True
    then have t: "t = t'" using path by simp
    have "updated mem mem' lo t' v lo t' raw"
      by (rule update_here [where i = "idx v lo"]) (use Suc.prems True t assms(3,5,6) in \<open>auto simp del: tables.simps\<close>)
    then show ?thesis by (simp add: True t)
  next
    case False
    define i where "i = idx v (Suc l)"
    define c where "c = next_table (mem t i)"
    have lt: "i < 512" by (simp add: i_def)
    have r: "is_table (mem t i)" and below: "node_at mem l c v lo = Some t'"
      using path False by (auto simp: i_def c_def split: if_splits)
    have W: "entry_wf mem (Suc l) (mem t j)" "t \<notin> entry_tables mem (Suc l) (mem t j)" if "j < 512" for j
      using Suc.prems(1) that unfolding pt_wf_eq [of _ "Suc l"] by blast+
    have D: "entry_tables mem (Suc l) (mem t j) \<inter> entry_tables mem (Suc l) (mem t k) = {}" if "j < 512" "k < 512" "j \<noteq> k" for j k
      using Suc.prems(1) that unfolding pt_wf_eq [of _ "Suc l"] by blast
    have ci: "entry_tables mem (Suc l) (mem t i) = tables mem l c" using r by (simp add: entry_tables_def c_def)
    have sub: "tables mem l c \<subseteq> tables mem (Suc l) t" using entry_tables_sub [OF lt, of mem "Suc l" t] ci by simp
    have wfc: "pt_wf mem l c" using W(1) [OF lt] r by (simp add: entry_wf_def c_def)
    have t'c: "t' \<in> tables mem l c" by (rule node_at_in [OF below])
    have tt: "t \<noteq> t'" using W(2) [OF lt] ci t'c by blast
    then have memt: "mem' t = mem t" using frame [OF table_in] by blast
    have IH: "updated mem mem' l c v lo t' raw"
      using Suc.prems(4) sub by (intro Suc.IH wfc below frame) blast+
    have fr: "mem' q = mem q" if "j < 512" "j \<noteq> i" "q \<in> entry_tables mem (Suc l) (mem t j)" for j q
    proof (rule frame)
      show "q \<in> tables mem (Suc l) t" using entry_tables_sub [OF that(1)] that(3) by blast
      show "q \<noteq> t'" using D [OF that(1) lt that(2)] ci t'c that(3) by blast
    qed
    have E: "entry_tables mem' (Suc l) (mem t j) = entry_tables mem (Suc l) (mem t j)" "entry_wf mem' (Suc l) (mem t j)"
        "entry_lookup mem' (Suc l) (mem t j) w = entry_lookup mem (Suc l) (mem t j) w" if "j < 512" "j \<noteq> i" for j w
      using entry_frame [OF fr [OF that] W(1) [OF that(1)]] by simp_all
    show ?thesis by (rule update_below [OF memt lt r i_def c_def IH W D E Suc.prems(4) node_at_le [OF below]])
  qed
qed

end
