(* ===== verification/Phys_Map_Ops.thy ===== *)
theory Phys_Map_Ops
  imports Phys_Map_Tree
begin

text \<open>
  What the operations on page tables do to the translation: a mapping operation changes the
  translation of exactly the pages it is given, whatever tables it creates and whatever larger
  pages it splits on the way, and leaves the tables a tree.
\<close>

section \<open>Indices\<close>

lemma get_vpn_index_idx: "get_vpn_index vaddr l = idx (vaddr div page_bytes) l"
proof -
  have "(2::nat) ^ (l * 9 + 12) = 4096 * 512 ^ l"
    by (simp add: power_add power_mult mult.commute [of l])
  then show ?thesis
    by (simp add: get_vpn_index_def idx_def bits_per_level_def page_bytes_def drop_bit_eq_div div_mult2_eq)
qed

lemma mod_512_Suc: "w mod 512 ^ Suc k = idx w k * 512 ^ k + w mod 512 ^ k"
  using mod_mult2_eq [of w "512 ^ k" 512] by (simp add: idx_def mult.commute)

lemma same_path_all: "same_path 0 L v w \<longleftrightarrow> w mod 512 ^ Suc L = v mod 512 ^ Suc L"
proof (induction L)
  case 0
  then show ?case by (simp add: same_path_def idx_def)
next
  case (Suc L)
  have "w mod 512 ^ Suc (Suc L) = v mod 512 ^ Suc (Suc L) \<longleftrightarrow>
      idx w (Suc L) * 512 ^ Suc L + w mod 512 ^ Suc L = idx v (Suc L) * 512 ^ Suc L + v mod 512 ^ Suc L"
    by (simp only: mod_512_Suc [of _ "Suc L"])
  also have "\<dots> \<longleftrightarrow> idx w (Suc L) = idx v (Suc L) \<and> w mod 512 ^ Suc L = v mod 512 ^ Suc L" (is "?l \<longleftrightarrow> ?r")
  proof
    assume l: ?l
    have m: "w mod 512 ^ Suc L < 512 ^ Suc L" "v mod 512 ^ Suc L < 512 ^ Suc L" by simp_all
    have "(idx w (Suc L) * 512 ^ Suc L + w mod 512 ^ Suc L) div 512 ^ Suc L = idx w (Suc L)"
      "(idx v (Suc L) * 512 ^ Suc L + v mod 512 ^ Suc L) div 512 ^ Suc L = idx v (Suc L)"
      by (simp_all add: div_mult_self3 del: power_Suc)
    then have "idx w (Suc L) = idx v (Suc L)" using l by metis
    then show ?r using l by simp
  qed simp
  finally show ?case using Suc by (simp add: same_path_Suc)
qed

lemma same_path_shift: "lo \<le> L \<Longrightarrow> same_path lo L v w \<longleftrightarrow> same_path 0 (L - lo) (v div 512 ^ lo) (w div 512 ^ lo)"
proof -
  assume lo: "lo \<le> L"
  have i: "idx (x div 512 ^ lo) k = idx x (lo + k)" for x k
    by (simp add: idx_def div_mult2_eq [symmetric] power_add)
  show ?thesis
  proof
    assume "same_path lo L v w"
    then show "same_path 0 (L - lo) (v div 512 ^ lo) (w div 512 ^ lo)" using lo by (simp add: same_path_def i)
  next
    assume r: "same_path 0 (L - lo) (v div 512 ^ lo) (w div 512 ^ lo)"
    show "same_path lo L v w" unfolding same_path_def
    proof (intro allI impI)
      fix k assume k: "lo \<le> k \<and> k \<le> L"
      then have "idx (w div 512 ^ lo) (k - lo) = idx (v div 512 ^ lo) (k - lo)"
        using r diff_le_mono [of k L lo] by (simp add: same_path_def)
      then show "idx w k = idx v k" using k by (simp add: i)
    qed
  qed
qed

section \<open>Entries\<close>

lemma unpack_level: "unpack raw l = (unpack raw 0)\<lparr>level := l\<rparr>"
  by (simp add: unpack_def riscv_unpack_def)

lemma unpack_fields [simp]: "valid (unpack raw (Suc l)) = valid (unpack raw 0)" "leaf (unpack raw (Suc l)) = leaf (unpack raw 0)"
  "ppn (unpack raw (Suc l)) = ppn (unpack raw 0)" "flags (unpack raw (Suc l)) = flags (unpack raw 0)" "level (unpack raw l) = l"
  by (simp_all add: unpack_def riscv_unpack_def)

lemma unpack_zero [simp]: "\<not> valid (unpack 0 l)" "\<not> is_table 0" "leaf_ok l 0" "entry_lookup mem l 0 w = None"
  by (simp_all add: unpack_0 pte_NULL_def is_table_def leaf_ok_def entry_lookup_def)

lemma unpack_small:
  assumes "raw < 2 ^ 64" "ppn (unpack raw 0) < 2 ^ 44"
  shows "flags (unpack raw 0) = raw AND 0x3FE" "leaf (unpack raw 0) \<longleftrightarrow> flags (unpack raw 0) AND 0xE \<noteq> 0"
proof -
  have c: "(2::nat) ^ 10 = 1024" "(2::nat) ^ 44 = 17592186044416" "(2::nat) ^ 54 = 18014398509481984"
    "(2::nat) ^ 57 = 144115188075855872" "(2::nat) ^ 61 = 2305843009213693952" "(2::nat) ^ 64 = 18446744073709551616"
    by simp_all
  have "raw div 1024 < 2 ^ 57" using assms(1) by (intro less_mult_imp_div_less) (simp add: c)
  then have "ppn (unpack raw 0) = raw div 1024"
    by (simp add: unpack_def riscv_unpack_def drop_bit_eq_div c)
  then have "raw div 1024 < 17592186044416" using assms(2) unfolding c by simp
  then have "raw < 2305843009213693952" by (simp add: div_less_iff_less_mult)
  then have "drop_bit 61 raw = 0" by (simp add: drop_bit_eq_div)
  then show f: "flags (unpack raw 0) = raw AND 0x3FE" by (simp add: unpack_def riscv_unpack_def)
  have "(raw AND 0x3FE) AND 0xE = raw AND 0xE" by (simp add: and.assoc)
  then show "leaf (unpack raw 0) \<longleftrightarrow> flags (unpack raw 0) AND 0xE \<noteq> 0"
    unfolding f by (simp add: unpack_def riscv_unpack_def)
qed

lemma packed:
  assumes "ppn p + 512 ^ l \<le> 2 ^ 44"
  shows "unpack (pack p) k =
      \<lparr>ppn = ppn p, flags = flags p AND 0x3FE, level = k, valid = valid p, leaf = (flags p AND 0xE \<noteq> 0)\<rparr>"
    "leaf_ok l (pack p)"
proof -
  have c: "(2::nat) ^ 44 \<le> 2 ^ 51" "(2::nat) ^ 61 \<le> 2 ^ 64" by simp_all
  have "(0::nat) < 512 ^ l" by simp
  then have s: "ppn p < 2 ^ 51" using assms c by linarith
  note u = unpack_pack [OF s]
  show "unpack (pack p) k =
      \<lparr>ppn = ppn p, flags = flags p AND 0x3FE, level = k, valid = valid p, leaf = (flags p AND 0xE \<noteq> 0)\<rparr>" by (rule u)
  have "pack p < 2 ^ 64" using pack_eq(2) [OF s] c by linarith
  then show "leaf_ok l (pack p)" using assms by (simp add: leaf_ok_def u)
qed

lemma table_pte:
  assumes "p mod page_bytes = 0" "p div page_bytes < 2 ^ 44" "gf = 0 \<or> gf = fl_G"
  shows "is_table (table_pte p gf l)" "next_table (table_pte p gf l) = p"
proof -
  have s: "ppn \<lparr>ppn = p div page_bytes, flags = gf, level = l, valid = True, leaf = False\<rparr> < 2 ^ 51"
    using assms(2) by simp
  have "gf AND 0xE = 0" using assms(3) by (auto simp: fl_G_def)
  then show "is_table (table_pte p gf l)" by (simp add: is_table_def table_pte_def unpack_pack [OF s])
  show "next_table (table_pte p gf l) = p"
    using assms(1) div_mult_mod_eq [of p page_bytes] by (simp add: next_table_def table_pte_def unpack_pack [OF s])
qed

section \<open>States\<close>

definition pt_inv :: "nat \<Rightarrow> nat \<Rightarrow> pt_state \<Rightarrow> bool" where
  "pt_inv L root s \<longleftrightarrow> pt_wf (pt_mem s) L root \<and> distinct (pt_avail s) \<and>
     set (pt_avail s) \<inter> tables (pt_mem s) L root = {} \<and>
     (\<forall>p\<in>set (pt_avail s). p mod page_bytes = 0 \<and> p div page_bytes < 2 ^ 44)"

definition translate :: "nat \<Rightarrow> nat \<Rightarrow> pt_state \<Rightarrow> nat \<Rightarrow> (nat \<times> nat) option" where
  "translate L root s w = lookup (pt_mem s) L root w"

lemma write_pte_fields [simp]: "pt_avail (write_pte t i r s) = pt_avail s" "pt_unref (write_pte t i r s) = pt_unref s"
  "pt_dirtied (write_pte t i r s) = pt_dirtied s" "pt_freed (write_pte t i r s) = pt_freed s"
  by (simp_all add: write_pte_def)

lemma fold_write:
  "pt_mem (fold (\<lambda>i. write_pte p i (f i)) is s) = (pt_mem s)(p := (\<lambda>i. if i \<in> set is then f i else pt_mem s p i)) \<and>
   pt_avail (fold (\<lambda>i. write_pte p i (f i)) is s) = pt_avail s \<and> pt_unref (fold (\<lambda>i. write_pte p i (f i)) is s) = pt_unref s \<and>
   pt_dirtied (fold (\<lambda>i. write_pte p i (f i)) is s) = pt_dirtied s \<and> pt_freed (fold (\<lambda>i. write_pte p i (f i)) is s) = pt_freed s"
  by (induction "is" arbitrary: s) (auto simp: write_pte_def fun_eq_iff)

lemma fill_table_fields [simp]:
  "pt_mem (fill_table p f s) = (pt_mem s)(p := (\<lambda>i. if i < 512 then f i else pt_mem s p i))"
  "pt_avail (fill_table p f s) = pt_avail s" "pt_unref (fill_table p f s) = pt_unref s"
  "pt_dirtied (fill_table p f s) = pt_dirtied s" "pt_freed (fill_table p f s) = pt_freed s"
  using fold_write [of p f "[0..<pte_per_page]" s]
  by (simp_all add: fill_table_def pte_per_page_def bits_per_level_def)

text \<open>The parts of the state a step on the way down leaves alone.\<close>

definition same_log :: "pt_state \<Rightarrow> pt_state \<Rightarrow> bool" where
  "same_log s s' \<longleftrightarrow> pt_unref s' = pt_unref s \<and> pt_dirtied s' = pt_dirtied s \<and> pt_freed s' = pt_freed s"

lemma lookup_node:
  assumes "node_at mem L t v lo = Some t'" "same_path lo L v w"
  shows "lookup mem L t w = entry_lookup mem lo (mem t' (idx w lo)) w"
  using assms
proof (induction L arbitrary: t)
  case 0
  then have "lo = 0" "t' = t" by (auto split: if_splits)
  then show ?case by (simp add: lookup_eq del: lookup.simps)
next
  case (Suc l)
  show ?case
  proof (cases "lo = Suc l")
    case True
    then show ?thesis using Suc.prems(1) by (simp add: lookup_eq del: lookup.simps)
  next
    case False
    then have r: "is_table (mem t (idx v (Suc l)))" "node_at mem l (next_table (mem t (idx v (Suc l)))) v lo = Some t'"
      using Suc.prems(1) by (auto split: if_splits)
    have "lo \<le> l" by (rule node_at_le [OF r(2)])
    then have p: "idx w (Suc l) = idx v (Suc l)" "same_path lo l v w"
      using Suc.prems(2) by (simp_all add: same_path_Suc)
    show ?thesis using Suc.IH [OF r(2) p(2)] r(1) p(1) by (simp add: Let_def is_table_def)
  qed
qed

lemma node_entry_wf:
  assumes "pt_wf mem L t" "node_at mem L t v lo = Some t'"
  shows "entry_wf mem lo (mem t' (idx w lo))"
  using assms
proof (induction L arbitrary: t)
  case 0
  then have "lo = 0" "t' = t" by (auto split: if_splits)
  then show ?case using 0(1) by (simp add: entry_wf_def)
next
  case (Suc l)
  show ?case
  proof (cases "lo = Suc l")
    case True
    then show ?thesis using Suc.prems unfolding pt_wf_eq [of _ "Suc l"] by simp
  next
    case False
    then have r: "is_table (mem t (idx v (Suc l)))" "node_at mem l (next_table (mem t (idx v (Suc l)))) v lo = Some t'"
      using Suc.prems(2) by (auto split: if_splits)
    have "idx v (Suc l) < 512" by simp
    then have "pt_wf mem l (next_table (mem t (idx v (Suc l))))" using Suc.prems(1) r(1) by auto
    then show ?thesis by (rule Suc.IH [OF _ r(2)])
  qed
qed

text \<open>A fresh table with the same translation below it takes the place of an entry.\<close>

definition went_down :: "nat \<Rightarrow> nat \<Rightarrow> pt_state \<Rightarrow> pt_state \<Rightarrow> bool" where
  "went_down L root s s' \<longleftrightarrow> pt_inv L root s' \<and> (\<forall>w. translate L root s' w = translate L root s w) \<and> same_log s s'"

lemma install_table:
  assumes inv: "pt_inv L root s" and path: "node_at (pt_mem s) L root v (Suc k) = Some t" and av: "pt_avail s = p # ps"
    and gf: "gf = 0 \<or> gf = fl_G" and row: "\<And>i. i < 512 \<Longrightarrow> \<not> is_table (f i) \<and> leaf_ok k (f i)"
    and same: "\<And>m w. entry_lookup m k (f (idx w k)) w = entry_lookup (pt_mem s) (Suc k) (pt_mem s t (idx v (Suc k))) w"
    and s': "s' = write_pte t (idx v (Suc k)) (table_pte p gf (Suc k)) (fill_table p f (s\<lparr>pt_avail := ps\<rparr>))"
  shows "went_down L root s s'" "node_at (pt_mem s') L root v k = Some p" "pt_avail s' = ps"
proof -
  let ?mem = "pt_mem s" and ?i = "idx v (Suc k)" and ?raw = "table_pte p gf (Suc k)" and ?m = "pt_mem s'"
  have wf: "pt_wf ?mem L root" and p: "p \<notin> tables ?mem L root" "p mod page_bytes = 0" "p div page_bytes < 2 ^ 44"
    and ps: "distinct ps" "p \<notin> set ps" "set ps \<inter> tables ?mem L root = {}" "\<forall>q\<in>set ps. q mod page_bytes = 0 \<and> q div page_bytes < 2 ^ 44"
    using inv av by (auto simp: pt_inv_def)
  note tp = table_pte [OF p(2,3) gf]
  have pt: "p \<noteq> t" using node_at_in [OF path] p(1) by blast
  have m: "?m t = (?mem t)(?i := ?raw)" "\<And>i. i < 512 \<Longrightarrow> ?m p i = f i" "\<And>q. q \<noteq> t \<Longrightarrow> q \<noteq> p \<Longrightarrow> ?m q = ?mem q"
    using pt by (simp_all add: s' write_pte_def)
  have et: "entry_tables ?m k (f i) = {}" if "i < 512" for i using row [OF that] by (simp add: entry_tables_def)
  have tk: "tables ?m k p = {p}" unfolding tables_eq using m(2) et by simp
  have wk: "pt_wf ?m k p" unfolding pt_wf_eq using m(2) et row by (simp add: entry_wf_def)
  have "updated ?mem ?m L root v (Suc k) t ?raw"
  proof (rule update_entry [OF wf path])
    show "?m q = ?mem q" if "q \<in> tables ?mem L root" "q \<noteq> t" for q using m(3) that p(1) by blast
    show "entry_wf ?m (Suc k) ?raw" using tp wk by (simp add: entry_wf_def)
    show "entry_tables ?m (Suc k) ?raw \<inter> tables ?mem L root = {}" using tp tk p(1) by (simp add: entry_tables_def)
  qed (simp_all add: m(1))
  then have u: "pt_wf ?m L root" "tables ?m L root \<subseteq> tables ?mem L root \<union> {p}" "node_at ?m L root v (Suc k) = Some t"
    "\<And>w. lookup ?m L root w = (if same_path (Suc k) L v w then entry_lookup ?m (Suc k) ?raw w else lookup ?mem L root w)"
    using tp tk unfolding updated_def entry_tables_def by auto
  have look: "lookup ?m L root w = lookup ?mem L root w" for w
  proof (cases "same_path (Suc k) L v w")
    case True
    have i: "idx w (Suc k) = ?i" using True node_at_le [OF path] by (simp add: same_path_def)
    have "lookup ?m L root w = entry_lookup ?m k (f (idx w k)) w"
      using True u(4) [of w] tp m(2) [of "idx w k"] lookup_eq [of ?m k p w] by (simp add: entry_lookup_def Let_def is_table_def)
    then show ?thesis using same lookup_node [OF path True] i by simp
  qed (use u(4) in simp)
  show "pt_avail s' = ps" by (simp add: s')
  then show "went_down L root s s'"
    using u(1,2) ps look by (auto simp: went_down_def pt_inv_def translate_def same_log_def s')
  show "node_at ?m L root v k = Some p" using node_at_step [OF u(3)] tp m(1) by simp
qed

lemma split_row:
  assumes ok: "leaf_ok (Suc k) raw" and v: "valid (unpack raw 0)" "leaf (unpack raw 0)"
    and f: "f = (\<lambda>i. pack ((unpack raw (Suc k))\<lparr>ppn := ppn (unpack raw (Suc k)) + push_bit (k * bits_per_level) i, level := k\<rparr>))"
  shows "i < 512 \<Longrightarrow> \<not> is_table (f i) \<and> leaf_ok k (f i)"
    and "entry_lookup m k (f (idx w k)) w = entry_lookup m' (Suc k) raw w"
proof -
  let ?p = "unpack raw 0"
  have b: "raw < 2 ^ 64" "ppn ?p + 512 ^ Suc k \<le> 2 ^ 44" using ok v by (simp_all add: leaf_ok_def)
  have "(0::nat) < 512 ^ Suc k" by simp
  then have "ppn ?p < 2 ^ 44" using b(2) by linarith
  note sm = unpack_small [OF b(1) this]
  have sh: "push_bit (k * bits_per_level) i = i * 512 ^ k" for i :: nat
    by (simp add: push_bit_eq_mult bits_per_level_def mult.commute [of k] power_mult)
  have fl: "flags ?p AND 0x3FE = flags ?p" unfolding sm(1) by (simp add: and.assoc)
  have u: "unpack (f i) 0 = ?p\<lparr>ppn := ppn ?p + i * 512 ^ k\<rparr> \<and> leaf_ok k (f i)" if "i < 512" for i
  proof -
    have "(i + 1) * 512 ^ k \<le> 512 * 512 ^ k" using that by (intro mult_right_mono) auto
    then have "i * 512 ^ k + 512 ^ k \<le> 512 ^ Suc k" unfolding power_Suc distrib_right by simp
    then have "ppn ?p + i * 512 ^ k + 512 ^ k \<le> 2 ^ 44" using b(2) by linarith
    then have "ppn ((unpack raw (Suc k))\<lparr>ppn := ppn ?p + i * 512 ^ k, level := k\<rparr>) + 512 ^ k \<le> 2 ^ 44" by simp
    from packed [OF this] show ?thesis using sm(2) fl v by (simp add: f sh)
  qed
  show "i < 512 \<Longrightarrow> \<not> is_table (f i) \<and> leaf_ok k (f i)" using u v by (simp add: is_table_def)
  show "entry_lookup m k (f (idx w k)) w = entry_lookup m' (Suc k) raw w"
    using u [of "idx w k"] v by (simp add: entry_lookup_def Let_def mod_512_Suc add.assoc del: power_Suc)
qed

lemma alloc_page_cases:
  obtains (none) "alloc_page s = (None, s)" "pt_avail s = []"
  | (some) p ps where "alloc_page s = (Some p, s\<lparr>pt_avail := ps\<rparr>)" "pt_avail s = p # ps"
  by (cases "pt_avail s") (auto simp: alloc_page_def)

lemma went_down_refl: "pt_inv L root s \<Longrightarrow> went_down L root s s"
  by (simp add: went_down_def same_log_def)

lemma went_down_trans: "went_down L root s s' \<Longrightarrow> went_down L root s' s'' \<Longrightarrow> went_down L root s s''"
  by (simp add: went_down_def same_log_def)

definition descended :: "nat \<Rightarrow> nat \<Rightarrow> nat \<Rightarrow> nat \<Rightarrow> nat \<Rightarrow> pt_state \<Rightarrow> (pt_error, nat option) result \<times> pt_state \<Rightarrow> bool" where
  "descended L root v lo k s r \<longleftrightarrow> went_down L root s (snd r) \<and>
     length (pt_avail s) \<le> length (pt_avail (snd r)) + (k - lo) \<and>
     (case fst r of
        Inl e \<Rightarrow> e = PtNoMem \<and> length (pt_avail s) < k - lo
      | Inr None \<Rightarrow> False
      | Inr (Some t) \<Rightarrow> node_at (pt_mem (snd r)) L root v lo = Some t)"

lemma descended_step:
  assumes "went_down L root s s'" "length (pt_avail s) \<le> Suc (length (pt_avail s'))" "descended L root v lo k s' r" "lo \<le> k"
  shows "descended L root v lo (Suc k) s r"
  using assms went_down_trans [OF assms(1)] by (auto simp: descended_def split: sum.splits option.splits)

text \<open>One turn of the loop: it fails for want of a page, or goes down to a table.\<close>

definition stepped :: "nat \<Rightarrow> nat \<Rightarrow> nat \<Rightarrow> nat \<Rightarrow> nat \<Rightarrow> nat \<Rightarrow> nat \<Rightarrow> nat list \<Rightarrow> nat \<Rightarrow> pt_state \<Rightarrow> bool" where
  "stepped L root v k vaddr gf lev ls t s \<longleftrightarrow>
     pt_avail s = [] \<and> descend vaddr False gf (lev # ls) t s = (Err PtNoMem, s) \<or>
     (\<exists>p s'. descend vaddr False gf (lev # ls) t s = descend vaddr False gf ls p s' \<and> went_down L root s s' \<and>
        node_at (pt_mem s') L root v k = Some p \<and> length (pt_avail s) \<le> Suc (length (pt_avail s')))"

lemma stepped_invalid:
  assumes inv: "pt_inv L root s" and path: "node_at (pt_mem s) L root v (Suc k) = Some t" and gf: "gf = 0 \<or> gf = fl_G"
    and idx: "get_vpn_index vaddr (Suc k) = idx v (Suc k)" and nv: "\<not> valid (unpack (pt_mem s t (idx v (Suc k))) 0)"
  shows "stepped L root v k vaddr gf (Suc k) ls t s"
proof (cases s rule: alloc_page_cases)
  case none
  then show ?thesis using nv by (simp add: stepped_def idx read_pte_def Let_def alloc_pgtable_page_def)
next
  case (some p ps)
  let ?s = "write_pte t (idx v (Suc k)) (table_pte p gf (Suc k)) (fill_table p (\<lambda>i. 0) (s\<lparr>pt_avail := ps\<rparr>))"
  have "descend vaddr False gf (Suc k # ls) t s = descend vaddr False gf ls p ?s"
    using nv some by (simp add: idx read_pte_def Let_def alloc_pgtable_page_def)
  moreover have "went_down L root s ?s" "node_at (pt_mem ?s) L root v k = Some p" "pt_avail ?s = ps"
    by (rule install_table [OF inv path some(2) gf _ _ refl]; use nv in \<open>simp add: entry_lookup_def\<close>)+
  ultimately show ?thesis unfolding stepped_def using some(2) by force
qed

lemma stepped_leaf:
  assumes inv: "pt_inv L root s" and path: "node_at (pt_mem s) L root v (Suc k) = Some t" and gf: "gf = 0 \<or> gf = fl_G"
    and idx: "get_vpn_index vaddr (Suc k) = idx v (Suc k)"
    and v: "valid (unpack (pt_mem s t (idx v (Suc k))) 0)" "leaf (unpack (pt_mem s t (idx v (Suc k))) 0)"
  shows "stepped L root v k vaddr gf (Suc k) ls t s"
proof (cases s rule: alloc_page_cases)
  case none
  then show ?thesis using v by (simp add: stepped_def idx read_pte_def Let_def split_pgtable_leaf_def)
next
  case (some p ps)
  let ?raw = "pt_mem s t (idx v (Suc k))"
  define f where "f = (\<lambda>i. pack ((unpack ?raw (Suc k))\<lparr>ppn := ppn (unpack ?raw (Suc k)) + push_bit (k * bits_per_level) i, level := k\<rparr>))"
  have "entry_wf (pt_mem s) (Suc k) ?raw" using node_entry_wf [OF _ path] inv by (simp add: pt_inv_def)
  then have ok: "leaf_ok (Suc k) ?raw" using v by (simp add: entry_wf_def is_table_def)
  note row = split_row [OF ok v f_def]
  note it = install_table [OF inv path some(2) gf row(1) row(2) refl]
  have "descend vaddr False gf (Suc k # ls) t s =
      descend vaddr False gf ls p (write_pte t (idx v (Suc k)) (table_pte p gf (Suc k)) (fill_table p f (s\<lparr>pt_avail := ps\<rparr>)))"
    using v some by (simp add: idx read_pte_def Let_def split_pgtable_leaf_def f_def)
  then show ?thesis unfolding stepped_def using some(2) it by force
qed

lemma stepped_table:
  assumes inv: "pt_inv L root s" and path: "node_at (pt_mem s) L root v (Suc k) = Some t"
    and idx: "get_vpn_index vaddr (Suc k) = idx v (Suc k)"
    and v: "valid (unpack (pt_mem s t (idx v (Suc k))) 0)" "\<not> leaf (unpack (pt_mem s t (idx v (Suc k))) 0)"
  shows "stepped L root v k vaddr gf (Suc k) ls t s"
proof -
  let ?n = "next_table (pt_mem s t (idx v (Suc k)))"
  have "descend vaddr False gf (Suc k # ls) t s = descend vaddr False gf ls ?n s"
    using v by (simp add: idx read_pte_def Let_def next_table_def)
  moreover have "node_at (pt_mem s) L root v k = Some ?n" using node_at_step [OF path] v by (simp add: is_table_def)
  ultimately show ?thesis unfolding stepped_def using went_down_refl [OF inv] by force
qed

lemma descend_ok:
  assumes "pt_inv L root s" "node_at (pt_mem s) L root v k = Some t" "lo \<le> k" and gf: "gf = 0 \<or> gf = fl_G"
    and v: "v = vaddr div page_bytes"
  shows "descended L root v lo k s (descend vaddr False gf (rev [lo + 1..<k + 1]) t s)"
  using assms(1-3)
proof (induction k arbitrary: s t)
  case 0
  then show ?case by (simp add: descended_def went_down_refl)
next
  case (Suc k)
  note inv = Suc.prems(1) and path = Suc.prems(2)
  show ?case
  proof (cases "lo = Suc k")
    case True
    then show ?thesis using inv path by (simp add: descended_def went_down_refl)
  next
    case False
    then have lo: "lo \<le> k" using Suc.prems(3) by simp
    define ls where "ls = rev [lo + 1..<k + 1]"
    have levs: "rev [lo + 1..<Suc k + 1] = Suc k # ls" using lo by (simp add: ls_def)
    have idx: "get_vpn_index vaddr (Suc k) = idx v (Suc k)" by (simp add: get_vpn_index_idx v)
    have "stepped L root v k vaddr gf (Suc k) ls t s"
      using stepped_invalid [OF inv path gf idx] stepped_leaf [OF inv path gf idx] stepped_table [OF inv path idx] by blast
    then consider "pt_avail s = []" "descend vaddr False gf (Suc k # ls) t s = (Err PtNoMem, s)"
      | p s' where "descend vaddr False gf (Suc k # ls) t s = descend vaddr False gf ls p s'" "went_down L root s s'"
          "node_at (pt_mem s') L root v k = Some p" "length (pt_avail s) \<le> Suc (length (pt_avail s'))"
      unfolding stepped_def by blast
    then show ?thesis
    proof cases
      case 1
      then show ?thesis unfolding levs using inv lo by (simp add: descended_def went_down_refl)
    next
      case 2
      have "descended L root v lo k s' (descend vaddr False gf ls p s')"
        unfolding ls_def using 2(2,3) lo by (intro Suc.IH) (simp_all add: went_down_def)
      then show ?thesis unfolding levs 2(1) by (rule descended_step [OF 2(2,4) _ lo])
    qed
  qed
qed

section \<open>Writing an entry\<close>

definition leaf_lookup :: "nat \<Rightarrow> nat \<Rightarrow> nat \<Rightarrow> (nat \<times> nat) option" where
  "leaf_lookup lo raw w =
     (let p = unpack raw 0 in if valid p then Some (ppn p + w mod 512 ^ lo, flags p) else None)"

lemma entry_lookup_leaf: "\<not> is_table raw \<Longrightarrow> entry_lookup m lo raw w = leaf_lookup lo raw w"
  by (auto simp: entry_lookup_def leaf_lookup_def is_table_def Let_def)

text \<open>The references a mapping that goes away gives up.\<close>

definition released :: "(nat \<times> nat) option \<Rightarrow> nat list" where
  "released m = (case m of None \<Rightarrow> [] | Some (p, fl) \<Rightarrow> if has_flag fl fl_REFCOUNT then [p * page_bytes] else [])"

definition mapped :: "nat \<Rightarrow> nat \<Rightarrow> nat \<Rightarrow> nat \<Rightarrow> nat \<Rightarrow> pt_state \<Rightarrow> pt_state \<Rightarrow> bool" where
  "mapped L root lo v raw s s' \<longleftrightarrow> pt_inv L root s' \<and>
     (\<forall>w. translate L root s' w = (if same_path lo L v w then leaf_lookup lo raw w else translate L root s w)) \<and>
     (lo = 0 \<longrightarrow> pt_unref s' = pt_unref s @ released (translate L root s v))"

lemma cleanup_fields [simp]: "pt_mem (cleanup_pte p s) = pt_mem s" "pt_avail (cleanup_pte p s) = pt_avail s"
  by (simp_all add: cleanup_pte_def Let_def)

lemma write_leaf:
  assumes down: "went_down L root s0 s" and path: "node_at (pt_mem s) L root v lo = Some t"
    and raw: "\<not> is_table raw" "leaf_ok lo raw"
  shows "mapped L root lo v raw s0 (cleanup_pte (unpack (pt_mem s t (idx v lo)) lo) (write_pte t (idx v lo) raw s))"
proof -
  let ?mem = "pt_mem s" and ?s = "write_pte t (idx v lo) raw s" and ?old = "pt_mem s t (idx v lo)"
  have inv: "pt_inv L root s" and tr: "\<And>w. translate L root s w = translate L root s0 w" and log: "pt_unref s = pt_unref s0"
    using down by (simp_all add: went_down_def same_log_def)
  have et: "entry_tables m lo raw = {}" for m using raw(1) by (simp add: entry_tables_def)
  have "updated ?mem (pt_mem ?s) L root v lo t raw"
    using inv raw et by (intro update_entry path) (auto simp: pt_inv_def write_pte_def entry_wf_def)
  then have u: "pt_wf (pt_mem ?s) L root" "tables (pt_mem ?s) L root \<subseteq> tables ?mem L root"
    "\<And>w. lookup (pt_mem ?s) L root w = (if same_path lo L v w then leaf_lookup lo raw w else lookup ?mem L root w)"
    using et by (simp_all add: updated_def entry_lookup_leaf [OF raw(1)])
  have "pt_inv L root (cleanup_pte (unpack ?old lo) ?s)" using inv u(1,2) by (auto simp: pt_inv_def)
  moreover have "pt_unref (cleanup_pte (unpack ?old lo) ?s) = pt_unref s0 @ released (translate L root s0 v)" if "lo = 0"
  proof -
    have "same_path 0 L v v" by (simp add: same_path_def)
    then have "translate L root s0 v = entry_lookup ?mem 0 ?old v"
      using lookup_node [OF path, of v] that tr by (simp add: translate_def)
    then show ?thesis using log that by (simp add: cleanup_pte_def released_def entry_lookup_def Let_def)
  qed
  ultimately show ?thesis using u(3) tr by (simp add: mapped_def translate_def)
qed

definition map_post :: "nat \<Rightarrow> nat \<Rightarrow> nat \<Rightarrow> nat \<Rightarrow> nat \<Rightarrow> pt_state \<Rightarrow> (pt_error, unit) result \<times> pt_state \<Rightarrow> bool" where
  "map_post L root lo v raw s r \<longleftrightarrow>
     (case fst r of
        Inl e \<Rightarrow> e = PtNoMem \<and> length (pt_avail s) < L - lo \<and> went_down L root s (snd r)
      | Inr _ \<Rightarrow> mapped L root lo v raw s (snd r) \<and>
          length (pt_avail s) \<le> length (pt_avail (snd r)) + (L - lo))"

lemma map_raw_ok:
  assumes inv: "pt_inv L root s" and lo: "lo \<le> L" and v: "v = vaddr div page_bytes"
    and new: "raw = (case new_pte of None \<Rightarrow> 0 | Some p \<Rightarrow> pack p)" "\<And>p. new_pte = Some p \<Longrightarrow> valid p"
    and raw: "\<not> is_table raw" "leaf_ok lo raw"
  shows "map_post L root lo v raw s (map_raw_impl (Suc L) root vaddr new_pte lo s)"
proof -
  define gf where "gf = of_bool (is_canon_kernel_addr (Suc L) vaddr) * fl_G"
  have gf: "gf = 0 \<or> gf = fl_G" by (simp add: gf_def)
  have np: "(case new_pte of None \<Rightarrow> False | Some p \<Rightarrow> pte_is_null p) = False"
    using new(2) by (auto simp: pte_is_null_def split: option.split)
  obtain r s' where d: "descend vaddr False gf (rev [lo + 1..<Suc L]) root s = (r, s')" by (metis surj_pair)
  have ds: "descended L root v lo L s (r, s')" using descend_ok [OF inv _ lo gf v] d by simp
  have idx: "get_vpn_index vaddr lo = idx v lo" by (simp add: get_vpn_index_idx v)
  have m: "map_raw_impl (Suc L) root vaddr new_pte lo s = (case (r, s') of
      (Inl e, s') \<Rightarrow> (Err e, s') | (Inr None, s') \<Rightarrow> (Ok (), s')
    | (Inr (Some t), s') \<Rightarrow>
        (Ok (), cleanup_pte (unpack (pt_mem s' t (idx v lo)) lo) (write_pte t (idx v lo) raw s')))"
    unfolding map_raw_impl_def Let_def np gf_def [symmetric] d idx read_pte_def new(1) by simp
  show ?thesis
  proof (cases r)
    case (Inl e)
    then show ?thesis using ds m by (simp add: descended_def map_post_def)
  next
    case (Inr o)
    then obtain t where t: "r = Inr (Some t)" "node_at (pt_mem s') L root v lo = Some t" "went_down L root s s'"
      "length (pt_avail s) \<le> length (pt_avail s') + (L - lo)"
      using ds by (auto simp: descended_def split: option.splits)
    show ?thesis using m write_leaf [OF t(3,2) raw] t(4) by (simp add: t(1) map_post_def)
  qed
qed

section \<open>Ranges of pages\<close>

lemma mod_div_block: "w mod (c * K) div c = w div c mod (K::nat)" if "0 < c"
  using mod_mult2_eq [of w c K] that by simp

lemma same_path_block:
  assumes lo: "lo \<le> L" and al: "512 ^ lo dvd v"
  shows "same_path lo L v w \<longleftrightarrow>
    v mod 512 ^ Suc L \<le> w mod 512 ^ Suc L \<and> w mod 512 ^ Suc L < v mod 512 ^ Suc L + 512 ^ lo"
    and "512 ^ lo dvd v mod 512 ^ Suc L"
proof -
  define c :: nat where "c = 512 ^ lo"
  have c: "0 < c" by (simp add: c_def)
  have M: "(512::nat) ^ Suc L = c * 512 ^ Suc (L - lo)"
    unfolding c_def power_add [symmetric] using lo by (simp del: power_Suc)
  define V where "V = v mod 512 ^ Suc L"
  define W where "W = w mod 512 ^ Suc L"
  show d: "512 ^ lo dvd v mod 512 ^ Suc L"
    using al unfolding M c_def [symmetric] by (metis c_def dvd_mod dvd_triv_left)
  then obtain q where q: "V = c * q" unfolding V_def c_def by (elim dvdE)
  have "same_path lo L v w \<longleftrightarrow> W div c = V div c"
    unfolding same_path_shift [OF lo] same_path_all W_def V_def M mod_div_block [OF c]
    by (simp only: c_def)
  also have "\<dots> \<longleftrightarrow> V \<le> W \<and> W < V + c"
  proof
    assume "W div c = V div c"
    then have "W div c = q" using q c by simp
    then show "V \<le> W \<and> W < V + c"
      using q div_mult_mod_eq [of W c] mod_less_divisor [OF c, of W] by (simp add: mult.commute)
  next
    assume r: "V \<le> W \<and> W < V + c"
    then have "W div c = q" using q by (intro div_nat_eqI) auto
    then show "W div c = V div c" using q c by simp
  qed
  finally show "same_path lo L v w \<longleftrightarrow>
      v mod 512 ^ Suc L \<le> w mod 512 ^ Suc L \<and> w mod 512 ^ Suc L < v mod 512 ^ Suc L + 512 ^ lo"
    by (simp only: V_def W_def c_def)
qed

lemma dvd_or_iff: "2 ^ k dvd (a OR b) \<longleftrightarrow> 2 ^ k dvd a \<and> 2 ^ k dvd (b::nat)"
  unfolding dvd_eq_mod_eq_0 take_bit_eq_mod [symmetric] take_bit_or by (simp add: or_eq_0_iff)

lemma calc_superpage_dvd:
  assumes "page_bytes dvd paddr" "page_bytes dvd vaddr" "page_bytes dvd len" "0 < len" "lev = calc_superpage paddr vaddr len"
  shows "page_bytes * 512 ^ lev dvd paddr" "page_bytes * 512 ^ lev dvd vaddr" "page_bytes * 512 ^ lev dvd len"
proof -
  let ?n = "paddr OR vaddr OR len"
  have p: "page_bytes = 2 ^ 12" by (simp add: page_bytes_def)
  have "?n \<noteq> 0" using assms(4) by (simp add: or_eq_0_iff)
  then have n: "0 < ?n" by simp
  have "2 ^ 12 dvd ?n" using assms(1-3) by (simp only: dvd_or_iff p)
  then have tz: "12 \<le> trailing_zeros ?n" using n by (rule trailing_zeros_ge)
  have "9 * lev \<le> trailing_zeros ?n - 12" unfolding assms(5) calc_superpage_def bits_per_level_def by simp
  then have "12 + 9 * lev \<le> trailing_zeros ?n" using tz by simp
  then have "2 ^ (12 + 9 * lev) dvd ?n" by (rule dvd_trans [OF le_imp_power_dvd trailing_zeros_dvd [OF n]])
  moreover have e: "(2::nat) ^ (12 + 9 * lev) = page_bytes * 512 ^ lev" by (simp add: p power_add power_mult)
  ultimately show "page_bytes * 512 ^ lev dvd paddr" "page_bytes * 512 ^ lev dvd vaddr" "page_bytes * 512 ^ lev dvd len"
    unfolding e [symmetric] dvd_or_iff by blast+
qed

text \<open>\<open>n\<close> pages from page \<open>v\<close> on are mapped to those from page \<open>p\<close> on; all others are as before.\<close>

definition range_mapped :: "nat \<Rightarrow> nat \<Rightarrow> nat \<Rightarrow> nat \<Rightarrow> nat \<Rightarrow> nat \<Rightarrow> pt_state \<Rightarrow> pt_state \<Rightarrow> bool" where
  "range_mapped L root v p n fl s s' \<longleftrightarrow>
     (\<forall>w. translate L root s' w =
        (let V = v mod 512 ^ Suc L; W = w mod 512 ^ Suc L
         in if V \<le> W \<and> W < V + n then Some (p + (W - V), fl) else translate L root s w))"

lemma range_mapped_0: "range_mapped L root v p 0 fl s s"
  unfolding range_mapped_def Let_def by auto

lemma range_mapped_append:
  assumes "range_mapped L root v p m fl s s'" "range_mapped L root (v + m) (p + m) n fl s' s''"
    and "v mod 512 ^ Suc L + m < 512 ^ Suc L"
  shows "range_mapped L root v p (m + n) fl s s''"
proof -
  have "(v + m) mod 512 ^ Suc L = v mod 512 ^ Suc L + m"
    using assms(3) by (metis mod_add_left_eq mod_less)
  then show ?thesis using assms(1,2) unfolding range_mapped_def Let_def by auto
qed

lemma map_block:
  assumes inv: "pt_inv L root s" and lo: "lo \<le> L" and al: "512 ^ lo dvd v" and v: "v = vaddr div page_bytes"
    and p: "paddr div page_bytes + 512 ^ lo \<le> 2 ^ 44" and fl: "fl AND 0xE \<noteq> 0"
    and r: "map_raw_impl (Suc L) root vaddr
      (Some \<lparr>ppn = paddr div page_bytes, flags = fl, level = lo, valid = True, leaf = True\<rparr>) lo s = (r, s')"
  shows "case r of
      Inl e \<Rightarrow> e = PtNoMem \<and> length (pt_avail s) < L - lo \<and> went_down L root s s'
    | Inr _ \<Rightarrow> pt_inv L root s' \<and> range_mapped L root v (paddr div page_bytes) (512 ^ lo) (fl AND 0x3FE) s s'"
proof -
  let ?p = "\<lparr>ppn = paddr div page_bytes, flags = fl, level = lo, valid = True, leaf = True\<rparr>"
  have pk: "unpack (pack ?p) 0 = \<lparr>ppn = paddr div page_bytes, flags = fl AND 0x3FE, level = 0, valid = True, leaf = True\<rparr>"
    "leaf_ok lo (pack ?p)"
    using packed(1) [of ?p lo 0] packed(2) [of ?p lo] p fl by simp_all
  have "map_post L root lo v (pack ?p) s (r, s')"
    unfolding r [symmetric] by (rule map_raw_ok [OF inv lo v]) (auto simp: pk is_table_def)
  moreover have "range_mapped L root v (paddr div page_bytes) (512 ^ lo) (fl AND 0x3FE) s s'"
    if m: "mapped L root lo v (pack ?p) s s'"
    unfolding range_mapped_def Let_def
  proof
    fix w :: nat
    let ?V = "v mod 512 ^ Suc L" and ?W = "w mod 512 ^ Suc L"
    note b = same_path_block [OF lo al]
    show "translate L root s' w =
      (if ?V \<le> ?W \<and> ?W < ?V + 512 ^ lo then Some (paddr div page_bytes + (?W - ?V), fl AND 0x3FE) else translate L root s w)"
    proof (cases "?V \<le> ?W \<and> ?W < ?V + 512 ^ lo")
      case True
      obtain q where q: "?V = 512 ^ lo * q" using b(2) by (elim dvdE)
      have "w mod 512 ^ lo = ?W mod 512 ^ lo"
        using lo by (intro mod_mod_cancel [symmetric] le_imp_power_dvd) simp
      also have "\<dots> = (?W - ?V) mod 512 ^ lo" using True q by (metis le_add_diff_inverse mod_mult_self4)
      also have "\<dots> = ?W - ?V" using True by (intro mod_less) linarith
      finally show ?thesis using m True b(1) [of w] by (simp add: mapped_def leaf_lookup_def pk Let_def del: power_Suc)
    next
      case False
      then show ?thesis using m b(1) [of w] unfolding mapped_def by auto
    qed
  qed
  ultimately show ?thesis by (auto simp: map_post_def mapped_def split: sum.splits)
qed

end
