(* ===== verification/Phys_Map_Props.thy ===== *)
theory Phys_Map_Props
  imports Phys_Map_Ops
begin

text \<open>
  The properties of the page tables: mapping one page, unmapping one page, mapping a range with the
  largest pages that fit, and looking an address up; and what the code does that it should not.
\<close>

section \<open>Mapping a range\<close>

lemma superpage_size: "push_bit (bits_per_level * lev) page_bytes = page_bytes * 512 ^ lev"
  by (simp add: push_bit_eq_mult bits_per_level_def power_mult)

definition range_post :: "nat \<Rightarrow> nat \<Rightarrow> nat \<Rightarrow> nat \<Rightarrow> nat \<Rightarrow> nat \<Rightarrow> pt_state \<Rightarrow> (pt_error, unit) result \<times> pt_state \<Rightarrow> bool" where
  "range_post L root v p n fl s r \<longleftrightarrow> pt_inv L root (snd r) \<and>
     (case fst r of
        Inl e \<Rightarrow> e = PtNoMem \<and> (\<exists>m<n. range_mapped L root v p m fl s (snd r))
      | Inr _ \<Rightarrow> range_mapped L root v p n fl s (snd r))"

lemma range_post_step:
  assumes "range_mapped L root v p m fl s s'" "range_post L root (v + m) (p + m) n fl s' r"
    and "v mod 512 ^ Suc L + m < 512 ^ Suc L"
  shows "range_post L root v p (m + n) fl s r"
proof (cases "fst r")
  case (Inl e)
  then obtain k where k: "k < n" "range_mapped L root (v + m) (p + m) k fl s' (snd r)"
    using assms(2) by (auto simp: range_post_def)
  have "range_mapped L root v p (m + k) fl s (snd r)" by (rule range_mapped_append [OF assms(1) k(2) assms(3)])
  moreover have "m + k < m + n" using k(1) by simp
  ultimately have "\<exists>j<m + n. range_mapped L root v p j fl s (snd r)" by blast
  then show ?thesis using assms(2) Inl by (simp add: range_post_def)
next
  case (Inr _)
  then show ?thesis using assms(2) range_mapped_append [OF assms(1) _ assms(3)] by (simp add: range_post_def)
qed

text \<open>One turn of the loop maps \<open>c\<close> pages and goes on behind them, or fails for want of a page.\<close>

lemma map_multiple_step:
  assumes inv: "pt_inv L root s" and al: "page_bytes dvd vaddr" "page_bytes dvd paddr" and len: "len = n * page_bytes" "0 < n"
    and n: "n < 512 ^ Suc L" "paddr div page_bytes + n \<le> 2 ^ 44" and fl: "fl AND 0xE \<noteq> 0"
  shows "(\<exists>s'. map_multiple (Suc L) root vaddr paddr fl len s = (Err PtNoMem, s') \<and> went_down L root s s') \<or>
    (\<exists>c s'. 0 < c \<and> c \<le> n \<and> pt_inv L root s' \<and>
       range_mapped L root (vaddr div page_bytes) (paddr div page_bytes) c (fl AND 0x3FE) s s' \<and>
       map_multiple (Suc L) root vaddr paddr fl len s =
         map_multiple (Suc L) root (vaddr + c * page_bytes) (paddr + c * page_bytes) fl ((n - c) * page_bytes) s')"
proof -
  define lev where "lev = calc_superpage paddr vaddr len"
  define c :: nat where "c = 512 ^ lev"
  let ?v = "vaddr div page_bytes" and ?p = "paddr div page_bytes"
  have pb: "0 < page_bytes" by (simp add: page_bytes_def)
  have lpos: "0 < len" "page_bytes dvd len" using len pb by auto
  note d = calc_superpage_dvd [OF al(2,1) lpos(2,1) lev_def, folded c_def]
  obtain k where "len = page_bytes * c * k" using d(3) by (elim dvdE)
  then have "n = c * k" using len(1) pb by (simp add: mult.commute mult.left_commute)
  then have c: "c \<le> n" "0 < c" using len(2) by (auto simp: c_def)
  then have "(512::nat) ^ lev < 512 ^ Suc L" using n(1) unfolding c_def by linarith
  then have lo: "lev \<le> L" using power_less_imp_less_exp [of "512::nat" lev "Suc L"] by simp
  obtain q where "vaddr = page_bytes * c * q" using d(2) by (elim dvdE)
  then have dv: "512 ^ lev dvd ?v" using pb by (simp add: c_def)
  have pc: "?p + 512 ^ lev \<le> 2 ^ 44" using c n(2) unfolding c_def by linarith
  obtain r s' where r: "map_raw_impl (Suc L) root vaddr
      (Some \<lparr>ppn = ?p, flags = fl, level = lev, valid = True, leaf = True\<rparr>) lev s = (r, s')" by (metis surj_pair)
  note b = map_block [OF inv lo dv refl pc fl r, folded c_def]
  have len': "len - page_bytes * c = (n - c) * page_bytes" "\<not> len < page_bytes * c"
    using len(1) c(1) by (simp_all add: diff_mult_distrib2 mult.commute)
  have "map_multiple (Suc L) root vaddr paddr fl len s = (case r of
      Inl e \<Rightarrow> (Err e, s')
    | Inr _ \<Rightarrow> map_multiple (Suc L) root (vaddr + c * page_bytes) (paddr + c * page_bytes) fl ((n - c) * page_bytes) s')"
    using lpos len' r
    by (subst map_multiple.simps) (simp add: Let_def lev_def [symmetric] superpage_size c_def [symmetric] mult.commute split: sum.split)
  then show ?thesis using b c by (cases r) auto
qed

lemma map_multiple_ok:
  assumes "pt_inv L root s" "page_bytes dvd vaddr" "page_bytes dvd paddr" "len = n * page_bytes"
    and "vaddr div page_bytes mod 512 ^ Suc L + n \<le> 512 ^ Suc L" "n < 512 ^ Suc L"
    and "paddr div page_bytes + n \<le> 2 ^ 44" and fl: "fl AND 0xE \<noteq> 0"
  shows "range_post L root (vaddr div page_bytes) (paddr div page_bytes) n (fl AND 0x3FE) s
    (map_multiple (Suc L) root vaddr paddr fl len s)"
  using assms(1-7)
proof (induction n arbitrary: len vaddr paddr s rule: less_induct)
  case (less n)
  note inv = less.prems(1) and al = less.prems(2,3) and len = less.prems(4)
  let ?v = "vaddr div page_bytes" and ?p = "paddr div page_bytes"
  have pb: "0 < page_bytes" by (simp add: page_bytes_def)
  show ?case
  proof (cases "n = 0")
    case True
    then show ?thesis using len inv by (simp add: map_multiple.simps range_post_def range_mapped_0)
  next
    case False
    then consider (fail) s' where "map_multiple (Suc L) root vaddr paddr fl len s = (Err PtNoMem, s')" "went_down L root s s'"
      | (go) c s' where "0 < c" "c \<le> n" "pt_inv L root s'" "range_mapped L root ?v ?p c (fl AND 0x3FE) s s'"
          "map_multiple (Suc L) root vaddr paddr fl len s =
             map_multiple (Suc L) root (vaddr + c * page_bytes) (paddr + c * page_bytes) fl ((n - c) * page_bytes) s'"
      using map_multiple_step [OF inv al len _ less.prems(6,7) fl] by blast
    then show ?thesis
    proof cases
      case fail
      have "range_mapped L root ?v ?p 0 (fl AND 0x3FE) s s'"
        using fail(2) unfolding went_down_def range_mapped_def Let_def by auto
      then show ?thesis using fail False by (auto simp: range_post_def went_down_def)
    next
      case go
      have step: "(vaddr + c * page_bytes) div page_bytes = ?v + c" "(paddr + c * page_bytes) div page_bytes = ?p + c"
        using pb by simp_all
      show ?thesis
      proof (cases "n = c")
        case True
        then show ?thesis unfolding go(5) using go(3,4) by (simp add: map_multiple.simps range_post_def)
      next
        case False
        then have lt: "?v mod 512 ^ Suc L + c < 512 ^ Suc L" using go(2) less.prems(5) by linarith
        then have vm: "(?v + c) mod 512 ^ Suc L = ?v mod 512 ^ Suc L + c" by (metis mod_add_left_eq mod_less)
        have "range_post L root (?v + c) (?p + c) (n - c) (fl AND 0x3FE) s' (map_multiple (Suc L) root
            (vaddr + c * page_bytes) (paddr + c * page_bytes) fl ((n - c) * page_bytes) s')"
          unfolding step [symmetric]
        proof (rule less.IH [OF _ go(3) _ _ refl])
          show "n - c < n" using go(1,2) by linarith
          show "(vaddr + c * page_bytes) div page_bytes mod 512 ^ Suc L + (n - c) \<le> 512 ^ Suc L"
            unfolding step vm using less.prems(5) go(2) by linarith
          show "(paddr + c * page_bytes) div page_bytes + (n - c) \<le> 2 ^ 44"
            unfolding step using less.prems(7) go(2) by linarith
          show "n - c < 512 ^ Suc L" using less.prems(6) by linarith
        qed (use al in simp_all)
        from range_post_step [OF go(4) this lt] show ?thesis unfolding go(5) using go(2) by simp
      qed
    qed
  qed
qed

section \<open>Unmapping a range\<close>

lemma unmap_post:
  assumes "pt_inv L root s"
  shows "case pmap_unmap (Suc L) root vaddr s of
      (Inl e, s') \<Rightarrow> e = PtPanic \<and> pt_inv L root s' \<and> length (pt_avail s) < L
    | (Inr _, s') \<Rightarrow> pt_inv L root s' \<and> length (pt_avail s) \<le> length (pt_avail s') + L \<and>
        (\<forall>w. translate L root s' w =
          (if w mod 512 ^ Suc L = vaddr div page_bytes mod 512 ^ Suc L then None else translate L root s w)) \<and>
        pt_unref s' = pt_unref s @ released (translate L root s (vaddr div page_bytes))"
proof -
  obtain r s' where r: "map_raw_impl (Suc L) root vaddr None 0 s = (r, s')" by (metis surj_pair)
  have "map_post L root 0 (vaddr div page_bytes) 0 s (r, s')"
    unfolding r [symmetric] by (rule map_raw_ok [OF assms]) auto
  then show ?thesis
    using r by (auto simp: pmap_unmap_def map_post_def went_down_def mapped_def same_path_all leaf_lookup_def
        split: sum.splits simp del: power_Suc)
qed

definition range_unmapped :: "nat \<Rightarrow> nat \<Rightarrow> nat \<Rightarrow> nat \<Rightarrow> pt_state \<Rightarrow> pt_state \<Rightarrow> bool" where
  "range_unmapped L root v n s s' \<longleftrightarrow>
     (\<forall>w. translate L root s' w =
        (let V = v mod 512 ^ Suc L; W = w mod 512 ^ Suc L
         in if V \<le> W \<and> W < V + n then None else translate L root s w))"

definition unmap_range_post :: "nat \<Rightarrow> nat \<Rightarrow> nat \<Rightarrow> nat \<Rightarrow> pt_state \<Rightarrow> (pt_error, unit) result \<times> pt_state \<Rightarrow> bool" where
  "unmap_range_post L root v n s r \<longleftrightarrow> pt_inv L root (snd r) \<and>
     (case fst r of
        Inl e \<Rightarrow> e = PtPanic \<and> length (pt_avail s) < n * L
      | Inr _ \<Rightarrow> range_unmapped L root v n s (snd r) \<and> length (pt_avail s) \<le> length (pt_avail (snd r)) + n * L)"

lemma unmap_multiple_ok:
  assumes "pt_inv L root s" "vaddr div page_bytes mod 512 ^ Suc L + n \<le> 512 ^ Suc L"
  shows "unmap_range_post L root (vaddr div page_bytes) n s (unmap_multiple (Suc L) root vaddr (n * page_bytes) s)"
  using assms
proof (induction n arbitrary: vaddr s)
  case 0
  then show ?case by (auto simp: unmap_multiple.simps unmap_range_post_def range_unmapped_def Let_def)
next
  case (Suc n)
  have pb: "0 < page_bytes" by (simp add: page_bytes_def)
  let ?v = "vaddr div page_bytes"
  obtain r s' where r: "pmap_unmap (Suc L) root vaddr s = (r, s')" by (metis surj_pair)
  note u = unmap_post [OF Suc.prems(1), of vaddr, unfolded r prod.case]
  have step: "(vaddr + page_bytes) div page_bytes = ?v + 1" using pb by (simp add: div_add_self2)
  have m: "unmap_multiple (Suc L) root vaddr (Suc n * page_bytes) s = (case r of
      Inl e \<Rightarrow> (Err e, s') | Inr _ \<Rightarrow> unmap_multiple (Suc L) root (vaddr + page_bytes) (n * page_bytes) s')"
    using pb r by (subst unmap_multiple.simps) (simp split: sum.split)
  show ?case
  proof (cases r)
    case (Inl e)
    then show ?thesis using u m by (simp add: unmap_range_post_def)
  next
    case (Inr x)
    then have u': "pt_inv L root s'" "length (pt_avail s) \<le> length (pt_avail s') + L"
      "\<And>w. translate L root s' w = (if w mod 512 ^ Suc L = ?v mod 512 ^ Suc L then None else translate L root s w)"
      using u by auto
    show ?thesis
    proof (cases n)
      case 0
      then show ?thesis unfolding m using Inr u'
        by (auto simp: unmap_multiple.simps unmap_range_post_def range_unmapped_def Let_def simp del: power_Suc)
    next
      case (Suc k)
      then have lt: "?v mod 512 ^ Suc L + 1 < 512 ^ Suc L" using Suc.prems(2) by linarith
      then have vm: "(?v + 1) mod 512 ^ Suc L = ?v mod 512 ^ Suc L + 1" by (metis mod_add_left_eq mod_less)
      have "(vaddr + page_bytes) div page_bytes mod 512 ^ Suc L + n \<le> 512 ^ Suc L"
        unfolding step vm using Suc.prems(2) by linarith
      note ih = Suc.IH [OF u'(1) this, unfolded step]
      have "range_unmapped L root ?v (Suc n) s t" if t: "range_unmapped L root (?v + 1) n s' t" for t
        unfolding range_unmapped_def Let_def
      proof
        fix w :: nat
        show "translate L root t w = (if ?v mod 512 ^ Suc L \<le> w mod 512 ^ Suc L \<and> w mod 512 ^ Suc L < ?v mod 512 ^ Suc L + Suc n
            then None else translate L root s w)"
          using t [unfolded range_unmapped_def Let_def vm, rule_format, of w] u'(3) [of w] by auto
      qed
      then show ?thesis unfolding m using Inr ih u'(2) by (auto simp: unmap_range_post_def split: sum.splits)
    qed
  qed
qed

section \<open>Looking up\<close>

text \<open>A walk ends, and its result is the translation.\<close>

lemma walk_levels_ok:
  "pt_wf (pt_mem s) l t \<Longrightarrow> \<exists>pte. walk_levels s vaddr 0 (rev [0..<Suc l]) t = Some pte \<and> level pte \<le> l \<and>
     lookup (pt_mem s) l t (vaddr div page_bytes) =
       (if valid pte then Some (ppn pte + vaddr div page_bytes mod 512 ^ level pte, flags pte) else None)"
proof (induction l arbitrary: t)
  case 0
  then show ?case by (simp add: Let_def get_vpn_index_idx read_pte_def)
next
  case (Suc l)
  let ?v = "vaddr div page_bytes" let ?raw = "pt_mem s t (idx ?v (Suc l))"
  have levs: "rev [0..<Suc (Suc l)] = Suc l # rev [0..<Suc l]" by simp
  have w: "walk_levels s vaddr 0 (rev [0..<Suc (Suc l)]) t =
      (if valid (unpack ?raw 0) \<and> \<not> leaf (unpack ?raw 0) then walk_levels s vaddr 0 (rev [0..<Suc l]) (next_table ?raw)
       else Some (unpack ?raw (Suc l)))"
    unfolding levs by (simp add: Let_def get_vpn_index_idx read_pte_def next_table_def del: upt_Suc)
  show ?case
  proof (cases "valid (unpack ?raw 0) \<and> \<not> leaf (unpack ?raw 0)")
    case True
    have "pt_wf (pt_mem s) l (next_table ?raw)"
      using Suc.prems True idx_less [of ?v "Suc l"] by (auto simp: is_table_def)
    from Suc.IH [OF this] show ?thesis unfolding w using True by (auto simp: Let_def simp del: upt_Suc)
  next
    case False
    then show ?thesis unfolding w by (auto simp: Let_def)
  qed
qed

lemma offset_in_superpage:
  assumes "0 < (c::nat)"
  shows "vaddr - (vaddr - vaddr mod (page_bytes * c)) = vaddr div page_bytes mod c * page_bytes + vaddr mod page_bytes"
proof -
  have "vaddr mod (page_bytes * c) \<le> vaddr" by (rule mod_less_eq_dividend)
  then have "vaddr - (vaddr - vaddr mod (page_bytes * c)) = vaddr mod (page_bytes * c)" by (rule diff_diff_cancel)
  then show ?thesis using mod_mult2_eq [of vaddr page_bytes c] by (simp add: mult.commute)
qed

section \<open>Concrete tables\<close>

text \<open>A three-level page table with an empty root at page 1 and three free pages.\<close>

definition pt_demo :: pt_state where
  "pt_demo = \<lparr>pt_mem = (\<lambda>t i. 0), pt_avail = [8192, 12288, 16384], pt_freed = [], pt_unref = [], pt_dirtied = []\<rparr>"

lemma zero_mem: "pt_wf (\<lambda>t i. 0) L t" "tables (\<lambda>t i. 0) L t = {t}" "lookup (\<lambda>t i. 0) L t w = None"
proof -
  have e: "entry_tables (\<lambda>t i. 0) L 0 = {}" by (simp add: entry_tables_def)
  show "pt_wf (\<lambda>t i. 0) L t" unfolding pt_wf_eq by (simp add: e entry_wf_def)
  show "tables (\<lambda>t i. 0) L t = {t}" unfolding tables_eq by (simp add: e)
  show "lookup (\<lambda>t i. 0) L t w = None" unfolding lookup_eq by simp
qed

lemma pt_demo_inv: "pt_inv 2 4096 pt_demo" "translate 2 4096 pt_demo w = None" "length (pt_avail pt_demo) = 3"
  by (simp_all add: pt_inv_def pt_demo_def translate_def zero_mem page_bytes_def)

section \<open>Properties\<close>

text \<open>
  C3. Mapping one page. With well-formed tables and a mapping that grants some access, \<open>map\<close> either
  runs out of memory, which takes fewer free pages than there are levels below the root and changes
  no translation, or it maps exactly the page it was given, with the physical page and flags it was
  given, changes the translation of no other page whatever tables it had to create or larger pages it
  had to split, and gives up the reference of the page that was mapped there before. The tables stay
  a tree.
\<close>

theorem pmap_map_correct:
  assumes "pt_inv L root s" "paddr div page_bytes < 2 ^ 44" "has_flag fl fl_RWX"
  shows "case pmap_map (Suc L) root vaddr paddr fl s of
      (Inl e, s') \<Rightarrow> e = PtNoMem \<and> length (pt_avail s) < L \<and> pt_inv L root s' \<and>
        (\<forall>w. translate L root s' w = translate L root s w)
    | (Inr _, s') \<Rightarrow> pt_inv L root s' \<and>
        (\<forall>w. translate L root s' w =
          (if w mod 512 ^ Suc L = vaddr div page_bytes mod 512 ^ Suc L
           then Some (paddr div page_bytes, fl AND 0x3FE) else translate L root s w)) \<and>
        pt_unref s' = pt_unref s @ released (translate L root s (vaddr div page_bytes))"
proof -
  let ?p = "\<lparr>ppn = paddr div page_bytes, flags = fl, level = 0, valid = True, leaf = True\<rparr>"
  have fl: "fl AND 0xE \<noteq> 0" using assms(3) by (simp add: has_flag_def fl_RWX_def fl_defs)
  have pk: "unpack (pack ?p) 0 = \<lparr>ppn = paddr div page_bytes, flags = fl AND 0x3FE, level = 0, valid = True, leaf = True\<rparr>"
    "leaf_ok 0 (pack ?p)"
    using packed(1) [of ?p 0 0] packed(2) [of ?p 0] assms(2) fl by (simp_all add: Suc_le_eq)
  have "map_post L root 0 (vaddr div page_bytes) (pack ?p) s (pmap_map (Suc L) root vaddr paddr fl s)"
    unfolding pmap_map_def by (rule map_raw_ok [OF assms(1)]) (auto simp: pk is_table_def)
  then show ?thesis
    by (auto simp: map_post_def mapped_def went_down_def same_path_all leaf_lookup_def pk split: prod.splits sum.splits
        simp del: power_Suc)
qed

theorem pmap_map_correct_witness:
  "\<exists>s'. pmap_map 3 4096 0x5000 0x9000 6 pt_demo = (Ok (), s') \<and> pt_inv 2 4096 s' \<and>
     translate 2 4096 s' 5 = Some (9, 6) \<and> translate 2 4096 s' 6 = None"
  using pmap_map_correct [OF pt_demo_inv(1), of "0x9000" 6 "0x5000"]
  by (auto simp: page_bytes_def has_flag_def fl_RWX_def fl_defs pt_demo_inv(2,3) split: prod.splits sum.splits)



text \<open>
  C12. Mapping a range. \<open>map_multiple\<close> maps a page-aligned range, using at each step the largest page
  the alignment of both addresses and the rest of the length allow: on success every page of the
  range is mapped to the page at the same distance from the physical start, and no other translation
  changes. It fails only when it runs out of memory, and then a proper prefix of the range is mapped.
  It never panics.
\<close>

theorem map_multiple_correct:
  assumes "pt_inv L root s" "page_bytes dvd vaddr" "page_bytes dvd paddr"
    and "vaddr div page_bytes mod 512 ^ Suc L + n \<le> 512 ^ Suc L" "n < 512 ^ Suc L"
    and "paddr div page_bytes + n \<le> 2 ^ 44" "has_flag fl fl_RWX"
  shows "case map_multiple (Suc L) root vaddr paddr fl (n * page_bytes) s of
      (Inl e, s') \<Rightarrow> pt_inv L root s' \<and> e = PtNoMem \<and>
        (\<exists>m<n. range_mapped L root (vaddr div page_bytes) (paddr div page_bytes) m (fl AND 0x3FE) s s')
    | (Inr _, s') \<Rightarrow> pt_inv L root s' \<and>
        range_mapped L root (vaddr div page_bytes) (paddr div page_bytes) n (fl AND 0x3FE) s s'"
proof -
  have "fl AND 0xE \<noteq> 0" using assms(7) by (simp add: has_flag_def fl_RWX_def fl_defs)
  from map_multiple_ok [OF assms(1-3) refl assms(4-6) this] show ?thesis
    by (auto simp: range_post_def split: prod.splits sum.splits)
qed

theorem map_multiple_correct_witness:
  "case map_multiple 3 4096 0x200000 0x400000 6 (512 * page_bytes) pt_demo of
      (Inl e, s') \<Rightarrow> e = PtNoMem
    | (Inr _, s') \<Rightarrow> range_mapped 2 4096 512 1024 512 6 pt_demo s'"
  using map_multiple_correct [OF pt_demo_inv(1), of "0x200000" "0x400000" 512 6]
  by (auto simp: page_bytes_def has_flag_def fl_RWX_def fl_defs split: prod.splits sum.splits)

text \<open>
  C13. Looking up. On well-formed tables the walk reaches an entry (the \<open>unreachable!\<close> is not reached),
  and \<open>virt2phys\<close> of a canonical address gives its translation: the physical page and flags of the
  page it lies in, whatever the size of the mapping it is part of, and the offset in the page.
\<close>

theorem virt2phys_correct:
  assumes "pt_wf (pt_mem s) L root" "is_canon_addr (Suc L) vaddr"
  shows "\<exists>r. virt2phys (Suc L) root vaddr s = Some r \<and>
    (case translate L root s (vaddr div page_bytes) of
       None \<Rightarrow> \<not> v_valid r
     | Some (p, fl) \<Rightarrow> v_valid r \<and> v_paddr r = p * page_bytes + vaddr mod page_bytes \<and> v_flags r = fl)"
proof -
  obtain pte where w: "walk_levels s vaddr 0 (rev [0..<Suc L]) root = Some pte"
    "lookup (pt_mem s) L root (vaddr div page_bytes) =
       (if valid pte then Some (ppn pte + vaddr div page_bytes mod 512 ^ level pte, flags pte) else None)"
    using walk_levels_ok [OF assms(1)] by blast
  have "walk (Suc L) root vaddr s = Some pte" using w(1) by (simp add: walk_def walk_shallow_def del: upt_Suc)
  moreover have "(0::nat) < 512 ^ level pte" by simp
  note offset_in_superpage [OF this, of vaddr]
  ultimately show ?thesis
    using assms(2) w(2) by (simp add: virt2phys_def translate_def superpage_size Let_def add_mult_distrib)
qed

theorem virt2phys_correct_witness:
  "\<exists>r. virt2phys 3 4096 0x5123 pt_demo = Some r \<and> \<not> v_valid r"
proof -
  have "is_canon_addr (Suc 2) 0x5123"
    using is_canon_addr_iff [of "Suc 2" "0x5123"] by (simp add: canon_half_size_def page_bytes_def bits_per_level_def)
  then show ?thesis
    using virt2phys_correct [of pt_demo 2 4096 "0x5123"] pt_demo_inv by (simp add: pt_inv_def)
qed

section \<open>What the code gets wrong\<close>

text \<open>
  \<open>map_raw_impl\<close> takes \<open>None\<close> for a mapping that is not null (\<open>unwrap_or(false)\<close>), so unmapping a page
  whose tables do not exist creates them, and panics when there is no memory for them.
\<close>

lemma unmap_of_nothing_panics:
  "pmap_unmap 3 4096 0 (pt_demo\<lparr>pt_avail := []\<rparr>) = (Err PtPanic, pt_demo\<lparr>pt_avail := []\<rparr>)"
proof -
  have l: "rev [Suc 0..<3] = [2, 1]" by (simp add: upt_rec)
  show ?thesis
    by (simp add: pmap_unmap_def map_raw_impl_def l Let_def read_pte_def alloc_pgtable_page_def alloc_page_def pt_demo_def)
qed

text \<open>
  A three-level table with page 0 mapped readable and writable to physical page 9, a counted page.
\<close>

definition pt_mapped :: pt_state where
  "pt_mapped = \<lparr>pt_mem = (\<lambda>t i. if i \<noteq> 0 then 0 else if t = 4096 then 2049 else if t = 8192 then 3073
       else if t = 12288 then 9479 else 0),
     pt_avail = [], pt_freed = [], pt_unref = [], pt_dirtied = []\<rparr>"

lemma pt_mapped_unpack:
  "unpack 2049 l = \<lparr>ppn = 2, flags = 0, level = l, valid = True, leaf = False\<rparr>"
  "unpack 3073 l = \<lparr>ppn = 3, flags = 0, level = l, valid = True, leaf = False\<rparr>"
  "unpack 9479 l = \<lparr>ppn = 9, flags = fl_R OR fl_W OR fl_REFCOUNT, level = l, valid = True, leaf = True\<rparr>"
  by (simp_all add: unpack_def riscv_unpack_def fl_defs drop_bit_eq_div)

lemma pt_mapped_walk:
  "walk 3 4096 0 pt_mapped = Some \<lparr>ppn = 9, flags = fl_R OR fl_W OR fl_REFCOUNT, level = 0, valid = True, leaf = True\<rparr>"
proof -
  have l: "rev [0..<3] = [2, 1, 0]" by (simp add: upt_rec)
  show ?thesis
    by (simp add: walk_def walk_shallow_def l Let_def read_pte_def get_vpn_index_def pt_mapped_def pt_mapped_unpack page_bytes_def)
qed

lemma pt_mapped_descend: "descend 0 False gf [2, 1] 4096 pt_mapped = (Ok (Some 12288), pt_mapped)"
  by (simp add: Let_def read_pte_def get_vpn_index_def pt_mapped_def pt_mapped_unpack page_bytes_def)

lemma pt_mapped_replace:
  "map_raw_impl 3 4096 0 (Some \<lparr>ppn = 9, flags = fl, level = 0, valid = True, leaf = True\<rparr>) 0 pt_mapped =
     (Ok (), (write_pte 12288 0 (pack \<lparr>ppn = 9, flags = fl, level = 0, valid = True, leaf = True\<rparr>) pt_mapped)
        \<lparr>pt_unref := [9 * page_bytes]\<rparr>)"
proof -
  have l: "rev [Suc 0..<3] = [2, 1]" by (simp add: upt_rec)
  have r: "read_pte 12288 0 pt_mapped = 9479" by (simp add: read_pte_def pt_mapped_def)
  have c: "cleanup_pte (unpack 9479 0) s = s\<lparr>pt_unref := pt_unref s @ [9 * page_bytes]\<rparr>" for s
    by (simp add: cleanup_pte_def pt_mapped_unpack has_flag_def fl_defs)
  have u: "pt_unref pt_mapped = []" by (simp add: pt_mapped_def)
  have g: "get_vpn_index 0 0 = 0" by (simp add: get_vpn_index_def)
  show ?thesis by (simp add: map_raw_impl_def l pte_is_null_def pt_mapped_descend [unfolded One_nat_def] g r c u Let_def del: descend.simps)
qed

lemma protect_mapped:
  assumes "limit_flags (fl_R OR fl_W OR fl_REFCOUNT) m = fl" "fl \<noteq> (fl_R OR fl_W OR fl_REFCOUNT)"
  shows "protect 3 4096 0 page_bytes m pt_mapped =
    (Ok (), (write_pte 12288 0 (pack \<lparr>ppn = 9, flags = fl, level = 0, valid = True, leaf = True\<rparr>) pt_mapped)
        \<lparr>pt_unref := [9 * page_bytes]\<rparr>)"
proof -
  have z: "protect n r v 0 m s = (Ok (), s)" for n r v s by (simp add: protect.simps)
  have "page_bytes \<noteq> 0" by (simp add: page_bytes_def)
  then show ?thesis using assms by (subst protect.simps) (simp add: pt_mapped_walk pt_mapped_replace z Let_def)
qed

text \<open>
  \<open>protect\<close> replaces the entry through \<open>map_raw_impl\<close>, which cleans up the old one: the reference count
  of the page is decremented although the page stays mapped.
\<close>

lemma protect_drops_reference:
  "\<exists>s. protect 3 4096 0 page_bytes fl_R pt_mapped = (Ok (), s) \<and> pt_unref s = [9 * page_bytes] \<and>
     translate 2 4096 s 0 = Some (9, fl_R OR fl_REFCOUNT)"
proof -
  let ?fl = "fl_R OR fl_REFCOUNT"
  let ?raw = "pack \<lparr>ppn = 9, flags = ?fl, level = 0, valid = True, leaf = True\<rparr>"
  have fl: "limit_flags (fl_R OR fl_W OR fl_REFCOUNT) fl_R = ?fl" "?fl \<noteq> (fl_R OR fl_W OR fl_REFCOUNT)"
    by (simp_all add: limit_flags_def fl_defs)
  have u: "unpack ?raw k = \<lparr>ppn = 9, flags = ?fl, level = k, valid = True, leaf = True\<rparr>" for k
    by (simp add: unpack_pack fl_defs)
  have "translate 2 4096 ((write_pte 12288 0 ?raw pt_mapped)\<lparr>pt_unref := [9 * page_bytes]\<rparr>) 0 = Some (9, ?fl)"
    by (simp add: translate_def numeral_2_eq_2 Let_def idx_def write_pte_def pt_mapped_def pt_mapped_unpack next_table_def page_bytes_def u)
  then show ?thesis using protect_mapped [OF fl] by simp
qed

text \<open>
  Taking all access away with \<open>protect\<close> clears the three bits that make an entry a leaf but leaves it
  valid: the entry becomes a pointer to a table, and dropping the tables fails the assertion that
  the last level has none.
\<close>

lemma protect_none_breaks_drop:
  "\<exists>s. protect 3 4096 0 page_bytes 0 pt_mapped = (Ok (), s) \<and> is_table (pt_mem s 12288 0) \<and>
     drop_impl 12288 [0..<pte_per_page] 0 s = None"
proof -
  let ?raw = "pack \<lparr>ppn = 9, flags = fl_REFCOUNT, level = 0, valid = True, leaf = True\<rparr>"
  have fl: "limit_flags (fl_R OR fl_W OR fl_REFCOUNT) 0 = fl_REFCOUNT" "fl_REFCOUNT \<noteq> (fl_R OR fl_W OR fl_REFCOUNT)"
    by (simp_all add: limit_flags_def fl_defs)
  have u: "unpack ?raw k = \<lparr>ppn = 9, flags = fl_REFCOUNT, level = k, valid = True, leaf = False\<rparr>" for k
    by (simp add: unpack_pack fl_defs)
  have "0 < pte_per_page" by (simp add: pte_per_page_def)
  then have "[0..<pte_per_page] = 0 # [Suc 0..<pte_per_page]" by (rule upt_conv_Cons)
  then show ?thesis using protect_mapped [OF fl] by (simp add: is_table_def read_pte_def write_pte_def u)
qed

text \<open>
  An operation on an entry gives no table page back: a larger page written over a table leaks the
  table, and the references of the pages mapped through it.
\<close>

lemma descend_keeps_freed: "pt_freed (snd (descend vaddr np gf ls t s)) = pt_freed s"
  by (induction vaddr np gf ls t s rule: descend.induct)
    (auto simp: Let_def alloc_pgtable_page_def split_pgtable_leaf_def alloc_page_def split: option.splits list.splits)

lemma map_raw_frees_no_table: "pt_freed (snd (map_raw_impl nlev root vaddr new_pte lev s)) = pt_freed s"
proof -
  obtain r s' where d: "descend vaddr (case new_pte of None \<Rightarrow> False | Some p \<Rightarrow> pte_is_null p)
      (of_bool (is_canon_kernel_addr nlev vaddr) * fl_G) (rev [lev + 1..<nlev]) root s = (r, s')" by (metis surj_pair)
  then have "pt_freed s' = pt_freed s" using descend_keeps_freed by (metis snd_conv)
  then show ?thesis unfolding map_raw_impl_def Let_def d
    by (simp add: cleanup_pte_def Let_def split: sum.split option.split)
qed

end
