(* ===== verification/Vm_Fence.thy ===== *)
theory Vm_Fence
  imports Badger_Prelude
begin

text \<open>
  Sets of TLB fences (\<open>src/mem/vmm/vmfence.rs\<close>): a bounded array of addresses that turns into one big
  fence when it is full.
\<close>

section \<open>Model\<close>

definition big_fence_threshold :: nat where
  "big_fence_threshold = 64"

record vm_fence_set =
  fences :: "nat list"
  fence_len :: nat

definition fence_new :: vm_fence_set where
  "fence_new = \<lparr>fences = replicate big_fence_threshold 0, fence_len = 0\<rparr>"

datatype vmem_fence = FenceAll | FenceAddr nat

definition fence_execute :: "vm_fence_set \<Rightarrow> vmem_fence list" where
  "fence_execute s =
     (if fence_len s = big_fence_threshold then [FenceAll]
      else map (\<lambda>i. FenceAddr (fences s ! i)) [0..<fence_len s])"

definition fence_add :: "nat option \<Rightarrow> vm_fence_set \<Rightarrow> vm_fence_set" where
  "fence_add vaddr s =
     (case vaddr of
        Some v \<Rightarrow>
          if fence_len s < big_fence_threshold
          then s\<lparr>fences := (fences s)[fence_len s := v], fence_len := fence_len s + 1\<rparr>
          else s\<lparr>fence_len := big_fence_threshold\<rparr>
      | None \<Rightarrow> s\<lparr>fence_len := big_fence_threshold\<rparr>)"

fun copy_fences :: "nat list \<Rightarrow> nat \<Rightarrow> nat list \<Rightarrow> nat list" where
  "copy_fences [] k fs = fs"
| "copy_fences (v # vs) k fs = copy_fences vs (k + 1) (fs[k := v])"

definition fence_extend_from :: "vm_fence_set \<Rightarrow> vm_fence_set \<Rightarrow> vm_fence_set" where
  "fence_extend_from other s =
     (if fence_len s + fence_len other \<ge> big_fence_threshold then s\<lparr>fence_len := big_fence_threshold\<rparr>
      else s\<lparr>fences := copy_fences (take (fence_len other) (fences other)) (fence_len s) (fences s),
             fence_len := fence_len s + fence_len other\<rparr>)"

definition fence_clear :: "vm_fence_set \<Rightarrow> vm_fence_set" where
  "fence_clear s = s\<lparr>fence_len := 0\<rparr>"

definition fence_deref :: "vm_fence_set \<Rightarrow> nat list" where
  "fence_deref s = take (if fence_len s = big_fence_threshold then 0 else fence_len s) (fences s)"

text \<open>\<open>shootdown\<close> runs the fences on the calling processor.\<close>

definition shootdown :: "vm_fence_set \<Rightarrow> vmem_fence list" where
  "shootdown s = fence_execute s"

section \<open>What a set stands for\<close>

definition fence_ok :: "vm_fence_set \<Rightarrow> bool" where
  "fence_ok s \<longleftrightarrow> length (fences s) = big_fence_threshold \<and> fence_len s \<le> big_fence_threshold"

text \<open>The addresses a set fences; \<open>None\<close> is all of them.\<close>

definition fence_abs :: "vm_fence_set \<Rightarrow> nat set option" where
  "fence_abs s = (if fence_len s = big_fence_threshold then None else Some (set (take (fence_len s) (fences s))))"

definition covers :: "vmem_fence list \<Rightarrow> nat \<Rightarrow> bool" where
  "covers fs a \<longleftrightarrow> FenceAll \<in> set fs \<or> FenceAddr a \<in> set fs"

lemma execute_covers:
  assumes "fence_ok s"
  shows "covers (fence_execute s) a \<longleftrightarrow> (case fence_abs s of None \<Rightarrow> True | Some A \<Rightarrow> a \<in> A)"
proof (cases "fence_len s = big_fence_threshold")
  case False
  then have "fence_len s \<le> length (fences s)" using assms by (simp add: fence_ok_def)
  then have "(\<lambda>i. fences s ! i) ` {0..<fence_len s} = set (take (fence_len s) (fences s))" by (simp add: nth_image)
  then show ?thesis using False by (auto simp: covers_def fence_execute_def fence_abs_def)
qed (simp add: covers_def fence_execute_def fence_abs_def)

lemma copy_fences_take:
  "k + length vs \<le> length fs \<Longrightarrow> take (k + length vs) (copy_fences vs k fs) = take k fs @ vs \<and>
     length (copy_fences vs k fs) = length fs"
proof (induction vs arbitrary: k fs)
  case (Cons v vs)
  have "take (Suc k + length vs) (copy_fences vs (Suc k) (fs[k := v])) = take (Suc k) (fs[k := v]) @ vs"
    using Cons.IH [of "Suc k" "fs[k := v]"] Cons.prems by simp
  moreover have "take (Suc k) (fs[k := v]) = take k fs @ [v]"
    using Cons.prems by (simp add: take_Suc_conv_app_nth)
  ultimately show ?case using Cons.IH [of "Suc k" "fs[k := v]"] Cons.prems by simp
qed simp

section \<open>Sequences of operations\<close>

datatype fence_op = FAdd "nat option" | FExtend vm_fence_set | FClear

fun fence_step :: "fence_op \<Rightarrow> vm_fence_set \<Rightarrow> vm_fence_set" where
  "fence_step (FAdd v) s = fence_add v s"
| "fence_step (FExtend other) s = fence_extend_from other s"
| "fence_step FClear s = fence_clear s"

text \<open>The addresses that must be fenced after an operation, given those before it.\<close>

fun fence_need :: "fence_op \<Rightarrow> nat set \<Rightarrow> nat set" where
  "fence_need (FAdd v) A = (case v of None \<Rightarrow> UNIV | Some a \<Rightarrow> insert a A)"
| "fence_need (FExtend other) A = (case fence_abs other of None \<Rightarrow> UNIV | Some B \<Rightarrow> A \<union> B)"
| "fence_need FClear A = {}"

fun fence_op_ok :: "fence_op \<Rightarrow> bool" where
  "fence_op_ok (FExtend other) = fence_ok other"
| "fence_op_ok _ = True"

definition fence_sound :: "nat set \<Rightarrow> vm_fence_set \<Rightarrow> bool" where
  "fence_sound A s \<longleftrightarrow> fence_ok s \<and> (case fence_abs s of None \<Rightarrow> True | Some B \<Rightarrow> A = B)"

lemma fence_step_sound:
  assumes "fence_sound A s" "fence_op_ok op"
  shows "fence_sound (fence_need op A) (fence_step op s)"
proof (cases op)
  case (FAdd v)
  have l: "length (fences s) = 64" "fence_len s \<le> 64" and A: "fence_len s \<noteq> 64 \<Longrightarrow> A = set (take (fence_len s) (fences s))"
    using assms(1) by (auto simp: fence_sound_def fence_ok_def fence_abs_def big_fence_threshold_def split: if_splits)
  then show ?thesis
    by (cases v) (auto simp: FAdd fence_add_def fence_sound_def fence_ok_def fence_abs_def big_fence_threshold_def
        take_Suc_conv_app_nth)
next
  case (FExtend other)
  have l: "length (fences s) = 64" "fence_len s \<le> 64" "length (fences other) = 64" "fence_len other \<le> 64"
    and A: "fence_len s \<noteq> 64 \<Longrightarrow> A = set (take (fence_len s) (fences s))"
    using assms FExtend by (auto simp: fence_sound_def fence_ok_def fence_abs_def big_fence_threshold_def split: if_splits)
  then show ?thesis
    using copy_fences_take [of "fence_len s" "take (fence_len other) (fences other)" "fences s"]
    by (auto simp: FExtend fence_extend_from_def fence_sound_def fence_ok_def fence_abs_def big_fence_threshold_def)
next
  case FClear
  then show ?thesis using assms by (simp add: fence_clear_def fence_sound_def fence_ok_def fence_abs_def big_fence_threshold_def)
qed

lemma fold_fence_sound:
  "fence_sound A s \<Longrightarrow> list_all fence_op_ok ops \<Longrightarrow> fence_sound (fold fence_need ops A) (fold fence_step ops s)"
  by (induction ops arbitrary: A s) (auto intro: fence_step_sound)

section \<open>Properties\<close>

text \<open>
  C39. No fence is forgotten: after any sequence of additions, extensions by other sets and clearings
  of a new set, executing it fences every address added since the last clearing, whether one by one
  or all at once; and when it does not fence everything, it fences only those.
\<close>

theorem fence_complete:
  assumes "list_all fence_op_ok ops"
  shows "(a \<in> fold fence_need ops {} \<longrightarrow> covers (shootdown (fold fence_step ops fence_new)) a) \<and>
    (FenceAddr a \<in> set (shootdown (fold fence_step ops fence_new)) \<longrightarrow> a \<in> fold fence_need ops {})"
proof -
  have "fence_sound {} fence_new" by (simp add: fence_sound_def fence_ok_def fence_abs_def fence_new_def big_fence_threshold_def)
  then have s: "fence_sound (fold fence_need ops {}) (fold fence_step ops fence_new)" (is "fence_sound ?A ?s")
    using assms by (rule fold_fence_sound)
  then have "covers (fence_execute ?s) a \<longleftrightarrow> (case fence_abs ?s of None \<Rightarrow> True | Some A \<Rightarrow> a \<in> A)"
    by (intro execute_covers) (simp add: fence_sound_def)
  moreover have "fence_abs ?s = None \<Longrightarrow> FenceAddr a \<notin> set (fence_execute ?s)"
    by (auto simp: fence_abs_def fence_execute_def split: if_splits)
  ultimately show ?thesis using s by (auto simp: shootdown_def fence_sound_def covers_def split: option.splits)
qed

theorem fence_complete_witness:
  "list_all fence_op_ok [FAdd (Some 4096), FClear, FAdd (Some 8192)] \<and>
   covers (shootdown (fold fence_step [FAdd (Some 4096), FClear, FAdd (Some 8192)] fence_new)) 8192"
  using fence_complete [of "[FAdd (Some 4096), FClear, FAdd (Some 8192)]" 8192] by simp

end
