(* ===== verification/Vm_Map.thy ===== *)
theory Vm_Map
  imports Vm_Entry Phys_Map_Props Vm_Fence
begin

text \<open>
  Address spaces (\<open>VmSpaceInner\<close>, \<open>VmSpace\<close> and \<open>KernelVmSpace\<close> of \<open>src/mem/vmm/map.rs\<close>): the list of
  entries, the operations that map, protect and unmap ranges, and the handling of page faults. The
  page tables are those of \<open>Phys_Map\<close> and the fences those of \<open>Vm_Fence\<close>. The list of entries is the
  sequence an intrusive list stands for.
\<close>

section \<open>Model\<close>

record map_entry =
  e_start :: nat
  e_end :: nat
  e_inner :: map_inner

text \<open>The calls of a memory object's \<open>on_mapped\<close> and \<open>on_unmapped\<close>.\<close>

datatype vm_note = Mapped nat bool | Unmapped nat bool

text \<open>
  What the operations rely on: the number of paging levels, the root of this space's tables and of
  the kernel's, the memory objects, the page of zeroes, and which \<open>Arc\<close>s are unique.
\<close>

record vm_env =
  env_levels :: nat
  env_root :: nat
  env_kernel_root :: nat
  env_get :: "nat \<Rightarrow> nat \<Rightarrow> (nat \<times> nat) option"
  env_alloc :: "nat \<Rightarrow> nat \<Rightarrow> (vm_error, nat \<times> nat) result"
  env_len :: "nat \<Rightarrow> nat"
  env_on_mapped :: "nat \<Rightarrow> bool \<Rightarrow> bool"
  env_zeroes :: nat
  env_uniq :: "map_inner \<Rightarrow> bool"
  env_uniq_page :: "map_inner \<Rightarrow> nat \<Rightarrow> bool"

record vm_space =
  vm_map :: "map_entry list"
  vm_pt :: pt_state
  vm_res :: vm_res
  vm_flushed :: "vmem_fence list"
  vm_notes :: "vm_note list"

definition map_margin :: nat where
  "map_margin = page_bytes"

definition vm_shootdown :: "vm_fence_set \<Rightarrow> vm_space \<Rightarrow> vm_space" where
  "vm_shootdown f s = s\<lparr>vm_flushed := vm_flushed s @ shootdown f\<rparr>"

definition add_range :: "nat \<Rightarrow> nat \<Rightarrow> vm_fence_set \<Rightarrow> vm_fence_set" where
  "add_range a b f = fold (\<lambda>v. fence_add (Some v)) [a..<b] f"

fun split_entries :: "nat \<Rightarrow> map_entry list \<Rightarrow> vm_res \<Rightarrow> bool \<times> map_entry list \<times> vm_res" where
  "split_entries threshold [] r = (True, [], r)"
| "split_entries threshold (e # es) r =
     (if e_start e < threshold \<and> e_end e > threshold then
        (case try_alloc (split_cost (threshold - e_start e) (e_inner e)) r of
           (False, r1) \<Rightarrow> (False, e # es, r1)
         | (True, r1) \<Rightarrow>
             (let (first, second) = inner_split (threshold - e_start e) (e_inner e);
                  (ok, es', r2) = split_entries threshold es r1
              in (ok, e\<lparr>e_end := threshold, e_inner := first\<rparr> #
                      \<lparr>e_start = threshold, e_end = e_end e, e_inner = second\<rparr> # es', r2)))
      else (let (ok, es', r2) = split_entries threshold es r in (ok, e # es', r2)))"

definition vm_split :: "nat \<Rightarrow> vm_space \<Rightarrow> (vm_error, unit) result \<times> vm_space" where
  "vm_split threshold s =
     (let (ok, es, r) = split_entries threshold (vm_map s) (vm_res s)
      in (if ok then Ok () else Err VNoMem, s\<lparr>vm_map := es, vm_res := r\<rparr>))"

definition note_unmapped :: "map_inner \<Rightarrow> vm_note list" where
  "note_unmapped m =
     (case mapping m of None \<Rightarrow> [] | Some mp \<Rightarrow> [Unmapped (m_object mp) (has_flag (map_flags m) DENYWRITE)])"

text \<open>
  The loop of \<open>remove_mappings\<close>: the entries it leaves, the fences and the space. A panic of the page
  tables ends it.
\<close>

fun remove_loop :: "vm_env \<Rightarrow> nat \<Rightarrow> nat \<Rightarrow> map_entry list \<Rightarrow> vm_fence_set \<Rightarrow> vm_space \<Rightarrow>
    (vm_error, map_entry list) result \<times> vm_fence_set \<times> vm_space" where
  "remove_loop env lo hi [] f s = (Ok [], f, s)"
| "remove_loop env lo hi (e # es) f s =
     (if e_start e \<ge> hi then (Ok (e # es), f, s)
      else if lo \<le> e_start e then
        (case unmap_multiple (env_levels env) (env_root env) (e_start e) (e_end e - e_start e) (vm_pt s) of
           (Inl _, pt) \<Rightarrow> (Err VPanic, f, s\<lparr>vm_pt := pt\<rparr>)
         | (Inr _, pt) \<Rightarrow>
             remove_loop env lo hi es (add_range (e_start e) (e_end e) f)
               (s\<lparr>vm_pt := pt, vm_notes := vm_notes s @ note_unmapped (e_inner e)\<rparr>))
      else
        (case remove_loop env lo hi es f s of
           (Inl err, f', s') \<Rightarrow> (Err err, f', s')
         | (Inr es', f', s') \<Rightarrow> (Ok (e # es'), f', s')))"

definition remove_mappings :: "vm_env \<Rightarrow> nat \<Rightarrow> nat \<Rightarrow> vm_fence_set \<Rightarrow> vm_space \<Rightarrow>
    (vm_error, unit) result \<times> vm_fence_set \<times> vm_space" where
  "remove_mappings env lo hi f s =
     (case remove_loop env lo hi (vm_map s) f s of
        (Inl err, f', s') \<Rightarrow> (Err err, f', s')
      | (Inr es, f', s') \<Rightarrow> (Ok (), fence_clear f', vm_shootdown f' (s'\<lparr>vm_map := es\<rparr>)))"

fun insert_loop :: "nat \<Rightarrow> map_entry \<Rightarrow> map_entry list \<Rightarrow> map_entry list" where
  "insert_loop prev new [] = [new]"
| "insert_loop prev new (e # es) =
     (if prev \<le> e_start new \<and> e_start e \<ge> e_end new then new # e # es
      else e # insert_loop (e_end e) new es)"

definition insert_mapping :: "map_entry \<Rightarrow> map_entry list \<Rightarrow> map_entry list" where
  "insert_mapping new es = (if length es = 0 then new # es else insert_loop 0 new es)"

text \<open>Inserting a new entry and telling its memory object, which may refuse: the end of both \<open>map\<close> variants.\<close>

definition install_entry :: "vm_env \<Rightarrow> map_entry \<Rightarrow> vm_space \<Rightarrow> (vm_error, unit) result \<times> vm_space" where
  "install_entry env new s =
     (case mapping (e_inner new) of
        None \<Rightarrow> (Ok (), s\<lparr>vm_map := insert_mapping new (vm_map s)\<rparr>)
      | Some mp \<Rightarrow>
          (let deny = has_flag (map_flags (e_inner new)) DENYWRITE in
           if env_on_mapped env (m_object mp) deny
           then (Ok (), s\<lparr>vm_map := insert_mapping new (vm_map s), vm_notes := vm_notes s @ [Mapped (m_object mp) deny]\<rparr>)
           else (Err VObject, s)))"

definition map_fixed :: "vm_env \<Rightarrow> nat \<Rightarrow> nat \<Rightarrow> nat \<Rightarrow> nat \<Rightarrow> mapping option \<Rightarrow> vm_fence_set \<Rightarrow> vm_space \<Rightarrow>
    (vm_error, unit) result \<times> vm_fence_set \<times> vm_space" where
  "map_fixed env sz addr mflags pflags mo f s =
     (case vm_split addr s of
        (Inl e, s1) \<Rightarrow> (Err e, f, s1)
      | (Inr _, s1) \<Rightarrow>
     (case vm_split (addr + sz) s1 of
        (Inl e, s2) \<Rightarrow> (Err e, f, s2)
      | (Inr _, s2) \<Rightarrow>
     (case try_alloc 1 (vm_res s2) of
        (False, r) \<Rightarrow> (Err VNoMem, f, s2\<lparr>vm_res := r\<rparr>)
      | (True, r) \<Rightarrow>
     (case remove_mappings env addr (addr + sz) f (s2\<lparr>vm_res := r\<rparr>) of
        (Inl e, f', s3) \<Rightarrow> (Err e, f', s3)
      | (Inr _, f', s3) \<Rightarrow>
          (let (res, s4) = install_entry env \<lparr>e_start = addr, e_end = addr + sz,
                 e_inner = \<lparr>prot_flags = pflags, map_flags = mflags, amap = None, mapping = mo\<rparr>\<rparr> s3
           in (res, f', s4))))))"

definition abs_diff :: "nat \<Rightarrow> nat \<Rightarrow> nat" where
  "abs_diff a b = (if a < b then b - a else a - b)"

text \<open>The search of \<open>map_dynamic\<close>: the closest gap so far, its size, and the end of the entries passed.\<close>

fun gap_loop :: "nat \<Rightarrow> nat \<Rightarrow> nat \<Rightarrow> map_entry list \<Rightarrow> nat option \<times> nat \<times> nat \<Rightarrow> nat option \<times> nat \<times> nat" where
  "gap_loop lo sz hint [] acc = acc"
| "gap_loop lo sz hint (e # es) (closest, closest_size, prev) =
     (if (case closest of None \<Rightarrow> False | Some c \<Rightarrow> abs_diff prev hint > abs_diff c hint)
      then (closest, closest_size, prev)
      else
        (let start = max (e_start e) lo;
             (closest', size') = (if start \<ge> prev + sz + 2 * map_margin then (Some prev, start - prev) else (closest, closest_size))
         in gap_loop lo sz hint es (closest', size', max (e_end e) lo)))"

definition closest_gap :: "nat \<Rightarrow> nat \<Rightarrow> nat \<Rightarrow> nat \<Rightarrow> map_entry list \<Rightarrow> (nat \<times> nat) option" where
  "closest_gap lo hi sz hint es =
     (let (closest, closest_size, prev) = gap_loop lo sz hint es (None, 0, lo);
          (closest', size') =
            (if (case closest of None \<Rightarrow> True | Some c \<Rightarrow> abs_diff prev hint \<le> abs_diff c hint) \<and> hi \<ge> prev + sz
             then (Some prev, hi - prev) else (closest, closest_size))
      in map_option (\<lambda>c. (c, size')) closest')"

text \<open>Where \<open>map_dynamic\<close> puts an entry; additions saturate at the largest \<open>usize\<close>.\<close>

definition place_in :: "nat \<Rightarrow> nat \<Rightarrow> nat \<Rightarrow> nat \<Rightarrow> nat option" where
  "place_in lo hi sz hint =
     (if hi - lo < sz + 2 * map_margin then None
      else if hint < lo + map_margin then Some (lo + map_margin)
      else if min (hint + sz) (2 ^ 64 - 1) > hi - map_margin then Some (hi - sz - map_margin)
      else Some hint)"

definition place_dynamic :: "nat \<Rightarrow> nat \<Rightarrow> nat \<Rightarrow> nat \<Rightarrow> map_entry list \<Rightarrow> nat option" where
  "place_dynamic lo hi sz hint es =
     (if length es > 0 then
        (case closest_gap lo hi sz hint es of
           None \<Rightarrow> None
         | Some (c, n) \<Rightarrow> place_in (max lo c) (min hi (c + n)) sz hint)
      else place_in lo hi sz hint)"

definition map_dynamic :: "vm_env \<Rightarrow> nat \<Rightarrow> nat \<Rightarrow> nat \<times> nat \<Rightarrow> nat \<Rightarrow> nat \<Rightarrow> mapping option \<Rightarrow> vm_space \<Rightarrow>
    (vm_error, nat) result \<times> vm_space" where
  "map_dynamic env sz hint bounds mflags pflags mo s =
     (case place_dynamic (fst bounds) (snd bounds) sz hint (vm_map s) of
        None \<Rightarrow> (Err VNoMem, s)
      | Some addr \<Rightarrow>
     (case try_alloc 1 (vm_res s) of
        (False, r) \<Rightarrow> (Err VNoMem, s\<lparr>vm_res := r\<rparr>)
      | (True, r) \<Rightarrow>
     (case install_entry env \<lparr>e_start = addr, e_end = addr + sz,
              e_inner = \<lparr>prot_flags = pflags, map_flags = mflags, amap = None, mapping = mo\<rparr>\<rparr> (s\<lparr>vm_res := r\<rparr>) of
        (Inl e, s') \<Rightarrow> (Err e, s')
      | (Inr _, s') \<Rightarrow> (Ok addr, s'))))"

text \<open>The flags a faulting page is mapped with.\<close>

definition fault_flags :: "nat \<Rightarrow> nat \<Rightarrow> map_inner \<Rightarrow> nat" where
  "fault_flags vaddr page m =
     (let prot = (if \<not> mp_writable page \<and> \<not> has_flag (map_flags m) SHARED then prot_flags m AND (255 - prot_WRITE) else prot_flags m);
          fl = (into_mmu_flags prot OR fl_A);
          fl = (if as_isize vaddr > 0 then fl OR fl_U else fl OR fl_G);
          fl = (if mp_refcounted page then fl OR fl_REFCOUNT else fl)
      in if \<not> mp_tracks_dirty page then fl OR fl_D else fl)"

text \<open>Dropping a translation that does not allow the access, with its fence; the first part of \<open>fault_impl\<close>.\<close>

definition fault_drop :: "vm_env \<Rightarrow> nat \<Rightarrow> vm_fence_set \<Rightarrow> vm_space \<Rightarrow> (vm_error, unit) result \<times> vm_fence_set \<times> vm_space" where
  "fault_drop env page_vaddr f s =
     (case pmap_unmap (env_levels env) (env_root env) page_vaddr (vm_pt s) of
        (Inl _, pt) \<Rightarrow> (Err VPanic, f, s\<lparr>vm_pt := pt\<rparr>)
      | (Inr _, pt) \<Rightarrow>
          (let f' = fence_add (Some page_vaddr) f in (Ok (), fence_clear f', vm_shootdown f' (s\<lparr>vm_pt := pt\<rparr>))))"

text \<open>Finding or making the page of an entry.\<close>

definition fault_page :: "vm_env \<Rightarrow> nat \<Rightarrow> bool \<Rightarrow> map_inner \<Rightarrow> vm_res \<Rightarrow> (vm_error, nat \<times> nat) result \<times> map_inner \<times> vm_res" where
  "fault_page env offset for_writing m r =
     (case inner_get_page (env_get env) (env_zeroes env) (env_uniq env m) (env_uniq_page env m offset) offset m of
        Some (page, n) \<Rightarrow>
          if for_writing \<and> \<not> mp_writable page
          then inner_alloc_page (env_alloc env) (env_zeroes env) (env_uniq env m) (env_uniq_page env m offset) offset for_writing m r
          else (Ok (page, n), m, r)
      | None \<Rightarrow>
          inner_alloc_page (env_alloc env) (env_zeroes env) (env_uniq env m) (env_uniq_page env m offset) offset for_writing m r)"

text \<open>Mapping the page; the subtractions that underflow panic.\<close>

definition fault_map :: "vm_env \<Rightarrow> nat \<Rightarrow> nat \<Rightarrow> nat \<times> nat \<Rightarrow> map_entry \<Rightarrow> vm_space \<Rightarrow> (vm_error, nat) result \<times> vm_space" where
  "fault_map env vaddr page_vaddr pg e s =
     (if e_end e < page_vaddr then (Err VPanic, s)
      else
        (let len = min (snd pg) (e_end e - page_vaddr) in
         case map_multiple (env_levels env) (env_root env) page_vaddr (mp_paddr (fst pg)) (fault_flags vaddr (fst pg) (e_inner e)) len (vm_pt s) of
           (Inl PtNoMem, pt) \<Rightarrow> (Err VNoMem, s\<lparr>vm_pt := pt\<rparr>)
         | (Inl PtPanic, pt) \<Rightarrow> (Err VPanic, s\<lparr>vm_pt := pt\<rparr>)
         | (Inr _, pt) \<Rightarrow>
             if len < vaddr mod page_bytes then (Err VPanic, s\<lparr>vm_pt := pt\<rparr>)
             else (Ok (len - vaddr mod page_bytes), s\<lparr>vm_pt := pt\<rparr>)))"

definition fault_impl :: "vm_env \<Rightarrow> nat \<Rightarrow> nat \<Rightarrow> map_entry \<Rightarrow> vm_fence_set \<Rightarrow> vm_space \<Rightarrow>
    (vm_error, nat) result \<times> map_entry \<times> vm_fence_set \<times> vm_space" where
  "fault_impl env vaddr access e f s =
     (let page_vaddr = vaddr - vaddr mod page_bytes in
      case virt2phys (env_levels env) (env_root env) page_vaddr (vm_pt s) of
        None \<Rightarrow> (Err VPanic, e, f, s)
      | Some v2p \<Rightarrow>
          (let fl = (if v_valid v2p then from_mmu_flags (v_flags v2p) else 0) in
           if fl AND access = access then (Ok (page_bytes - vaddr mod page_bytes), e, fence_add (Some page_vaddr) f, s)
           else
             (case (if v_valid v2p then fault_drop env page_vaddr f s else (Ok (), f, s)) of
                (Inl err, f1, s1) \<Rightarrow> (Err err, e, f1, s1)
              | (Inr _, f1, s1) \<Rightarrow>
                  if prot_flags (e_inner e) AND access = 0 then (Err VFault, e, f1, s1)
                  else if page_vaddr < e_start e then (Err VPanic, e, f1, s1)
                  else
                    (case fault_page env (page_vaddr - e_start e) (access = prot_WRITE) (e_inner e) (vm_res s1) of
                       (Inl err, m, r) \<Rightarrow> (Err err, e\<lparr>e_inner := m\<rparr>, f1, s1\<lparr>vm_res := r\<rparr>)
                     | (Inr pg, m, r) \<Rightarrow>
                         (let (res, s2) = fault_map env vaddr page_vaddr pg (e\<lparr>e_inner := m\<rparr>) (s1\<lparr>vm_res := r\<rparr>)
                          in (res, e\<lparr>e_inner := m\<rparr>, f1, s2))))))"

text \<open>
  The loop of \<open>fault\<close>, with fuel: every turn but one that maps nothing makes progress, so \<open>size\<close> turns
  are enough unless the loop never ends, which is \<open>None\<close>.
\<close>

fun fault_loop :: "nat \<Rightarrow> vm_env \<Rightarrow> nat \<Rightarrow> nat \<Rightarrow> nat \<Rightarrow> map_entry \<Rightarrow> vm_fence_set \<Rightarrow> vm_space \<Rightarrow>
    ((vm_error, unit) result \<times> map_entry \<times> vm_fence_set \<times> vm_space) option" where
  "fault_loop fuel env vaddr access 0 e f s = Some (Ok (), e, f, s)"
| "fault_loop 0 env vaddr access (Suc n) e f s = None"
| "fault_loop (Suc fuel) env vaddr access (Suc n) e f s =
     (case fault_impl env vaddr access e f s of
        (Inl err, e', f', s') \<Rightarrow> Some (Err err, e', f', s')
      | (Inr len, e', f', s') \<Rightarrow> fault_loop fuel env ((vaddr + len) mod 2 ^ 64) access (Suc n - len) e' f' s')"

definition entry_contains :: "nat \<Rightarrow> map_entry \<Rightarrow> bool" where
  "entry_contains v e \<longleftrightarrow> e_start e \<le> v \<and> v < e_end e"

text \<open>The entry that contains the address, with the entries before and after it.\<close>

fun find_entry :: "nat \<Rightarrow> map_entry list \<Rightarrow> map_entry list \<Rightarrow> (map_entry list \<times> map_entry \<times> map_entry list) option" where
  "find_entry v pre [] = None"
| "find_entry v pre (e # es) = (if entry_contains v e then Some (pre, e, es) else find_entry v (pre @ [e]) es)"

definition fault :: "vm_env \<Rightarrow> nat \<Rightarrow> nat \<Rightarrow> nat \<Rightarrow> vm_fence_set \<Rightarrow> vm_space \<Rightarrow>
    ((vm_error, unit) result \<times> vm_fence_set \<times> vm_space) option" where
  "fault env vaddr access sz f s =
     (case find_entry vaddr [] (vm_map s) of
        None \<Rightarrow> Some (Err VFault, f, s)
      | Some (pre, e, post) \<Rightarrow>
          (case fault_loop (max sz 1) env vaddr access (max sz 1) e f s of
             None \<Rightarrow> None
           | Some (res, e', f', s') \<Rightarrow> Some (res, f', s'\<lparr>vm_map := pre @ e' # post\<rparr>)))"

definition round_up :: "nat \<Rightarrow> nat" where
  "round_up n = (n + page_bytes - 1) div page_bytes * page_bytes"

text \<open>
  \<open>VmSpaceInner::map\<close>: \<open>None\<close> is a populating loop that never ends. Arithmetic that overflows panics, as
  in builds with overflow checks.
\<close>

definition vm_map_range :: "vm_env \<Rightarrow> nat \<Rightarrow> nat \<Rightarrow> nat \<times> nat \<Rightarrow> nat \<Rightarrow> nat \<Rightarrow> mapping option \<Rightarrow> vm_space \<Rightarrow>
    ((vm_error, nat) result \<times> vm_space) option" where
  "vm_map_range env sz0 hint bounds mflags pflags mo s =
     (let sz = round_up sz0 in
      if hint mod page_bytes \<noteq> 0 \<or> sz \<ge> 2 ^ 64 then Some (Err VPanic, s)
      else if sz = 0 then Some (Err VInval, s)
      else if (case mo of None \<Rightarrow> False | Some mp \<Rightarrow> env_len env (m_object mp) < m_offset mp) then Some (Err VPanic, s)
      else if (case mo of None \<Rightarrow> False | Some mp \<Rightarrow> sz > round_up (env_len env (m_object mp) - m_offset mp)) then Some (Err VNxio, s)
      else
        (case (if has_flag mflags FIXED
               then (case map_fixed env sz hint mflags pflags mo fence_new s of
                       (Inl e, f, s1) \<Rightarrow> (Err e, f, s1) | (Inr _, f, s1) \<Rightarrow> (Ok hint, f, s1))
               else (case map_dynamic env sz hint bounds mflags pflags mo s of (res, s1) \<Rightarrow> (res, fence_new, s1))) of
           (Inl e, f, s1) \<Rightarrow> Some (Err e, s1)
         | (Inr addr, f, s1) \<Rightarrow>
             if has_flag mflags POPULATE then
               (case fault env addr (if mo = None then prot_WRITE else prot_READ) sz f s1 of
                  None \<Rightarrow> None
                | Some (Inl e, f', s2) \<Rightarrow> Some (Err e, vm_shootdown f' s2)
                | Some (Inr _, f', s2) \<Rightarrow> Some (Ok addr, vm_shootdown f' s2))
             else Some (Ok addr, vm_shootdown f s1)))"

fun protect_loop :: "vm_env \<Rightarrow> nat \<Rightarrow> nat \<Rightarrow> nat \<Rightarrow> map_entry list \<Rightarrow> vm_fence_set \<Rightarrow> pt_state \<Rightarrow>
    (vm_error, map_entry list) result \<times> vm_fence_set \<times> pt_state" where
  "protect_loop env lo hi pflags [] f pt = (Ok [], f, pt)"
| "protect_loop env lo hi pflags (e # es) f pt =
     (if e_start e \<ge> hi then (Ok (e # es), f, pt)
      else
        (case (if lo \<le> e_start e
               then (case protect (env_levels env) (env_root env) (e_start e) (e_end e - e_start e) (into_mmu_flags pflags) pt of
                       (r, pt1) \<Rightarrow> (r, e\<lparr>e_inner := (e_inner e)\<lparr>prot_flags := pflags\<rparr>\<rparr>, add_range (e_start e) (e_end e) f, pt1))
               else (Ok (), e, f, pt)) of
           (Inl _, e', f', pt1) \<Rightarrow> (Err VPanic, f, pt1)
         | (Inr _, e', f', pt1) \<Rightarrow>
             (case protect_loop env lo hi pflags es f' pt1 of
                (Inl err, f2, pt2) \<Rightarrow> (Err err, f2, pt2)
              | (Inr es', f2, pt2) \<Rightarrow> (Ok (e' # es'), f2, pt2))))"

definition vm_protect :: "vm_env \<Rightarrow> nat \<times> nat \<Rightarrow> nat \<Rightarrow> vm_space \<Rightarrow> (vm_error, unit) result \<times> vm_space" where
  "vm_protect env bounds pflags s =
     (case vm_split (fst bounds) s of
        (Inl e, s1) \<Rightarrow> (Err e, s1)
      | (Inr _, s1) \<Rightarrow>
     (case vm_split (snd bounds) s1 of
        (Inl e, s2) \<Rightarrow> (Err e, s2)
      | (Inr _, s2) \<Rightarrow>
     (case protect_loop env (fst bounds) (snd bounds) pflags (vm_map s2) fence_new (vm_pt s2) of
        (Inl e, f, pt) \<Rightarrow> (Err e, s2\<lparr>vm_pt := pt\<rparr>)
      | (Inr es, f, pt) \<Rightarrow> (Ok (), vm_shootdown f (s2\<lparr>vm_map := es, vm_pt := pt\<rparr>)))))"


definition vm_unmap :: "vm_env \<Rightarrow> nat \<times> nat \<Rightarrow> vm_space \<Rightarrow> (vm_error, unit) result \<times> vm_space" where
  "vm_unmap env bounds s =
     (let lo = fst bounds - fst bounds mod page_bytes;
          hi = (if snd bounds mod page_bytes \<noteq> 0 then snd bounds + (page_bytes - snd bounds mod page_bytes) else snd bounds)
      in case vm_split lo s of
           (Inl e, s1) \<Rightarrow> (Err e, s1)
         | (Inr _, s1) \<Rightarrow>
        (case vm_split hi s1 of
           (Inl e, s2) \<Rightarrow> (Err e, s2)
         | (Inr _, s2) \<Rightarrow>
        (case remove_mappings env lo hi fence_new s2 of
           (Inl e, f, s3) \<Rightarrow> (Err e, s3)
         | (Inr _, f, s3) \<Rightarrow> (Ok (), vm_shootdown f s3))))"

text \<open>
  \<open>shrink\<close> of the entry with number \<open>i\<close>: it also returns the pages detached from the overlay, which are
  dropped once the fences have run. Slicing past the end of the vector panics.
\<close>

definition detach_pages :: "bool \<Rightarrow> nat \<Rightarrow> map_inner \<Rightarrow> (vm_error, map_inner \<times> nat list) result" where
  "detach_pages u cutoff m =
     (case amap m of
        None \<Rightarrow> Ok (m, [])
      | Some a \<Rightarrow>
          if cutoff \<le> am_offset a
          then Ok (m\<lparr>amap := None\<rparr>, if u then List.map_filter id (am_pages a) else [])
          else
            (let start_page = (cutoff - am_offset a) div page_bytes in
             if start_page > length (am_pages a) then Err VPanic
             else Ok (m\<lparr>amap := Some (a\<lparr>am_pages := take start_page (am_pages a) @ replicate (length (am_pages a) - start_page) None\<rparr>)\<rparr>,
                      List.map_filter id (drop start_page (am_pages a)))))"

definition add_pages :: "nat \<Rightarrow> nat \<Rightarrow> vm_fence_set \<Rightarrow> vm_fence_set" where
  "add_pages a b f = fold (\<lambda>i. fence_add (Some (a + i * page_bytes))) [0..<(b - a + page_bytes - 1) div page_bytes] f"

definition vm_shrink :: "vm_env \<Rightarrow> nat \<Rightarrow> nat \<Rightarrow> vm_space \<Rightarrow> (vm_error, nat list) result \<times> vm_space" where
  "vm_shrink env i max_len s =
     (let e = vm_map s ! i; m = e_inner e; entry_len = e_end e - e_start e in
      case mapping m of
        None \<Rightarrow> (Ok [], s)
      | Some mp \<Rightarrow>
          (let cutoff = round_up (min (max_len - m_offset mp) entry_len) in
           if cutoff < entry_len then
             (case unmap_multiple (env_levels env) (env_root env) (e_start e + cutoff) (entry_len - cutoff) (vm_pt s) of
                (Inl _, pt) \<Rightarrow> (Err VPanic, s\<lparr>vm_pt := pt\<rparr>)
              | (Inr _, pt) \<Rightarrow>
                  (case detach_pages (env_uniq env m) cutoff m of
                     Inl err \<Rightarrow> (Err err, s\<lparr>vm_pt := pt\<rparr>)
                   | Inr (m', deferred) \<Rightarrow>
                       (Ok deferred, vm_shootdown (add_pages (e_start e + cutoff) (e_end e) fence_new)
                          (s\<lparr>vm_pt := pt, vm_map := (vm_map s)[i := e\<lparr>e_inner := m'\<rparr>]\<rparr>))))
           else (Ok [], s)))"

text \<open>The loop of \<open>fork\<close> over the entries: the copies made so far when an allocation fails are leaked.\<close>

fun fork_loop :: "vm_env \<Rightarrow> map_entry list \<Rightarrow> vm_fence_set \<Rightarrow> vm_space \<Rightarrow> (vm_error, map_entry list) result \<times> vm_fence_set \<times> vm_space" where
  "fork_loop env [] f s = (Ok [], f, s)"
| "fork_loop env (e # es) f s =
     (case (if has_flag (map_flags (e_inner e)) PRIVATE \<and> has_flag (prot_flags (e_inner e)) prot_WRITE
            then (case protect (env_levels env) (env_root env) (e_start e) (e_end e - e_start e)
                          (into_mmu_flags (prot_READ OR prot_EXEC)) (vm_pt s) of
                    (r, pt) \<Rightarrow> (r, add_range (e_start e) (e_end e) f, s\<lparr>vm_pt := pt\<rparr>))
            else (Ok (), f, s)) of
        (Inl _, f1, s1) \<Rightarrow> (Err VPanic, f1, s1)
      | (Inr _, f1, s1) \<Rightarrow>
          (case try_alloc 1 (vm_res s1) of
             (False, r) \<Rightarrow> (Err VNoMem, f1, s1\<lparr>vm_res := r\<rparr>)
           | (True, r) \<Rightarrow>
               (case fork_loop env es f1 (s1\<lparr>vm_res := r\<rparr>) of
                  (Inl err, f2, s2) \<Rightarrow> (Err err, f2, s2)
                | (Inr es', f2, s2) \<Rightarrow> (Ok (e # es'), f2, s2))))"

text \<open>The entries and the root table of the child.\<close>

definition vm_fork :: "vm_env \<Rightarrow> vm_space \<Rightarrow> (vm_error, map_entry list \<times> nat) result \<times> vm_space" where
  "vm_fork env s =
     (case fork_loop env (vm_map s) fence_new s of
        (Inl e, f, s1) \<Rightarrow> (Err e, s1)
      | (Inr es, f, s1) \<Rightarrow>
          (let s2 = vm_shootdown f s1 in
           case pmap_new (vm_pt s2) of
             (None, pt) \<Rightarrow> (Err VNoMem, s2\<lparr>vm_pt := pt\<rparr>)
           | (Some root, pt) \<Rightarrow> (Ok (es, root), s2\<lparr>vm_pt := broadcast_higher_half (env_kernel_root env) root pt\<rparr>)))"

fun clear_loop :: "vm_env \<Rightarrow> map_entry list \<Rightarrow> vm_fence_set \<Rightarrow> pt_state \<Rightarrow> (vm_error, unit) result \<times> vm_fence_set \<times> pt_state" where
  "clear_loop env [] f pt = (Ok (), f, pt)"
| "clear_loop env (e # es) f pt =
     (case unmap_multiple (env_levels env) (env_root env) (e_start e) (e_end e - e_start e) pt of
        (Inl _, pt1) \<Rightarrow> (Err VPanic, f, pt1)
      | (Inr _, pt1) \<Rightarrow> clear_loop env es (add_range (e_start e) (e_end e) f) pt1)"

definition vm_clear :: "vm_env \<Rightarrow> vm_space \<Rightarrow> (vm_error, unit) result \<times> vm_space" where
  "vm_clear env s =
     (case clear_loop env (vm_map s) fence_new (vm_pt s) of
        (Inl e, f, pt) \<Rightarrow> (Err e, s\<lparr>vm_map := [], vm_pt := pt\<rparr>)
      | (Inr _, f, pt) \<Rightarrow> (Ok (), vm_shootdown f (s\<lparr>vm_map := [], vm_pt := pt\<rparr>)))"

subsection \<open>User and kernel address spaces\<close>

definition user_bounds :: "vm_env \<Rightarrow> nat \<times> nat" where
  "user_bounds env = (canon_half_size (env_levels env) div 2, canon_half_size (env_levels env))"

definition user_map :: "vm_env \<Rightarrow> nat \<Rightarrow> nat \<Rightarrow> nat \<Rightarrow> nat \<Rightarrow> mapping option \<Rightarrow> vm_space \<Rightarrow>
    ((vm_error, nat) result \<times> vm_space) option" where
  "user_map env sz hint mflags pflags mo s =
     (if hint mod page_bytes \<noteq> 0 then Some (Err VInval, s)
      else if has_flag mflags FIXED \<and> (hint = 0 \<or> min (hint + sz) (2 ^ 64 - 1) \<ge> canon_half_size (env_levels env) - page_bytes)
      then Some (Err VInval, s)
      else vm_map_range env sz hint (user_bounds env) mflags (pflags AND (255 - prot_IO) AND (255 - prot_WC)) mo s)"

definition user_protect :: "vm_env \<Rightarrow> nat \<times> nat \<Rightarrow> nat \<Rightarrow> vm_space \<Rightarrow> (vm_error, unit) result \<times> vm_space" where
  "user_protect env bounds pflags s =
     (if \<not> is_canon_user_range (env_levels env) bounds then (Err VInval, s)
      else if fst bounds mod page_bytes \<noteq> 0 then (Err VInval, s)
      else vm_protect env (fst bounds, round_up (snd bounds)) pflags s)"

definition user_unmap :: "vm_env \<Rightarrow> nat \<times> nat \<Rightarrow> vm_space \<Rightarrow> (vm_error, unit) result \<times> vm_space" where
  "user_unmap env bounds s =
     (if \<not> is_canon_user_range (env_levels env) bounds then (Err VInval, s) else vm_unmap env bounds s)"

text \<open>The fence set of \<open>VmSpace::fault\<close> is dropped without a shootdown.\<close>

definition user_fault :: "vm_env \<Rightarrow> nat \<Rightarrow> nat \<Rightarrow> nat \<Rightarrow> vm_space \<Rightarrow> ((vm_error, unit) result \<times> vm_space) option" where
  "user_fault env vaddr access sz s =
     map_option (\<lambda>(r, f, s'). (r, s')) (fault env vaddr access sz fence_new s)"

definition kernel_bounds :: "vm_env \<Rightarrow> nat \<times> nat" where
  "kernel_bounds env =
     (higher_half_vaddr (env_levels env) + canon_half_size (env_levels env) div 4, 2 ^ 64 - page_bytes)"

definition kernel_map_flags :: "nat \<Rightarrow> nat" where
  "kernel_map_flags mflags =
     (if \<not> has_flag mflags LAZY_KERNEL then ((mflags OR POPULATE) AND (2 ^ 32 - 1 - PRIVATE)) OR SHARED else mflags)"

definition kernel_map :: "vm_env \<Rightarrow> nat \<Rightarrow> nat \<Rightarrow> nat \<Rightarrow> nat \<Rightarrow> mapping option \<Rightarrow> vm_space \<Rightarrow>
    ((vm_error, nat) result \<times> vm_space) option" where
  "kernel_map env sz hint mflags pflags mo s =
     (if hint mod page_bytes \<noteq> 0 then Some (Err VPanic, s)
      else if has_flag mflags FIXED \<and> hint < higher_half_vaddr (env_levels env) then Some (Err VPanic, s)
      else vm_map_range env sz hint (kernel_bounds env) (kernel_map_flags mflags) pflags mo s)"

definition in_kernel_bounds :: "vm_env \<Rightarrow> nat \<times> nat \<Rightarrow> bool" where
  "in_kernel_bounds env bounds \<longleftrightarrow> fst (kernel_bounds env) \<le> fst bounds \<and> snd (kernel_bounds env) \<ge> snd bounds"

definition kernel_protect :: "vm_env \<Rightarrow> nat \<times> nat \<Rightarrow> nat \<Rightarrow> vm_space \<Rightarrow> (vm_error, unit) result \<times> vm_space" where
  "kernel_protect env bounds pflags s =
     (if \<not> in_kernel_bounds env bounds then (Err VPanic, s) else vm_protect env bounds pflags s)"

definition kernel_unmap :: "vm_env \<Rightarrow> nat \<times> nat \<Rightarrow> vm_space \<Rightarrow> (vm_error, unit) result \<times> vm_space" where
  "kernel_unmap env bounds s =
     (if \<not> in_kernel_bounds env bounds then (Err VPanic, s) else vm_unmap env bounds s)"


text \<open>New spaces: the root of the tables; the kernel's creation panics on failure.\<close>

definition user_new :: "nat \<Rightarrow> pt_state \<Rightarrow> (vm_error, nat) result \<times> pt_state" where
  "user_new kernel_root pt =
     (case pmap_new pt of
        (None, pt1) \<Rightarrow> (Err VNoMem, pt1)
      | (Some root, pt1) \<Rightarrow> (Ok root, broadcast_higher_half kernel_root root pt1))"

definition kernel_new :: "nat \<Rightarrow> pt_state \<Rightarrow> (vm_error, nat) result \<times> pt_state" where
  "kernel_new nlev pt =
     (case pmap_new pt of
        (None, pt1) \<Rightarrow> (Err VPanic, pt1)
      | (Some root, pt1) \<Rightarrow>
          (case populate_higher_half nlev root pt1 of
             (Inl _, pt2) \<Rightarrow> (Err VPanic, pt2)
           | (Inr _, pt2) \<Rightarrow> (Ok root, pt2)))"


end
