(* ===== verification/Vm_Map_Inv.thy ===== *)
theory Vm_Map_Inv
  imports Vm_Map
begin

text \<open>
  What the entries of an address space stand for, and what the steps the operations are made of do to
  it: splitting, removing and inserting entries. The removal of translations is proved over the
  interface the page tables offer.
\<close>

section \<open>The abstract address space\<close>

text \<open>Entries are ascending, disjoint, not empty and page-aligned, and none starts below a bound.\<close>

fun vm_wf :: "nat \<Rightarrow> map_entry list \<Rightarrow> bool" where
  "vm_wf lo [] = True"
| "vm_wf lo (e # es) \<longleftrightarrow> lo \<le> e_start e \<and> e_start e < e_end e \<and> e_start e mod page_bytes = 0 \<and>
     e_end e mod page_bytes = 0 \<and> vm_wf (e_end e) es"

text \<open>An address has the protection, the flags and the memory object of the entry it lies in.\<close>

definition attrs :: "map_inner \<Rightarrow> nat \<times> nat \<times> nat option" where
  "attrs m = (prot_flags m, map_flags m, map_option m_object (mapping m))"

fun attr_at :: "map_entry list \<Rightarrow> nat \<Rightarrow> (nat \<times> nat \<times> nat option) option" where
  "attr_at [] v = None"
| "attr_at (e # es) v = (if entry_contains v e then Some (attrs (e_inner e)) else attr_at es v)"

definition no_cross :: "nat \<Rightarrow> map_entry list \<Rightarrow> bool" where
  "no_cross t es \<longleftrightarrow> list_all (\<lambda>e. t \<le> e_start e \<or> e_end e \<le> t) es"

lemma vm_wf_mono: "vm_wf lo es \<Longrightarrow> lo' \<le> lo \<Longrightarrow> vm_wf lo' es"
  by (cases es) auto

lemma vm_wf_weaken: "vm_wf lo es \<Longrightarrow> (\<And>e. e \<in> set es \<Longrightarrow> lo' \<le> e_start e) \<Longrightarrow> vm_wf lo' es"
  by (cases es) auto

lemma vm_wf_start: "vm_wf lo es \<Longrightarrow> e \<in> set es \<Longrightarrow> lo \<le> e_start e \<and> e_start e < e_end e \<and> e_start e mod page_bytes = 0 \<and> e_end e mod page_bytes = 0"
  by (induction lo es rule: vm_wf.induct) fastforce+

lemma attr_below: "vm_wf lo es \<Longrightarrow> v < lo \<Longrightarrow> attr_at es v = None"
  by (induction lo es rule: vm_wf.induct) (auto simp: entry_contains_def)

lemma attr_none: "attr_at es v = None \<longleftrightarrow> (\<forall>e\<in>set es. \<not> entry_contains v e)"
  by (induction es) auto

section \<open>Splitting\<close>

lemma inner_split_attrs: "inner_split offset m = (a, b) \<Longrightarrow> attrs a = attrs m \<and> attrs b = attrs m"
  by (auto simp: inner_split_def attrs_def split: prod.splits option.splits)

text \<open>Splitting changes no attribute, leaves no entry across the threshold and makes none cross another.\<close>

lemma split_entries_ok:
  assumes "split_entries t es r = (ok, es', r')" "vm_wf lo es" "t mod page_bytes = 0"
  shows "vm_wf lo es' \<and> attr_at es' = attr_at es \<and> (ok \<longrightarrow> no_cross t es') \<and> (\<forall>u. no_cross u es \<longrightarrow> no_cross u es')"
  using assms
proof (induction t es r arbitrary: lo ok es' r' rule: split_entries.induct)
  case (2 t e es r)
  show ?case
  proof (cases "e_start e < t \<and> t < e_end e")
    case False
    then obtain es1 where s: "split_entries t es r = (ok, es1, r')" "es' = e # es1"
      using 2(3) by (auto split: prod.splits)
    from 2(2) [OF False s(1)] 2(4,5) show ?thesis
      using False s(2) by (auto simp: no_cross_def fun_eq_iff)
  next
    case True
    show ?thesis
    proof (cases "fst (try_alloc (split_cost (t - e_start e) (e_inner e)) r)")
      case False
      then show ?thesis using 2(3,4) True by (auto split: prod.splits bool.splits)
    next
      case ok: True
      then obtain r1 a b es1 where s: "try_alloc (split_cost (t - e_start e) (e_inner e)) r = (True, r1)"
        "inner_split (t - e_start e) (e_inner e) = (a, b)" "split_entries t es r1 = (ok, es1, r')"
        "es' = e\<lparr>e_end := t, e_inner := a\<rparr> # \<lparr>e_start = t, e_end = e_end e, e_inner = b\<rparr> # es1"
        using 2(3) True by (auto simp: Let_def split: prod.splits bool.splits)
      have wf: "vm_wf (e_end e) es" using 2(4) by simp
      from 2(1) [OF True s(1) [symmetric] refl refl s(2) [symmetric] s(3) wf 2(5)] show ?thesis
        using 2(4,5) True inner_split_attrs [OF s(2)] unfolding s(4)
        by (auto simp: no_cross_def fun_eq_iff entry_contains_def)
    qed
  qed
qed (auto simp: no_cross_def)

definition keeps_rest :: "vm_space \<Rightarrow> vm_space \<Rightarrow> bool" where
  "keeps_rest s s' \<longleftrightarrow> vm_pt s' = vm_pt s \<and> vm_flushed s' = vm_flushed s \<and> vm_notes s' = vm_notes s"

lemma vm_split_ok:
  assumes "vm_split t s = (res, s')" "vm_wf lo (vm_map s)" "t mod page_bytes = 0"
  shows "vm_wf lo (vm_map s')" "attr_at (vm_map s') = attr_at (vm_map s)" "keeps_rest s s'"
    "res = Inr () \<Longrightarrow> no_cross t (vm_map s')" "no_cross u (vm_map s) \<Longrightarrow> no_cross u (vm_map s')"
proof -
  obtain ok es r where e: "split_entries t (vm_map s) (vm_res s) = (ok, es, r)" by (metis prod_cases3)
  note o = split_entries_ok [OF e assms(2,3)]
  have s': "s' = s\<lparr>vm_map := es, vm_res := r\<rparr>" "res = (if ok then Inr () else Inl VNoMem)"
    using assms(1) e by (auto simp: vm_split_def split: if_splits)
  show "vm_wf lo (vm_map s')" "attr_at (vm_map s') = attr_at (vm_map s)" "keeps_rest s s'"
    "res = Inr () \<Longrightarrow> no_cross t (vm_map s')" "no_cross u (vm_map s) \<Longrightarrow> no_cross u (vm_map s')"
    using o by (auto simp: s' keeps_rest_def split: if_splits)
qed

section \<open>Removing translations\<close>

fun unmap_ranges :: "(nat \<Rightarrow> nat \<Rightarrow> 's \<Rightarrow> ('e + unit) \<times> 's) \<Rightarrow> (nat \<times> nat) list \<Rightarrow> 's \<Rightarrow> ('e + unit) \<times> 's" where
  "unmap_ranges unm [] s = (Inr (), s)"
| "unmap_ranges unm ((v, n) # rs) s =
     (case unm v n s of (Inl e, s') \<Rightarrow> (Inl e, s') | (Inr _, s') \<Rightarrow> unmap_ranges unm rs s')"

definition in_ranges :: "(nat \<times> nat) list \<Rightarrow> nat \<Rightarrow> bool" where
  "in_ranges rs w \<longleftrightarrow> list_ex (\<lambda>(v, n). v \<le> w \<and> w < v + n) rs"

text \<open>
  What an address space relies on its page tables for: an invariant, the translation of the pages
  \<open>base\<close> to \<open>top\<close>, and removing the translations of a range of them, which fails only when fewer
  than \<open>cost\<close> pages of memory are available for each page of the range.
\<close>

locale page_tables =
  fixes inv :: "'s \<Rightarrow> bool"
    and xlate :: "'s \<Rightarrow> nat \<Rightarrow> 'm option"
    and unm :: "nat \<Rightarrow> nat \<Rightarrow> 's \<Rightarrow> ('e + unit) \<times> 's"
    and base :: nat
    and top :: nat
    and avail :: "'s \<Rightarrow> nat"
    and cost :: nat
  assumes unm_inv: "inv s \<Longrightarrow> base \<le> v \<Longrightarrow> v + n \<le> top \<Longrightarrow> inv (snd (unm v n s))"
    and unm_xlate: "inv s \<Longrightarrow> base \<le> v \<Longrightarrow> v + n \<le> top \<Longrightarrow> unm v n s = (Inr (), s') \<Longrightarrow> base \<le> w \<Longrightarrow> w < top \<Longrightarrow>
      xlate s' w = (if v \<le> w \<and> w < v + n then None else xlate s w)"
    and unm_fails: "inv s \<Longrightarrow> base \<le> v \<Longrightarrow> v + n \<le> top \<Longrightarrow> unm v n s = (Inl e, s') \<Longrightarrow> avail s < n * cost"
    and unm_uses: "inv s \<Longrightarrow> base \<le> v \<Longrightarrow> v + n \<le> top \<Longrightarrow> unm v n s = (Inr (), s') \<Longrightarrow> avail s \<le> avail s' + n * cost"
begin

lemma ranges_ok:
  assumes "inv s" "list_all (\<lambda>(v, n). base \<le> v \<and> v + n \<le> top) rs" "unmap_ranges unm rs s = (res, s')"
  shows "inv s' \<and> (res = Inr () \<longrightarrow> (\<forall>w. base \<le> w \<and> w < top \<longrightarrow>
    xlate s' w = (if in_ranges rs w then None else xlate s w))) \<and>
    (res \<noteq> Inr () \<longrightarrow> avail s < sum_list (map snd rs) * cost)"
  using assms
proof (induction rs arbitrary: s)
  case (Cons r rs)
  obtain v n where r: "r = (v, n)" by fastforce
  obtain a s1 where u: "unm v n s = (a, s1)" by fastforce
  have b: "base \<le> v" "v + n \<le> top" using Cons.prems(2) r by auto
  have i: "inv s1" using unm_inv [OF Cons.prems(1) b] u by simp
  show ?case
  proof (cases a)
    case (Inl e)
    then show ?thesis
      using Cons.prems(3) i unm_fails [OF Cons.prems(1) b, of e s1] u by (auto simp: r add_mult_distrib)
  next
    case (Inr x)
    then have "unm v n s = (Inr (), s1)" "unmap_ranges unm rs s1 = (res, s')" using u Cons.prems(3) by (auto simp: r)
    then show ?thesis
      using Cons.IH [OF i] Cons.prems(2) unm_xlate [OF Cons.prems(1) b] unm_uses [OF Cons.prems(1) b, of s1]
      by (auto simp: r in_ranges_def add_mult_distrib)
  qed
qed (auto simp: in_ranges_def)

end

text \<open>
  The page tables of \<open>Phys_Map\<close> are such tables, for the addresses of one window: all the user's, or
  all the kernel's.
\<close>

definition window :: "nat \<Rightarrow> nat" where
  "window L = 512 ^ Suc L"

definition unmap_pages :: "nat \<Rightarrow> nat \<Rightarrow> nat \<Rightarrow> nat \<Rightarrow> pt_state \<Rightarrow> (pt_error + unit) \<times> pt_state" where
  "unmap_pages L root v n s = unmap_multiple (Suc L) root (v * page_bytes) (n * page_bytes) s"

lemma in_window:
  fixes N :: nat
  assumes "k * N \<le> w" "w < (k + 1) * N"
  shows "w mod N = w - k * N"
proof -
  have "w - k * N < N" using assms by (simp add: algebra_simps)
  moreover have "w mod N = (w - k * N) mod N" using assms(1) by (metis le_add_diff_inverse mod_mult_self3)
  ultimately show ?thesis by simp
qed

interpretation pm: page_tables "pt_inv L root" "translate L root" "unmap_pages L root" "k * window L" "(k + 1) * window L"
  "\<lambda>s. length (pt_avail s)" L for L root k
proof
  fix s v n
  assume a: "pt_inv L root s" "k * window L \<le> v" "v + n \<le> (k + 1) * window L"
  have pos: "0 < window L" by (simp add: window_def)
  have le: "v mod window L + n \<le> window L"
  proof (cases "v < (k + 1) * window L")
    case True
    then show ?thesis using in_window [OF a(2) True] a(2,3) by (simp add: algebra_simps)
  next
    case False
    then have "v = (k + 1) * window L" "n = 0" using a(3) by auto
    then show ?thesis using pos by (simp add: mod_mult_self2_is_0 less_imp_le)
  qed
  have "v * page_bytes div page_bytes mod 512 ^ Suc L + n \<le> 512 ^ Suc L" using le by (simp add: window_def)
  note u = unmap_multiple_ok [OF a(1) this, folded unmap_pages_def]
  show "pt_inv L root (snd (unmap_pages L root v n s))" using u by (simp add: unmap_range_post_def)
  show "length (pt_avail s) < n * L" if "unmap_pages L root v n s = (Inl e, s')" for e s'
    using u that by (simp add: unmap_range_post_def)
  show "length (pt_avail s) \<le> length (pt_avail s') + n * L" if "unmap_pages L root v n s = (Inr (), s')" for s'
    using u that by (simp add: unmap_range_post_def)
  show "translate L root s' w = (if v \<le> w \<and> w < v + n then None else translate L root s w)"
    if "unmap_pages L root v n s = (Inr (), s')" "k * window L \<le> w" "w < (k + 1) * window L" for s' w
  proof (cases "v < (k + 1) * window L")
    case True
    have "translate L root s' w = (if v mod window L \<le> w mod window L \<and> w mod window L < v mod window L + n then None
        else translate L root s w)"
      using u that(1) by (simp add: unmap_range_post_def range_unmapped_def Let_def window_def)
    then show ?thesis using in_window [OF a(2) True] in_window [OF that(2,3)] a(2) that(2) by (simp add: diff_le_mono) (use a(2) that(2) in auto)
  next
    case False
    then have n: "n = 0" "\<not> v \<le> w" using a(3) that(3) by auto
    then show ?thesis
      using u that(1) by (auto simp: unmap_range_post_def range_unmapped_def Let_def)
  qed
qed


section \<open>Removing entries\<close>

definition starts_in :: "nat \<Rightarrow> nat \<Rightarrow> map_entry \<Rightarrow> bool" where
  "starts_in lo hi e \<longleftrightarrow> lo \<le> e_start e \<and> e_start e < hi"

definition page_range :: "map_entry \<Rightarrow> nat \<times> nat" where
  "page_range e = (e_start e div page_bytes, (e_end e - e_start e) div page_bytes)"

definition fence_entries :: "map_entry list \<Rightarrow> vm_fence_set \<Rightarrow> vm_fence_set" where
  "fence_entries es f = fold (\<lambda>e. add_range (e_start e) (e_end e)) es f"

lemma page_range_bytes:
  assumes "vm_wf lo es" "e \<in> set es"
  shows "fst (page_range e) * page_bytes = e_start e" "snd (page_range e) * page_bytes = e_end e - e_start e"
proof -
  note w = vm_wf_start [OF assms]
  show "fst (page_range e) * page_bytes = e_start e" using w by (simp add: page_range_def mod_eq_0_iff_dvd)
  have "(e_end e - e_start e) mod page_bytes = 0" using w by (simp add: mod_eq_0_iff_dvd dvd_diff_nat)
  then show "snd (page_range e) * page_bytes = e_end e - e_start e" by (simp add: page_range_def mod_eq_0_iff_dvd)
qed

lemma none_start: "vm_wf lo es \<Longrightarrow> hi \<le> lo \<Longrightarrow> filter (starts_in b hi) es = [] \<and> filter (\<lambda>e. \<not> starts_in b hi e) es = es"
  using vm_wf_start [of lo es] by (fastforce simp: filter_empty_conv filter_id_conv starts_in_def)

definition removed_post :: "nat \<Rightarrow> vm_env \<Rightarrow> map_entry list \<Rightarrow> map_entry list \<Rightarrow> vm_fence_set \<Rightarrow> vm_space \<Rightarrow>
    (vm_error, map_entry list) result \<Rightarrow> vm_fence_set \<Rightarrow> vm_space \<Rightarrow> bool" where
  "removed_post L env gone kept f s res f' s' \<longleftrightarrow>
     (\<exists>r. unmap_ranges (unmap_pages L (env_root env)) (map page_range gone) (vm_pt s) = (r, vm_pt s') \<and>
        s' = s\<lparr>vm_pt := vm_pt s', vm_notes := vm_notes s'\<rparr> \<and>
        (case res of
           Inl e \<Rightarrow> e = VPanic \<and> r \<noteq> Inr ()
         | Inr es' \<Rightarrow> r = Inr () \<and> es' = kept \<and> f' = fence_entries gone f \<and>
             vm_notes s' = vm_notes s @ concat (map (note_unmapped \<circ> e_inner) gone)))"

lemma remove_loop_ok:
  assumes "env_levels env = Suc L"
  shows "vm_wf k es \<Longrightarrow> remove_loop env lo hi es f s = (res, f', s') \<Longrightarrow>
    removed_post L env (filter (starts_in lo hi) es) (filter (\<lambda>e. \<not> starts_in lo hi e) es) f s res f' s'"
proof (induction es arbitrary: k f s res f' s')
  case Nil
  then show ?case by (auto simp: removed_post_def fence_entries_def)
next
  case (Cons e es)
  have wf: "vm_wf (e_end e) es" using Cons.prems(1) by simp
  consider (stop) "hi \<le> e_start e" | (rem) "e_start e < hi" "lo \<le> e_start e" | (keep) "e_start e < lo" "e_start e < hi" by linarith
  then show ?case
  proof cases
    case stop
    then have "vm_wf hi (e # es)" using Cons.prems(1) by auto
    from none_start [OF this order_refl, of lo] show ?thesis
      using Cons.prems(2) stop by (auto simp: removed_post_def fence_entries_def)
  next
    case keep
    obtain r1 f1 s1 where l: "remove_loop env lo hi es f s = (r1, f1, s1)" by (metis prod_cases3)
    then have "res = map_sum id (\<lambda>es'. e # es') r1" "f' = f1" "s' = s1"
      using Cons.prems(2) keep by (auto split: sum.splits)
    then show ?thesis using Cons.IH [OF wf l] keep by (cases r1) (auto simp: removed_post_def starts_in_def)
  next
    case rem
    let ?u = "unmap_pages L (env_root env) (fst (page_range e)) (snd (page_range e)) (vm_pt s)"
    have u: "unmap_multiple (env_levels env) (env_root env) (e_start e) (e_end e - e_start e) (vm_pt s) = ?u"
      using page_range_bytes [OF Cons.prems(1), of e] assms by (simp add: unmap_pages_def)
    have g: "filter (starts_in lo hi) (e # es) = e # filter (starts_in lo hi) es" using rem by (simp add: starts_in_def)
    obtain a pt where p: "?u = (a, pt)" by fastforce
    show ?thesis
    proof (cases a)
      case (Inl x)
      then show ?thesis
        using Cons.prems(2) rem u p unfolding g removed_post_def by (cases "page_range e") (auto intro!: exI [of _ "Inl x"])
    next
      case (Inr x)
      let ?s = "s\<lparr>vm_pt := pt, vm_notes := vm_notes s @ note_unmapped (e_inner e)\<rparr>"
      have "remove_loop env lo hi es (add_range (e_start e) (e_end e) f) ?s = (res, f', s')"
        using Cons.prems(2) rem u p Inr by simp
      from Cons.IH [OF wf this] show ?thesis
        using p Inr rem unfolding g removed_post_def fence_entries_def starts_in_def
        by (cases "page_range e"; cases res) auto
    qed
  qed
qed

lemma vm_wf_filter: "vm_wf k es \<Longrightarrow> vm_wf k (filter P es)"
proof (induction es arbitrary: k)
  case (Cons e es)
  then have "vm_wf (e_end e) (filter P es)" by simp
  then show ?case using Cons.prems vm_wf_mono [of "e_end e" "filter P es" k] by auto
qed simp

text \<open>Taking out the entries that start in a range no entry crosses clears exactly the range.\<close>

lemma attr_removed:
  assumes "no_cross lo es" "no_cross hi es"
  shows "attr_at (filter (\<lambda>e. \<not> starts_in lo hi e) es) v = (if lo \<le> v \<and> v < hi then None else attr_at es v)"
  using assms by (induction es) (auto simp: no_cross_def starts_in_def entry_contains_def)

lemma add_range_sound:
  assumes "fence_sound A f"
  shows "fence_sound (A \<union> {a..<b}) (add_range a b f)"
proof -
  have "fence_sound (A \<union> {a..<a + n}) (fold (\<lambda>v. fence_add (Some v)) [a..<a + n] f)" for n
  proof (induction n)
    case (Suc n)
    from fence_step_sound [OF Suc, of "FAdd (Some (a + n))"] show ?case
      by (simp add: atLeastLessThanSuc)
  qed (simp add: assms)
  from this [of "b - a"] show ?thesis by (cases "a \<le> b") (simp_all add: add_range_def assms)
qed

definition bytes_of :: "map_entry list \<Rightarrow> nat set" where
  "bytes_of es = {v. \<exists>e\<in>set es. entry_contains v e}"

lemma fence_entries_sound:
  "fence_sound A f \<Longrightarrow> fence_sound (A \<union> bytes_of es) (fence_entries es f)"
proof (induction es arbitrary: A f)
  case (Cons e es)
  have "A \<union> {e_start e..<e_end e} \<union> bytes_of es = A \<union> bytes_of (e # es)"
    by (auto simp: bytes_of_def entry_contains_def)
  then show ?case using Cons.IH [OF add_range_sound [OF Cons.prems]] by (metis fence_entries_def fold_simps(2))
qed (simp add: bytes_of_def fence_entries_def)

lemma fence_new_sound: "fence_sound {} fence_new"
  by (simp add: fence_sound_def fence_ok_def fence_abs_def fence_new_def big_fence_threshold_def)

lemma fence_clear_sound: "fence_sound A f \<Longrightarrow> fence_sound {} (fence_clear f)"
  using fence_step_sound [of A f FClear] by simp

lemma shootdown_covers: "fence_sound A f \<Longrightarrow> v \<in> A \<Longrightarrow> covers (shootdown f) v"
  using execute_covers [of f v] by (auto simp: shootdown_def fence_sound_def split: option.splits)

lemma covers_append: "covers (fs @ gs) v \<longleftrightarrow> covers fs v \<or> covers gs v"
  by (auto simp: covers_def)

section \<open>Inserting entries\<close>

lemma insert_loop_ok:
  assumes "vm_wf prev es" "prev \<le> e_start new" "vm_wf 0 [new]"
    and "\<And>e. e \<in> set es \<Longrightarrow> e_end new \<le> e_start e \<or> e_end e \<le> e_start new"
  shows "vm_wf prev (insert_loop prev new es) \<and>
    attr_at (insert_loop prev new es) v = (if entry_contains v new then Some (attrs (e_inner new)) else attr_at es v)"
  using assms
proof (induction es arbitrary: prev)
  case (Cons e es)
  have wf: "vm_wf (e_end e) es" "prev \<le> e_start e" "e_start e < e_end e" using Cons.prems(1) by auto
  show ?case
  proof (cases "e_end new \<le> e_start e")
    case True
    then show ?thesis using Cons.prems wf by auto
  next
    case False
    then have le: "e_end e \<le> e_start new" using Cons.prems(4) [of e] by auto
    then have "\<not> (prev \<le> e_start new \<and> e_end new \<le> e_start e)" using False by simp
    moreover have "\<not> (entry_contains v e \<and> entry_contains v new)" using le by (auto simp: entry_contains_def)
    ultimately show ?thesis
      using Cons.IH [OF wf(1) le Cons.prems(3)] Cons.prems(1,4) by auto
  qed
qed auto

lemma insert_mapping_ok:
  assumes "vm_wf 0 es" "vm_wf 0 [new]" "\<And>e. e \<in> set es \<Longrightarrow> e_end new \<le> e_start e \<or> e_end e \<le> e_start new"
  shows "vm_wf 0 (insert_mapping new es) \<and>
    attr_at (insert_mapping new es) v = (if entry_contains v new then Some (attrs (e_inner new)) else attr_at es v)"
  using insert_loop_ok [OF assms(1) _ assms(2,3)] assms(2) by (auto simp: insert_mapping_def)


end
