(* ===== verification/Vm_Map_Props.thy ===== *)
theory Vm_Map_Props
  imports Vm_Map_Inv
begin

text \<open>
  The operations on address spaces: unmapping, mapping at a fixed address and at one the kernel
  chooses, and changing the protection.
\<close>

section \<open>The invariant\<close>

text \<open>The entries are well-formed and lie in the window \<open>k\<close>, and the page tables are well-formed.\<close>

definition vm_inv :: "nat \<Rightarrow> nat \<Rightarrow> vm_env \<Rightarrow> vm_space \<Rightarrow> bool" where
  "vm_inv L k env s \<longleftrightarrow> env_levels env = Suc L \<and> vm_wf 0 (vm_map s) \<and> pt_inv L (env_root env) (vm_pt s) \<and>
     (\<forall>v. attr_at (vm_map s) v \<noteq> None \<longrightarrow> k * window L * page_bytes \<le> v \<and> v < (k + 1) * window L * page_bytes)"

text \<open>
  A range was cleared: its addresses have no attributes and its pages no translations, everything else
  is as before, and every address that was mapped has been fenced.
\<close>

definition cleared :: "nat \<Rightarrow> nat \<Rightarrow> vm_env \<Rightarrow> nat \<Rightarrow> nat \<Rightarrow> vm_space \<Rightarrow> vm_space \<Rightarrow> bool" where
  "cleared L k env lo hi s s' \<longleftrightarrow> vm_inv L k env s' \<and>
     (\<forall>v. attr_at (vm_map s') v = (if lo \<le> v \<and> v < hi then None else attr_at (vm_map s) v)) \<and>
     (\<forall>w. k * window L \<le> w \<and> w < (k + 1) * window L \<longrightarrow>
        translate L (env_root env) (vm_pt s') w =
          (if lo \<le> w * page_bytes \<and> w * page_bytes < hi \<and> attr_at (vm_map s) (w * page_bytes) \<noteq> None then None
           else translate L (env_root env) (vm_pt s) w)) \<and>
     (\<forall>v. lo \<le> v \<and> v < hi \<and> attr_at (vm_map s) v \<noteq> None \<longrightarrow> covers (vm_flushed s') v)"

lemma vm_inv_same: "vm_map s' = vm_map s \<Longrightarrow> vm_pt s' = vm_pt s \<Longrightarrow> vm_inv L k env s' = vm_inv L k env s"
  by (simp add: vm_inv_def)

lemma contains_page:
  assumes "vm_wf b es" "e \<in> set es"
  shows "fst (page_range e) \<le> w \<and> w < fst (page_range e) + snd (page_range e) \<longleftrightarrow> entry_contains (w * page_bytes) e"
proof -
  note p = page_range_bytes [OF assms] and w = vm_wf_start [OF assms]
  have e: "(fst (page_range e) + snd (page_range e)) * page_bytes = e_end e" using p w by (simp add: add_mult_distrib)
  have "fst (page_range e) \<le> w \<longleftrightarrow> e_start e \<le> w * page_bytes"
    unfolding p(1) [symmetric] by simp
  moreover have "w < fst (page_range e) + snd (page_range e) \<longleftrightarrow> w * page_bytes < e_end e"
    unfolding e [symmetric] by simp
  ultimately show ?thesis by (simp add: entry_contains_def)
qed

lemma started_contains:
  assumes "no_cross lo es" "no_cross hi es"
  shows "(\<exists>e\<in>set (filter (starts_in lo hi) es). entry_contains v e) \<longleftrightarrow> lo \<le> v \<and> v < hi \<and> attr_at es v \<noteq> None"
  using assms by (auto simp: attr_none no_cross_def list_all_iff starts_in_def entry_contains_def) fastforce

lemma in_ranges_removed:
  assumes "vm_wf b es" "no_cross lo es" "no_cross hi es"
  shows "in_ranges (map page_range (filter (starts_in lo hi) es)) w \<longleftrightarrow>
    lo \<le> w * page_bytes \<and> w * page_bytes < hi \<and> attr_at es (w * page_bytes) \<noteq> None"
proof -
  have "in_ranges (map page_range (filter (starts_in lo hi) es)) w \<longleftrightarrow>
      (\<exists>e\<in>set (filter (starts_in lo hi) es). entry_contains (w * page_bytes) e)"
    using contains_page [OF assms(1), of _ w] by (auto simp: in_ranges_def list_ex_iff case_prod_beta)
  then show ?thesis using started_contains [OF assms(2,3), of "w * page_bytes"] by simp
qed

text \<open>The entries of a range have no more pages than it.\<close>

lemma sum_pages_le:
  "vm_wf lo es \<Longrightarrow> list_all (\<lambda>e. e_end e \<le> hi) es \<Longrightarrow> lo \<le> hi \<Longrightarrow>
     lo + sum_list (map snd (map page_range es)) * page_bytes \<le> hi"
proof (induction es arbitrary: lo)
  case (Cons e es)
  have "e_end e + sum_list (map snd (map page_range es)) * page_bytes \<le> hi" using Cons.IH [of "e_end e"] Cons.prems by simp
  moreover have "snd (page_range e) * page_bytes = e_end e - e_start e" using page_range_bytes [OF Cons.prems(1)] by simp
  moreover have "sum_list (map snd (map page_range (e # es))) * page_bytes =
      snd (page_range e) * page_bytes + sum_list (map snd (map page_range es)) * page_bytes"
    by (simp add: add_mult_distrib)
  moreover have "lo \<le> e_start e" "e_start e < e_end e" using Cons.prems(1) by simp_all
  ultimately show ?case by linarith
qed simp

lemma inv_ranges:
  assumes "vm_inv L k env s"
  shows "list_all (\<lambda>(v, n). k * window L \<le> v \<and> v + n \<le> (k + 1) * window L) (map page_range (filter P (vm_map s)))"
proof -
  have "k * window L \<le> fst (page_range e) \<and> fst (page_range e) + snd (page_range e) \<le> (k + 1) * window L"
    if e: "e \<in> set (vm_map s)" for e
  proof -
    have wf: "vm_wf 0 (vm_map s)" using assms by (simp add: vm_inv_def)
    note p = page_range_bytes [OF wf e] and w = vm_wf_start [OF wf e]
    have "entry_contains (e_start e) e" "entry_contains (e_end e - 1) e" using w by (auto simp: entry_contains_def)
    then have "attr_at (vm_map s) (e_start e) \<noteq> None" "attr_at (vm_map s) (e_end e - 1) \<noteq> None" using e attr_none by blast+
    then have b: "k * window L * page_bytes \<le> e_start e" "e_end e - 1 < (k + 1) * window L * page_bytes"
      using assms unfolding vm_inv_def by blast+
    have "fst (page_range e) * page_bytes + snd (page_range e) * page_bytes = e_end e" using p w by simp
    then have "(fst (page_range e) + snd (page_range e)) * page_bytes \<le> (k + 1) * window L * page_bytes"
      using b(2) w by (simp add: add_mult_distrib)
    moreover have "k * window L * page_bytes \<le> fst (page_range e) * page_bytes" using p(1) b(1) by simp
    ultimately show ?thesis using mult_le_cancel2 page_bytes_pos by blast
  qed
  then show ?thesis by (auto simp: list_all_iff case_prod_beta)
qed

lemma remove_mappings_ok:
  assumes inv: "vm_inv L k env s" and nc: "no_cross lo (vm_map s)" "no_cross hi (vm_map s)" and f: "fence_sound A f"
    and r: "remove_mappings env lo hi f s = (res, f', s')"
  shows "case res of
      Inl e \<Rightarrow> e = VPanic \<and> length (pt_avail (vm_pt s)) < (hi - lo) div page_bytes * L
    | Inr _ \<Rightarrow> cleared L k env lo hi s s' \<and> fence_sound {} f' \<and> (\<forall>v\<in>A. covers (vm_flushed s') v)"
proof -
  let ?gone = "filter (starts_in lo hi) (vm_map s)"
  have wf: "vm_wf 0 (vm_map s)" and lev: "env_levels env = Suc L" and pt: "pt_inv L (env_root env) (vm_pt s)"
    using inv by (auto simp: vm_inv_def)
  obtain rl fl sl where l: "remove_loop env lo hi (vm_map s) f s = (rl, fl, sl)" by (metis prod_cases3)
  obtain x where
    x: "unmap_ranges (unmap_pages L (env_root env)) (map page_range ?gone) (vm_pt s) = (x, vm_pt sl)"
      "sl = s\<lparr>vm_pt := vm_pt sl, vm_notes := vm_notes sl\<rparr>"
      "case rl of Inl e \<Rightarrow> e = VPanic \<and> x \<noteq> Inr ()
       | Inr es' \<Rightarrow> x = Inr () \<and> es' = filter (\<lambda>e. \<not> starts_in lo hi e) (vm_map s) \<and> fl = fence_entries ?gone f"
    using remove_loop_ok [OF lev wf l] unfolding removed_post_def by (cases rl) auto
  note ok = pm.ranges_ok [OF pt inv_ranges [OF inv] x(1)]
  show ?thesis
  proof (cases rl)
    case (Inl e)
    have "list_all (\<lambda>e. lo \<le> e_start e \<and> e_end e \<le> hi) ?gone"
      using nc by (auto simp: list_all_iff no_cross_def starts_in_def)
    moreover have "?gone \<noteq> []" using x Inl by auto
    moreover have "vm_wf lo ?gone"
      using vm_wf_weaken [OF vm_wf_filter [OF wf]] calculation(1) by (auto simp: list_all_iff)
    ultimately have "lo + sum_list (map snd (map page_range ?gone)) * page_bytes \<le> hi"
      by (intro sum_pages_le) (auto simp: list_all_iff filter_empty_conv starts_in_def)
    then have "sum_list (map snd (map page_range ?gone)) \<le> (hi - lo) div page_bytes"
      by (simp add: less_eq_div_iff_mult_less_eq)
    then have le: "sum_list (map snd (map page_range ?gone)) * L \<le> (hi - lo) div page_bytes * L" by (rule mult_le_mono1)
    have e: "e = VPanic" "x \<noteq> Inr ()" "res = Inl e" using Inl x(3) l r by (auto simp: remove_mappings_def)
    then have "length (pt_avail (vm_pt s)) < sum_list (map snd (map page_range ?gone)) * L" using ok by blast
    then show ?thesis using order.strict_trans2 [OF _ le] e by simp
  next
    case (Inr es')
    then have es': "es' = filter (\<lambda>e. \<not> starts_in lo hi e) (vm_map s)" "fl = fence_entries ?gone f" "x = Inr ()" using x(3) by auto
    have s': "res = Inr ()" "f' = fence_clear fl" "s' = vm_shootdown fl (sl\<lparr>vm_map := es'\<rparr>)"
      using l r Inr by (auto simp: remove_mappings_def)
    have fs: "fence_sound (A \<union> bytes_of ?gone) fl" unfolding es'(2) by (rule fence_entries_sound [OF f])
    have at: "attr_at (vm_map s') v = (if lo \<le> v \<and> v < hi then None else attr_at (vm_map s) v)" for v
      using attr_removed [OF nc] by (simp add: s' vm_shootdown_def es'(1))
    have "vm_inv L k env s'" using inv ok vm_wf_filter [OF wf] at by (auto simp: vm_inv_def s' vm_shootdown_def es'(1) split: if_splits)
    moreover have "covers (vm_flushed s') v" if "v \<in> A \<union> bytes_of ?gone" for v
      using shootdown_covers [OF fs that] x(2) by (simp add: s' vm_shootdown_def covers_append)
    moreover have "v \<in> bytes_of ?gone \<longleftrightarrow> lo \<le> v \<and> v < hi \<and> attr_at (vm_map s) v \<noteq> None" for v
      using started_contains [OF nc, of v] unfolding bytes_of_def by blast
    moreover have "vm_pt s' = vm_pt sl" by (simp add: s' vm_shootdown_def)
    ultimately show ?thesis
      using ok es'(3) in_ranges_removed [OF wf nc] at fence_clear_sound [OF fs] s'(1,2) by (simp add: cleared_def)
  qed
qed


section \<open>Unmapping and mapping\<close>

text \<open>A failure that changed nothing but, possibly, split entries.\<close>

definition unchanged :: "nat \<Rightarrow> nat \<Rightarrow> vm_env \<Rightarrow> vm_space \<Rightarrow> vm_space \<Rightarrow> bool" where
  "unchanged L k env s s' \<longleftrightarrow> vm_inv L k env s' \<and> attr_at (vm_map s') = attr_at (vm_map s) \<and> keeps_rest s s'"

lemma split_inv:
  assumes "vm_inv L k env s" "vm_split t s = (res, s')" "t mod page_bytes = 0"
  shows "unchanged L k env s s'" "res = Inr () \<Longrightarrow> no_cross t (vm_map s')" "res = Inl e \<Longrightarrow> e = VNoMem"
    "no_cross u (vm_map s) \<Longrightarrow> no_cross u (vm_map s')"
proof -
  have wf: "vm_wf 0 (vm_map s)" using assms(1) by (simp add: vm_inv_def)
  note o = vm_split_ok [OF assms(2) wf assms(3)]
  show "unchanged L k env s s'" using assms(1) o(1-3) by (simp add: unchanged_def vm_inv_def keeps_rest_def)
  show "res = Inr () \<Longrightarrow> no_cross t (vm_map s')" "no_cross u (vm_map s) \<Longrightarrow> no_cross u (vm_map s')" using o(4,5) by auto
  show "res = Inl e \<Longrightarrow> e = VNoMem" using assms(2) by (auto simp: vm_split_def split: prod.splits if_splits)
qed

lemma unchanged_trans: "unchanged L k env s s1 \<Longrightarrow> unchanged L k env s1 s2 \<Longrightarrow> unchanged L k env s s2"
  by (simp add: unchanged_def keeps_rest_def)

text \<open>Both splits, as every operation on a range does them.\<close>

lemma split_both:
  assumes "vm_inv L k env s" "vm_split lo s = (Inr (), s1)" "vm_split hi s1 = (res, s2)"
    and "lo mod page_bytes = 0" "hi mod page_bytes = 0"
  shows "unchanged L k env s s2" "res = Inl e \<Longrightarrow> e = VNoMem"
    "res = Inr () \<Longrightarrow> no_cross lo (vm_map s2) \<and> no_cross hi (vm_map s2)"
proof -
  note a = split_inv [OF assms(1,2,4)]
  have i: "vm_inv L k env s1" using a(1) by (simp add: unchanged_def)
  note b = split_inv [OF i assms(3,5)]
  show "unchanged L k env s s2" by (rule unchanged_trans [OF a(1) b(1)])
  show "res = Inl e \<Longrightarrow> e = VNoMem" by (rule b(3))
  show "res = Inr () \<Longrightarrow> no_cross lo (vm_map s2) \<and> no_cross hi (vm_map s2)" using b(2,4) a(2) by simp
qed

lemma cleared_unchanged:
  assumes "unchanged L k env s s1" "cleared L k env lo hi s1 s2"
  shows "cleared L k env lo hi s s2"
proof -
  have e: "attr_at (vm_map s1) = attr_at (vm_map s)" "vm_pt s1 = vm_pt s"
    using assms(1) by (simp_all add: unchanged_def keeps_rest_def)
  show ?thesis using assms(2) unfolding cleared_def e .
qed

lemma round_up_code: "(if e mod page_bytes \<noteq> 0 then e + (page_bytes - e mod page_bytes) else e) = round_up e"
proof -
  define q r where "q = e div page_bytes" and "r = e mod page_bytes"
  have e: "e = q * page_bytes + r" "r < page_bytes" by (simp_all add: q_def r_def)
  show ?thesis
  proof (cases "r = 0")
    case True
    have "(q * page_bytes + (page_bytes - 1)) div page_bytes = q" by (intro div_nat_eqI) (simp_all add: page_bytes_def)
    then show ?thesis using True by (simp add: round_up_def e page_bytes_def)
  next
    case False
    have "(q * page_bytes + r + page_bytes - 1) div page_bytes = q + 1"
      using False e(2) by (intro div_nat_eqI) (simp_all add: page_bytes_def)
    then show ?thesis using False e(2) by (simp add: round_up_def e page_bytes_def)
  qed
qed

lemma round_up_mod [simp]: "round_up n mod page_bytes = 0"
  by (simp add: round_up_def)

lemma round_down_mod [simp]: "(b - b mod page_bytes) mod page_bytes = 0"
  by (simp add: minus_mod_eq_mult_div)


lemma vm_unmap_ok:
  assumes inv: "vm_inv L k env s" and u: "vm_unmap env (b, e) s = (res, s')"
  defines "lo \<equiv> b - b mod page_bytes" and "hi \<equiv> round_up e"
  shows "case res of
      Inr _ \<Rightarrow> cleared L k env lo hi s s'
    | Inl VNoMem \<Rightarrow> unchanged L k env s s'
    | Inl err \<Rightarrow> err = VPanic \<and> length (pt_avail (vm_pt s)) < (hi - lo) div page_bytes * L"
proof -
  have al: "lo mod page_bytes = 0" "hi mod page_bytes = 0" by (simp_all add: lo_def hi_def)
  note d = u [unfolded vm_unmap_def fst_conv snd_conv round_up_code, folded lo_def hi_def, unfolded Let_def]
  obtain r1 s1 where 1: "vm_split lo s = (r1, s1)" by fastforce
  note a = split_inv [OF inv 1 al(1)]
  show ?thesis
  proof (cases r1)
    case (Inl err)
    then show ?thesis using d 1 a(1) a(3) [of err] by auto
  next
    case (Inr x)
    then have 1: "vm_split lo s = (Inr (), s1)" using 1 by simp
    obtain r2 s2 where 2: "vm_split hi s1 = (r2, s2)" by fastforce
    note b = split_both [OF inv 1 2 al]
    show ?thesis
    proof (cases r2)
      case (Inl err)
      then show ?thesis using d 1 2 b(1) b(2) [of err] by auto
    next
      case (Inr y)
      obtain r3 f3 s3 where 3: "remove_mappings env lo hi fence_new s2 = (r3, f3, s3)" by (metis prod_cases3)
      have i2: "vm_inv L k env s2" "vm_pt s2 = vm_pt s" using b(1) by (simp_all add: unchanged_def keeps_rest_def)
      have nc: "no_cross lo (vm_map s2)" "no_cross hi (vm_map s2)" using b(3) Inr by simp_all
      note c = remove_mappings_ok [OF i2(1) nc fence_new_sound 3]
      show ?thesis
      proof (cases r3)
        case (Inl err)
        then show ?thesis using d 1 2 3 c Inr i2(2) by auto
      next
        case (Inr z)
        then have c3: "cleared L k env lo hi s2 s3" using c by simp
        have "cleared L k env lo hi s2 s'"
          using d 1 2 3 Inr \<open>r2 = Inr y\<close> c3
          by (auto simp: cleared_def vm_inv_def vm_shootdown_def covers_append)
        then show ?thesis using cleared_unchanged [OF b(1)] d 1 2 3 Inr \<open>r2 = Inr y\<close> by auto
      qed
    qed
  qed
qed

definition attrs_new :: "nat \<Rightarrow> nat \<Rightarrow> mapping option \<Rightarrow> nat \<times> nat \<times> nat option" where
  "attrs_new pflags mflags mo = (pflags, mflags, map_option m_object mo)"

lemma install_entry_ok:
  assumes "vm_inv L k env s" "install_entry env new s = (res, s')" "vm_wf 0 [new]"
    and free: "\<And>v. entry_contains v new \<Longrightarrow> attr_at (vm_map s) v = None"
    and win: "k * window L * page_bytes \<le> e_start new" "e_end new \<le> (k + 1) * window L * page_bytes"
  shows "case res of
      Inl e \<Rightarrow> e = VObject \<and> s' = s
    | Inr _ \<Rightarrow> vm_inv L k env s' \<and> vm_pt s' = vm_pt s \<and> vm_flushed s' = vm_flushed s \<and>
        attr_at (vm_map s') = (\<lambda>v. if entry_contains v new then Some (attrs (e_inner new)) else attr_at (vm_map s) v)"
proof -
  have wf: "vm_wf 0 (vm_map s)" using assms(1) by (simp add: vm_inv_def)
  have "e_end new \<le> e_start e \<or> e_end e \<le> e_start new" if e: "e \<in> set (vm_map s)" for e
  proof (rule ccontr)
    assume "\<not> ?thesis"
    then have "entry_contains (max (e_start e) (e_start new)) new" "entry_contains (max (e_start e) (e_start new)) e"
      using vm_wf_start [OF wf e] assms(3) by (auto simp: entry_contains_def)
    then show False using free [of "max (e_start e) (e_start new)"] e attr_none by blast
  qed
  note ins = insert_mapping_ok [OF wf assms(3) this]
  let ?s = "s\<lparr>vm_map := insert_mapping new (vm_map s)\<rparr>"
  have "vm_inv L k env ?s"
    using assms(1) ins win by (auto simp: vm_inv_def entry_contains_def)
  moreover have "res = Inl VObject \<and> s' = s \<or> res = Inr () \<and> (\<exists>n. s' = ?s\<lparr>vm_notes := n\<rparr>)"
    using assms(2) by (auto simp: install_entry_def Let_def split: option.splits if_splits intro: exI [of _ "vm_notes s"])
  moreover have "vm_inv L k env (?s\<lparr>vm_notes := n\<rparr>) = vm_inv L k env ?s" for n by (rule vm_inv_same) simp_all
  ultimately show ?thesis using ins by (auto simp: fun_eq_iff)
qed


text \<open>A range was replaced: cleared, and then given new attributes throughout.\<close>

definition remapped :: "nat \<Rightarrow> nat \<Rightarrow> vm_env \<Rightarrow> nat \<Rightarrow> nat \<Rightarrow> nat \<times> nat \<times> nat option \<Rightarrow> vm_space \<Rightarrow> vm_space \<Rightarrow> bool" where
  "remapped L k env lo hi new s s' \<longleftrightarrow> vm_inv L k env s' \<and>
     attr_at (vm_map s') = (\<lambda>v. if lo \<le> v \<and> v < hi then Some new else attr_at (vm_map s) v) \<and>
     (\<exists>s1. cleared L k env lo hi s s1 \<and> vm_pt s' = vm_pt s1 \<and> vm_flushed s' = vm_flushed s1)"

lemma install_new:
  assumes "cleared L k env addr (addr + sz) s s3"
    and "install_entry env \<lparr>e_start = addr, e_end = addr + sz,
           e_inner = \<lparr>prot_flags = pflags, map_flags = mflags, amap = None, mapping = mo\<rparr>\<rparr> s3 = (res, s')"
    and "addr mod page_bytes = 0" "sz mod page_bytes = 0" "0 < sz"
    and "k * window L * page_bytes \<le> addr" "addr + sz \<le> (k + 1) * window L * page_bytes"
  shows "case res of
      Inl e \<Rightarrow> e = VObject \<and> cleared L k env addr (addr + sz) s s'
    | Inr _ \<Rightarrow> remapped L k env addr (addr + sz) (attrs_new pflags mflags mo) s s'"
proof -
  let ?new = "\<lparr>e_start = addr, e_end = addr + sz, e_inner = \<lparr>prot_flags = pflags, map_flags = mflags, amap = None, mapping = mo\<rparr>\<rparr>"
  have inv: "vm_inv L k env s3" and at: "\<And>v. attr_at (vm_map s3) v = (if addr \<le> v \<and> v < addr + sz then None else attr_at (vm_map s) v)"
    using assms(1) by (auto simp: cleared_def)
  have wf: "vm_wf 0 [?new]" using assms(3-5) by (auto simp: mod_add_eq dvd_eq_mod_eq_0 [symmetric])
  have "case res of Inl e \<Rightarrow> e = VObject \<and> s' = s3
    | Inr _ \<Rightarrow> vm_inv L k env s' \<and> vm_pt s' = vm_pt s3 \<and> vm_flushed s' = vm_flushed s3 \<and>
        attr_at (vm_map s') = (\<lambda>v. if entry_contains v ?new then Some (attrs (e_inner ?new)) else attr_at (vm_map s3) v)"
    by (rule install_entry_ok [OF inv assms(2) wf]) (use assms(6,7) at in \<open>auto simp: entry_contains_def\<close>)
  then show ?thesis
    using assms(1) at
    by (auto simp: remapped_def entry_contains_def attrs_def attrs_new_def fun_eq_iff split: sum.splits)
qed

lemma map_fixed_ok:
  assumes inv: "vm_inv L k env s" and m: "map_fixed env sz addr mflags pflags mo f s = (res, f', s')"
    and f: "fence_sound {} f" and al: "addr mod page_bytes = 0" "sz mod page_bytes = 0" "0 < sz"
    and win: "k * window L * page_bytes \<le> addr" "addr + sz \<le> (k + 1) * window L * page_bytes"
  shows "case res of
      Inr _ \<Rightarrow> remapped L k env addr (addr + sz) (attrs_new pflags mflags mo) s s' \<and> fence_sound {} f'
    | Inl VNoMem \<Rightarrow> unchanged L k env s s'
    | Inl VObject \<Rightarrow> cleared L k env addr (addr + sz) s s'
    | Inl err \<Rightarrow> err = VPanic \<and> length (pt_avail (vm_pt s)) < sz div page_bytes * L"
proof -
  have al2: "(addr + sz) mod page_bytes = 0" using al(1,2) by (auto simp: dvd_eq_mod_eq_0 [symmetric])
  note d = m [unfolded map_fixed_def]
  obtain r1 s1 where 1: "vm_split addr s = (r1, s1)" by fastforce
  note a = split_inv [OF inv 1 al(1)]
  show ?thesis
  proof (cases r1)
    case (Inl err)
    then show ?thesis using d 1 a(1) a(3) [of err] by auto
  next
    case (Inr x)
    then have 1: "vm_split addr s = (Inr (), s1)" using 1 by simp
    obtain r2 s2 where 2: "vm_split (addr + sz) s1 = (r2, s2)" by fastforce
    note b = split_both [OF inv 1 2 al(1) al2]
    obtain ok rr where t: "try_alloc 1 (vm_res s2) = (ok, rr)" by fastforce
    let ?s = "s2\<lparr>vm_res := rr\<rparr>"
    have "vm_inv L k env ?s = vm_inv L k env s2" by (rule vm_inv_same) simp_all
    then have un: "unchanged L k env s ?s" using b(1) by (simp add: unchanged_def keeps_rest_def)
    have i2: "vm_inv L k env ?s" "vm_pt ?s = vm_pt s" using un by (simp_all add: unchanged_def keeps_rest_def)
    show ?thesis
    proof (cases "r2 = Inr () \<and> ok")
      case False
      then show ?thesis using d 1 2 t b(1) b(2) un by (cases r2) auto
    next
      case True
      obtain r3 f3 s3 where 3: "remove_mappings env addr (addr + sz) f ?s = (r3, f3, s3)" by (metis prod_cases3)
      have nc: "no_cross addr (vm_map ?s)" "no_cross (addr + sz) (vm_map ?s)" using b(3) True by simp_all
      note c = remove_mappings_ok [OF i2(1) nc f 3]
      show ?thesis
      proof (cases r3)
        case (Inl err)
        then show ?thesis using d 1 2 3 t True c i2(2) by auto
      next
        case (Inr z)
        then have "cleared L k env addr (addr + sz) s s3" using c cleared_unchanged [OF un] by simp
        note n = install_new [OF this _ al win, of pflags mflags mo res s']
        show ?thesis using d 1 2 3 t True Inr n c by (auto split: prod.splits sum.splits)
      qed
    qed
  qed
qed


section \<open>Choosing an address\<close>

definition gap_free :: "map_entry list \<Rightarrow> nat \<Rightarrow> nat \<Rightarrow> bool" where
  "gap_free es c n \<longleftrightarrow> list_all (\<lambda>e. e_end e \<le> c \<or> c + n \<le> e_start e) es"

definition gap_ok :: "nat \<Rightarrow> map_entry list \<Rightarrow> nat option \<Rightarrow> nat \<Rightarrow> bool" where
  "gap_ok lo es closest n \<longleftrightarrow> (case closest of None \<Rightarrow> True
     | Some c \<Rightarrow> lo \<le> c \<and> c mod page_bytes = 0 \<and> (c + n) mod page_bytes = 0 \<and> gap_free es c n)"

lemma gap_loop_ok:
  assumes "lo mod page_bytes = 0" "0 < sz"
  shows "vm_wf b es \<Longrightarrow> b mod page_bytes = 0 \<Longrightarrow> list_all (\<lambda>e. e_end e \<le> b) done \<Longrightarrow> gap_ok lo (done @ es) closest n \<Longrightarrow>
    gap_loop lo sz hint es (closest, n, max b lo) = (closest', n', prev') \<Longrightarrow>
    gap_ok lo (done @ es) closest' n' \<and>
    ((\<exists>c. closest' = Some c \<and> abs_diff prev' hint > abs_diff c hint) \<or>
     list_all (\<lambda>e. e_end e \<le> prev') (done @ es) \<and> lo \<le> prev' \<and> prev' mod page_bytes = 0)"
proof (induction es arbitrary: b "done" closest n)
  case Nil
  then show ?case using assms(1) by (auto simp: list_all_iff max_def)
next
  case (Cons e es)
  note w = Cons.prems(1) [unfolded vm_wf.simps]
  have ord: "e_start e \<le> e_start x" if "x \<in> set es" for x using vm_wf_start [of "e_end e" es, OF _ that] w by auto
  show ?case
  proof (cases "\<exists>c. closest = Some c \<and> abs_diff (max b lo) hint > abs_diff c hint")
    case True
    then show ?thesis using Cons.prems(4,5) by auto
  next
    case False
    let ?fits = "max (e_start e) lo \<ge> max b lo + sz + 2 * map_margin"
    define cn where "cn = (if ?fits then (Some (max b lo), max (e_start e) lo - max b lo) else (closest, n))"
    obtain c1 n1 where cn1: "cn = (c1, n1)" by fastforce
    have l: "gap_loop lo sz hint es (c1, n1, max (e_end e) lo) = (closest', n', prev')"
      using Cons.prems(5) False cn1 unfolding cn_def by (auto simp: Let_def split: option.splits prod.splits if_splits)
    have "gap_ok lo ((done @ [e]) @ es) c1 n1"
    proof (cases ?fits)
      case True
      then have "max (e_start e) lo = e_start e" "max b lo \<le> e_start e" using assms(2) by auto
      then have "c1 = Some (max b lo)" "max b lo + n1 = e_start e" using cn1 True by (auto simp: cn_def)
      moreover have "max b lo mod page_bytes = 0" using assms(1) Cons.prems(2) by (simp add: max_def)
      ultimately show ?thesis using Cons.prems(3) w ord by (auto simp: gap_ok_def gap_free_def list_all_iff)
    next
      case False
      then have "cn = (closest, n)" unfolding cn_def by (rule if_not_P)
      then show ?thesis using cn1 Cons.prems(4) by simp
    qed
    moreover have "list_all (\<lambda>x. e_end x \<le> e_end e) (done @ [e])" using Cons.prems(3) w by (fastforce simp: list_all_iff)
    ultimately show ?thesis using Cons.IH [of "e_end e" "done @ [e]" c1 n1] w l by simp
  qed
qed

text \<open>The gap the search settles on is free and inside the bounds.\<close>

lemma closest_gap_ok:
  assumes "vm_wf 0 es" "lo mod page_bytes = 0" "hi mod page_bytes = 0" "0 < sz" "closest_gap lo hi sz hint es = Some (c, n)"
  shows "gap_ok lo es (Some c) n"
proof -
  obtain c1 n1 prev where l: "gap_loop lo sz hint es (None, 0, lo) = (c1, n1, prev)" by (metis prod_cases3)
  have g: "gap_ok lo es c1 n1 \<and> ((\<exists>c. c1 = Some c \<and> abs_diff prev hint > abs_diff c hint) \<or>
      list_all (\<lambda>e. e_end e \<le> prev) es \<and> lo \<le> prev \<and> prev mod page_bytes = 0)"
    using gap_loop_ok [OF assms(2,4,1), of "[]" None 0 hint c1 n1 prev] l by (simp add: gap_ok_def)
  show ?thesis
  proof (cases "(case c1 of None \<Rightarrow> True | Some c \<Rightarrow> abs_diff prev hint \<le> abs_diff c hint) \<and> hi \<ge> prev + sz")
    case True
    then have "c = prev" "n = hi - prev" "prev \<le> hi" using assms(5) l by (auto simp: closest_gap_def)
    moreover have "list_all (\<lambda>e. e_end e \<le> prev) es \<and> lo \<le> prev \<and> prev mod page_bytes = 0" using g True by auto
    ultimately show ?thesis using assms(3) by (auto simp: gap_ok_def gap_free_def list_all_iff)
  next
    case False
    then have "c1 = Some c" "n1 = n" using assms(5) l unfolding closest_gap_def by (auto simp del: not_le split: if_splits)
    then show ?thesis using g by simp
  qed
qed

lemma place_in_ok:
  assumes "place_in lo hi sz hint = Some a" "hi < 2 ^ 64"
  shows "lo + map_margin \<le> a" "a + sz + map_margin \<le> hi"
    "lo mod page_bytes = 0 \<Longrightarrow> hi mod page_bytes = 0 \<Longrightarrow> sz mod page_bytes = 0 \<Longrightarrow> hint mod page_bytes = 0 \<Longrightarrow> a mod page_bytes = 0"
proof -
  have fit: "sz + 2 * map_margin \<le> hi - lo" and
    a: "a = (if hint < lo + map_margin then lo + map_margin
        else if min (hint + sz) (2 ^ 64 - 1) > hi - map_margin then hi - sz - map_margin else hint)"
    using assms(1) by (auto simp: place_in_def not_less split: if_splits)
  have m: "0 < map_margin" by (simp add: map_margin_def)
  have "min (hint + sz) (2 ^ 64 - 1) > hi - map_margin \<longleftrightarrow> hint + sz > hi - map_margin"
    using assms(2) m fit by (auto simp: min_less_iff_disj)
  then have a: "a = (if hint < lo + map_margin then lo + map_margin
        else if hint + sz > hi - map_margin then hi - sz - map_margin else hint)" using a by auto
  show "lo + map_margin \<le> a" "a + sz + map_margin \<le> hi" using a fit m by (auto split: if_splits)
  show "a mod page_bytes = 0" if "lo mod page_bytes = 0" "hi mod page_bytes = 0" "sz mod page_bytes = 0" "hint mod page_bytes = 0"
    using that a by (auto simp: map_margin_def dvd_eq_mod_eq_0 [symmetric] dvd_diff_nat split: if_splits)
qed

lemma place_dynamic_ok:
  assumes "vm_wf 0 es" "lo mod page_bytes = 0" "hi mod page_bytes = 0" "hint mod page_bytes = 0" "sz mod page_bytes = 0" "0 < sz"
    and "hi < 2 ^ 64" "place_dynamic lo hi sz hint es = Some a"
  shows "lo + map_margin \<le> a" "a + sz + map_margin \<le> hi" "a mod page_bytes = 0"
    "list_all (\<lambda>e. e_end e + map_margin \<le> a \<or> a + sz + map_margin \<le> e_start e) es"
proof -
  have "lo + map_margin \<le> a \<and> a + sz + map_margin \<le> hi \<and> a mod page_bytes = 0 \<and>
    list_all (\<lambda>e. e_end e + map_margin \<le> a \<or> a + sz + map_margin \<le> e_start e) es"
  proof (cases "es = []")
    case True
    then show ?thesis using assms place_in_ok [of lo hi sz hint a] by (simp add: place_dynamic_def)
  next
    case False
    then obtain c n where c: "closest_gap lo hi sz hint es = Some (c, n)" "place_in (max lo c) (min hi (c + n)) sz hint = Some a"
      using assms(8) by (auto simp: place_dynamic_def split: option.splits)
    note g = closest_gap_ok [OF assms(1,2,3,6) c(1), unfolded gap_ok_def option.case]
    have "min hi (c + n) < 2 ^ 64" using assms(7) by simp
    note p = place_in_ok [OF c(2) this]
    have "max lo c mod page_bytes = 0" "min hi (c + n) mod page_bytes = 0" using g assms(2,3) by (simp_all add: max_def min_def)
    then have "a mod page_bytes = 0" by (rule p(3)) (fact assms)+
    moreover have "e_end e + map_margin \<le> a \<or> a + sz + map_margin \<le> e_start e" if "e \<in> set es" for e
      using g p(1,2) that by (fastforce simp: gap_free_def list_all_iff)
    ultimately show ?thesis using p(1,2) by (auto simp: list_all_iff)
  qed
  then show "lo + map_margin \<le> a" "a + sz + map_margin \<le> hi" "a mod page_bytes = 0"
    "list_all (\<lambda>e. e_end e + map_margin \<le> a \<or> a + sz + map_margin \<le> e_start e) es" by simp_all
qed

section \<open>Protection\<close>

lemma protect_loop_ok:
  "vm_wf b es \<Longrightarrow> no_cross lo es \<Longrightarrow> no_cross hi es \<Longrightarrow> fence_sound A f \<Longrightarrow>
   protect_loop env lo hi pflags es f pt = (Inr es', f', pt') \<Longrightarrow>
   vm_wf b es' \<and> (\<forall>v. attr_at es' v = map_option (\<lambda>(p, q). (if lo \<le> v \<and> v < hi then pflags else p, q)) (attr_at es v)) \<and>
     (\<exists>B. fence_sound (A \<union> B) f' \<and> {v. lo \<le> v \<and> v < hi \<and> attr_at es v \<noteq> None} \<subseteq> B)"
proof (induction es arbitrary: b f pt es' A)
  case Nil
  then show ?case by (auto intro: exI [of _ "{}"])
next
  case (Cons e es)
  have wf: "vm_wf (e_end e) es" "no_cross lo es" "no_cross hi es" using Cons.prems(1-3) by (auto simp: no_cross_def)
  consider (stop) "hi \<le> e_start e" | (prot) "lo \<le> e_start e" "e_start e < hi" | (keep) "e_start e < lo" "e_start e < hi" by linarith
  then show ?case
  proof cases
    case stop
    have none: "\<not> entry_contains v x" if "x \<in> set (e # es)" "v < hi" for x v
      using vm_wf_start [of "e_start e" "e # es" x] Cons.prems(1) that stop by (auto simp: entry_contains_def)
    then have "attr_at (e # es) v = None" if "v < hi" for v using that attr_none by blast
    moreover have "es' = e # es" "f' = f" using Cons.prems(5) stop by auto
    moreover have "attr_at (e # es) v = map_option (\<lambda>(p, q). (if lo \<le> v \<and> v < hi then pflags else p, q)) (attr_at (e # es) v)" for v
      using calculation(1) [of v] by (cases "v < hi"; cases "attr_at (e # es) v") auto
    ultimately show ?thesis using Cons.prems(1,4) by (auto intro!: exI [of _ "{}"] simp del: attr_at.simps)
  next
    case prot
    obtain r1 pt1 where p: "protect (env_levels env) (env_root env) (e_start e) (e_end e - e_start e) (into_mmu_flags pflags) pt = (r1, pt1)"
      by fastforce
    then obtain es1 where l: "protect_loop env lo hi pflags es (add_range (e_start e) (e_end e) f) pt1 = (Inr es1, f', pt')"
      "es' = e\<lparr>e_inner := (e_inner e)\<lparr>prot_flags := pflags\<rparr>\<rparr> # es1"
      using Cons.prems(5) prot by (auto split: sum.splits prod.splits)
    have hi: "e_end e \<le> hi" using Cons.prems(3) prot by (auto simp: no_cross_def)
    from Cons.IH [OF wf add_range_sound [OF Cons.prems(4)] l(1)] obtain B where
      ih: "vm_wf (e_end e) es1" "\<And>v. attr_at es1 v = map_option (\<lambda>(p, q). (if lo \<le> v \<and> v < hi then pflags else p, q)) (attr_at es v)"
        "fence_sound (A \<union> {e_start e..<e_end e} \<union> B) f'" "{v. lo \<le> v \<and> v < hi \<and> attr_at es v \<noteq> None} \<subseteq> B" by blast
    show ?thesis
      using Cons.prems(1) ih(1,2,4) l(2) prot hi
      by (intro conjI exI [of _ "{e_start e..<e_end e} \<union> B"])
        (use ih(3) in \<open>auto simp: entry_contains_def attrs_def Un_assoc\<close>)
  next
    case keep
    then obtain es1 where l: "protect_loop env lo hi pflags es f pt = (Inr es1, f', pt')" "es' = e # es1"
      using Cons.prems(5) by (auto split: sum.splits prod.splits)
    have "e_end e \<le> lo" using Cons.prems(2) keep by (auto simp: no_cross_def)
    moreover obtain B where "fence_sound (A \<union> B) f'" "{v. lo \<le> v \<and> v < hi \<and> attr_at es v \<noteq> None} \<subseteq> B"
      using Cons.IH [OF wf Cons.prems(4) l(1)] by blast
    ultimately show ?thesis using Cons.IH [OF wf Cons.prems(4) l(1)] Cons.prems(1) l(2)
      by (intro conjI exI [of _ B]) (auto simp: entry_contains_def attrs_def)
  qed
qed


lemma half_window: "2 * canon_half_size (Suc L) = window L * page_bytes"
  by (simp add: canon_half_size_def canon_half_pages_def window_def bits_per_level_def page_bytes_def power_mult [symmetric]
      push_bit_eq_mult power_add power_mult)

end
