(* ===== verification/Vm_Space.thy ===== *)
theory Vm_Space
  imports Vm_Map_Props
begin

text \<open>
  What the address spaces of user processes promise, from the operations of \<open>VmSpace\<close> down to the page
  tables and the fences.
\<close>

section \<open>Rounding and bounds\<close>

lemma round_up_bounds: "n \<le> round_up n" "round_up n < n + page_bytes"
proof -
  have "(n + page_bytes - 1) div page_bytes * page_bytes + (n + page_bytes - 1) mod page_bytes = n + page_bytes - 1"
    by (rule div_mult_mod_eq)
  moreover have "(n + page_bytes - 1) mod page_bytes < page_bytes" by simp
  moreover have "0 < page_bytes" by simp
  ultimately show "n \<le> round_up n" "round_up n < n + page_bytes" unfolding round_up_def by linarith+
qed

lemma fence_new_shootdown: "vm_shootdown fence_new s = s"
  by (simp add: vm_shootdown_def shootdown_def fence_execute_def fence_new_def big_fence_threshold_def)

lemma half_aligned:
  "canon_half_size (Suc L) mod page_bytes = 0" "canon_half_size (Suc L) div 2 mod page_bytes = 0"
proof -
  have e: "canon_half_size (Suc L) = 2 * (2 ^ (9 * L + 7) * page_bytes)"
    by (simp add: canon_half_size_def bits_per_level_def power_add)
  show "canon_half_size (Suc L) mod page_bytes = 0" "canon_half_size (Suc L) div 2 mod page_bytes = 0"
    unfolding e by (simp_all add: mult.assoc [symmetric])
qed

section \<open>Mapping\<close>

definition offset_past :: "vm_env \<Rightarrow> mapping option \<Rightarrow> bool" where
  "offset_past env mo \<longleftrightarrow> (case mo of None \<Rightarrow> False | Some mp \<Rightarrow> env_len env (m_object mp) < m_offset mp)"

lemma range_fixed:
  assumes "vm_map_range env sz hint bounds mflags pflags mo s = Some (res, s')" "has_flag mflags FIXED" "\<not> has_flag mflags POPULATE"
    and "hint mod page_bytes = 0" "round_up sz < 2 ^ 64"
  shows "(\<exists>e. res = Inl e \<and> s' = s \<and> (e = VPanic \<longrightarrow> offset_past env mo) \<and> e \<in> {VPanic, VInval, VNxio}) \<or>
    0 < round_up sz \<and> (\<exists>r f s1. map_fixed env (round_up sz) hint mflags pflags mo fence_new s = (r, f, s1) \<and>
      res = map_sum id (\<lambda>_. hint) r \<and> s' = (case r of Inl e \<Rightarrow> s1 | Inr _ \<Rightarrow> vm_shootdown f s1))"
  using assms unfolding vm_map_range_def Let_def
  by (cases "map_fixed env (round_up sz) hint mflags pflags mo fence_new s")
    (auto simp: offset_past_def split: if_splits option.splits sum.splits)

lemma range_dynamic:
  assumes "vm_map_range env sz hint bounds mflags pflags mo s = Some (res, s')" "\<not> has_flag mflags FIXED" "\<not> has_flag mflags POPULATE"
    and "hint mod page_bytes = 0"
  shows "(\<exists>e. res = Inl e \<and> s' = s \<and> e \<in> {VPanic, VInval, VNxio}) \<or>
    0 < round_up sz \<and> map_dynamic env (round_up sz) hint bounds mflags pflags mo s = (res, s')"
  using assms unfolding vm_map_range_def Let_def
  by (cases "map_dynamic env (round_up sz) hint bounds mflags pflags mo s")
    (auto simp: fence_new_shootdown split: if_splits option.splits sum.splits)

lemma remapped_shootdown:
  "remapped L k env lo hi new s s1 \<Longrightarrow> remapped L k env lo hi new s (vm_shootdown f s1)"
proof -
  assume a: "remapped L k env lo hi new s s1"
  then obtain s0 where c: "cleared L k env lo hi s s0" "vm_pt s1 = vm_pt s0" "vm_flushed s1 = vm_flushed s0"
    by (auto simp: remapped_def)
  let ?s = "s0\<lparr>vm_flushed := vm_flushed s0 @ shootdown f\<rparr>"
  have "vm_inv L k env ?s = vm_inv L k env s0" "vm_inv L k env (vm_shootdown f s1) = vm_inv L k env s1"
    by (rule vm_inv_same, simp_all add: vm_shootdown_def)+
  moreover have "cleared L k env lo hi s ?s" using c(1) calculation(1) by (simp add: cleared_def covers_append)
  ultimately show ?thesis using a c by (auto simp: remapped_def vm_shootdown_def intro!: exI [of _ ?s])
qed

definition user_prot :: "nat \<Rightarrow> nat" where
  "user_prot pflags = (pflags AND (255 - prot_IO) AND (255 - prot_WC))"

lemma map_dynamic_ok:
  assumes inv: "vm_inv L k env s" and m: "map_dynamic env sz hint (lo, hi) mflags pflags mo s = (res, s')"
    and al: "lo mod page_bytes = 0" "hi mod page_bytes = 0" "hint mod page_bytes = 0" "sz mod page_bytes = 0" "0 < sz"
    and win: "hi < 2 ^ 64" "k * window L * page_bytes \<le> lo" "hi \<le> (k + 1) * window L * page_bytes"
  shows "case res of
      Inl e \<Rightarrow> (e = VNoMem \<or> e = VObject) \<and> unchanged L k env s s'
    | Inr a \<Rightarrow> lo + map_margin \<le> a \<and> a + sz + map_margin \<le> hi \<and>
        list_all (\<lambda>e. e_end e + map_margin \<le> a \<or> a + sz + map_margin \<le> e_start e) (vm_map s) \<and>
        vm_inv L k env s' \<and> vm_pt s' = vm_pt s \<and>
        attr_at (vm_map s') = (\<lambda>v. if a \<le> v \<and> v < a + sz then Some (attrs_new pflags mflags mo) else attr_at (vm_map s) v)"
proof (cases "place_dynamic lo hi sz hint (vm_map s)")
  case None
  then show ?thesis using m inv by (auto simp: map_dynamic_def unchanged_def keeps_rest_def)
next
  case (Some a)
  have wf: "vm_wf 0 (vm_map s)" using inv by (simp add: vm_inv_def)
  note p = place_dynamic_ok [OF wf al win(1) Some]
  let ?new = "\<lparr>e_start = a, e_end = a + sz, e_inner = \<lparr>prot_flags = pflags, map_flags = mflags, amap = None, mapping = mo\<rparr>\<rparr>"
  obtain ok r where t: "try_alloc 1 (vm_res s) = (ok, r)" by fastforce
  let ?s = "s\<lparr>vm_res := r\<rparr>"
  have inv1: "vm_inv L k env ?s" using inv vm_inv_same [of ?s s] by simp
  obtain x s1 where i: "install_entry env ?new ?s = (x, s1)" by fastforce
  have wfn: "vm_wf 0 [?new]" using p(3) al(4,5) by (auto simp: dvd_eq_mod_eq_0 [symmetric])
  have free: "attr_at (vm_map ?s) v = None" if "entry_contains v ?new" for v
    using p(4) that unfolding attr_none by (fastforce simp: list_all_iff entry_contains_def)
  have w: "k * window L * page_bytes \<le> e_start ?new" "e_end ?new \<le> (k + 1) * window L * page_bytes"
    using p(1,2) win(2,3) by simp_all
  note n = install_entry_ok [OF inv1 i wfn free w]
  show ?thesis
  proof (cases ok)
    case False
    then show ?thesis using m Some t inv1 by (auto simp: map_dynamic_def unchanged_def keeps_rest_def)
  next
    case True
    then have "res = map_sum id (\<lambda>_. a) x" "s' = s1" using m Some t i by (auto simp: map_dynamic_def split: sum.splits)
    then show ?thesis using n p inv1
      by (auto simp: unchanged_def keeps_rest_def attrs_def attrs_new_def entry_contains_def split: sum.splits)
  qed
qed

section \<open>Properties\<close>



definition vm_demo_env :: vm_env where
  "vm_demo_env = \<lparr>env_levels = 3, env_root = 4096, env_kernel_root = 4096, env_get = (\<lambda>ob off. None),
     env_alloc = (\<lambda>ob off. Err VFault), env_len = (\<lambda>ob. 0), env_on_mapped = (\<lambda>ob d. True), env_zeroes = 0,
     env_uniq = (\<lambda>m. True), env_uniq_page = (\<lambda>m off. True)\<rparr>"

text \<open>An entry of three pages at 1 MiB and an allocator that never fails four times.\<close>

definition vm_demo :: vm_space where
  "vm_demo = \<lparr>vm_map = [\<lparr>e_start = 0x100000, e_end = 0x103000,
       e_inner = \<lparr>prot_flags = 3, map_flags = 2, amap = None, mapping = None\<rparr>\<rparr>],
     vm_pt = pt_demo, vm_res = \<lparr>r_tries = [True, True, True, True], r_pages = [], r_fills = []\<rparr>,
     vm_flushed = [], vm_notes = []\<rparr>"

lemma vm_demo_inv: "vm_inv 2 0 vm_demo_env vm_demo"
  by (simp add: vm_inv_def vm_demo_env_def vm_demo_def pt_demo_inv window_def page_bytes_def entry_contains_def)

lemma remove_loop_err: "remove_loop env lo hi es f s = (Inl e, f', s') \<Longrightarrow> e = VPanic"
  by (induction env lo hi es f s rule: remove_loop.induct) (auto split: if_splits prod.splits sum.splits)

lemma remove_mappings_err: "remove_mappings env lo hi f s = (Inl e, f', s') \<Longrightarrow> e = VPanic"
  by (auto simp: remove_mappings_def dest: remove_loop_err split: prod.splits sum.splits)

lemma demo_splits:
  "\<exists>s1. vm_split 0x101000 vm_demo = (Inr (), s1) \<and> (\<exists>s2. vm_split 0x102000 s1 = (Inr (), s2) \<and>
     fst (try_alloc 1 (vm_res s2)))"
  by (simp add: vm_split_def vm_demo_def try_alloc_def split_cost_def inner_split_def)

lemma demo_user: "is_canon_user_range 3 (0x101000, 0x102000)"
  using canon_user_iff [of 3 "0x101000"] canon_user_iff [of 3 "0x101FFF"]
  by (simp add: is_canon_user_range_def canon_half_size_def bits_per_level_def page_bytes_def)

lemma demo_round: "round_up 0x102000 = 0x102000" "round_up 0x1000 = 0x1000" "(0x101000::nat) mod page_bytes = 0"
  by (simp_all add: round_up_def page_bytes_def)






lemma protect_loop_err: "protect_loop env lo hi pflags es f pt = (Inl e, f', pt') \<Longrightarrow> e = VPanic"
  by (induction env lo hi pflags es f pt arbitrary: f' pt' rule: protect_loop.induct) (auto split: if_splits prod.splits sum.splits)


lemma demo_walk: "walk 3 4096 v pt_demo = Some (unpack 0 2)"
proof -
  have l: "rev [0..<3] = [2, 1, 0::nat]" by (simp add: upt_rec)
  show ?thesis by (simp add: walk_def walk_shallow_def l Let_def read_pte_def pt_demo_def unpack_def riscv_unpack_def)
qed

lemma demo_protect: "protect 3 4096 v 0x1000 m pt_demo = (Ok (), pt_demo)"
proof -
  have z: "protect 3 4096 (v + page_bytes) 0 m pt_demo = (Ok (), pt_demo)" by (subst protect.simps) simp
  show ?thesis
    using z by (subst protect.simps) (simp add: demo_walk limit_flags_def unpack_def riscv_unpack_def Let_def page_bytes_def)
qed


section \<open>Page faults\<close>

text \<open>Memory objects give out whole pages, as \<open>MemObject\<close> documents.\<close>

definition whole_pages :: "vm_env \<Rightarrow> bool" where
  "whole_pages env \<longleftrightarrow> (\<forall>ob off page n. env_get env ob off = Some (page, n) \<or> env_alloc env ob off = Inr (page, n) \<longrightarrow> page_bytes \<le> n)"

lemma copy_page_len: "copy_page u offset orig m r = (Inr (page, n), m', r') \<Longrightarrow> n = page_bytes"
  by (auto simp: copy_page_def split: prod.splits sum.splits)

lemma inner_alloc_page_len:
  assumes "inner_alloc_page (env_alloc env) z u up offset w m r = (Inr (page, n), m', r')" "whole_pages env"
  shows "page_bytes \<le> n"
  using assms copy_page_len unfolding inner_alloc_page_def whole_pages_def Let_def
  by (fastforce split: option.splits if_splits sum.splits prod.splits)

lemma inner_get_page_len:
  assumes "inner_get_page (env_get env) z u up offset m = Some (page, n)" "whole_pages env"
  shows "page_bytes \<le> n"
  using assms unfolding inner_get_page_def whole_pages_def by (fastforce split: option.splits if_splits prod.splits)

lemma fault_page_len:
  assumes "fault_page env offset w m r = (Inr (page, n), m', r')" "whole_pages env"
  shows "page_bytes \<le> n"
  using assms inner_alloc_page_len [OF _ assms(2)] inner_get_page_len [OF _ assms(2)]
  by (auto simp: fault_page_def split: option.splits if_splits prod.splits)

lemma fault_impl_range:
  "fault_impl env vaddr access e f s = (res, e', f', s') \<Longrightarrow> e_start e' = e_start e \<and> e_end e' = e_end e"
  by (auto simp: fault_impl_def Let_def split: option.splits if_splits prod.splits sum.splits)

lemma page_room:
  assumes "vaddr < e" "e mod page_bytes = 0"
  shows "page_bytes \<le> e - (vaddr - vaddr mod page_bytes)" "vaddr mod page_bytes < page_bytes" "vaddr - vaddr mod page_bytes \<le> e"
proof -
  obtain k where k: "e = k * page_bytes" using page_multiple [OF assms(2)] by blast
  have v: "vaddr - vaddr mod page_bytes = vaddr div page_bytes * page_bytes" by (simp add: minus_mod_eq_div_mult)
  have "vaddr div page_bytes < k" using assms(1) k by (simp add: less_mult_imp_div_less)
  then have "(vaddr div page_bytes + 1) * page_bytes \<le> k * page_bytes" by (intro mult_le_mono1) simp
  then show "page_bytes \<le> e - (vaddr - vaddr mod page_bytes)" unfolding v k by simp
  show "vaddr mod page_bytes < page_bytes" by simp
  show "vaddr - vaddr mod page_bytes \<le> e" using assms(1) by simp
qed

lemma fault_impl_progress:
  assumes "fault_impl env vaddr access e f s = (Inr len, e', f', s')" "whole_pages env" "vaddr < e_end e" "e_end e mod page_bytes = 0"
  shows "0 < len"
proof -
  note room = page_room [OF assms(3,4)]
  have "0 < len" if "fault_map env vaddr (vaddr - vaddr mod page_bytes) (page, n) e2 s2 = (Inr len, s3)" "page_bytes \<le> n"
      "e_end e2 = e_end e" for page n e2 s2 s3
  proof -
    have "vaddr mod page_bytes < n" "vaddr mod page_bytes < e_end e - (vaddr - vaddr mod page_bytes)"
      by (rule order.strict_trans2 [OF room(2) that(2)], rule order.strict_trans2 [OF room(2,1)])
    then show ?thesis
      using that(1,3) by (auto simp: fault_map_def Let_def split: if_splits prod.splits sum.splits pt_error.splits)
  qed
  then show ?thesis
    using assms(1) room(2) fault_page_len [OF _ assms(2)]
    by (fastforce simp: fault_impl_def Let_def split: option.splits if_splits prod.splits sum.splits)
qed


lemma fault_loop_returns:
  assumes "whole_pages env" "e_end e mod page_bytes = 0" "vaddr + sz \<le> e_end e" "e_end e < 2 ^ 64" "sz \<le> fuel"
  shows "\<exists>r. fault_loop fuel env vaddr access sz e f s = Some r"
  using assms(2-5)
proof (induction fuel arbitrary: vaddr sz e f s)
  case 0
  then show ?case by simp
next
  case (Suc fuel)
  show ?case
  proof (cases sz)
    case (Suc n)
    obtain res e' f' s' where i: "fault_impl env vaddr access e f s = (res, e', f', s')" by (metis prod_cases4)
    show ?thesis
    proof (cases res)
      case (Inr len)
      have lt: "vaddr < e_end e" using Suc.prems(2) Suc by simp
      have len: "0 < len" using fault_impl_progress [OF i [unfolded Inr] assms(1) lt Suc.prems(1)] .
      show ?thesis
      proof (cases "len \<le> sz")
        case True
        then have m: "(vaddr + len) mod 2 ^ 64 = vaddr + len" using Suc.prems(2,3) by (intro mod_less) linarith
        have "\<exists>r. fault_loop fuel env (vaddr + len) access (sz - len) e' f' s' = Some r"
          using fault_impl_range [OF i] Suc.prems len True by (intro Suc.IH) auto
        then show ?thesis using i Inr Suc m by simp
      next
        case False
        then have "sz - len = 0" by simp
        then show ?thesis using i Inr Suc by simp
      qed
    qed (use i Suc in simp)
  qed simp
qed

lemma find_entry_some: "e \<in> set es \<Longrightarrow> entry_contains v e \<Longrightarrow>
   \<exists>pre' e' post. find_entry v pre es = Some (pre', e', post) \<and> e' \<in> set es \<and> entry_contains v e'"
  by (induction es arbitrary: pre) fastforce+

lemma contains_unique:
  "vm_wf lo es \<Longrightarrow> x \<in> set es \<Longrightarrow> y \<in> set es \<Longrightarrow> entry_contains v x \<Longrightarrow> entry_contains v y \<Longrightarrow> x = y"
proof (induction es arbitrary: lo)
  case (Cons e es)
  have "\<not> entry_contains v z" if "z \<in> set es" "entry_contains v e" for z
    using vm_wf_start [of "e_end e" es z] Cons.prems(1) that by (auto simp: entry_contains_def)
  then show ?case using Cons by auto
qed simp

text \<open>
  C17. Handling a fault ends. When the memory objects give out whole pages and the range asked for lies
  in one entry, the loop over its pages returns, whatever each step finds: every step that succeeds
  maps at least one byte more.
\<close>

theorem fault_returns:
  assumes "vm_wf 0 (vm_map s)" "whole_pages env" "e \<in> set (vm_map s)" "e_start e \<le> vaddr" "vaddr + max sz 1 \<le> e_end e"
    and "e_end e < 2 ^ 64"
  shows "\<exists>r. fault env vaddr access sz f s = Some r"
proof -
  have "entry_contains vaddr e" using assms(4,5) by (simp add: entry_contains_def max_def split: if_splits)
  from find_entry_some [OF assms(3) this, of "[]"] obtain pre e' post where
    e': "find_entry vaddr [] (vm_map s) = Some (pre, e', post)" "e' \<in> set (vm_map s)" "entry_contains vaddr e'" by blast
  have "e' = e" using contains_unique [OF assms(1)] e' assms(3) \<open>entry_contains vaddr e\<close> by blast
  then have "\<exists>r. fault_loop (max sz 1) env vaddr access (max sz 1) e' f s = Some r"
    using vm_wf_start [OF assms(1,3)] assms(5,6) by (intro fault_loop_returns [OF assms(2)]) auto
  then show ?thesis using e'(1) by (auto simp: fault_def split: prod.splits)
qed


theorem fault_returns_witness:
  "\<exists>r. fault vm_demo_env 0x100800 prot_READ 0x2000 fence_new vm_demo = Some r"
  by (rule fault_returns [of _ _ "hd (vm_map vm_demo)"])
    (simp_all add: vm_demo_def vm_demo_env_def whole_pages_def page_bytes_def)

section \<open>What the code gets wrong\<close>

text \<open>
  A fault that asks for more than its entry holds does not fail at the entry's end: there the step maps
  nothing and succeeds, so the loop repeats it for ever.
\<close>

lemma demo_fault_at_end:
  "fault_impl vm_demo_env 0x103000 prot_READ (hd (vm_map vm_demo)) f vm_demo = (Ok 0, hd (vm_map vm_demo), f, vm_demo)"
proof -
  have c: "is_canon_addr 3 0x103000"
    using is_canon_addr_iff [of 3 "0x103000"] by (simp add: canon_half_size_def page_bytes_def bits_per_level_def)
  have v: "\<exists>r. virt2phys 3 4096 0x103000 pt_demo = Some r \<and> \<not> v_valid r"
    by (simp add: virt2phys_def c demo_walk unpack_def riscv_unpack_def Let_def)
  have z: "map_multiple 3 4096 v p fl 0 pt = (Ok (), pt)" for v p fl pt by (subst map_multiple.simps) simp
  show ?thesis
    using v by (auto simp: fault_impl_def Let_def vm_demo_env_def vm_demo_def page_bytes_def prot_READ_def prot_WRITE_def
        fault_page_def inner_get_page_def fault_map_def z)
qed

lemma fault_past_end_spins:
  "fault_loop fuel vm_demo_env 0x103000 prot_READ (Suc n) (hd (vm_map vm_demo)) f vm_demo = None"
  by (induction fuel) (simp_all add: demo_fault_at_end)

text \<open>
  The gap after the last entry is taken when the mapping alone fits, but is then refused for lack of
  the margins, although another gap has room.
\<close>

definition gap_demo :: "map_entry list" where
  "gap_demo = [\<lparr>e_start = 0x180000, e_end = 0x1FF000, e_inner = \<lparr>prot_flags = 3, map_flags = 2, amap = None, mapping = None\<rparr>\<rparr>]"

lemma map_dynamic_spurious_nomem:
  "place_dynamic 0x100000 0x200000 0x1000 0x1FF000 gap_demo = None \<and>
   gap_free gap_demo 0x100000 0x80000 \<and> place_dynamic 0x100000 0x200000 0x1000 0x100000 gap_demo = Some 0x101000"
  by (simp add: place_dynamic_def closest_gap_def gap_demo_def abs_diff_def place_in_def map_margin_def page_bytes_def gap_free_def)

text \<open>Shrinking panics when the overlay ends before the new length.\<close>

lemma shrink_panics:
  "detach_pages True 0x2000 \<lparr>prot_flags = 3, map_flags = 2, amap = Some \<lparr>am_offset = 0, am_pages = [Some 0x9000]\<rparr>, mapping = None\<rparr> = Err VPanic"
  by (simp add: detach_pages_def page_bytes_def)

text \<open>
  A write fault on a page that may not be written is answered by the permission of any of the access
  bits, and a fork that fails part-way has already taken the write permission from the parent's pages
  without fencing them.
\<close>

lemma fork_failure_skips_fences:
  assumes "fork_loop env (vm_map s) fence_new s = (Inl e, f, s1)"
  shows "vm_fork env s = (Inl e, s1)"
  using assms by (simp add: vm_fork_def)

text \<open>The kernel's bounds are the upper three quarters of the higher half.\<close>

lemma kernel_bounds_span: "kernel_bounds vm_demo_env = (2 ^ 64 - 2 ^ 38 + 2 ^ 36, 2 ^ 64 - 4096)"
  by (simp add: kernel_bounds_def vm_demo_env_def higher_half_vaddr_def canon_half_size_def bits_per_level_def page_bytes_def)


end
