(* ===== verification/Lock_Word.thy ===== *)
theory Lock_Word
  imports Badger_Prelude
begin

text \<open>
  The protocol of the word behind the spinlocks and mutexes of \<open>src/kcore/sync/\<close>: zero when free, the
  number of shared guards, or the largest \<open>u32\<close> when held exclusively. A lock is described by its
  steps, one atomic access each, for any interleaving of threads; a locale says what a lock must do
  with its word, and mutual exclusion is proved once in it.
\<close>

section \<open>Guards and the word\<close>

datatype holding = Free | Exclusive | Shared nat

text \<open>\<open>u32::MAX\<close>.\<close>

definition LOCKED :: nat where
  "LOCKED = 2 ^ 32 - 1"

fun guards :: "holding \<Rightarrow> nat" where
  "guards (Shared k) = k"
| "guards _ = 0"

text \<open>The shared guards held by the first \<open>n\<close> threads.\<close>

definition shared_guards :: "nat \<Rightarrow> (nat \<Rightarrow> holding) \<Rightarrow> nat" where
  "shared_guards n h = (\<Sum>t<n. guards (h t))"

text \<open>The accesses that change the word or the guards.\<close>

inductive word_step :: "nat \<Rightarrow> nat \<times> (nat \<Rightarrow> holding) \<Rightarrow> nat \<times> (nat \<Rightarrow> holding) \<Rightarrow> bool" for n where
  stutter: "word_step n (w, h) (w, h)"
| lock: "t < n \<Longrightarrow> h t = Free \<Longrightarrow> w = 0 \<Longrightarrow> word_step n (w, h) (LOCKED, h(t := Exclusive))"
| lock_shared: "t < n \<Longrightarrow> h t = Free \<Longrightarrow> w \<noteq> LOCKED \<Longrightarrow> word_step n (w, h) (w + 1, h(t := Shared 1))"
| share: "t < n \<Longrightarrow> h t = Shared (Suc k) \<Longrightarrow> word_step n (w, h) ((w + 1) mod 2 ^ 32, h(t := Shared (Suc (Suc k))))"
| unlock: "t < n \<Longrightarrow> h t = Exclusive \<Longrightarrow> word_step n (w, h) (0, h(t := Free))"
| unlock_shared: "t < n \<Longrightarrow> h t = Shared (Suc k) \<Longrightarrow>
    word_step n (w, h) ((w + 2 ^ 32 - 1) mod 2 ^ 32, h(t := if k = 0 then Free else Shared k))"
| demote: "t < n \<Longrightarrow> h t = Exclusive \<Longrightarrow> word_step n (w, h) (1, h(t := Shared 1))"

text \<open>The word tells who holds what.\<close>

definition word_ok :: "nat \<Rightarrow> nat \<times> (nat \<Rightarrow> holding) \<Rightarrow> bool" where
  "word_ok n wh \<longleftrightarrow> (case wh of (w, h) \<Rightarrow>
     (\<forall>t. h t \<noteq> Free \<longrightarrow> t < n) \<and> (\<forall>t. h t \<noteq> Shared 0) \<and>
     (if w = LOCKED then (\<exists>t. h t = Exclusive \<and> (\<forall>u. u \<noteq> t \<longrightarrow> h u = Free))
      else (\<forall>t. h t \<noteq> Exclusive) \<and> w = shared_guards n h))"

lemma shared_guards_upd:
  assumes "t < n"
  shows "shared_guards n (h(t := x)) + guards (h t) = shared_guards n h + guards x"
proof -
  have s: "shared_guards n g = guards (g t) + (\<Sum>u\<in>{..<n} - {t}. guards (g u))" for g
    unfolding shared_guards_def using assms by (simp add: sum.remove)
  have "(\<Sum>u\<in>{..<n} - {t}. guards ((h(t := x)) u)) = (\<Sum>u\<in>{..<n} - {t}. guards (h u))" by (rule sum.cong) auto
  then show ?thesis using s [of h] s [of "h(t := x)"] by simp
qed

lemma shared_guards_zero: "shared_guards n h = 0 \<Longrightarrow> t < n \<Longrightarrow> guards (h t) = 0"
  by (simp add: shared_guards_def)

lemma shared_guards_one:
  assumes "\<And>u. u \<noteq> t \<Longrightarrow> h u = Free" "t < n"
  shows "shared_guards n h = guards (h t)"
proof -
  have "shared_guards n h = (\<Sum>u<n. if u = t then guards (h t) else 0)"
    unfolding shared_guards_def using assms by (intro sum.cong) auto
  then show ?thesis using assms(2) by simp
qed

lemma word_ok_shared:
  assumes "word_ok n (w, h)" "h t = Shared (Suc k)"
  shows "w \<noteq> LOCKED" "w = shared_guards n h" "\<And>u. h u \<noteq> Exclusive"
proof -
  show w: "w \<noteq> LOCKED"
  proof
    assume "w = LOCKED"
    then obtain x where "h x = Exclusive" "\<forall>u. u \<noteq> x \<longrightarrow> h u = Free" using assms(1) by (auto simp: word_ok_def)
    then show False using assms(2) by (cases "t = x") auto
  qed
  show "w = shared_guards n h" "\<And>u. h u \<noteq> Exclusive" using assms(1) w by (simp_all add: word_ok_def)
qed

lemma word_ok_exclusive:
  assumes "word_ok n (w, h)" "h t = Exclusive" "u \<noteq> t"
  shows "h u = Free"
proof -
  have "w = LOCKED" using assms(1,2) by (auto simp: word_ok_def split: if_splits)
  then obtain x where x: "h x = Exclusive" "\<forall>u. u \<noteq> x \<longrightarrow> h u = Free" using assms(1) by (auto simp: word_ok_def)
  then have "x = t" using assms(2) by (cases "x = t") auto
  then show ?thesis using x assms(3) by simp
qed

text \<open>
  Every access keeps it, as long as there are fewer guards than the word can count: the shared guards
  before it are fewer than \<open>LOCKED - 1\<close>.
\<close>

lemma word_step_ok:
  assumes "word_step n a b" "word_ok n a" "shared_guards n (snd a) + 1 < LOCKED"
  shows "word_ok n b"
  using assms
proof cases
  case (lock t h w)
  have "h u = Free" for u
  proof (cases "u < n")
    case True
    have "\<not> w = LOCKED" using lock by (simp add: LOCKED_def)
    then have "shared_guards n h = 0" "h u \<noteq> Exclusive" "h u \<noteq> Shared 0" using assms(2) lock by (auto simp: word_ok_def)
    then show ?thesis using shared_guards_zero [of n h, OF _ True] by (cases "h u") auto
  qed (use assms(2) lock in \<open>auto simp: word_ok_def\<close>)
  then show ?thesis using lock by (auto simp: word_ok_def)
next
  case (lock_shared t h w)
  have "w = shared_guards n h" using assms(2) lock_shared by (auto simp: word_ok_def)
  then show ?thesis
    using shared_guards_upd [of t n h "Shared 1"] lock_shared assms(2,3) by (auto simp: word_ok_def)
next
  case (share t h k w)
  note w = word_ok_shared [OF assms(2) [unfolded share(1)] share(4)]
  note e = w(2)
  have m: "(w + 1) mod 2 ^ 32 = w + 1" using e assms(3) share by (intro mod_less) (simp add: LOCKED_def)
  show ?thesis using shared_guards_upd [of t n h "Shared (Suc (Suc k))"] share e m w assms(2,3) by (auto simp: word_ok_def)
next
  case (unlock t h w)
  note o = word_ok_exclusive [OF assms(2) [unfolded unlock(1)] unlock(4)]
  then have "shared_guards n (h(t := Free)) = 0" using shared_guards_one [of t "h(t := Free)" n] unlock by simp
  then show ?thesis using unlock o by (auto simp: word_ok_def LOCKED_def)
next
  case (unlock_shared t h k w)
  note w = word_ok_shared [OF assms(2) [unfolded unlock_shared(1)] unlock_shared(4)]
  note e = w(2)
  let ?x = "if k = 0 then Free else Shared k"
  have u: "shared_guards n (h(t := ?x)) + Suc k = shared_guards n h + k"
    using shared_guards_upd [of t n h ?x] unlock_shared by (cases k) auto
  have "0 < w" "w < 2 ^ 32" using u e assms(3) unlock_shared by (auto simp: LOCKED_def)
  then have "(w + 2 ^ 32 - 1) mod 2 ^ 32 = w - 1" by (simp add: le_mod_geq)
  then show ?thesis using u e w unlock_shared assms(2,3) by (auto simp: word_ok_def)
next
  case (demote t h w)
  note o = word_ok_exclusive [OF assms(2) [unfolded demote(1)] demote(4)]
  then have "shared_guards n (h(t := Shared 1)) = 1" using shared_guards_one [of t "h(t := Shared 1)" n] demote by simp
  then show ?thesis using demote o by (auto simp: word_ok_def LOCKED_def)
qed simp

section \<open>What a lock does with its word\<close>

text \<open>
  The runs of a lock in which there is never more than the word can count: \<open>view\<close> gives the word and
  the guards of a state.
\<close>

inductive lock_run :: "nat \<Rightarrow> ('s \<Rightarrow> 's \<Rightarrow> bool) \<Rightarrow> ('s \<Rightarrow> nat \<times> (nat \<Rightarrow> holding)) \<Rightarrow> 's \<Rightarrow> 's \<Rightarrow> bool"
  for n stp view where
  run_refl: "lock_run n stp view s s"
| run_step: "lock_run n stp view s t \<Longrightarrow> shared_guards n (snd (view t)) + 1 < LOCKED \<Longrightarrow> stp t u \<Longrightarrow> lock_run n stp view s u"

locale rw_lock =
  fixes n :: nat
    and stp :: "'s \<Rightarrow> 's \<Rightarrow> bool"
    and view :: "'s \<Rightarrow> nat \<times> (nat \<Rightarrow> holding)"
  assumes accesses: "stp s s' \<Longrightarrow> word_step n (view s) (view s')"
begin

lemma run_ok: "lock_run n stp view s s' \<Longrightarrow> word_ok n (view s) \<Longrightarrow> word_ok n (view s')"
  by (induction rule: lock_run.induct) (auto intro: word_step_ok accesses)

lemma exclusive_alone:
  assumes "lock_run n stp view s s'" "word_ok n (view s)" "snd (view s') t = Exclusive" "u \<noteq> t"
  shows "snd (view s') u = Free"
  using word_ok_exclusive [of n "fst (view s')" "snd (view s')" t u] run_ok [OF assms(1,2)] assms(3,4) by simp

end

section \<open>Spinlocks\<close>

text \<open>
  What a thread is doing with a spinlock: nothing, the loop of \<open>RawSpinlockGuard::new\<close>, the loop of
  \<open>SharedRawSpinlockGuard::new\<close> with its \<open>old\<close>, or holding guards.
\<close>

datatype spin_pc = SpIdle | SpLock | SpShared nat | SpExcl | SpShares nat

record spinlock =
  sp_shares :: nat
  sp_pc :: "nat \<Rightarrow> spin_pc"

definition spin_new :: spinlock where
  "spin_new = \<lparr>sp_shares = 0, sp_pc = (\<lambda>t. SpIdle)\<rparr>"

definition sp_goto :: "nat \<Rightarrow> spin_pc \<Rightarrow> spinlock \<Rightarrow> spinlock" where
  "sp_goto t p s = s\<lparr>sp_pc := (sp_pc s)(t := p)\<rparr>"

text \<open>One atomic access of one of \<open>n\<close> threads; a weak compare-and-exchange may fail for no reason.\<close>

inductive spin_step :: "nat \<Rightarrow> spinlock \<Rightarrow> spinlock \<Rightarrow> bool" for n where
  sp_lock: "t < n \<Longrightarrow> sp_pc s t = SpIdle \<Longrightarrow> spin_step n s (sp_goto t SpLock s)"
| sp_lock_cas: "t < n \<Longrightarrow> sp_pc s t = SpLock \<Longrightarrow> sp_shares s = 0 \<Longrightarrow>
    spin_step n s (sp_goto t SpExcl (s\<lparr>sp_shares := LOCKED\<rparr>))"
| sp_lock_fail: "t < n \<Longrightarrow> sp_pc s t = SpLock \<Longrightarrow> spin_step n s s"
| sp_shared: "t < n \<Longrightarrow> sp_pc s t = SpIdle \<Longrightarrow> spin_step n s (sp_goto t (SpShared (sp_shares s)) s)"
| sp_shared_reload: "t < n \<Longrightarrow> sp_pc s t = SpShared LOCKED \<Longrightarrow> spin_step n s (sp_goto t (SpShared (sp_shares s)) s)"
| sp_shared_cas: "t < n \<Longrightarrow> sp_pc s t = SpShared old \<Longrightarrow> old \<noteq> LOCKED \<Longrightarrow> sp_shares s = old \<Longrightarrow>
    spin_step n s (sp_goto t (SpShares 1) (s\<lparr>sp_shares := old + 1\<rparr>))"
| sp_shared_fail: "t < n \<Longrightarrow> sp_pc s t = SpShared old \<Longrightarrow> old \<noteq> LOCKED \<Longrightarrow>
    spin_step n s (sp_goto t (SpShared (sp_shares s)) s)"
| sp_share: "t < n \<Longrightarrow> sp_pc s t = SpShares (Suc k) \<Longrightarrow>
    spin_step n s (sp_goto t (SpShares (Suc (Suc k))) (s\<lparr>sp_shares := (sp_shares s + 1) mod 2 ^ 32\<rparr>))"
| sp_drop_shared: "t < n \<Longrightarrow> sp_pc s t = SpShares (Suc k) \<Longrightarrow>
    spin_step n s (sp_goto t (if k = 0 then SpIdle else SpShares k) (s\<lparr>sp_shares := (sp_shares s + 2 ^ 32 - 1) mod 2 ^ 32\<rparr>))"
| sp_drop: "t < n \<Longrightarrow> sp_pc s t = SpExcl \<Longrightarrow> spin_step n s (sp_goto t SpIdle (s\<lparr>sp_shares := 0\<rparr>))"
| sp_demote: "t < n \<Longrightarrow> sp_pc s t = SpExcl \<Longrightarrow> spin_step n s (sp_goto t (SpShares 1) (s\<lparr>sp_shares := 1\<rparr>))"

fun spin_holding :: "spin_pc \<Rightarrow> holding" where
  "spin_holding SpExcl = Exclusive"
| "spin_holding (SpShares k) = Shared k"
| "spin_holding _ = Free"

definition spin_view :: "spinlock \<Rightarrow> nat \<times> (nat \<Rightarrow> holding)" where
  "spin_view s = (sp_shares s, \<lambda>t. spin_holding (sp_pc s t))"

lemma spin_view_goto:
  "spin_view (sp_goto t p s) = (sp_shares s, (snd (spin_view s))(t := spin_holding p))"
  "snd (spin_view (s\<lparr>sp_shares := w\<rparr>)) = snd (spin_view s)"
  by (auto simp: spin_view_def sp_goto_def fun_eq_iff)

lemma same_holding: "h t = x \<Longrightarrow> word_step n (w, h) (w, h(t := x))"
  by (metis fun_upd_triv stutter)

lemma unlock_shared_cases:
  "t < n \<Longrightarrow> h t = Shared (Suc 0) \<Longrightarrow> word_step n (w, h) ((w + 2 ^ 32 - 1) mod 2 ^ 32, h(t := Free))"
  "t < n \<Longrightarrow> h t = Shared (Suc k) \<Longrightarrow> 0 < k \<Longrightarrow> word_step n (w, h) ((w + 2 ^ 32 - 1) mod 2 ^ 32, h(t := Shared k))"
  using unlock_shared [of t n h 0 w] unlock_shared [of t n h k w] by simp_all

lemmas word_intros = word_step.intros [simplified] same_holding unlock_shared_cases [simplified]

interpretation spin: rw_lock n "spin_step n" spin_view for n
proof
  fix s s' assume st: "spin_step n s s'"
  obtain h where v: "spin_view s = (sp_shares s, h)" "\<And>t. h t = spin_holding (sp_pc s t)"
    by (simp add: spin_view_def)
  show "word_step n (spin_view s) (spin_view s')"
    using st by cases (auto simp: spin_view_goto v(1) v(2) intro: word_intros)
qed

end
