(* ===== verification/Waitlist.thy ===== *)
theory Waitlist
  imports Badger_Prelude
begin

text \<open>
  Wait lists and semaphores (\<open>src/kcore/sync/waitlist.rs\<close> and \<open>semaphore.rs\<close>) as steps of threads, one
  atomic access or one critical section of the list's spinlock each. Whether the scheduler times a
  blocked thread out and whether a signal is pending are choices of the steps.
\<close>

section \<open>Wait lists\<close>

text \<open>The tickets in the list, by their thread, and the \<open>BLOCKED\<close> flags.\<close>

record waitlist =
  tickets :: "nat list"
  blocked :: "nat \<Rightarrow> bool"

definition waitlist_new :: waitlist where
  "waitlist_new = \<lparr>tickets = [], blocked = (\<lambda>t. False)\<rparr>"

text \<open>Where a thread is in \<open>block_impl\<close>.\<close>

datatype wpc = WStart | WFlagged | WPushed | WYield | WRemove | WDone

text \<open>
  The steps of \<open>block_impl\<close>: \<open>may_block\<close> says that the condition can be found true and \<open>may_skip\<close> that it
  can be found false.
\<close>

inductive block_step :: "bool \<Rightarrow> bool \<Rightarrow> nat \<Rightarrow> wpc \<times> waitlist \<Rightarrow> wpc \<times> waitlist \<Rightarrow> bool" for may_block may_skip t where
  bl_flag: "block_step may_block may_skip t (WStart, w) (WFlagged, w\<lparr>blocked := (blocked w)(t := True)\<rparr>)"
| bl_push: "block_step may_block may_skip t (WFlagged, w) (WPushed, w\<lparr>tickets := tickets w @ [t]\<rparr>)"
| bl_true: "may_block \<Longrightarrow> block_step may_block may_skip t (WPushed, w) (WYield, w)"
| bl_false: "may_skip \<Longrightarrow> block_step may_block may_skip t (WPushed, w) (WRemove, w\<lparr>blocked := (blocked w)(t := False)\<rparr>)"
| bl_woken: "\<not> blocked w t \<Longrightarrow> block_step may_block may_skip t (WYield, w) (WRemove, w)"
| bl_timeout: "block_step may_block may_skip t (WYield, w) (WRemove, w\<lparr>blocked := (blocked w)(t := False)\<rparr>)"
| bl_remove: "block_step may_block may_skip t (WRemove, w) (WDone, w\<lparr>tickets := remove1 t (tickets w)\<rparr>)"

definition notify :: "waitlist \<Rightarrow> waitlist" where
  "notify w = (case tickets w of [] \<Rightarrow> w | t # ts \<Rightarrow> w\<lparr>tickets := ts, blocked := (blocked w)(t := False)\<rparr>)"

definition notify_all :: "waitlist \<Rightarrow> waitlist" where
  "notify_all w = w\<lparr>tickets := [], blocked := (\<lambda>t. blocked w t \<and> t \<notin> set (tickets w))\<rparr>"

section \<open>Semaphores\<close>

text \<open>
  How a thread waits: \<open>unintr_wait\<close>, \<open>wait\<close> or \<open>timed_wait\<close>, which a signal interrupts, or
  \<open>unintr_timed_wait\<close>, which gives up when its time has passed.
\<close>

datatype wait_kind = Unintr | Intr | Timed

datatype sem_pc = SmIdle | SmFast wait_kind nat | SmSlow wait_kind | SmBlock wait_kind wpc | SmNotify

record semaphore =
  sem_count :: nat
  sem_list :: waitlist
  sem_pc :: "nat \<Rightarrow> sem_pc"

definition sem_with_count :: "nat \<Rightarrow> semaphore" where
  "sem_with_count c = \<lparr>sem_count = c, sem_list = waitlist_new, sem_pc = (\<lambda>t. SmIdle)\<rparr>"

definition sem_goto :: "nat \<Rightarrow> sem_pc \<Rightarrow> semaphore \<Rightarrow> semaphore" where
  "sem_goto t p s = s\<lparr>sem_pc := (sem_pc s)(t := p)\<rparr>"

text \<open>
  The steps of \<open>n\<close> threads that wait in one of the ways \<open>K\<close>: the fast path tries fifty times, the slow
  path tries again each time it comes back from the wait list.
\<close>

inductive sem_step :: "nat \<Rightarrow> wait_kind set \<Rightarrow> semaphore \<Rightarrow> semaphore \<Rightarrow> bool" for n K where
  sm_post: "t < n \<Longrightarrow> sem_pc s t = SmIdle \<Longrightarrow>
    sem_step n K s (sem_goto t SmNotify (s\<lparr>sem_count := (sem_count s + 1) mod 2 ^ 32\<rparr>))"
| sm_notify: "t < n \<Longrightarrow> sem_pc s t = SmNotify \<Longrightarrow> sem_step n K s (sem_goto t SmIdle (s\<lparr>sem_list := notify (sem_list s)\<rparr>))"
| sm_wait: "t < n \<Longrightarrow> sem_pc s t = SmIdle \<Longrightarrow> k \<in> K \<Longrightarrow> sem_step n K s (sem_goto t (SmFast k 50) s)"
| sm_fast_take: "t < n \<Longrightarrow> sem_pc s t = SmFast k (Suc i) \<Longrightarrow> 0 < sem_count s \<Longrightarrow>
    sem_step n K s (sem_goto t SmIdle (s\<lparr>sem_count := sem_count s - 1\<rparr>))"
| sm_fast_miss: "t < n \<Longrightarrow> sem_pc s t = SmFast k (Suc i) \<Longrightarrow> sem_count s = 0 \<Longrightarrow> sem_step n K s (sem_goto t (SmFast k i) s)"
| sm_fast_end: "t < n \<Longrightarrow> sem_pc s t = SmFast k 0 \<Longrightarrow> sem_step n K s (sem_goto t (SmSlow k) s)"
| sm_slow_take: "t < n \<Longrightarrow> sem_pc s t = SmSlow k \<Longrightarrow> 0 < sem_count s \<Longrightarrow>
    sem_step n K s (sem_goto t SmIdle (s\<lparr>sem_count := sem_count s - 1\<rparr>))"
| sm_slow_miss: "t < n \<Longrightarrow> sem_pc s t = SmSlow k \<Longrightarrow> sem_count s = 0 \<Longrightarrow> sem_step n K s (sem_goto t (SmBlock k WStart) s)"
| sm_block: "t < n \<Longrightarrow> sem_pc s t = SmBlock k p \<Longrightarrow>
    block_step (sem_count s = 0) (sem_count s \<noteq> 0 \<or> k = Intr) t (p, sem_list s) (p', w') \<Longrightarrow>
    sem_step n K s (sem_goto t (SmBlock k p') (s\<lparr>sem_list := w'\<rparr>))"
| sm_again: "t < n \<Longrightarrow> sem_pc s t = SmBlock k WDone \<Longrightarrow> sem_step n K s (sem_goto t (SmSlow k) s)"
| sm_give_up: "t < n \<Longrightarrow> sem_pc s t = SmBlock k WDone \<Longrightarrow> k \<noteq> Unintr \<Longrightarrow> sem_step n K s (sem_goto t SmIdle s)"
| sm_reset: "t < n \<Longrightarrow> sem_pc s t = SmIdle \<Longrightarrow> sem_step n K s (s\<lparr>sem_count := 0\<rparr>)"

text \<open>Runs in which the counter does not overflow.\<close>

inductive sem_run :: "nat \<Rightarrow> wait_kind set \<Rightarrow> semaphore \<Rightarrow> semaphore \<Rightarrow> bool" for n K where
  sem_refl: "sem_run n K s s"
| sem_next: "sem_run n K s t \<Longrightarrow> sem_count t + 1 < 2 ^ 32 \<Longrightarrow> sem_step n K t u \<Longrightarrow> sem_run n K s u"

section \<open>No wake-up is lost\<close>

definition asleep :: "semaphore \<Rightarrow> nat \<Rightarrow> bool" where
  "asleep s t \<longleftrightarrow> (\<exists>k. sem_pc s t = SmBlock k WYield) \<and> blocked (sem_list s) t"

text \<open>A thread that will look at the counter again before it can sleep.\<close>

fun retrying :: "sem_pc \<Rightarrow> bool \<Rightarrow> bool" where
  "retrying (SmSlow k) listed = True"
| "retrying (SmBlock k p) listed \<longleftrightarrow> p = WDone \<or> p \<in> {WPushed, WYield, WRemove} \<and> \<not> listed"
| "retrying _ listed = False"

definition retries :: "nat \<Rightarrow> semaphore \<Rightarrow> nat set" where
  "retries n s = {t. t < n \<and> retrying (sem_pc s t) (t \<in> set (tickets (sem_list s)))}"

definition notifies :: "nat \<Rightarrow> semaphore \<Rightarrow> nat set" where
  "notifies n s = {t. t < n \<and> sem_pc s t = SmNotify}"

text \<open>
  Tickets are distinct and belong to threads in the list's critical phases; a flagged thread that has
  pushed its ticket and not been woken is in the list; and while a thread sleeps, every unit of the
  counter has a notification or a retry under way.
\<close>

definition sem_struct :: "nat \<Rightarrow> semaphore \<Rightarrow> bool" where
  "sem_struct n s \<longleftrightarrow> distinct (tickets (sem_list s)) \<and>
     (\<forall>t\<in>set (tickets (sem_list s)). t < n \<and> (\<exists>k p. sem_pc s t = SmBlock k p \<and> p \<in> {WPushed, WYield, WRemove})) \<and>
     (\<forall>t k p. sem_pc s t = SmBlock k p \<and> p \<in> {WPushed, WYield} \<and> blocked (sem_list s) t \<longrightarrow> t \<in> set (tickets (sem_list s)))"

definition sem_kinds :: "semaphore \<Rightarrow> bool" where
  "sem_kinds s \<longleftrightarrow> (\<forall>t k p. sem_pc s t = SmBlock k p \<longrightarrow> k = Unintr) \<and> (\<forall>t k. sem_pc s t = SmSlow k \<longrightarrow> k = Unintr) \<and>
     (\<forall>t k i. sem_pc s t = SmFast k i \<longrightarrow> k = Unintr)"

definition wakeups :: "nat \<Rightarrow> semaphore \<Rightarrow> bool" where
  "wakeups n s \<longleftrightarrow> ((\<exists>t. asleep s t) \<longrightarrow> sem_count s \<le> card (notifies n s) + card (retries n s))"

lemma sem_kinds_step: "sem_step n {Unintr} s s' \<Longrightarrow> sem_kinds s \<Longrightarrow> sem_kinds s'"
  by (induction rule: sem_step.induct) (simp add: sem_kinds_def sem_goto_def; blast)+

lemma sem_struct_step:
  assumes "sem_step n K s s'" "sem_struct n s"
  shows "sem_struct n s'"
  using assms
proof cases
  case (sm_notify t)
  have "t \<notin> set (tickets (sem_list s))" using assms(2) sm_notify by (auto simp: sem_struct_def)
  then show ?thesis using assms(2) sm_notify unfolding sem_struct_def sem_goto_def notify_def
    by (cases "tickets (sem_list s)") auto
next
  case (sm_block t k p p' w')
  show ?thesis using sm_block(4)
  proof cases
    case bl_push
    then have "t \<notin> set (tickets (sem_list s))" using assms(2) sm_block by (auto simp: sem_struct_def)
    then show ?thesis using assms(2) sm_block bl_push by (auto simp: sem_struct_def sem_goto_def)
  qed (use assms(2) sm_block in \<open>auto simp: sem_struct_def sem_goto_def\<close>)
qed (auto simp: sem_struct_def sem_goto_def)


lemma finite_threads [simp]: "finite (notifies n s)" "finite (retries n s)"
  by (simp_all add: notifies_def retries_def)

lemma wakeups_mono:
  assumes "wakeups n s" "\<And>u. asleep s' u \<Longrightarrow> asleep s u" "sem_count s' \<le> sem_count s"
    and "notifies n s \<subseteq> notifies n s'" "retries n s \<subseteq> retries n s'"
  shows "wakeups n s'"
proof -
  have "card (notifies n s) \<le> card (notifies n s')" "card (retries n s) \<le> card (retries n s')"
    using assms(4,5) by (simp_all add: card_mono)
  then show ?thesis using assms(1-3) unfolding wakeups_def by fastforce
qed

lemma wakeups_block:
  assumes "block_step (sem_count s = 0) (sem_count s \<noteq> 0 \<or> k = Intr) t (p, sem_list s) (p', w')"
    and "wakeups n s" "sem_struct n s" "t < n" "sem_pc s t = SmBlock k p"
  shows "wakeups n (sem_goto t (SmBlock k p') (s\<lparr>sem_list := w'\<rparr>))"
  using assms(1)
proof cases
  case bl_true
  then show ?thesis by (simp add: wakeups_def sem_goto_def)
next
  case bl_remove
  have d: "distinct (tickets (sem_list s))" using assms(3) by (simp add: sem_struct_def)
  show ?thesis using bl_remove assms(4,5) d
    by (intro wakeups_mono [OF assms(2)]) (auto simp: asleep_def sem_goto_def notifies_def retries_def split: if_splits)
qed (use assms(4,5) in \<open>(intro wakeups_mono [OF assms(2)]; auto simp: asleep_def sem_goto_def notifies_def retries_def split: if_splits)+\<close>)

lemma wakeups_notify:
  assumes "wakeups n s" "sem_struct n s" "t < n" "sem_pc s t = SmNotify"
  shows "wakeups n (sem_goto t SmIdle (s\<lparr>sem_list := notify (sem_list s)\<rparr>))" (is "wakeups n ?s")
proof (cases "tickets (sem_list s)")
  case Nil
  have "\<not> asleep s u" for u using assms(2) Nil unfolding asleep_def sem_struct_def by auto
  moreover have "asleep s u" if "asleep ?s u" for u
    using that Nil by (auto simp: asleep_def sem_goto_def notify_def split: if_splits)
  ultimately have "\<not> asleep ?s u" for u by blast
  then show ?thesis by (simp add: wakeups_def)
next
  case (Cons u us)
  obtain k p where u: "u < n" "sem_pc s u = SmBlock k p" "p \<in> {WPushed, WYield, WRemove}" "u \<notin> set us"
    using assms(2) Cons by (auto simp: sem_struct_def)
  have "u \<noteq> t" using u(2) assms(4) by auto
  have "notifies n ?s = notifies n s - {t}" by (auto simp: notifies_def sem_goto_def)
  then have N: "card (notifies n s) = card (notifies n ?s) + 1"
    using assms(3,4) card_Suc_Diff1 [of "notifies n s" t] by (simp add: notifies_def)
  have "x \<in> retries n ?s \<longleftrightarrow> x = u \<or> x \<in> retries n s" for x
    using Cons u \<open>u \<noteq> t\<close> assms(4) by (cases "x = u") (auto simp: retries_def sem_goto_def notify_def)
  then have "retries n ?s = insert u (retries n s)" by blast
  moreover have "u \<notin> retries n s" using Cons u by (auto simp: retries_def)
  ultimately have R: "card (retries n ?s) = card (retries n s) + 1" by simp
  have "asleep s v" if "asleep ?s v" for v
    using that Cons by (auto simp: asleep_def sem_goto_def notify_def split: if_splits)
  then show ?thesis using assms(1) N R by (auto simp: wakeups_def sem_goto_def)
qed

lemma wakeups_step:
  assumes "sem_step n {Unintr} s s'" "sem_struct n s" "sem_kinds s" "wakeups n s" "sem_count s + 1 < 2 ^ 32"
  shows "wakeups n s'"
  using assms(1)
proof cases
  case (sm_post t)
  have "notifies n s' = insert t (notifies n s)" "t \<notin> notifies n s" "retries n s' = retries n s"
    using sm_post by (auto simp: notifies_def retries_def sem_goto_def split: if_splits)
  then have "card (notifies n s') = card (notifies n s) + 1" "retries n s' = retries n s" by simp_all
  moreover have "sem_count s' = sem_count s + 1" using sm_post assms(5) by (simp add: sem_goto_def)
  moreover have "asleep s u" if "asleep s' u" for u using that sm_post by (auto simp: asleep_def sem_goto_def split: if_splits)
  ultimately show ?thesis using assms(4) by (auto simp: wakeups_def)
next
  case (sm_slow_take t k)
  have "t \<in> retries n s" using sm_slow_take by (simp add: retries_def)
  moreover have "retries n s' = retries n s - {t}" "notifies n s' = notifies n s"
    using sm_slow_take by (auto simp: notifies_def retries_def sem_goto_def split: if_splits)
  ultimately have "card (retries n s) = card (retries n s') + 1" "notifies n s' = notifies n s"
    using card_Suc_Diff1 [of "retries n s" t] by simp_all
  moreover have "asleep s u" if "asleep s' u" for u using that sm_slow_take by (auto simp: asleep_def sem_goto_def split: if_splits)
  moreover have "sem_count s' + 1 = sem_count s" using sm_slow_take by (simp add: sem_goto_def)
  ultimately show ?thesis using assms(4) by (auto simp: wakeups_def)
next
  case (sm_notify t)
  then show ?thesis using wakeups_notify assms(2,4) by simp
next
  case (sm_block t k p p' w')
  then show ?thesis using wakeups_block assms(2,4) by simp
next
  case (sm_give_up t k)
  then show ?thesis using assms(3) by (auto simp: sem_kinds_def)
next
  case (sm_reset t)
  then show ?thesis by (simp add: wakeups_def)
next
  case (sm_fast_miss t k i)
  then show ?thesis by (simp add: wakeups_def sem_goto_def)
next
  case (sm_slow_miss t k)
  then show ?thesis by (simp add: wakeups_def sem_goto_def)
qed (use assms(4) in \<open>(rule wakeups_mono; auto simp: asleep_def sem_goto_def notifies_def retries_def split: if_splits)\<close>)+


lemma sem_run_inv:
  assumes "sem_run n {Unintr} (sem_with_count c) s"
  shows "sem_struct n s \<and> sem_kinds s \<and> wakeups n s"
  using assms
proof (induction "sem_with_count c" s rule: sem_run.induct)
  case sem_refl
  then show ?case by (simp add: sem_struct_def sem_kinds_def wakeups_def asleep_def sem_with_count_def waitlist_new_def)
next
  case (sem_next s u)
  then show ?case using sem_struct_step sem_kinds_step wakeups_step by blast
qed

lemma sem_run_trans: "sem_run n K t u \<Longrightarrow> sem_run n K s t \<Longrightarrow> sem_run n K s u"
  by (induction rule: sem_run.induct) (auto intro: sem_next)

lemma sem_run_one: "sem_step n K s t \<Longrightarrow> sem_count s = 0 \<Longrightarrow> sem_run n K s t"
  by (rule sem_next [OF sem_refl]) simp_all

lemma fast_misses: "t < n \<Longrightarrow> sem_count s = 0 \<Longrightarrow> sem_run n K (sem_goto t (SmFast k i) s) (sem_goto t (SmFast k 0) s)"
proof (induction i)
  case 0
  show ?case by (rule sem_refl)
next
  case (Suc i)
  have "sem_step n K (sem_goto t (SmFast k (Suc i)) s) (sem_goto t (SmFast k i) (sem_goto t (SmFast k (Suc i)) s))"
    using Suc.prems by (intro sm_fast_miss) (simp_all add: sem_goto_def)
  then have "sem_run n K (sem_goto t (SmFast k (Suc i)) s) (sem_goto t (SmFast k i) s)"
    using Suc.prems by (intro sem_run_one) (simp_all add: sem_goto_def)
  then show ?case using Suc sem_run_trans by blast
qed

text \<open>A wait on an empty semaphore ends up asleep, with its ticket at the end of the list.\<close>

definition sleeping :: "nat \<Rightarrow> wait_kind \<Rightarrow> semaphore \<Rightarrow> semaphore" where
  "sleeping t k s = sem_goto t (SmBlock k WYield)
     (s\<lparr>sem_list := \<lparr>tickets = tickets (sem_list s) @ [t], blocked = (blocked (sem_list s))(t := True)\<rparr>\<rparr>)"

lemma falls_asleep:
  assumes "t < n" "sem_pc s t = SmIdle" "sem_count s = 0" "k \<in> K"
  shows "sem_run n K s (sleeping t k s)"
proof -
  let ?b = "\<lambda>p w. sem_goto t (SmBlock k p) (s\<lparr>sem_list := w\<rparr>)"
  let ?f = "(sem_list s)\<lparr>blocked := (blocked (sem_list s))(t := True)\<rparr>"
  let ?l = "?f\<lparr>tickets := tickets ?f @ [t]\<rparr>"
  have "sem_run n K s (sem_goto t (SmFast k 50) s)" using sm_wait [OF assms(1,2,4)] assms(3) by (rule sem_run_one)
  then have a: "sem_run n K s (sem_goto t (SmFast k 0) s)" using fast_misses [OF assms(1,3)] sem_run_trans by blast
  have next0: "sem_run n K s v" if "sem_run n K s u" "sem_step n K u v" "sem_count u = 0" for u v
    using sem_next [OF that(1) _ that(2)] that(3) by simp
  have count: "sem_count (?b p w) = 0" "sem_count (sem_goto t q s) = 0" for p q w using assms(3) by (simp_all add: sem_goto_def)
  have "sem_step n K (sem_goto t (SmFast k 0) s) (sem_goto t (SmSlow k) s)"
    using sm_fast_end [OF assms(1), of "sem_goto t (SmFast k 0) s" k K] by (simp add: sem_goto_def)
  then have b: "sem_run n K s (sem_goto t (SmSlow k) s)" using next0 [OF a _ count(2)] by blast
  have "sem_step n K (sem_goto t (SmSlow k) s) (?b WStart (sem_list s))"
    using sm_slow_miss [OF assms(1), of "sem_goto t (SmSlow k) s" k K] assms(3) by (simp add: sem_goto_def)
  then have c: "sem_run n K s (?b WStart (sem_list s))" using next0 [OF b _ count(2)] by blast
  have block: "sem_step n K (?b p w) (?b p' w')" if "block_step True (k = Intr) t (p, w) (p', w')" for p w p' w'
    using sm_block [OF assms(1), of "?b p w" k p p' w' K] that assms(3) by (simp add: sem_goto_def)
  have d: "sem_run n K s (?b WFlagged ?f)" by (rule next0 [OF c block [OF bl_flag] count(1)])
  have e: "sem_run n K s (?b WPushed ?l)" by (rule next0 [OF d block [OF bl_push] count(1)])
  have "sem_run n K s (?b WYield ?l)" by (rule next0 [OF e block [OF bl_true] count(1)]) simp
  moreover have "?b WYield ?l = sleeping t k s" by (simp add: sleeping_def sem_goto_def)
  ultimately show ?thesis by simp
qed


section \<open>Properties\<close>


definition one_sleeper :: semaphore where
  "one_sleeper = sem_goto 1 SmNotify ((sleeping 0 Unintr (sem_with_count 0))\<lparr>sem_count := 1\<rparr>)"


section \<open>What the interruptible wait does\<close>

text \<open>
  A signalled waiter that a post has woken returns \<open>EINTR\<close> without passing the wake-up on: the counter
  is positive, another thread sleeps, and nobody is about to wake it.
\<close>

definition two_sleepers :: semaphore where
  "two_sleepers = sleeping 1 Intr (sleeping 0 Intr (sem_with_count 0))"

definition post_lost :: semaphore where
  "post_lost = \<lparr>sem_count = 1, sem_list = \<lparr>tickets = [1], blocked = (\<lambda>t. t = 1)\<rparr>,
     sem_pc = (\<lambda>t. if t = 1 then SmBlock Intr WYield else SmIdle)\<rparr>"

lemma semaphore_eintr_loses_post:
  "sem_run 3 {Intr} (sem_with_count 0) post_lost \<and> asleep post_lost 1 \<and> sem_count post_lost = 1 \<and>
   notifies 3 post_lost = {} \<and> retries 3 post_lost = {}"
proof -
  let ?a = "sem_goto 2 SmNotify (two_sleepers\<lparr>sem_count := 1\<rparr>)"
  let ?l = "\<lparr>tickets = [1], blocked = (\<lambda>t. t = 1)\<rparr>"
  let ?b = "\<lambda>p. sem_goto 0 p (post_lost\<lparr>sem_list := ?l\<rparr>)"
  note defs = two_sleepers_def post_lost_def sleeping_def sem_goto_def sem_with_count_def waitlist_new_def notify_def
  have "sem_run 3 {Intr} (sem_with_count 0) (sleeping 0 Intr (sem_with_count 0))"
    by (rule falls_asleep) (simp_all add: sem_with_count_def)
  moreover have "sem_run 3 {Intr} (sleeping 0 Intr (sem_with_count 0)) two_sleepers"
    unfolding two_sleepers_def by (rule falls_asleep) (simp_all add: sleeping_def sem_goto_def sem_with_count_def)
  ultimately have r0: "sem_run 3 {Intr} (sem_with_count 0) two_sleepers" using sem_run_trans by blast
  have "sem_step 3 {Intr} two_sleepers ?a" using sm_post [of 2 3 two_sleepers "{Intr}"] by (simp add: defs)
  then have r1: "sem_run 3 {Intr} (sem_with_count 0) ?a" by (rule sem_next [OF r0, rotated]) (simp add: defs)
  have "sem_goto 2 SmIdle (?a\<lparr>sem_list := notify (sem_list ?a)\<rparr>) = ?b (SmBlock Intr WYield)"
    by (auto simp: defs fun_eq_iff)
  moreover have "sem_step 3 {Intr} ?a (sem_goto 2 SmIdle (?a\<lparr>sem_list := notify (sem_list ?a)\<rparr>))"
    by (rule sm_notify) (simp_all add: sem_goto_def)
  ultimately have "sem_step 3 {Intr} ?a (?b (SmBlock Intr WYield))" by metis
  then have r2: "sem_run 3 {Intr} (sem_with_count 0) (?b (SmBlock Intr WYield))"
    by (rule sem_next [OF r1, rotated]) (simp add: defs)
  have "sem_step 3 {Intr} (?b (SmBlock Intr WYield)) (?b (SmBlock Intr WRemove))"
    using sm_block [of 0 3 "?b (SmBlock Intr WYield)" Intr WYield WRemove ?l "{Intr}"] by (simp add: defs bl_woken)
  then have r3: "sem_run 3 {Intr} (sem_with_count 0) (?b (SmBlock Intr WRemove))"
    by (rule sem_next [OF r2, rotated]) (simp add: defs)
  have "sem_step 3 {Intr} (?b (SmBlock Intr WRemove)) (?b (SmBlock Intr WDone))"
    using sm_block [of 0 3 "?b (SmBlock Intr WRemove)" Intr WRemove WDone ?l "{Intr}"]
      bl_remove [of "1 = (0::nat)" True 0 ?l] by (simp add: defs)
  then have r4: "sem_run 3 {Intr} (sem_with_count 0) (?b (SmBlock Intr WDone))"
    by (rule sem_next [OF r3, rotated]) (simp add: defs)
  have "sem_goto 0 SmIdle (?b (SmBlock Intr WDone)) = post_lost" by (auto simp: defs)
  moreover have "sem_step 3 {Intr} (?b (SmBlock Intr WDone)) (sem_goto 0 SmIdle (?b (SmBlock Intr WDone)))"
    by (rule sm_give_up [where k = Intr]) (simp_all add: sem_goto_def)
  ultimately have "sem_step 3 {Intr} (?b (SmBlock Intr WDone)) post_lost" by simp
  then have "sem_run 3 {Intr} (sem_with_count 0) post_lost"
    by (rule sem_next [OF r4, rotated]) (simp add: defs)
  then show ?thesis by (auto simp: post_lost_def asleep_def notifies_def retries_def)
qed


end
