(* ===== verification/Mutex.thy ===== *)
theory Mutex
  imports Lock_Word Waitlist
begin

text \<open>
  Mutexes (\<open>src/kcore/sync/mutex.rs\<close>): the lock word of \<open>Lock_Word\<close> with the wait list of \<open>Waitlist\<close>
  behind it, as steps of threads, one atomic access or one critical section of the list's spinlock each.
  Mutual exclusion comes from the locale of lock words, which covers spinlocks and mutexes alike.
\<close>

section \<open>Raw mutexes\<close>

text \<open>
  What a thread is doing with a mutex: nothing; the fast path, the slow path and the wait of
  \<open>RawMutexGuard::new\<close> and \<open>unintr_new\<close>; those of \<open>SharedRawMutexGuard\<close> with their \<open>old\<close>; holding guards;
  or having released one and about to call \<open>notify_all\<close> or \<open>notify\<close>, with the guards it still holds.
\<close>

datatype mx_pc = MxIdle | MxFast wait_kind nat | MxSlow wait_kind | MxBlock wait_kind wpc
  | MxFastS wait_kind nat nat | MxSlowS wait_kind nat | MxBlockS wait_kind nat wpc
  | MxExcl | MxShares nat | MxNotifyAll nat | MxNotify nat

record mutex =
  mx_shares :: nat
  mx_list :: waitlist
  mx_pc :: "nat \<Rightarrow> mx_pc"

definition mutex_new :: mutex where
  "mutex_new = \<lparr>mx_shares = 0, mx_list = waitlist_new, mx_pc = (\<lambda>t. MxIdle)\<rparr>"

definition mx_goto :: "nat \<Rightarrow> mx_pc \<Rightarrow> mutex \<Rightarrow> mutex" where
  "mx_goto t p s = s\<lparr>mx_pc := (mx_pc s)(t := p)\<rparr>"

fun shares_pc :: "nat \<Rightarrow> mx_pc" where
  "shares_pc 0 = MxIdle"
| "shares_pc (Suc k) = MxShares (Suc k)"

text \<open>The steps of \<open>RawMutexGuard\<close>.\<close>

inductive raw_guard_step :: "wait_kind set \<Rightarrow> nat \<Rightarrow> mutex \<Rightarrow> mutex \<Rightarrow> bool" for K t where
  mx_lock: "mx_pc s t = MxIdle \<Longrightarrow> k \<in> K \<Longrightarrow> raw_guard_step K t s (mx_goto t (MxFast k 50) s)"
| mx_fast_cas: "mx_pc s t = MxFast k (Suc i) \<Longrightarrow> mx_shares s = 0 \<Longrightarrow>
    raw_guard_step K t s (mx_goto t MxExcl (s\<lparr>mx_shares := LOCKED\<rparr>))"
| mx_fast_fail: "mx_pc s t = MxFast k (Suc i) \<Longrightarrow> raw_guard_step K t s (mx_goto t (MxFast k i) s)"
| mx_fast_end: "mx_pc s t = MxFast k 0 \<Longrightarrow> raw_guard_step K t s (mx_goto t (MxSlow k) s)"
| mx_slow_cas: "mx_pc s t = MxSlow k \<Longrightarrow> mx_shares s = 0 \<Longrightarrow>
    raw_guard_step K t s (mx_goto t MxExcl (s\<lparr>mx_shares := LOCKED\<rparr>))"
| mx_slow_fail: "mx_pc s t = MxSlow k \<Longrightarrow> raw_guard_step K t s (mx_goto t (MxBlock k WStart) s)"
| mx_slow_timeout: "mx_pc s t = MxSlow k \<Longrightarrow> k \<noteq> Unintr \<Longrightarrow> raw_guard_step K t s (mx_goto t MxIdle s)"
| mx_block: "mx_pc s t = MxBlock k p \<Longrightarrow>
    block_step (mx_shares s \<noteq> 0) (mx_shares s = 0 \<or> k = Intr) t (p, mx_list s) (p', w') \<Longrightarrow>
    raw_guard_step K t s (mx_goto t (MxBlock k p') (s\<lparr>mx_list := w'\<rparr>))"
| mx_again: "mx_pc s t = MxBlock k WDone \<Longrightarrow> raw_guard_step K t s (mx_goto t (MxSlow k) s)"
| mx_eintr: "mx_pc s t = MxBlock Intr WDone \<Longrightarrow> raw_guard_step K t s (mx_goto t MxIdle s)"
| mx_drop: "mx_pc s t = MxExcl \<Longrightarrow> raw_guard_step K t s (mx_goto t (MxNotifyAll 0) (s\<lparr>mx_shares := 0\<rparr>))"
| mx_demote: "mx_pc s t = MxExcl \<Longrightarrow> raw_guard_step K t s (mx_goto t (MxNotifyAll 1) (s\<lparr>mx_shares := 1\<rparr>))"
| mx_notify_all: "mx_pc s t = MxNotifyAll k \<Longrightarrow>
    raw_guard_step K t s (mx_goto t (shares_pc k) (s\<lparr>mx_list := notify_all (mx_list s)\<rparr>))"

text \<open>The steps of \<open>SharedRawMutexGuard\<close>.\<close>

inductive shared_guard_step :: "wait_kind set \<Rightarrow> nat \<Rightarrow> mutex \<Rightarrow> mutex \<Rightarrow> bool" for K t where
  mxs_lock: "mx_pc s t = MxIdle \<Longrightarrow> k \<in> K \<Longrightarrow> shared_guard_step K t s (mx_goto t (MxFastS k 50 (mx_shares s)) s)"
| mxs_fast_reload: "mx_pc s t = MxFastS k (Suc i) LOCKED \<Longrightarrow> shared_guard_step K t s (mx_goto t (MxFastS k i (mx_shares s)) s)"
| mxs_fast_cas: "mx_pc s t = MxFastS k (Suc i) old \<Longrightarrow> old \<noteq> LOCKED \<Longrightarrow> mx_shares s = old \<Longrightarrow>
    shared_guard_step K t s (mx_goto t (MxShares 1) (s\<lparr>mx_shares := old + 1\<rparr>))"
| mxs_fast_fail: "mx_pc s t = MxFastS k (Suc i) old \<Longrightarrow> old \<noteq> LOCKED \<Longrightarrow>
    shared_guard_step K t s (mx_goto t (MxFastS k i (mx_shares s)) s)"
| mxs_fast_end: "mx_pc s t = MxFastS k 0 old \<Longrightarrow> shared_guard_step K t s (mx_goto t (MxSlowS k old) s)"
| mxs_slow_timeout: "mx_pc s t = MxSlowS k old \<Longrightarrow> k \<noteq> Unintr \<Longrightarrow> shared_guard_step K t s (mx_goto t MxIdle s)"
| mxs_slow_reload: "mx_pc s t = MxSlowS k LOCKED \<Longrightarrow> shared_guard_step K t s (mx_goto t (MxBlockS k (mx_shares s) WStart) s)"
| mxs_slow_cas: "mx_pc s t = MxSlowS k old \<Longrightarrow> old \<noteq> LOCKED \<Longrightarrow> mx_shares s = old \<Longrightarrow>
    shared_guard_step K t s (mx_goto t (MxShares 1) (s\<lparr>mx_shares := old + 1\<rparr>))"
| mxs_slow_fail: "mx_pc s t = MxSlowS k old \<Longrightarrow> old \<noteq> LOCKED \<Longrightarrow> shared_guard_step K t s (mx_goto t (MxSlowS k (mx_shares s)) s)"
| mxs_block: "mx_pc s t = MxBlockS k old p \<Longrightarrow>
    block_step (mx_shares s = LOCKED) (mx_shares s \<noteq> LOCKED \<or> k = Intr) t (p, mx_list s) (p', w') \<Longrightarrow>
    shared_guard_step K t s (mx_goto t (MxBlockS k old p') (s\<lparr>mx_list := w'\<rparr>))"
| mxs_again: "mx_pc s t = MxBlockS k old WDone \<Longrightarrow> shared_guard_step K t s (mx_goto t (MxSlowS k old) s)"
| mxs_eintr: "mx_pc s t = MxBlockS Intr old WDone \<Longrightarrow> shared_guard_step K t s (mx_goto t MxIdle s)"
| mxs_share: "mx_pc s t = MxShares (Suc k) \<Longrightarrow>
    shared_guard_step K t s (mx_goto t (MxShares (Suc (Suc k))) (s\<lparr>mx_shares := (mx_shares s + 1) mod 2 ^ 32\<rparr>))"
| mxs_drop: "mx_pc s t = MxShares (Suc k) \<Longrightarrow>
    shared_guard_step K t s (mx_goto t (if mx_shares s = 1 then MxNotify k else shares_pc k)
      (s\<lparr>mx_shares := (mx_shares s + 2 ^ 32 - 1) mod 2 ^ 32\<rparr>))"
| mxs_notify: "mx_pc s t = MxNotify k \<Longrightarrow>
    shared_guard_step K t s (mx_goto t (shares_pc k) (s\<lparr>mx_list := notify (mx_list s)\<rparr>))"

text \<open>A step of one of \<open>n\<close> threads, which wait in one of the ways \<open>K\<close>.\<close>

definition mutex_step :: "nat \<Rightarrow> wait_kind set \<Rightarrow> mutex \<Rightarrow> mutex \<Rightarrow> bool" where
  "mutex_step n K s s' \<longleftrightarrow> (\<exists>t<n. raw_guard_step K t s s' \<or> shared_guard_step K t s s')"

section \<open>The guards\<close>

fun held :: "nat \<Rightarrow> holding" where
  "held 0 = Free"
| "held (Suc k) = Shared (Suc k)"

fun mx_holding :: "mx_pc \<Rightarrow> holding" where
  "mx_holding MxExcl = Exclusive"
| "mx_holding (MxShares k) = Shared k"
| "mx_holding (MxNotifyAll k) = held k"
| "mx_holding (MxNotify k) = held k"
| "mx_holding _ = Free"

definition mutex_view :: "mutex \<Rightarrow> nat \<times> (nat \<Rightarrow> holding)" where
  "mutex_view s = (mx_shares s, \<lambda>t. mx_holding (mx_pc s t))"

lemma mutex_view_goto:
  "mutex_view (mx_goto t p s) = (mx_shares s, (snd (mutex_view s))(t := mx_holding p))"
  "snd (mutex_view (s\<lparr>mx_shares := w\<rparr>)) = snd (mutex_view s)"
  "snd (mutex_view (s\<lparr>mx_list := l\<rparr>)) = snd (mutex_view s)"
  by (auto simp: mutex_view_def mx_goto_def fun_eq_iff)

lemma shares_pc_holding [simp]: "mx_holding (shares_pc k) = held k"
  by (cases k) auto

lemma unlock_held:
  "t < n \<Longrightarrow> h t = Shared (Suc k) \<Longrightarrow> word_step n (w, h) ((w + 2 ^ 32 - 1) mod 2 ^ 32, h(t := held k))"
  using unlock_shared [of t n h k w] by (cases k) simp_all

lemma unlock_last: "t < n \<Longrightarrow> h t = Shared (Suc k) \<Longrightarrow> word_step n (Suc 0, h) (0, h(t := held k))"
  using unlock_held [of t n h k 1] by simp

lemma held_intro: "h t = held k \<Longrightarrow> word_step n (w, h) (w, h(t := held k))"
  by (rule same_holding)

interpretation mx: rw_lock n "mutex_step n K" mutex_view for n K
proof
  fix s s' assume "mutex_step n K s s'"
  then obtain t where t: "t < n" "raw_guard_step K t s s' \<or> shared_guard_step K t s s'" by (auto simp: mutex_step_def)
  obtain h where v: "mutex_view s = (mx_shares s, h)" "\<And>t. h t = mx_holding (mx_pc s t)"
    by (simp add: mutex_view_def)
  note rules = word_intros unlock_held [simplified] unlock_last held_intro
  show "word_step n (mutex_view s) (mutex_view s')"
    using t(2)
  proof
    assume "raw_guard_step K t s s'"
    then show ?thesis using t(1) by cases (auto simp: mutex_view_goto v(1) v(2) intro: rules)
  next
    assume "shared_guard_step K t s s'"
    then show ?thesis using t(1) by cases (auto simp: mutex_view_goto v(1) v(2) intro: rules)
  qed
qed

section \<open>No wake-up is lost\<close>

text \<open>
  Who sleeps: a thread that waits for the word to become zero, and one that waits for it to stop being
  \<open>LOCKED\<close>. A thread in the slow path that does not sleep looks at the word before it can.
\<close>

fun excl_wait :: "mx_pc \<Rightarrow> bool" where
  "excl_wait (MxBlock k p) \<longleftrightarrow> p = WYield"
| "excl_wait _ \<longleftrightarrow> False"

fun shared_wait :: "mx_pc \<Rightarrow> bool" where
  "shared_wait (MxBlockS k old p) \<longleftrightarrow> p = WYield"
| "shared_wait _ \<longleftrightarrow> False"

fun slow_path :: "mx_pc \<Rightarrow> bool" where
  "slow_path (MxSlow k) \<longleftrightarrow> True"
| "slow_path (MxBlock k p) \<longleftrightarrow> True"
| "slow_path (MxSlowS k old) \<longleftrightarrow> True"
| "slow_path (MxBlockS k old p) \<longleftrightarrow> True"
| "slow_path _ \<longleftrightarrow> False"

fun notify_all_pc :: "mx_pc \<Rightarrow> bool" where
  "notify_all_pc (MxNotifyAll k) \<longleftrightarrow> True"
| "notify_all_pc _ \<longleftrightarrow> False"

fun notify_pc :: "mx_pc \<Rightarrow> bool" where
  "notify_pc (MxNotifyAll k) \<longleftrightarrow> True"
| "notify_pc (MxNotify k) \<longleftrightarrow> True"
| "notify_pc _ \<longleftrightarrow> False"

definition sleeps_excl :: "mutex \<Rightarrow> nat \<Rightarrow> bool" where
  "sleeps_excl s t \<longleftrightarrow> excl_wait (mx_pc s t) \<and> blocked (mx_list s) t"

definition sleeps_shared :: "mutex \<Rightarrow> nat \<Rightarrow> bool" where
  "sleeps_shared s t \<longleftrightarrow> shared_wait (mx_pc s t) \<and> blocked (mx_list s) t"

definition will_retry :: "mutex \<Rightarrow> nat \<Rightarrow> bool" where
  "will_retry s t \<longleftrightarrow> slow_path (mx_pc s t) \<and> \<not> sleeps_excl s t \<and> \<not> sleeps_shared s t"

definition will_notify_all :: "mutex \<Rightarrow> nat \<Rightarrow> bool" where
  "will_notify_all s t \<longleftrightarrow> notify_all_pc (mx_pc s t)"

definition will_notify :: "mutex \<Rightarrow> nat \<Rightarrow> bool" where
  "will_notify s t \<longleftrightarrow> notify_pc (mx_pc s t)"

text \<open>Where a thread waits, if it is in the wait list's \<open>block_impl\<close>.\<close>

fun mx_phase :: "mx_pc \<Rightarrow> wpc option" where
  "mx_phase (MxBlock k p) = Some p"
| "mx_phase (MxBlockS k old p) = Some p"
| "mx_phase _ = None"

definition listed_ok :: "mutex \<Rightarrow> bool" where
  "listed_ok s \<longleftrightarrow> (\<forall>t. mx_phase (mx_pc s t) \<in> {Some WPushed, Some WYield} \<and> blocked (mx_list s) t \<longrightarrow> t \<in> set (tickets (mx_list s))) \<and>
     (\<forall>t\<in>set (tickets (mx_list s)). mx_phase (mx_pc s t) \<in> {Some WPushed, Some WYield, Some WRemove}) \<and>
     distinct (tickets (mx_list s))"

fun mx_kind :: "mx_pc \<Rightarrow> wait_kind option" where
  "mx_kind (MxFast k i) = Some k"
| "mx_kind (MxSlow k) = Some k"
| "mx_kind (MxBlock k p) = Some k"
| "mx_kind (MxFastS k i old) = Some k"
| "mx_kind (MxSlowS k old) = Some k"
| "mx_kind (MxBlockS k old p) = Some k"
| "mx_kind _ = None"

definition mx_kinds :: "mutex \<Rightarrow> bool" where
  "mx_kinds s \<longleftrightarrow> (\<forall>t. mx_kind (mx_pc s t) \<in> {None, Some Unintr})"

definition no_lost :: "mutex \<Rightarrow> bool" where
  "no_lost s \<longleftrightarrow> ((\<exists>t. sleeps_excl s t) \<and> mx_shares s = 0 \<longrightarrow> (\<exists>u. will_notify s u \<or> will_retry s u)) \<and>
     ((\<exists>t. sleeps_shared s t) \<and> mx_shares s \<noteq> LOCKED \<longrightarrow> (\<exists>u. will_notify_all s u))"

lemma shares_pc_simps [simp]: "mx_phase (shares_pc k) = None" "mx_kind (shares_pc k) = None"
  "\<not> excl_wait (shares_pc k)" "\<not> shared_wait (shares_pc k)" "\<not> slow_path (shares_pc k)"
  "\<not> notify_all_pc (shares_pc k)" "\<not> notify_pc (shares_pc k)"
  by (cases k; simp)+

lemma waits_phase: "excl_wait p \<Longrightarrow> mx_phase p = Some WYield" "shared_wait p \<Longrightarrow> mx_phase p = Some WYield"
  by (cases p; simp)+

lemma mx_kinds_step:
  assumes "raw_guard_step {Unintr} t s s' \<or> shared_guard_step {Unintr} t s s'" "mx_kinds s"
  shows "mx_kinds s'"
  using assms(1)
proof
  have k: "mx_kind (mx_pc s t) \<in> {None, Some Unintr}" using assms(2) by (simp add: mx_kinds_def)
  assume "raw_guard_step {Unintr} t s s'"
  then show ?thesis using assms(2) k by cases (auto simp: mx_kinds_def mx_goto_def)
next
  have k: "mx_kind (mx_pc s t) \<in> {None, Some Unintr}" using assms(2) by (simp add: mx_kinds_def)
  assume "shared_guard_step {Unintr} t s s'"
  then show ?thesis using assms(2) k by cases (auto simp: mx_kinds_def mx_goto_def)
qed

lemma listed_ok_block:
  assumes "block_step a b t (p, mx_list s) (p', w')" "listed_ok s" "mx_phase (mx_pc s t) = Some p" "mx_phase q = Some p'"
  shows "listed_ok (mx_goto t q (s\<lparr>mx_list := w'\<rparr>))"
  using assms by cases (auto simp: listed_ok_def mx_goto_def)

lemma listed_ok_goto:
  assumes "listed_ok s" "mx_phase (mx_pc s t) \<in> {None, Some WDone}" "mx_phase q \<in> {None, Some WStart}"
  shows "listed_ok (mx_goto t q s)" "listed_ok (mx_goto t q (s\<lparr>mx_shares := w\<rparr>))"
    "listed_ok (mx_goto t q (s\<lparr>mx_list := notify (mx_list s)\<rparr>))" "listed_ok (mx_goto t q (s\<lparr>mx_list := notify_all (mx_list s)\<rparr>))"
proof -
  have t: "t \<notin> set (tickets (mx_list s))" using assms(1,2) by (auto simp: listed_ok_def)
  show "listed_ok (mx_goto t q s)" "listed_ok (mx_goto t q (s\<lparr>mx_shares := w\<rparr>))"
    "listed_ok (mx_goto t q (s\<lparr>mx_list := notify_all (mx_list s)\<rparr>))"
    using assms t by (auto simp: listed_ok_def mx_goto_def notify_all_def)
  show "listed_ok (mx_goto t q (s\<lparr>mx_list := notify (mx_list s)\<rparr>))"
    using assms t by (cases "tickets (mx_list s)") (auto simp: listed_ok_def mx_goto_def notify_def)
qed

lemma listed_ok_step:
  assumes "raw_guard_step K t s s' \<or> shared_guard_step K t s s'" "listed_ok s"
  shows "listed_ok s'"
  using assms(1)
proof
  assume "raw_guard_step K t s s'"
  then show ?thesis
  proof cases
    case (mx_block k p p' w')
    then show ?thesis using listed_ok_block [OF mx_block(3) assms(2)] by simp
  qed (use assms(2) in \<open>(auto intro!: listed_ok_goto)\<close>)
next
  assume "shared_guard_step K t s s'"
  then show ?thesis
  proof cases
    case (mxs_block k old p p' w')
    then show ?thesis using listed_ok_block [OF mxs_block(3) assms(2)] by simp
  qed (use assms(2) in \<open>(auto intro!: listed_ok_goto)\<close>)
qed

lemma no_lost_mono:
  assumes "no_lost s" "\<And>u. sleeps_excl s' u \<Longrightarrow> sleeps_excl s u" "\<And>u. sleeps_shared s' u \<Longrightarrow> sleeps_shared s u"
    and "\<And>u. will_notify s u \<Longrightarrow> will_notify s' u" "\<And>u. will_notify_all s u \<Longrightarrow> will_notify_all s' u"
    and "\<And>u. mx_shares s' = 0 \<Longrightarrow> will_retry s u \<Longrightarrow> will_retry s' u"
    and "mx_shares s' = 0 \<Longrightarrow> mx_shares s = 0 \<or> (\<exists>u. will_notify s' u)"
    and "mx_shares s' \<noteq> LOCKED \<Longrightarrow> mx_shares s \<noteq> LOCKED \<or> (\<exists>u. will_notify_all s' u)"
  shows "no_lost s'"
  using assms unfolding no_lost_def by meson

lemmas mx_defs = sleeps_excl_def sleeps_shared_def will_notify_def will_notify_all_def will_retry_def

lemma no_lost_goto:
  assumes "no_lost s" "\<And>u. u \<noteq> t \<Longrightarrow> blocked w' u = blocked (mx_list s) u"
    and "\<not> excl_wait q \<and> \<not> shared_wait q" "slow_path (mx_pc s t) \<longrightarrow> slow_path q"
    and "notify_pc (mx_pc s t) \<longrightarrow> notify_pc q" "notify_all_pc (mx_pc s t) \<longrightarrow> notify_all_pc q"
  shows "no_lost (mx_goto t q (s\<lparr>mx_list := w'\<rparr>))"
  by (rule no_lost_mono [OF assms(1)]) (use assms in \<open>auto simp: mx_goto_def mx_defs split: if_splits\<close>)

lemma no_lost_goto_same:
  assumes "no_lost s" "\<not> excl_wait q \<and> \<not> shared_wait q" "slow_path (mx_pc s t) \<longrightarrow> slow_path q"
    and "notify_pc (mx_pc s t) \<longrightarrow> notify_pc q" "notify_all_pc (mx_pc s t) \<longrightarrow> notify_all_pc q"
  shows "no_lost (mx_goto t q s)"
  using no_lost_goto [of s t "mx_list s" q] assms by simp

lemma slow_path_notify: "slow_path p \<Longrightarrow> \<not> notify_pc p \<and> \<not> notify_all_pc p"
  by (cases p) simp_all

lemma block_yield: "block_step a b t (p, w) (WYield, w') \<Longrightarrow> a \<and> w' = w"
  by (erule block_step.cases) simp_all

lemma no_lost_block:
  assumes "block_step a b t (p, mx_list s) (p', w')" "no_lost s"
    and "mx_phase (mx_pc s t) = Some p" "mx_phase q = Some p'" "slow_path (mx_pc s t)" "slow_path q"
    and "excl_wait q \<Longrightarrow> a \<Longrightarrow> mx_shares s \<noteq> 0" "shared_wait q \<Longrightarrow> a \<Longrightarrow> mx_shares s = LOCKED"
  shows "no_lost (mx_goto t q (s\<lparr>mx_list := w'\<rparr>))"
proof (cases "p' = WYield")
  case True
  then have "a" "w' = mx_list s" "\<not> notify_all_pc (mx_pc s t)"
    using assms(1,5) block_yield slow_path_notify by blast+
  note same = this
  let ?s = "mx_goto t q (s\<lparr>mx_list := w'\<rparr>)"
  have shares: "mx_shares ?s = mx_shares s" by (simp add: mx_goto_def)
  have all: "will_notify_all ?s u" if "will_notify_all s u" for u
    using that same by (auto simp: will_notify_all_def mx_goto_def)
  consider "shared_wait q" "mx_shares s = LOCKED" | "\<not> shared_wait q" "mx_shares s \<noteq> 0"
    using assms(4,7,8) True same by (cases q) auto
  then show ?thesis
  proof cases
    case 1
    then show ?thesis using shares by (simp add: no_lost_def LOCKED_def)
  next
    case 2
    then have "sleeps_shared s u" if "sleeps_shared ?s u" for u
      using that same by (auto simp: sleeps_shared_def mx_goto_def split: if_splits)
    then show ?thesis using 2 shares all assms(2) unfolding no_lost_def by metis
  qed
next
  case False
  show ?thesis
  proof (rule no_lost_goto [OF assms(2)])
    show "\<And>u. u \<noteq> t \<Longrightarrow> blocked w' u = blocked (mx_list s) u" using assms(1) by cases auto
  qed (use assms(4-6) False waits_phase [of q] slow_path_notify [OF assms(5)] in \<open>auto\<close>)
qed

lemma no_lost_notify_all:
  assumes "listed_ok s"
  shows "no_lost (mx_goto t (shares_pc k) (s\<lparr>mx_list := notify_all (mx_list s)\<rparr>))" (is "no_lost ?s")
proof -
  have "\<not> sleeps_excl ?s u \<and> \<not> sleeps_shared ?s u" for u
  proof (cases "u = t")
    case False
    then show ?thesis using assms waits_phase [of "mx_pc s u"]
      by (auto simp: sleeps_excl_def sleeps_shared_def listed_ok_def mx_goto_def notify_all_def)
  qed (simp add: sleeps_excl_def sleeps_shared_def mx_goto_def)
  then show ?thesis by (simp add: no_lost_def)
qed


lemma no_lost_notify:
  assumes "listed_ok s" "no_lost s" "mx_pc s t = MxNotify k"
  shows "no_lost (mx_goto t (shares_pc k) (s\<lparr>mx_list := notify (mx_list s)\<rparr>))" (is "no_lost ?s")
proof (cases "tickets (mx_list s)")
  case Nil
  have "\<not> sleeps_excl ?s u \<and> \<not> sleeps_shared ?s u" for u
    using assms(1) Nil waits_phase [of "mx_pc s u"]
    by (auto simp: sleeps_excl_def sleeps_shared_def listed_ok_def mx_goto_def notify_def)
  then show ?thesis by (simp add: no_lost_def)
next
  case (Cons u us)
  have "mx_phase (mx_pc s u) \<in> {Some WPushed, Some WYield, Some WRemove}" using assms(1) Cons by (simp add: listed_ok_def)
  then have "slow_path (mx_pc s u)" "u \<noteq> t" using assms(3) by (cases "mx_pc s u"; auto)+
  then have "will_retry ?s u" using Cons by (simp add: mx_defs mx_goto_def notify_def)
  moreover have "sleeps_shared s v" if "sleeps_shared ?s v" for v
    using that Cons by (auto simp: sleeps_shared_def mx_goto_def notify_def split: if_splits)
  moreover have "will_notify_all ?s v" if "will_notify_all s v" for v
    using that assms(3) by (auto simp: will_notify_all_def mx_goto_def)
  moreover have "mx_shares ?s = mx_shares s" by (simp add: mx_goto_def)
  ultimately show ?thesis using assms(2) unfolding no_lost_def by metis
qed

text \<open>A step that changes the word: one that sets it to zero or away from \<open>LOCKED\<close> is about to notify.\<close>

lemma no_lost_word:
  assumes "no_lost s" "\<not> excl_wait q \<and> \<not> shared_wait q" "\<not> notify_pc (mx_pc s t)"
    and "w = 0 \<Longrightarrow> notify_pc q \<and> \<not> slow_path (mx_pc s t)" "w \<noteq> LOCKED \<Longrightarrow> mx_shares s \<noteq> LOCKED \<or> notify_all_pc q"
  shows "no_lost (mx_goto t q (s\<lparr>mx_shares := w\<rparr>))"
proof (rule no_lost_mono [OF assms(1)])
  have n: "\<not> notify_all_pc (mx_pc s t)" using assms(3) by (cases "mx_pc s t") auto
  then show "will_notify_all s u \<Longrightarrow> will_notify_all (mx_goto t q (s\<lparr>mx_shares := w\<rparr>)) u" for u
    by (auto simp: mx_goto_def mx_defs)
  show "mx_shares (mx_goto t q (s\<lparr>mx_shares := w\<rparr>)) = 0 \<Longrightarrow>
    mx_shares s = 0 \<or> (\<exists>u. will_notify (mx_goto t q (s\<lparr>mx_shares := w\<rparr>)) u)"
    using assms(4) by (auto simp: mx_goto_def mx_defs intro: exI [of _ t])
  show "mx_shares (mx_goto t q (s\<lparr>mx_shares := w\<rparr>)) \<noteq> LOCKED \<Longrightarrow>
    mx_shares s \<noteq> LOCKED \<or> (\<exists>u. will_notify_all (mx_goto t q (s\<lparr>mx_shares := w\<rparr>)) u)"
    using assms(5) by (auto simp: mx_goto_def mx_defs intro: exI [of _ t])
qed (use assms in \<open>auto simp: mx_goto_def mx_defs split: if_splits\<close>)

lemma no_lost_raw_step:
  assumes "raw_guard_step {Unintr} t s s'" "no_lost s" "listed_ok s" "mx_kinds s"
  shows "no_lost s'"
  using assms(1)
proof cases
  case (mx_block k p p' w')
  then show ?thesis using no_lost_block [OF mx_block(3) assms(2), of "MxBlock k p'"] by simp
next
  case (mx_slow_timeout k)
  then show ?thesis using assms(4) unfolding mx_kinds_def by (metis empty_iff insert_iff mx_kind.simps(2) option.distinct(1) option.inject)
next
  case mx_eintr
  then show ?thesis using assms(4) unfolding mx_kinds_def
    by (metis empty_iff insert_iff mx_kind.simps(3) option.distinct(1) option.inject wait_kind.distinct(1))
next
  case (mx_notify_all k)
  then show ?thesis using no_lost_notify_all [OF assms(3)] by simp
next
  case (mx_fast_cas k i)
  then show ?thesis using no_lost_word [OF assms(2), of MxExcl t LOCKED] by (simp add: LOCKED_def)
next
  case (mx_slow_cas k)
  then show ?thesis using no_lost_word [OF assms(2), of MxExcl t LOCKED] by (simp add: LOCKED_def)
next
  case mx_drop
  then show ?thesis using no_lost_word [OF assms(2), of "MxNotifyAll 0" t 0] by simp
next
  case mx_demote
  then show ?thesis using no_lost_word [OF assms(2), of "MxNotifyAll 1" t 1] by simp
qed (use no_lost_goto_same [OF assms(2)] in simp_all)

lemma no_lost_shared_step:
  assumes "shared_guard_step {Unintr} t s s'" "no_lost s" "listed_ok s" "mx_kinds s"
    and "word_ok n (mutex_view s)" "shared_guards n (snd (mutex_view s)) + 1 < LOCKED"
  shows "no_lost s'"
  using assms(1)
proof cases
  case (mxs_block k old p p' w')
  then show ?thesis using no_lost_block [OF mxs_block(3) assms(2), of "MxBlockS k old p'"] by simp
next
  case (mxs_slow_timeout k old)
  then show ?thesis using assms(4) unfolding mx_kinds_def by (metis empty_iff insert_iff mx_kind.simps(5) option.distinct(1) option.inject)
next
  case (mxs_eintr old)
  then show ?thesis using assms(4) unfolding mx_kinds_def
    by (metis empty_iff insert_iff mx_kind.simps(6) option.distinct(1) option.inject wait_kind.distinct(1))
next
  case (mxs_notify k)
  then show ?thesis using no_lost_notify [OF assms(3,2)] by simp
next
  case (mxs_fast_cas k i old)
  then show ?thesis using no_lost_word [OF assms(2), of "MxShares 1" t "old + 1"] by simp
next
  case (mxs_slow_cas k old)
  then show ?thesis using no_lost_word [OF assms(2), of "MxShares 1" t "old + 1"] by simp
next
  case (mxs_share k)
  note w = word_ok_shared [OF assms(5) [unfolded mutex_view_def], of t k]
  have "mx_shares s + 1 < LOCKED" "mx_shares s \<noteq> LOCKED" using w mxs_share assms(6) by (simp_all add: mutex_view_def)
  then have "(mx_shares s + 1) mod 2 ^ 32 \<noteq> 0" by (simp add: LOCKED_def)
  then show ?thesis using mxs_share no_lost_word [OF assms(2), of "MxShares (Suc (Suc k))" t "(mx_shares s + 1) mod 2 ^ 32"]
    \<open>mx_shares s \<noteq> LOCKED\<close> by simp
next
  case (mxs_drop k)
  note w = word_ok_shared [OF assms(5) [unfolded mutex_view_def], of t k]
  have l: "mx_shares s + 1 < LOCKED" "mx_shares s \<noteq> LOCKED" using w mxs_drop assms(6) by (simp_all add: mutex_view_def)
  obtain v where v: "v = (mx_shares s + 2 ^ 32 - 1) mod 2 ^ 32" by blast
  have z: "mx_shares s = 1" if "v = 0"
    using that l unfolding v by (cases "mx_shares s") (simp_all add: LOCKED_def)
  have s': "s' = mx_goto t (if mx_shares s = 1 then MxNotify k else shares_pc k) (s\<lparr>mx_shares := v\<rparr>)"
    using mxs_drop(1) v by simp
  show ?thesis unfolding s' by (rule no_lost_word [OF assms(2)]) (use mxs_drop(2) l z in auto)
qed (use no_lost_goto_same [OF assms(2)] in simp_all)


lemma mutex_run_inv:
  assumes "lock_run n (mutex_step n {Unintr}) mutex_view mutex_new s"
  shows "word_ok n (mutex_view s) \<and> mx_kinds s \<and> listed_ok s \<and> no_lost s"
  using assms
proof (induction mutex_new s rule: lock_run.induct)
  case run_refl
  then show ?case
    by (simp add: mutex_new_def mutex_view_def word_ok_def mx_kinds_def listed_ok_def no_lost_def mx_defs
      waitlist_new_def LOCKED_def shared_guards_def)
next
  case (run_step s u)
  have "word_ok n (mutex_view u)" using run_step mx.accesses word_step_ok by blast
  then show ?case using run_step mx_kinds_step listed_ok_step no_lost_raw_step no_lost_shared_step
    unfolding mutex_step_def by blast
qed

text \<open>A thread that finds the mutex locked ends up asleep, with its ticket at the end of the list.\<close>

abbreviation mutex_run :: "nat \<Rightarrow> wait_kind set \<Rightarrow> mutex \<Rightarrow> mutex \<Rightarrow> bool" where
  "mutex_run n K \<equiv> lock_run n (mutex_step n K) mutex_view"

definition mx_sleeping :: "nat \<Rightarrow> wait_kind \<Rightarrow> mutex \<Rightarrow> mutex" where
  "mx_sleeping t k s = mx_goto t (MxBlock k WYield)
     (s\<lparr>mx_list := \<lparr>tickets = tickets (mx_list s) @ [t], blocked = (blocked (mx_list s))(t := True)\<rparr>\<rparr>)"

lemma raw_step: "raw_guard_step K t s s' \<Longrightarrow> t < n \<Longrightarrow> mutex_step n K s s'"
  by (auto simp: mutex_step_def)

lemma mx_falls_asleep:
  assumes "mutex_run n K i s" "t < n" "mx_pc s t = MxIdle" "mx_shares s \<noteq> 0" "k \<in> K"
    and "\<And>u. guards (mx_holding (mx_pc s u)) = 0"
  shows "mutex_run n K i (mx_sleeping t k s)"
proof -
  let ?f = "(mx_list s)\<lparr>blocked := (blocked (mx_list s))(t := True)\<rparr>"
  let ?l = "?f\<lparr>tickets := tickets ?f @ [t]\<rparr>"
  let ?b = "\<lambda>p w. mx_goto t p (s\<lparr>mx_list := w\<rparr>)"
  have nxt: "mutex_run n K i v" if "mutex_run n K i u" "raw_guard_step K t u v" "u = s \<or> u = ?b p w" "mx_holding p = Free" for u v p w
  proof (rule run_step [OF that(1) _ raw_step [OF that(2) assms(2)]])
    have "guards (mx_holding (mx_pc u v)) = 0" for v using that(3,4) assms(6) by (auto simp: mx_goto_def)
    then show "shared_guards n (snd (mutex_view u)) + 1 < LOCKED" by (simp add: shared_guards_def mutex_view_def LOCKED_def)
  qed
  have same: "?b p (mx_list s) = mx_goto t p s" for p by simp
  have a: "mutex_run n K i (?b (MxFast k 50) (mx_list s))"
    unfolding same by (rule nxt [OF assms(1) mx_lock, of _ MxIdle]) (use assms in simp_all)
  have "mutex_run n K i (?b (MxFast k (50 - j)) (mx_list s))" if "j \<le> 50" for j
    using that
  proof (induction j)
    case (Suc j)
    have "raw_guard_step K t (?b (MxFast k (50 - j)) (mx_list s)) (?b (MxFast k (50 - Suc j)) (mx_list s))"
      using mx_fast_fail [of "?b (MxFast k (50 - j)) (mx_list s)" t k "50 - Suc j" K] Suc_diff_Suc [of j 50] Suc.prems
      by (simp add: mx_goto_def)
    then show ?case using nxt [OF Suc.IH, of _ "MxFast k (50 - j)" "mx_list s"] Suc.prems by simp
  qed (use a in simp)
  from this [of 50] have b: "mutex_run n K i (?b (MxFast k 0) (mx_list s))" by simp
  have c: "mutex_run n K i (?b (MxSlow k) (mx_list s))"
    by (rule nxt [OF b, of _ "MxFast k 0" "mx_list s"])
      (use mx_fast_end [of "?b (MxFast k 0) (mx_list s)" t k K] in \<open>simp_all add: mx_goto_def\<close>)
  have d: "mutex_run n K i (?b (MxBlock k WStart) (mx_list s))"
    by (rule nxt [OF c, of _ "MxSlow k" "mx_list s"])
      (use mx_slow_fail [of "?b (MxSlow k) (mx_list s)" t k K] in \<open>simp_all add: mx_goto_def\<close>)
  have block: "mutex_run n K i (?b (MxBlock k p') w')"
    if "mutex_run n K i (?b (MxBlock k p) w)" "block_step True (k = Intr) t (p, w) (p', w')" for p p' w w'
  proof (rule nxt [OF that(1), of _ "MxBlock k p" w])
    show "raw_guard_step K t (?b (MxBlock k p) w) (?b (MxBlock k p') w')"
      using mx_block [of "?b (MxBlock k p) w" t k p p' w' K] that(2) assms(4) by (simp add: mx_goto_def)
  qed simp_all
  have e: "mutex_run n K i (?b (MxBlock k WFlagged) ?f)" by (rule block [OF d bl_flag])
  have g: "mutex_run n K i (?b (MxBlock k WPushed) ?l)" by (rule block [OF e bl_push])
  have "mutex_run n K i (?b (MxBlock k WYield) ?l)" by (rule block [OF g bl_true]) simp
  moreover have "?b (MxBlock k WYield) ?l = mx_sleeping t k s" by (simp add: mx_sleeping_def mx_goto_def)
  ultimately show ?thesis by simp
qed

section \<open>Properties\<close>

lemma mutex_new_ok: "word_ok n (mutex_view mutex_new)" "word_ok n (spin_view spin_new)"
  by (simp_all add: mutex_new_def mutex_view_def spin_new_def spin_view_def word_ok_def LOCKED_def shared_guards_def)

text \<open>
  C6. In every interleaving of threads that lock, share, demote and drop guards, interruptibly or with
  timeouts or not, a thread that holds a mutex exclusively is the only one that holds it, and the same
  is true of a spinlock, as long as there are fewer guards than the word can count.
\<close>

theorem locks_exclude:
  assumes "lock_run n (mutex_step n K) mutex_view mutex_new m" "lock_run n (spin_step n) spin_view spin_new s" "u \<noteq> t"
  shows "(mx_pc m t = MxExcl \<longrightarrow> mx_holding (mx_pc m u) = Free) \<and> (sp_pc s t = SpExcl \<longrightarrow> spin_holding (sp_pc s u) = Free)"
  using mx.exclusive_alone [OF assms(1) mutex_new_ok(1) _ assms(3)] spin.exclusive_alone [OF assms(2) mutex_new_ok(2) _ assms(3)]
  by (simp add: mutex_view_def spin_view_def)

lemma shared_guards_two: "shared_guards 2 h = guards (h 0) + guards (h 1)"
  by (simp add: shared_guards_def numeral_2_eq_2)

definition mx_locked :: mutex where
  "mx_locked = mx_goto 0 MxExcl (mutex_new\<lparr>mx_shares := LOCKED\<rparr>)"

lemma mx_locked_run:
  assumes "k \<in> K"
  shows "mutex_run 2 K mutex_new mx_locked"
proof (rule run_step [OF run_step [OF run_refl]])
  show "mutex_step 2 K mutex_new (mx_goto 0 (MxFast k 50) mutex_new)"
    by (rule raw_step [OF mx_lock]) (simp_all add: mutex_new_def assms)
  show "mutex_step 2 K (mx_goto 0 (MxFast k 50) mutex_new) mx_locked"
    using raw_step [OF mx_fast_cas [of "mx_goto 0 (MxFast k 50) mutex_new" 0 k 49 K], of 2]
    by (simp add: mutex_new_def mx_goto_def mx_locked_def)
qed (simp_all add: mutex_new_def mx_goto_def mutex_view_def shared_guards_two LOCKED_def)

definition spin_locked :: spinlock where
  "spin_locked = sp_goto 0 SpExcl (spin_new\<lparr>sp_shares := LOCKED\<rparr>)"

theorem locks_exclude_witness:
  "mx_pc mx_locked 0 = MxExcl \<and> mx_holding (mx_pc mx_locked 1) = Free \<and>
   sp_pc spin_locked 0 = SpExcl \<and> spin_holding (sp_pc spin_locked 1) = Free"
proof -
  have "lock_run 2 (spin_step 2) spin_view spin_new spin_locked"
  proof (rule run_step [OF run_step [OF run_refl]])
    show "spin_step 2 spin_new (sp_goto 0 SpLock spin_new)" by (rule sp_lock) (simp_all add: spin_new_def)
    show "spin_step 2 (sp_goto 0 SpLock spin_new) spin_locked"
      using sp_lock_cas [of 0 2 "sp_goto 0 SpLock spin_new"] by (simp add: spin_new_def sp_goto_def spin_locked_def)
  qed (simp_all add: spin_new_def sp_goto_def spin_view_def shared_guards_two LOCKED_def)
  then show ?thesis using locks_exclude [OF mx_locked_run [of Intr "{Intr}"], of spin_locked 1 0]
    by (simp add: mx_locked_def spin_locked_def mx_goto_def sp_goto_def)
qed



definition mx_released :: mutex where
  "mx_released = mx_goto 0 (MxNotifyAll 0) ((mx_sleeping 1 Unintr mx_locked)\<lparr>mx_shares := 0\<rparr>)"


section \<open>What the guards of the mutex do at their limits\<close>

text \<open>
  With \<open>2\<^sup>3\<^sup>2 - 2\<close> shared guards, one more is granted, and the word then reads as exclusively locked
  although nobody holds the mutex exclusively.
\<close>

definition mx_crowded :: mutex where
  "mx_crowded = mutex_new\<lparr>mx_shares := LOCKED - 1, mx_pc := (\<lambda>t. MxIdle)(0 := MxShares (LOCKED - 1))\<rparr>"

lemma share_reaches_locked:
  "\<exists>s. shared_guard_step {Unintr} 0 mx_crowded s \<and> mx_shares s = LOCKED \<and> (\<forall>t. mx_pc s t \<noteq> MxExcl)"
proof -
  obtain s where s: "s = mx_goto 0 (MxShares (Suc (Suc (LOCKED - 2)))) (mx_crowded\<lparr>mx_shares := (mx_shares mx_crowded + 1) mod 2 ^ 32\<rparr>)"
    by blast
  have "LOCKED - 1 = Suc (LOCKED - 2)" by (simp add: LOCKED_def)
  then have "shared_guard_step {Unintr} 0 mx_crowded s" unfolding s by (intro mxs_share) (simp add: mx_crowded_def)
  moreover have "mx_shares s = LOCKED" by (simp add: s mx_goto_def mx_crowded_def LOCKED_def)
  moreover have "mx_pc s t \<noteq> MxExcl" for t by (simp add: s mx_goto_def mx_crowded_def)
  ultimately show ?thesis by blast
qed

end
