(* ===== verification/Bit_Set.thy ===== *)
theory Bit_Set
  imports Badger_Prelude
begin

text \<open>
  Bit sets (\<open>src/util/bitset.rs\<close> and \<open>atomic_bitset.rs\<close>): an array of \<open>usize\<close> words. A set is read as
  the set of its bits, and every operation is the set operation of that name. An index past the last
  word panics, which is the value \<^term>\<open>None\<close>.
\<close>

unbundle bit_operations_syntax

type_synonym bit_set = "64 word list"

section \<open>Operations\<close>

definition word_length :: "nat \<Rightarrow> nat" where
  "word_length len = div_ceil len 64"

definition bs_empty :: "nat \<Rightarrow> bit_set" where
  "bs_empty len = replicate (word_length len) 0"

definition bs_full :: "nat \<Rightarrow> bit_set" where
  "bs_full len = replicate (word_length len) (- 1)"

definition bs_invert :: "bit_set \<Rightarrow> bit_set" where
  "bs_invert s = map (\<lambda>x. NOT x) s"

definition bs_add :: "bit_set \<Rightarrow> bit_set \<Rightarrow> bit_set" where
  "bs_add s r = map2 (\<lambda>x y. x OR y) s r"

definition bs_intersect :: "bit_set \<Rightarrow> bit_set \<Rightarrow> bit_set" where
  "bs_intersect s r = map2 (\<lambda>x y. x AND y) s r"

definition bs_subtract :: "bit_set \<Rightarrow> bit_set \<Rightarrow> bit_set" where
  "bs_subtract s r = map2 (\<lambda>x y. x AND NOT y) s r"

definition bs_test :: "bit_set \<Rightarrow> nat \<Rightarrow> bool option" where
  "bs_test s i = (if i div 64 < length s then Some (s ! (i div 64) AND push_bit (i mod 64) 1 \<noteq> 0) else None)"

definition bs_set :: "bit_set \<Rightarrow> nat \<Rightarrow> bit_set option" where
  "bs_set s i = (if i div 64 < length s then Some (s[i div 64 := s ! (i div 64) OR push_bit (i mod 64) 1]) else None)"

definition bs_clear :: "bit_set \<Rightarrow> nat \<Rightarrow> bit_set option" where
  "bs_clear s i =
     (if i div 64 < length s then Some (s[i div 64 := s ! (i div 64) AND NOT (push_bit (i mod 64) 1)]) else None)"

definition count_ones :: "64 word \<Rightarrow> nat" where
  "count_ones x = length (filter (bit x) [0..<64])"

definition bs_count :: "bit_set \<Rightarrow> nat" where
  "bs_count s = sum_list (map count_ones s)"

text \<open>The atomic variants give the old bit and the new words.\<close>

definition bs_test_and_set :: "bit_set \<Rightarrow> nat \<Rightarrow> (bool \<times> bit_set) option" where
  "bs_test_and_set s i = (case bs_set s i of None \<Rightarrow> None
     | Some s' \<Rightarrow> Some (s ! (i div 64) AND push_bit (i mod 64) 1 \<noteq> 0, s'))"

definition bs_test_and_clear :: "bit_set \<Rightarrow> nat \<Rightarrow> (bool \<times> bit_set) option" where
  "bs_test_and_clear s i = (case bs_clear s i of None \<Rightarrow> None
     | Some s' \<Rightarrow> Some (s ! (i div 64) AND push_bit (i mod 64) 1 \<noteq> 0, s'))"

definition bs_clear_all :: "bit_set \<Rightarrow> bit_set" where
  "bs_clear_all s = map (\<lambda>x. 0) s"

definition bs_set_all :: "bit_set \<Rightarrow> bit_set" where
  "bs_set_all s = map (\<lambda>x. - 1) s"

section \<open>The set of bits\<close>

definition bs_elems :: "bit_set \<Rightarrow> nat set" where
  "bs_elems s = {i. i div 64 < length s \<and> bit (s ! (i div 64)) (i mod 64)}"

lemma bit_mask: "n < 64 \<Longrightarrow> bit (2 ^ n :: 64 word) m \<longleftrightarrow> m = n"
  by (auto simp: bit_exp_iff)

lemma mask_test: "(x :: 64 word) AND push_bit n 1 \<noteq> 0 \<longleftrightarrow> bit x n" if "n < 64"
proof -
  have "bit (x AND push_bit n 1) m \<longleftrightarrow> bit x m \<and> m = n" for m
    using that by (auto simp: bit_and_iff bit_mask)
  then show ?thesis by (metis bit_0_eq bot_apply bot_bool_def bit_eqI)
qed

lemma mask_test' [simp]: "(x :: 64 word) AND 2 ^ (i mod 64) \<noteq> 0 \<longleftrightarrow> bit x (i mod 64)"
  using mask_test [of "i mod 64" x] by simp

lemma div_mod_64: "(i::nat) div 64 = j div 64 \<Longrightarrow> i mod 64 = j mod 64 \<Longrightarrow> i = j"
  by (metis div_mult_mod_eq)

lemma bs_test_elems: "bs_test s i = (if i div 64 < length s then Some (i \<in> bs_elems s) else None)"
  by (simp add: bs_test_def bs_elems_def)

lemma bs_set_elems:
  assumes "bs_set s i = Some s'"
  shows "bs_elems s' = insert i (bs_elems s)" "length s' = length s"
proof -
  have i: "i div 64 < length s" "s' = s[i div 64 := s ! (i div 64) OR push_bit (i mod 64) 1]"
    using assms by (auto simp: bs_set_def split: if_splits)
  show "length s' = length s" using i by simp
  have "j \<in> bs_elems s' \<longleftrightarrow> j = i \<or> j \<in> bs_elems s" for j
    using i div_mod_64 [of j i] by (cases "j div 64 = i div 64") (auto simp: bs_elems_def bit_or_iff bit_mask)
  then show "bs_elems s' = insert i (bs_elems s)" by blast
qed

lemma bs_clear_elems:
  assumes "bs_clear s i = Some s'"
  shows "bs_elems s' = bs_elems s - {i}" "length s' = length s"
proof -
  have i: "i div 64 < length s" "s' = s[i div 64 := s ! (i div 64) AND NOT (push_bit (i mod 64) 1)]"
    using assms by (auto simp: bs_clear_def split: if_splits)
  show "length s' = length s" using i by simp
  have "j \<in> bs_elems s' \<longleftrightarrow> j \<noteq> i \<and> j \<in> bs_elems s" for j
    using i div_mod_64 [of j i]
    by (cases "j div 64 = i div 64") (auto simp: bs_elems_def bit_and_iff bit_not_iff bit_mask)
  then show "bs_elems s' = bs_elems s - {i}" by blast
qed

lemma bs_algebra:
  assumes "length r = length s"
  shows "bs_elems (bs_add s r) = bs_elems s \<union> bs_elems r" "bs_elems (bs_intersect s r) = bs_elems s \<inter> bs_elems r"
    "bs_elems (bs_subtract s r) = bs_elems s - bs_elems r" "bs_elems (bs_invert s) = {i. i div 64 < length s} - bs_elems s"
  using assms
  by (auto simp: bs_elems_def bs_add_def bs_intersect_def bs_subtract_def bs_invert_def bit_or_iff bit_and_iff bit_not_iff)

lemma bs_empty_full: "bs_elems (bs_empty n) = {}" "bs_elems (bs_full n) = {i. i div 64 < word_length n}"
  "bs_elems (bs_clear_all s) = {}" "bs_elems (bs_set_all s) = {i. i div 64 < length s}"
  by (auto simp: bs_elems_def bs_empty_def bs_full_def bs_clear_all_def bs_set_all_def)

lemma count_ones_card: "count_ones x = card {i. i < 64 \<and> bit x i}"
  unfolding count_ones_def by (simp add: length_filter_conv_card atLeast0LessThan flip: Collect_conj_eq) (rule arg_cong [of _ _ card], auto)

lemma bs_elems_snoc: "bs_elems (s @ [x]) = bs_elems s \<union> (\<lambda>i. i + 64 * length s) ` {i. i < 64 \<and> bit x i}"
proof -
  have "j \<in> bs_elems (s @ [x]) \<longleftrightarrow> j \<in> bs_elems s \<or> j \<in> (\<lambda>i. i + 64 * length s) ` {i. i < 64 \<and> bit x i}" for j
  proof (cases "j div 64 = length s")
    case True
    then have "j = j mod 64 + 64 * length s" by (metis add.commute mult_div_mod_eq)
    then show ?thesis using True by (force simp: bs_elems_def image_iff)
  next
    case False
    then have "j \<notin> (\<lambda>i. i + 64 * length s) ` {i. i < 64 \<and> bit x i}" by auto
    then show ?thesis using False by (auto simp: bs_elems_def nth_append)
  qed
  then show ?thesis by blast
qed

lemma bs_elems_finite: "finite (bs_elems s)" "bs_elems s \<subseteq> {..<64 * length s}"
proof -
  show "bs_elems s \<subseteq> {..<64 * length s}" by (auto simp: bs_elems_def)
  then show "finite (bs_elems s)" using finite_subset by blast
qed

text \<open>\<open>count\<close> is the number of bits of the set.\<close>

lemma bs_count_card: "bs_count s = card (bs_elems s)"
proof (induction s rule: rev_induct)
  case (snoc x s)
  have "bs_elems s \<inter> (\<lambda>i. i + 64 * length s) ` {i. i < 64 \<and> bit x i} = {}"
    using bs_elems_finite(2) [of s] by fastforce
  then have "card (bs_elems (s @ [x])) = card (bs_elems s) + card ((\<lambda>i. i + 64 * length s) ` {i. i < 64 \<and> bit x i})"
    unfolding bs_elems_snoc by (intro card_Un_disjoint) (simp_all add: bs_elems_finite)
  also have "card ((\<lambda>i. i + 64 * length s) ` {i. i < 64 \<and> bit x i}) = count_ones x"
    unfolding count_ones_card by (rule card_image) simp
  finally show ?case using snoc by (simp add: bs_count_def)
qed (simp add: bs_count_def bs_elems_def)

section \<open>What the length does\<close>

text \<open>
  The last word is used whole: the full set of a length that is no multiple of the word size has more
  bits than its length.
\<close>

lemma full_counts_padding: "bs_count (bs_full 65) = 128"
proof -
  have "bs_elems (bs_full 65) = {..<128}" by (auto simp: bs_empty_full word_length_def div_ceil_def)
  then show ?thesis by (simp add: bs_count_card)
qed

end
