(* ===== verification/Rcu.thy ===== *)
theory Rcu
  imports Badger_Prelude
begin

text \<open>
  The generations of \<open>src/kcore/sync/rcu.rs\<close>: every CPU passes the current generation in its scheduler
  callback and the last one to pass advances it. One step is one atomic access or one critical section
  of the spinlock on the number of participants, for any interleaving of the CPUs.
\<close>

section \<open>CPUs and generations\<close>

text \<open>
  What a CPU is doing: not started; in \<open>post_start_callback\<close> with the lock on the participants, before and
  after it has seen nothing outstanding; running; in \<open>sched_callback\<close> with the generation it has read;
  about to store the number of outstanding CPUs; about to advance the generation.
\<close>

datatype rcu_pc = RcOff | RcStart | RcJoin | RcRun | RcCheck nat | RcAdvance | RcStored

record rcu =
  rc_generation :: nat
  rc_outstanding :: nat
  rc_participating :: nat
  rc_lock :: "nat option"
  rc_gen :: "nat \<Rightarrow> nat"
  rc_pc :: "nat \<Rightarrow> rcu_pc"

definition rcu_init :: rcu where
  "rcu_init = \<lparr>rc_generation = 0, rc_outstanding = 1, rc_participating = 0, rc_lock = None, rc_gen = (\<lambda>c. 0), rc_pc = (\<lambda>c. RcOff)\<rparr>"

definition rc_goto :: "nat \<Rightarrow> rcu_pc \<Rightarrow> rcu \<Rightarrow> rcu" where
  "rc_goto c p s = s\<lparr>rc_pc := (rc_pc s)(c := p)\<rparr>"

text \<open>\<open>post_start_callback\<close> of CPU \<open>c\<close>.\<close>

inductive start_step :: "nat \<Rightarrow> rcu \<Rightarrow> rcu \<Rightarrow> bool" for c where
  rc_take: "rc_pc s c = RcOff \<Longrightarrow> rc_lock s = None \<Longrightarrow> start_step c s (rc_goto c RcStart (s\<lparr>rc_lock := Some c\<rparr>))"
| rc_first: "rc_pc s c = RcStart \<Longrightarrow> rc_participating s = 0 \<Longrightarrow>
    start_step c s (rc_goto c RcRun (s\<lparr>rc_outstanding := 1, rc_generation := 0, rc_gen := (rc_gen s)(c := 0),
      rc_participating := 1, rc_lock := None\<rparr>))"
| rc_elapsed: "rc_pc s c = RcStart \<Longrightarrow> rc_participating s \<noteq> 0 \<Longrightarrow> rc_outstanding s = 0 \<Longrightarrow>
    start_step c s (rc_goto c RcJoin s)"
| rc_join: "rc_pc s c = RcJoin \<Longrightarrow>
    start_step c s (rc_goto c RcRun (s\<lparr>rc_gen := (rc_gen s)(c := rc_generation s + 1),
      rc_participating := rc_participating s + 1, rc_lock := None\<rparr>))"

text \<open>\<open>sched_callback\<close> of CPU \<open>c\<close>.\<close>

inductive sched_callback_step :: "nat \<Rightarrow> rcu \<Rightarrow> rcu \<Rightarrow> bool" for c where
  rc_load: "rc_pc s c = RcRun \<Longrightarrow> sched_callback_step c s (rc_goto c (RcCheck (rc_generation s)) s)"
| rc_passed: "rc_pc s c = RcCheck g \<Longrightarrow> g \<noteq> rc_gen s c \<Longrightarrow> sched_callback_step c s (rc_goto c RcRun s)"
| rc_pass: "rc_pc s c = RcCheck g \<Longrightarrow> g = rc_gen s c \<Longrightarrow>
    sched_callback_step c s (rc_goto c (if rc_outstanding s > 1 then RcRun else RcAdvance)
      (s\<lparr>rc_gen := (rc_gen s)(c := g + 1), rc_outstanding := (rc_outstanding s + 2 ^ 32 - 1) mod 2 ^ 32\<rparr>))"
| rc_store: "rc_pc s c = RcAdvance \<Longrightarrow> rc_lock s = None \<Longrightarrow>
    sched_callback_step c s (rc_goto c RcStored (s\<lparr>rc_outstanding := rc_participating s\<rparr>))"
| rc_flip: "rc_pc s c = RcStored \<Longrightarrow>
    sched_callback_step c s (rc_goto c RcRun (s\<lparr>rc_generation := (rc_generation s + 1) mod 2 ^ 32\<rparr>))"

definition rcu_step :: "nat \<Rightarrow> rcu \<Rightarrow> rcu \<Rightarrow> bool" where
  "rcu_step n s s' \<longleftrightarrow> (\<exists>c<n. start_step c s s' \<or> sched_callback_step c s s')"

text \<open>Runs in which the generation does not overflow.\<close>

inductive rcu_run :: "nat \<Rightarrow> rcu \<Rightarrow> rcu \<Rightarrow> bool" for n where
  rcu_refl: "rcu_run n s s"
| rcu_next: "rcu_run n s t \<Longrightarrow> rc_generation t + 2 < 2 ^ 32 \<Longrightarrow> rcu_step n t u \<Longrightarrow> rcu_run n s u"

section \<open>The invariant\<close>

definition member :: "rcu \<Rightarrow> nat \<Rightarrow> bool" where
  "member s c \<longleftrightarrow> rc_pc s c \<notin> {RcOff, RcStart, RcJoin}"

definition members :: "nat \<Rightarrow> rcu \<Rightarrow> nat set" where
  "members n s = {c. c < n \<and> member s c}"

definition outstanding :: "nat \<Rightarrow> rcu \<Rightarrow> nat set" where
  "outstanding n s = {c. c < n \<and> member s c \<and> rc_gen s c = rc_generation s}"

text \<open>The lock is held by the CPU that starts, and a CPU has read the current generation or an earlier one.\<close>

definition rcu_control :: "nat \<Rightarrow> rcu \<Rightarrow> bool" where
  "rcu_control n s \<longleftrightarrow> (\<forall>c. rc_pc s c \<noteq> RcOff \<longrightarrow> c < n) \<and> rc_participating s = card (members n s) \<and>
     (\<forall>c. rc_pc s c \<in> {RcStart, RcJoin} \<longrightarrow> rc_lock s = Some c) \<and>
     (\<forall>c g. rc_pc s c = RcCheck g \<longrightarrow> g \<le> rc_generation s) \<and>
     (\<forall>c. rc_pc s c = RcJoin \<longrightarrow> rc_participating s \<noteq> 0 \<and> rc_outstanding s = 0)"

text \<open>
  Every member is on the generation or one ahead of it, the counter counts those who have not passed,
  and a CPU is advancing the generation only after all have passed.
\<close>

definition advancing :: "rcu \<Rightarrow> nat set" where
  "advancing s = {c. rc_pc s c = RcAdvance}"

definition stored :: "rcu \<Rightarrow> nat set" where
  "stored s = {c. rc_pc s c = RcStored}"

definition rcu_counts :: "nat \<Rightarrow> rcu \<Rightarrow> bool" where
  "rcu_counts n s \<longleftrightarrow>
     (\<forall>c\<in>members n s. rc_gen s c = rc_generation s \<or> rc_gen s c = rc_generation s + 1) \<and>
     (\<forall>c\<in>advancing s \<union> stored s. advancing s \<union> stored s = {c}) \<and>
     (advancing s \<noteq> {} \<longrightarrow> rc_outstanding s = 0 \<and> outstanding n s = {}) \<and>
     (stored s \<noteq> {} \<longrightarrow> rc_outstanding s = card (members n s) \<and> outstanding n s = {}) \<and>
     (advancing s \<union> stored s = {} \<and> members n s \<noteq> {} \<longrightarrow> rc_outstanding s = card (outstanding n s) \<and> outstanding n s \<noteq> {})"

lemma finite_members [simp]: "finite (members n s)" "finite (outstanding n s)"
  by (simp_all add: members_def outstanding_def)

lemma outstanding_subset: "outstanding n s \<subseteq> members n s"
  by (auto simp: outstanding_def members_def)

lemma outstanding_members: "outstanding n s = {c \<in> members n s. rc_gen s c = rc_generation s}"
  by (auto simp: outstanding_def members_def)

lemma outstanding_bound: "card (outstanding n s) \<le> n"
proof -
  have "outstanding n s \<subseteq> {..<n}" by (auto simp: outstanding_def)
  then show ?thesis using card_mono [of "{..<n}"] by fastforce
qed

text \<open>A CPU that has read its own generation still counts; one that joins does so while all have passed.\<close>

lemma control_lt: "rcu_control n s \<Longrightarrow> rc_pc s c \<noteq> RcOff \<Longrightarrow> c < n"
  by (simp add: rcu_control_def)

lemma control_join:
  assumes "rcu_control n s" "rc_pc s c = RcJoin"
  shows "rc_outstanding s = 0" "members n s \<noteq> {}"
proof -
  have "rc_participating s \<noteq> 0 \<and> rc_outstanding s = 0" "rc_participating s = card (members n s)"
    using assms unfolding rcu_control_def by blast+
  then show "rc_outstanding s = 0" "members n s \<noteq> {}" by auto
qed

lemma pass_counts:
  assumes "rcu_control n s" "rcu_counts n s" "rc_pc s c = RcCheck (rc_gen s c)"
  shows "c \<in> outstanding n s" "advancing s = {}" "stored s = {}" "rc_outstanding s = card (outstanding n s)"
    "rc_gen s c = rc_generation s"
proof -
  have m: "c \<in> members n s" using control_lt [OF assms(1), of c] assms(3) by (simp add: members_def member_def)
  have "rc_gen s c \<le> rc_generation s" using assms(1,3) by (simp add: rcu_control_def)
  moreover have "rc_gen s c = rc_generation s \<or> rc_gen s c = rc_generation s + 1"
    using assms(2) m unfolding rcu_counts_def by blast
  ultimately show g: "rc_gen s c = rc_generation s" by simp
  then show o: "c \<in> outstanding n s" using m by (simp add: outstanding_def members_def)
  then have "outstanding n s \<noteq> {}" "members n s \<noteq> {}" using m by blast+
  then show "advancing s = {}" "stored s = {}" "rc_outstanding s = card (outstanding n s)"
    using assms(2) unfolding rcu_counts_def by blast+
qed

lemma join_waits:
  assumes "rcu_counts n s" "rc_outstanding s = 0" "members n s \<noteq> {}"
  shows "advancing s \<noteq> {}"
proof
  assume a: "advancing s = {}"
  show False
  proof (cases "stored s = {}")
    case True
    then have "rc_outstanding s = card (outstanding n s)" "outstanding n s \<noteq> {}" using assms a by (simp_all add: rcu_counts_def)
    then show False using assms(2) by simp
  next
    case False
    then have "rc_outstanding s = card (members n s)" using assms(1) by (simp add: rcu_counts_def)
    then show False using assms by simp
  qed
qed

lemma rcu_counts_same:
  assumes "rcu_counts n s" "members n s' = members n s" "rc_gen s' = rc_gen s" "rc_generation s' = rc_generation s"
    and "rc_outstanding s' = rc_outstanding s" "advancing s' = advancing s" "stored s' = stored s"
  shows "rcu_counts n s'"
proof -
  have "outstanding n s' = outstanding n s" by (simp add: outstanding_members assms(2-4))
  then show ?thesis using assms(1) unfolding rcu_counts_def assms(2-7) by simp
qed

lemmas rc_sets = members_def outstanding_def member_def advancing_def stored_def

text \<open>\<open>post_start_callback\<close> keeps the counts.\<close>

lemma start_step_counts:
  assumes "start_step c s s'" "rcu_control n s" "rcu_counts n s" "c < n"
  shows "rcu_counts n s'"
  using assms(1)
proof cases
  case rc_take
  show ?thesis by (rule rcu_counts_same [OF assms(3)]) (use rc_take in \<open>auto simp: rc_sets rc_goto_def\<close>)
next
  case rc_elapsed
  show ?thesis by (rule rcu_counts_same [OF assms(3)]) (use rc_elapsed in \<open>auto simp: rc_sets rc_goto_def\<close>)
next
  case rc_first
  have e: "members n s = {}" using assms(2) rc_first by (simp add: rcu_control_def)
  have "rc_pc s d \<in> {RcOff, RcStart, RcJoin}" for d
    using e control_lt [OF assms(2), of d] by (auto simp: members_def member_def)
  then have o: "\<not> member s d" for d by (simp add: member_def)
  have p: "rc_pc s d \<noteq> RcAdvance" "rc_pc s d \<noteq> RcStored" for d using o [of d] by (auto simp: member_def)
  have m: "member s' d \<longleftrightarrow> d = c" for d using o [of d] rc_first(1) by (simp add: member_def rc_goto_def)
  have "members n s' = {c}" "outstanding n s' = {c}" "advancing s' = {}" "stored s' = {}"
    using m p rc_first(1) assms(4) by (auto simp: members_def outstanding_def advancing_def stored_def rc_goto_def)
  then show ?thesis using rc_first(1) by (simp add: rcu_counts_def rc_goto_def)
next
  case rc_join
  note z = control_join [OF assms(2) rc_join(2)]
  have a: "advancing s \<noteq> {}" using join_waits [OF assms(3) z] .
  then have e: "outstanding n s = {}" using assms(3) by (simp add: rcu_counts_def)
  obtain d where d: "d \<in> advancing s" using a by blast
  then have u: "advancing s \<union> stored s = {d}" using assms(3) by (simp add: rcu_counts_def)
  have s: "stored s = {}"
  proof (rule ccontr)
    assume "stored s \<noteq> {}"
    then have "rc_outstanding s = card (members n s)" using assms(3) by (simp add: rcu_counts_def)
    then show False using z by simp
  qed
  have "d \<notin> outstanding n s'" for d
  proof
    assume "d \<in> outstanding n s'"
    then have "d \<in> outstanding n s" using rc_join(1) by (cases "d = c") (simp_all add: outstanding_def member_def rc_goto_def)
    then show False using e by simp
  qed
  then have "outstanding n s' = {}" by blast
  moreover have "members n s' = insert c (members n s)" using rc_join(1,2) assms(4) by (auto simp: members_def member_def rc_goto_def)
  moreover have "advancing s' = advancing s" "stored s' = {}" using rc_join(1,2) s by (auto simp: advancing_def stored_def rc_goto_def)
  moreover have "\<forall>x\<in>members n s. rc_gen s x = rc_generation s \<or> rc_gen s x = rc_generation s + 1"
    using assms(3) by (simp add: rcu_counts_def)
  ultimately show ?thesis using a z u s rc_join(1) unfolding rcu_counts_def by (simp add: rc_goto_def)
qed


text \<open>The control part, from what happens to the CPU that moves.\<close>

lemma rcu_control_goto:
  assumes "rcu_control n s" "c < n" "s' = rc_goto c p t" "rc_pc t = rc_pc s" "rc_participating s' = card (members n s')"
    and "p \<in> {RcStart, RcJoin} \<longrightarrow> rc_lock s' = Some c" "rc_generation s \<le> rc_generation s'"
    and "\<And>d. d \<noteq> c \<Longrightarrow> rc_lock s = Some d \<Longrightarrow> rc_lock s' = Some d"
    and "\<And>g. p = RcCheck g \<Longrightarrow> g \<le> rc_generation s'"
    and "\<And>d. p = RcJoin \<or> d \<noteq> c \<and> rc_pc s d = RcJoin \<Longrightarrow> rc_participating s' \<noteq> 0 \<and> rc_outstanding s' = 0"
  shows "rcu_control n s'"
proof -
  have pc: "rc_pc s' d = (if d = c then p else rc_pc s d)" for d using assms(3,4) by (simp add: rc_goto_def)
  have "d < n" if "rc_pc s' d \<noteq> RcOff" for d using that control_lt [OF assms(1), of d] assms(2) pc [of d] by (cases "d = c") simp_all
  moreover have "rc_lock s' = Some d" if "rc_pc s' d \<in> {RcStart, RcJoin}" for d
  proof (cases "d = c")
    case False
    then have "rc_pc s d \<in> {RcStart, RcJoin}" using that pc [of d] by simp
    then have "rc_lock s = Some d" using assms(1) unfolding rcu_control_def by blast
    then show ?thesis using assms(8) False by blast
  qed (use that assms(6) pc in simp)
  moreover have "g \<le> rc_generation s'" if "rc_pc s' d = RcCheck g" for d g
  proof (cases "d = c")
    case False
    then have "rc_pc s d = RcCheck g" using that pc [of d] by simp
    then have "g \<le> rc_generation s" using assms(1) unfolding rcu_control_def by blast
    then show ?thesis using assms(7) by simp
  qed (use that assms(9) pc in simp)
  moreover have "rc_participating s' \<noteq> 0 \<and> rc_outstanding s' = 0" if "rc_pc s' d = RcJoin" for d
    using that assms(10) [of d] pc [of d] by (cases "d = c") simp_all
  ultimately show ?thesis using assms(5) unfolding rcu_control_def by blast
qed

lemma no_join:
  assumes "rcu_control n s" "rc_outstanding s \<noteq> 0 \<or> rc_lock s = None"
  shows "rc_pc s d \<noteq> RcJoin"
proof
  assume j: "rc_pc s d = RcJoin"
  have "rc_lock s = Some d" using j assms(1) unfolding rcu_control_def by blast
  then show False using control_join(1) [OF assms(1) j] assms(2) by simp
qed

lemma control_part: "rcu_control n s \<Longrightarrow> rc_participating s = card (members n s)"
  by (simp add: rcu_control_def)

lemma control_lock: "rcu_control n s \<Longrightarrow> rc_pc s c \<in> {RcStart, RcJoin} \<Longrightarrow> rc_lock s = Some c"
  unfolding rcu_control_def by blast

lemma start_step_control:
  assumes "start_step c s s'" "rcu_control n s" "rcu_counts n s" "c < n"
  shows "rcu_control n s'"
  using assms(1)
proof cases
  case rc_take
  have m: "members n s' = members n s" using rc_take by (auto simp: members_def member_def rc_goto_def)
  have p: "rc_participating s' = card (members n s')" using control_part [OF assms(2)] rc_take(1) unfolding m by (simp add: rc_goto_def)
  have "rc_pc s d \<noteq> RcJoin" for d using no_join [OF assms(2)] rc_take(3) by simp
  then show ?thesis
    by (intro rcu_control_goto [OF assms(2,4) rc_take(1) _ p]) (use rc_take(3) in \<open>simp_all add: rc_take(1) rc_goto_def\<close>)
next
  case rc_first
  have e: "members n s = {}" using control_part [OF assms(2)] rc_first(3) by simp
  have o: "rc_pc s d \<in> {RcOff, RcStart, RcJoin}" for d
    using e control_lt [OF assms(2), of d] by (auto simp: members_def member_def)
  have off: "rc_pc s d = RcOff" if "d \<noteq> c" for d
    using that o [of d] control_lock [OF assms(2), of d] control_lock [OF assms(2), of c] rc_first(2) by auto
  have pc: "rc_pc s' d = (if d = c then RcRun else RcOff)" for d using off rc_first(1) by (simp add: rc_goto_def)
  then have "members n s' = {c}" using assms(4) by (auto simp: members_def member_def)
  moreover have "rc_participating s' = 1" using rc_first(1) by (simp add: rc_goto_def)
  ultimately show ?thesis using assms(4) unfolding rcu_control_def pc by simp
next
  case rc_elapsed
  have m: "members n s' = members n s" using rc_elapsed by (auto simp: members_def member_def rc_goto_def)
  have p: "rc_participating s' = card (members n s')" using control_part [OF assms(2)] rc_elapsed(1) unfolding m by (simp add: rc_goto_def)
  show ?thesis
    by (rule rcu_control_goto [OF assms(2,4) rc_elapsed(1) _ p])
      (use control_lock [OF assms(2), of c] rc_elapsed(2-4) in \<open>simp_all add: rc_elapsed(1) rc_goto_def\<close>)
next
  case rc_join
  have m: "members n s' = insert c (members n s)" "c \<notin> members n s"
    using rc_join(1,2) assms(4) by (auto simp: members_def member_def rc_goto_def)
  have p: "rc_participating s' = card (members n s')" "rc_participating s' \<noteq> 0" "rc_outstanding s' = 0"
    using control_part [OF assms(2)] control_join [OF assms(2) rc_join(2)] rc_join(1) m by (simp_all add: rc_goto_def)
  have l: "rc_lock s = Some c" using control_lock [OF assms(2)] rc_join(2) by blast
  show ?thesis
    by (rule rcu_control_goto [OF assms(2,4) rc_join(1) _ p(1)]) (use l p(2,3) in \<open>simp_all add: rc_join(1) rc_goto_def\<close>)
qed

text \<open>\<open>sched_callback\<close> keeps both parts.\<close>

lemma sched_callback_members: "sched_callback_step c s s' \<Longrightarrow> members n s' = members n s"
  by (erule sched_callback_step.cases) (auto simp: members_def member_def rc_goto_def)

lemma sched_callback_control:
  assumes "rcu_control n s" "c < n" "s' = rc_goto c p t" "rc_pc t = rc_pc s" "members n s' = members n s"
    and "rc_participating t = rc_participating s" "rc_lock t = rc_lock s" "p \<notin> {RcStart, RcJoin}"
    and "rc_generation s \<le> rc_generation t" "\<And>g. p = RcCheck g \<Longrightarrow> g \<le> rc_generation t"
    and "(\<forall>d. rc_pc s d \<noteq> RcJoin) \<or> rc_outstanding t = rc_outstanding s"
  shows "rcu_control n s'"
proof (rule rcu_control_goto [OF assms(1-4)])
  show "rc_participating s' = card (members n s')" using assms(3,5,6) control_part [OF assms(1)] by (simp add: rc_goto_def)
  fix d assume "p = RcJoin \<or> d \<noteq> c \<and> rc_pc s d = RcJoin"
  then have j: "rc_pc s d = RcJoin" using assms(8) by blast
  then have "rc_outstanding t = rc_outstanding s" using assms(11) by blast
  then show "rc_participating s' \<noteq> 0 \<and> rc_outstanding s' = 0"
    using control_join [OF assms(1) j] control_part [OF assms(1)] assms(3,6) by (simp add: rc_goto_def)
qed (use assms(3,7-10) in \<open>simp_all add: rc_goto_def\<close>)

lemma sched_callback_step_control:
  assumes "sched_callback_step c s s'" "rcu_control n s" "rcu_counts n s" "c < n" "rc_generation s + 2 < 2 ^ 32"
  shows "rcu_control n s'"
proof -
  note m = sched_callback_members [OF assms(1), of n]
  show ?thesis using assms(1)
  proof cases
    case rc_load
    show ?thesis by (rule sched_callback_control [OF assms(2,4) rc_load(1)]) (use m in simp_all)
  next
    case (rc_passed g)
    show ?thesis by (rule sched_callback_control [OF assms(2,4) rc_passed(1)]) (use m in simp_all)
  next
    case (rc_pass g)
    note p = pass_counts [OF assms(2,3), of c, folded rc_pass(3), OF rc_pass(2)]
    have "card (outstanding n s) \<noteq> 0" using p(1) by auto
    then have j: "rc_pc s d \<noteq> RcJoin" for d using no_join [OF assms(2)] p(4) by simp
    show ?thesis by (rule sched_callback_control [OF assms(2,4) rc_pass(1)]) (use m j in \<open>auto split: if_splits\<close>)
  next
    case rc_store
    have j: "rc_pc s d \<noteq> RcJoin" for d using no_join [OF assms(2)] rc_store(3) by simp
    show ?thesis by (rule sched_callback_control [OF assms(2,4) rc_store(1)]) (use m j in simp_all)
  next
    case rc_flip
    show ?thesis by (rule sched_callback_control [OF assms(2,4) rc_flip(1)]) (use m assms(5) in simp_all)
  qed
qed

lemma counts_gen: "rcu_counts n s \<Longrightarrow> x \<in> members n s \<Longrightarrow> rc_gen s x = rc_generation s \<or> rc_gen s x = rc_generation s + 1"
  by (simp add: rcu_counts_def)

lemma counts_advancing:
  "rcu_counts n s \<Longrightarrow> c \<in> advancing s \<Longrightarrow> advancing s \<union> stored s = {c} \<and> outstanding n s = {}"
  unfolding rcu_counts_def by blast

lemma counts_stored:
  "rcu_counts n s \<Longrightarrow> c \<in> stored s \<Longrightarrow>
    advancing s \<union> stored s = {c} \<and> outstanding n s = {} \<and> rc_outstanding s = card (members n s)"
  unfolding rcu_counts_def by blast

lemma counts_intro:
  assumes "\<forall>x\<in>members n s. rc_gen s x = rc_generation s \<or> rc_gen s x = rc_generation s + 1"
  shows "advancing s = {} \<Longrightarrow> stored s = {} \<Longrightarrow> rc_outstanding s = card (outstanding n s) \<Longrightarrow> outstanding n s \<noteq> {} \<Longrightarrow> rcu_counts n s"
    and "advancing s = {c} \<Longrightarrow> stored s = {} \<Longrightarrow> rc_outstanding s = 0 \<Longrightarrow> outstanding n s = {} \<Longrightarrow> rcu_counts n s"
    and "advancing s = {} \<Longrightarrow> stored s = {c} \<Longrightarrow> rc_outstanding s = card (members n s) \<Longrightarrow> outstanding n s = {} \<Longrightarrow> rcu_counts n s"
  using assms by (simp_all add: rcu_counts_def)

lemma fetch_sub_one: "0 < k \<Longrightarrow> k < 2 ^ 32 \<Longrightarrow> (k + 2 ^ 32 - 1) mod 2 ^ 32 = k - (1::nat)"
  by (simp add: le_mod_geq)

lemma sched_callback_step_counts:
  assumes "sched_callback_step c s s'" "rcu_control n s" "rcu_counts n s" "c < n" "rc_generation s + 2 < 2 ^ 32" "n < 2 ^ 32"
  shows "rcu_counts n s'"
  using assms(1)
proof cases
  case rc_load
  show ?thesis by (rule rcu_counts_same [OF assms(3)]) (use rc_load in \<open>auto simp: rc_sets rc_goto_def\<close>)
next
  case (rc_passed g)
  show ?thesis by (rule rcu_counts_same [OF assms(3)]) (use rc_passed in \<open>auto simp: rc_sets rc_goto_def\<close>)
next
  case (rc_pass g)
  note p = pass_counts [OF assms(2,3), of c, folded rc_pass(3), OF rc_pass(2)]
  have m: "members n s' = members n s" by (rule sched_callback_members [OF assms(1)])
  have G: "rc_generation s' = rc_generation s" "rc_gen s' = (rc_gen s)(c := g + 1)" using rc_pass(1) by (simp_all add: rc_goto_def)
  have o: "outstanding n s' = outstanding n s - {c}" using G p(5) m rc_pass(3) unfolding outstanding_members by auto
  have k: "0 < rc_outstanding s" "rc_outstanding s < 2 ^ 32"
    using p(1,4) outstanding_bound [of n s] assms(6) by (auto simp: card_gt_0_iff)
  have d: "rc_outstanding s' = rc_outstanding s - 1"
    using fetch_sub_one [OF k] rc_pass(1) by (simp add: rc_goto_def)
  then have d': "rc_outstanding s' = card (outstanding n s')" using o p(1,4) by simp
  have g: "\<forall>x\<in>members n s'. rc_gen s' x = rc_generation s' \<or> rc_gen s' x = rc_generation s' + 1"
    using counts_gen [OF assms(3)] p(5) rc_pass(3) unfolding m G by simp
  have st: "stored s' = {}" using p(3) rc_pass(1) by (auto simp: stored_def rc_goto_def)
  show ?thesis
  proof (cases "rc_outstanding s > 1")
    case True
    then have "advancing s' = {}" using p(2) rc_pass(1) by (auto simp: advancing_def rc_goto_def)
    moreover have "card (outstanding n s') \<noteq> 0" using True d d' by linarith
    ultimately show ?thesis using counts_intro(1) [OF g] st d' by fastforce
  next
    case False
    then have a: "advancing s' = {c}" using p(2) rc_pass(1) by (auto simp: advancing_def rc_goto_def)
    have z: "rc_outstanding s' = 0" using False d by linarith
    then have "outstanding n s' = {}" using d' by simp
    then show ?thesis by (rule counts_intro(2) [OF g a st z])
  qed
next
  case rc_store
  have m: "members n s' = members n s" by (rule sched_callback_members [OF assms(1)])
  have G: "rc_generation s' = rc_generation s" "rc_gen s' = rc_gen s" using rc_store(1) by (simp_all add: rc_goto_def)
  have c: "c \<in> advancing s" using rc_store(2) by (simp add: advancing_def)
  note u = counts_advancing [OF assms(3) c]
  have o: "outstanding n s' = {}" using u G m unfolding outstanding_members by simp
  have a: "advancing s' = {}" "stored s' = {c}" using u rc_store(1,2) by (auto simp: advancing_def stored_def rc_goto_def)
  have t: "rc_outstanding s' = card (members n s')" using m rc_store(1) control_part [OF assms(2)] by (simp add: rc_goto_def)
  have g: "\<forall>x\<in>members n s'. rc_gen s' x = rc_generation s' \<or> rc_gen s' x = rc_generation s' + 1"
    using counts_gen [OF assms(3)] unfolding m G by blast
  show ?thesis by (rule counts_intro(3) [OF g a t o])
next
  case rc_flip
  have m: "members n s' = members n s" by (rule sched_callback_members [OF assms(1)])
  have G: "rc_generation s' = rc_generation s + 1" "rc_gen s' = rc_gen s" "rc_outstanding s' = rc_outstanding s"
    using rc_flip(1) assms(5) by (simp_all add: rc_goto_def)
  have c: "c \<in> stored s" "c \<in> members n s" using rc_flip(2) assms(4) by (simp_all add: stored_def members_def member_def)
  note u = counts_stored [OF assms(3) c(1)]
  have g: "rc_gen s x = rc_generation s + 1" if "x \<in> members n s" for x
    using counts_gen [OF assms(3) that] u that unfolding outstanding_members by blast
  have o: "outstanding n s' = members n s'" using g unfolding outstanding_members m G by auto
  have a: "advancing s' = {}" "stored s' = {}" using u rc_flip(1,2) by (auto simp: advancing_def stored_def rc_goto_def)
  have "rc_outstanding s' = card (outstanding n s')" "outstanding n s' \<noteq> {}" using u c(2) m G(3) o by auto
  moreover have "\<forall>x\<in>members n s'. rc_gen s' x = rc_generation s' \<or> rc_gen s' x = rc_generation s' + 1"
    using g unfolding m G by simp
  ultimately show ?thesis using counts_intro(1) a by blast
qed


lemma start_step_member: "start_step c s s' \<Longrightarrow> member s d \<Longrightarrow> member s' d"
  by (erule start_step.cases) (auto simp: member_def rc_goto_def)

lemma sched_callback_member: "sched_callback_step c s s' \<Longrightarrow> member s d \<Longrightarrow> member s' d"
  by (erule sched_callback_step.cases) (auto simp: member_def rc_goto_def)

lemma rcu_run_inv:
  assumes "rcu_run n s s'" "rcu_control n s" "rcu_counts n s" "n < 2 ^ 32"
  shows "rcu_control n s' \<and> rcu_counts n s'"
  using assms
proof (induction rule: rcu_run.induct)
  case (rcu_next s t u)
  then obtain c where "c < n" "start_step c t u \<or> sched_callback_step c t u" by (auto simp: rcu_step_def)
  then show ?case using rcu_next start_step_control start_step_counts sched_callback_step_control sched_callback_step_counts by meson
qed simp

lemma rcu_run_member: "rcu_run n s s' \<Longrightarrow> member s d \<Longrightarrow> member s' d"
  by (induction rule: rcu_run.induct) (auto simp: rcu_step_def intro: start_step_member sched_callback_member)

lemma rcu_init_inv: "rcu_control n rcu_init \<and> rcu_counts n rcu_init"
  by (simp add: rcu_init_def rcu_control_def rcu_counts_def rc_sets)

section \<open>Runs as sequences of CPUs\<close>

text \<open>The next access of CPU \<open>c\<close>, if it can make one.\<close>

definition rcu_exec1 :: "nat \<Rightarrow> rcu \<Rightarrow> rcu option" where
  "rcu_exec1 c s = (case rc_pc s c of
     RcOff \<Rightarrow> if rc_lock s = None then Some (rc_goto c RcStart (s\<lparr>rc_lock := Some c\<rparr>)) else None
   | RcStart \<Rightarrow>
       if rc_participating s = 0 then
         Some (rc_goto c RcRun (s\<lparr>rc_outstanding := 1, rc_generation := 0, rc_gen := (rc_gen s)(c := 0), rc_participating := 1, rc_lock := None\<rparr>))
       else if rc_outstanding s = 0 then Some (rc_goto c RcJoin s) else None
   | RcJoin \<Rightarrow> Some (rc_goto c RcRun (s\<lparr>rc_gen := (rc_gen s)(c := rc_generation s + 1), rc_participating := rc_participating s + 1, rc_lock := None\<rparr>))
   | RcRun \<Rightarrow> Some (rc_goto c (RcCheck (rc_generation s)) s)
   | RcCheck g \<Rightarrow>
       if g \<noteq> rc_gen s c then Some (rc_goto c RcRun s)
       else Some (rc_goto c (if rc_outstanding s > 1 then RcRun else RcAdvance)
         (s\<lparr>rc_gen := (rc_gen s)(c := g + 1), rc_outstanding := (rc_outstanding s + 2 ^ 32 - 1) mod 2 ^ 32\<rparr>))
   | RcAdvance \<Rightarrow> if rc_lock s = None then Some (rc_goto c RcStored (s\<lparr>rc_outstanding := rc_participating s\<rparr>)) else None
   | RcStored \<Rightarrow> Some (rc_goto c RcRun (s\<lparr>rc_generation := (rc_generation s + 1) mod 2 ^ 32\<rparr>)))"

fun rcu_exec :: "nat list \<Rightarrow> rcu \<Rightarrow> rcu option" where
  "rcu_exec [] s = Some s"
| "rcu_exec (c # cs) s =
     (if rc_generation s + 2 < 2 ^ 32 then (case rcu_exec1 c s of None \<Rightarrow> None | Some s' \<Rightarrow> rcu_exec cs s') else None)"

lemma rcu_exec1_step: "rcu_exec1 c s = Some s' \<Longrightarrow> c < n \<Longrightarrow> rcu_step n s s'"
  using rc_pass [of s c "rc_gen s c"] unfolding rcu_step_def rcu_exec1_def
  by (intro exI [of _ c], cases "rc_pc s c") (auto intro: start_step.intros [simplified] sched_callback_step.intros [simplified] split: if_splits)

lemma rcu_exec_run: "rcu_exec cs s = Some s' \<Longrightarrow> \<forall>c\<in>set cs. c < n \<Longrightarrow> rcu_run n i s \<Longrightarrow> rcu_run n i s'"
proof (induction cs arbitrary: s)
  case (Cons c cs)
  then obtain t where t: "rcu_exec1 c s = Some t" "rcu_exec cs t = Some s'" "rc_generation s + 2 < 2 ^ 32"
    by (auto split: if_splits option.splits)
  have "rcu_run n i t" by (rule rcu_next [OF Cons.prems(3) t(3) rcu_exec1_step [OF t(1)]]) (use Cons.prems(2) in simp)
  then show ?case using Cons.IH t(2) Cons.prems(2) by simp
qed simp


section \<open>Properties\<close>

text \<open>
  C20. In every interleaving of the CPUs, a CPU that takes part in RCU is on the global generation or one
  ahead of it, and once the generation has advanced twice since some state, every CPU that took part in
  that state has passed its scheduler callback in the meantime.
\<close>

theorem rcu_two_generations:
  assumes "n < 2 ^ 32" "rcu_run n rcu_init s" "rcu_run n s s'" "member s c" "rc_generation s + 2 \<le> rc_generation s'"
  shows "rc_gen s c < rc_gen s' c \<and> rc_generation s' \<le> rc_gen s' c \<and> rc_gen s' c \<le> rc_generation s' + 1"
proof -
  have i: "rcu_control n s \<and> rcu_counts n s" using rcu_run_inv [OF assms(2)] rcu_init_inv assms(1) by blast
  then have j: "rcu_control n s' \<and> rcu_counts n s'" using rcu_run_inv [OF assms(3)] assms(1) by blast
  have "member s' c" using rcu_run_member assms(3,4) by blast
  then have "c \<in> members n s" "c \<in> members n s'" using i j assms(4) control_lt by (auto simp: members_def member_def)
  then have "rc_gen s c \<le> rc_generation s + 1" "rc_gen s' c = rc_generation s' \<or> rc_gen s' c = rc_generation s' + 1"
    using counts_gen i j by fastforce+
  then show ?thesis using assms(5) by auto
qed

text \<open>Two CPUs start, pass one generation together, and the first passes the next one.\<close>

definition rcu_pair :: rcu where
  "rcu_pair = the (rcu_exec [0, 0, 0, 0, 1, 1, 1, 0, 0, 0, 0] rcu_init)"

definition rcu_pair_next :: rcu where
  "rcu_pair_next = the (rcu_exec [1, 1, 1, 1] rcu_pair)"

definition rcu_pair_later :: rcu where
  "rcu_pair_later = the (rcu_exec [0, 0, 1, 1, 1, 1] rcu_pair_next)"

lemmas rcu_eval = rcu_pair_later_def rcu_pair_next_def rcu_pair_def rcu_exec1_def rc_goto_def rcu_init_def

lemma rcu_pair_exec:
  "rcu_exec [0, 0, 0, 0, 1, 1, 1, 0, 0, 0, 0] rcu_init = Some rcu_pair"
  "rcu_exec [1, 1, 1, 1] rcu_pair = Some rcu_pair_next"
  "rcu_exec [0, 0, 1, 1, 1, 1] rcu_pair_next = Some rcu_pair_later"
  by (simp_all add: rcu_eval)

lemma rcu_pair_run:
  "rcu_run 2 rcu_init rcu_pair" "rcu_run 2 rcu_pair rcu_pair_next" "rcu_run 2 rcu_pair rcu_pair_later"
proof -
  show "rcu_run 2 rcu_init rcu_pair" by (rule rcu_exec_run [OF rcu_pair_exec(1) _ rcu_refl]) simp
  show n: "rcu_run 2 rcu_pair rcu_pair_next" by (rule rcu_exec_run [OF rcu_pair_exec(2) _ rcu_refl]) simp
  show "rcu_run 2 rcu_pair rcu_pair_later" by (rule rcu_exec_run [OF rcu_pair_exec(3) _ n]) simp
qed

theorem rcu_two_generations_witness:
  "rcu_run 2 rcu_init rcu_pair \<and> rcu_run 2 rcu_pair rcu_pair_later \<and> rc_generation rcu_pair + 2 = rc_generation rcu_pair_later \<and>
   rc_gen rcu_pair 0 < rc_gen rcu_pair_later 0"
proof -
  have "rc_generation rcu_pair + 2 = rc_generation rcu_pair_later" "member rcu_pair 0"
    by (simp_all add: rcu_eval member_def)
  then show ?thesis using rcu_two_generations [of 2 rcu_pair rcu_pair_later 0] rcu_pair_run by simp
qed

section \<open>What \<open>rcu_sync\<close> waits for\<close>

text \<open>
  One generation is not a grace period: CPU 0 has passed the generation, starts to read, and does not
  come back to the scheduler; \<open>rcu_sync\<close> reads the generation now and returns as soon as CPU 1 has
  advanced it, while CPU 0 still reads.
\<close>

lemma rcu_sync_returns_early:
  "rcu_run 2 rcu_init rcu_pair \<and> rcu_run 2 rcu_pair rcu_pair_next \<and> rc_pc rcu_pair 0 = RcRun \<and>
   rc_generation rcu_pair_next \<noteq> rc_generation rcu_pair \<and> rc_gen rcu_pair_next 0 = rc_gen rcu_pair 0"
proof -
  have "rc_pc rcu_pair 0 = RcRun" "rc_generation rcu_pair_next \<noteq> rc_generation rcu_pair" "rc_gen rcu_pair_next 0 = rc_gen rcu_pair 0"
    by (simp_all add: rcu_eval)
  then show ?thesis using rcu_pair_run by blast
qed

end
