(* ===== verification/Scheduler.thy ===== *)
theory Scheduler
  imports Bit_Set Rcu "HOL-Library.Multiset"
begin

text \<open>
  Threads, the round-robin queue and the scheduler of a CPU (\<open>src/kcore/sched/mod.rs\<close> and \<open>rr.rs\<close>).
  Thread control blocks live in a store by number; a CPU has its queue, its idle slot and the thread
  it runs. The time is an argument of the operations that read it.
\<close>

section \<open>Threads\<close>

definition STOPPED :: "32 word" where "STOPPED = 1"
definition STOPPING :: "32 word" where "STOPPING = 2"
definition BLOCKED :: "32 word" where "BLOCKED = 4"
definition SIGNALABLE :: "32 word" where "SIGNALABLE = 8"
definition RUNNING :: "32 word" where "RUNNING = 16"

definition TICKS_PER_SEC :: nat where "TICKS_PER_SEC = 200"
definition LOAD_MEASURE_WINDOW :: nat where "LOAD_MEASURE_WINDOW = 256"

definition SIGKILL :: nat where "SIGKILL = 9"
definition SIGSTOP :: nat where "SIGSTOP = 19"

text \<open>
  \<open>th_linked\<close> says that the node of the thread is in a list, \<open>th_memmap\<close> names its memory map and
  \<open>th_waiters\<close> are the threads in its wait list.
\<close>

record thread =
  th_flags :: "32 word"
  th_timeout :: nat
  th_ktime :: nat
  th_utime :: nat
  th_sigprocmask :: bit_set
  th_sigqueue :: "nat list"
  th_process :: "nat option"
  th_memmap :: "nat option"
  th_waiters :: "nat list"
  th_linked :: bool

definition new_tcb :: "nat option \<Rightarrow> thread" where
  "new_tcb process = \<lparr>th_flags = 0, th_timeout = 0, th_ktime = 0, th_utime = 0, th_sigprocmask = bs_empty 1024,
     th_sigqueue = [], th_process = process, th_memmap = None, th_waiters = [], th_linked = False\<rparr>"

text \<open>The scheduler of a CPU, with the thread it runs and the memory map it has enabled.\<close>

record scheduler =
  sc_idle :: "nat option"
  sc_queue :: "nat list"
  sc_preempt_ticks :: nat
  sc_last_account_us :: nat
  sc_active_set :: bit_set
  sc_active_next :: nat
  sc_load_average :: nat
  sc_thread :: "nat option"
  sc_memmap :: "nat option"

record kernel =
  kn_threads :: "nat \<Rightarrow> thread"
  kn_zombies :: "nat list"
  kn_reaper :: "nat option"
  kn_proc_sigqueue :: "nat \<Rightarrow> nat list"
  kn_cpus :: "scheduler list"
  kn_rcu :: rcu

datatype sched_panic = DoubleInsert | EmptyQueue | NoReaper | NoIdle | TimeUnderflow | OutOfBounds

definition upd_thread :: "nat \<Rightarrow> (thread \<Rightarrow> thread) \<Rightarrow> kernel \<Rightarrow> kernel" where
  "upd_thread t f k = k\<lparr>kn_threads := (kn_threads k)(t := f (kn_threads k t))\<rparr>"

definition or_flags :: "32 word \<Rightarrow> nat \<Rightarrow> kernel \<Rightarrow> kernel" where
  "or_flags m t = upd_thread t (\<lambda>x. x\<lparr>th_flags := th_flags x OR m\<rparr>)"

definition clear_flags :: "32 word \<Rightarrow> nat \<Rightarrow> kernel \<Rightarrow> kernel" where
  "clear_flags m t = upd_thread t (\<lambda>x. x\<lparr>th_flags := th_flags x AND NOT m\<rparr>)"

definition thread_flag :: "32 word \<Rightarrow> nat \<Rightarrow> kernel \<Rightarrow> bool" where
  "thread_flag m t k \<longleftrightarrow> th_flags (kn_threads k t) AND m \<noteq> 0"

definition thread_stop :: "nat \<Rightarrow> kernel \<Rightarrow> kernel" where
  "thread_stop = or_flags STOPPING"

definition is_stopping :: "nat \<Rightarrow> kernel \<Rightarrow> bool" where
  "is_stopping = thread_flag STOPPING"

definition unblock :: "nat \<Rightarrow> kernel \<Rightarrow> kernel" where
  "unblock = clear_flags BLOCKED"

section \<open>Signals\<close>

text \<open>The first signal of a queue that is not masked; \<open>SIGSTOP\<close> and \<open>SIGKILL\<close> cannot be. Polling leaves it there.\<close>

fun take_sig :: "bit_set \<Rightarrow> bool \<Rightarrow> nat list \<Rightarrow> (sched_panic, nat option \<times> nat list) result" where
  "take_sig sigmask is_poll [] = Ok (None, [])"
| "take_sig sigmask is_poll (g # gs) =
     (let deliver = Ok (Some g, if is_poll then g # gs else gs);
          skip = bind_result (take_sig sigmask is_poll gs) (\<lambda>(r, gs'). Ok (r, g # gs'))
      in if g = SIGSTOP \<or> g = SIGKILL then deliver
         else case bs_test sigmask g of None \<Rightarrow> Err OutOfBounds | Some True \<Rightarrow> skip | Some False \<Rightarrow> deliver)"

definition get_async_sig :: "bool \<Rightarrow> nat \<Rightarrow> kernel \<Rightarrow> (sched_panic, nat option \<times> kernel) result" where
  "get_async_sig is_poll t k =
     (let x = kn_threads k t; sigmask = th_sigprocmask x in
      bind_result (take_sig sigmask is_poll (th_sigqueue x)) (\<lambda>(r, q).
        let k = upd_thread t (\<lambda>x. x\<lparr>th_sigqueue := q\<rparr>) k in
        case (r, th_process x) of
          (None, Some p) \<Rightarrow> bind_result (take_sig sigmask is_poll (kn_proc_sigqueue k p)) (\<lambda>(r, q).
            Ok (r, k\<lparr>kn_proc_sigqueue := (kn_proc_sigqueue k)(p := q)\<rparr>))
        | _ \<Rightarrow> Ok (r, k)))"

definition send_async_sig :: "nat \<Rightarrow> nat \<Rightarrow> kernel \<Rightarrow> kernel" where
  "send_async_sig g t k = clear_flags BLOCKED t (upd_thread t (\<lambda>x. x\<lparr>th_sigqueue := th_sigqueue x @ [g]\<rparr>) k)"

section \<open>The round-robin queue\<close>

text \<open>The queue of a CPU is locked while it is worked on; a push of a node that is in a list fails.\<close>

definition link :: "nat \<Rightarrow> kernel \<Rightarrow> (sched_panic, kernel) result" where
  "link t k = (if th_linked (kn_threads k t) then Err DoubleInsert else Ok (upd_thread t (\<lambda>x. x\<lparr>th_linked := True\<rparr>) k))"

definition unlink :: "nat \<Rightarrow> kernel \<Rightarrow> kernel" where
  "unlink t = upd_thread t (\<lambda>x. x\<lparr>th_linked := False\<rparr>)"

definition add_thread :: "nat \<Rightarrow> nat list \<Rightarrow> kernel \<Rightarrow> (sched_panic, nat list \<times> kernel) result" where
  "add_thread t q k = bind_result (link t k) (\<lambda>k. Ok (q @ [t], k))"

definition add_thread_front :: "nat \<Rightarrow> nat list \<Rightarrow> kernel \<Rightarrow> (sched_panic, nat list \<times> kernel) result" where
  "add_thread_front t q k = bind_result (link t k) (\<lambda>k. Ok (t # q, k))"

definition return_thread :: "nat \<Rightarrow> nat list \<Rightarrow> kernel \<Rightarrow> (sched_panic, nat list \<times> kernel) result" where
  "return_thread t q k = bind_result (link t k) (\<lambda>k. Ok (q @ [t], k))"

definition bury :: "nat \<Rightarrow> kernel \<Rightarrow> (sched_panic, kernel) result" where
  "bury t k = bind_result (link t k) (\<lambda>k. case kn_reaper k of
       None \<Rightarrow> Err NoReaper
     | Some r \<Rightarrow> Ok (clear_flags BLOCKED r (k\<lparr>kn_zombies := kn_zombies k @ [t]\<rparr>)))"

fun choose_loop :: "nat \<Rightarrow> nat \<Rightarrow> nat list \<Rightarrow> kernel \<Rightarrow> (sched_panic, nat option \<times> nat list \<times> kernel) result" where
  "choose_loop 0 now q k = Ok (None, q, k)"
| "choose_loop (Suc n) now [] k = Err EmptyQueue"
| "choose_loop (Suc n) now (t # q) k =
     (let k = unlink t k in
      if thread_flag STOPPED t k then bind_result (bury t k) (choose_loop n now q)
      else if \<not> thread_flag BLOCKED t k then Ok (Some t, q, k)
      else if th_timeout (kn_threads k t) < now then Ok (Some t, q, clear_flags BLOCKED t k)
      else bind_result (link t k) (choose_loop n now (q @ [t])))"

definition choose_thread :: "nat \<Rightarrow> nat list \<Rightarrow> kernel \<Rightarrow> (sched_panic, nat option \<times> nat list \<times> kernel) result" where
  "choose_thread now q k = choose_loop (length q) now q k"

section \<open>The scheduler\<close>

text \<open>The accesses of \<open>RcuCtx::sched_callback\<close> of one CPU in a row.\<close>

definition sched_callback :: "nat \<Rightarrow> rcu \<Rightarrow> rcu" where
  "sched_callback c s =
     (if rc_generation s \<noteq> rc_gen s c then s
      else let old = rc_outstanding s;
               s = s\<lparr>rc_gen := (rc_gen s)(c := rc_gen s c + 1), rc_outstanding := (old + 2 ^ 32 - 1) mod 2 ^ 32\<rparr>
           in if old > 1 then s
              else s\<lparr>rc_outstanding := rc_participating s, rc_generation := (rc_generation s + 1) mod 2 ^ 32\<rparr>)"

definition upd_cpu :: "nat \<Rightarrow> (scheduler \<Rightarrow> scheduler) \<Rightarrow> kernel \<Rightarrow> kernel" where
  "upd_cpu c f k = k\<lparr>kn_cpus := (kn_cpus k)[c := f (kn_cpus k ! c)]\<rparr>"

text \<open>\<open>sched_yield\<close> puts the running thread back into the queue, or into the idle slot when that is empty.\<close>

definition put_back :: "nat \<Rightarrow> kernel \<Rightarrow> (sched_panic, kernel) result" where
  "put_back c k =
     (case sc_thread (kn_cpus k ! c) of
        None \<Rightarrow> Ok k
      | Some old \<Rightarrow>
          let k = clear_flags RUNNING old (upd_cpu c (\<lambda>x. x\<lparr>sc_thread := None\<rparr>) k) in
          if sc_idle (kn_cpus k ! c) = None then Ok (upd_cpu c (\<lambda>x. x\<lparr>sc_idle := Some old\<rparr>) k)
          else bind_result (return_thread old (sc_queue (kn_cpus k ! c)) k) (\<lambda>(q, k).
            Ok (upd_cpu c (\<lambda>x. x\<lparr>sc_queue := q\<rparr>) k)))"

definition switch_to :: "nat \<Rightarrow> nat \<Rightarrow> kernel \<Rightarrow> kernel" where
  "switch_to c t k = upd_cpu c (\<lambda>x. x\<lparr>sc_preempt_ticks := div_ceil TICKS_PER_SEC 100, sc_memmap := th_memmap (kn_threads k t),
     sc_thread := Some t\<rparr>) (or_flags RUNNING t k)"

definition pick_next :: "nat \<Rightarrow> nat \<Rightarrow> kernel \<Rightarrow> (sched_panic, kernel) result" where
  "pick_next now c k =
     bind_result (choose_thread now (sc_queue (kn_cpus k ! c)) k) (\<lambda>(r, q, k).
       let k = upd_cpu c (\<lambda>x. x\<lparr>sc_queue := q\<rparr>) k in
       case r of
         Some t \<Rightarrow> Ok (switch_to c t k)
       | None \<Rightarrow> (case sc_idle (kn_cpus k ! c) of
           None \<Rightarrow> Err NoIdle
         | Some t \<Rightarrow> Ok (switch_to c t (upd_cpu c (\<lambda>x. x\<lparr>sc_idle := None\<rparr>) k))))"

definition sched_yield :: "nat \<Rightarrow> nat \<Rightarrow> kernel \<Rightarrow> (sched_panic, kernel) result" where
  "sched_yield now c k = bind_result (put_back c (k\<lparr>kn_rcu := sched_callback c (kn_rcu k)\<rparr>)) (pick_next now c)"

text \<open>Accounting and the timer tick.\<close>

definition account_time :: "nat \<Rightarrow> bool \<Rightarrow> nat \<Rightarrow> kernel \<Rightarrow> (sched_panic, kernel) result" where
  "account_time now as_user_time c k =
     (let last = sc_last_account_us (kn_cpus k ! c) in
      if now < last then Err TimeUnderflow
      else let delta = now - last; k = upd_cpu c (\<lambda>x. x\<lparr>sc_last_account_us := now\<rparr>) k in
        case sc_thread (kn_cpus k ! c) of
          None \<Rightarrow> Err OutOfBounds
        | Some t \<Rightarrow> Ok (upd_thread t (\<lambda>x. if as_user_time then x\<lparr>th_utime := (th_utime x + delta) mod 2 ^ 64\<rparr>
                                         else x\<lparr>th_ktime := (th_ktime x + delta) mod 2 ^ 64\<rparr>) k))"

definition measure_load :: "nat \<Rightarrow> kernel \<Rightarrow> (sched_panic, kernel) result" where
  "measure_load c k =
     (let s = kn_cpus k ! c in
      case bs_test (sc_active_set s) (sc_active_next s) of
        None \<Rightarrow> Err OutOfBounds
      | Some was_active \<Rightarrow>
          let now_active = (sc_idle s = None) in
          if was_active \<and> \<not> now_active then Err TimeUnderflow
          else Ok (upd_cpu c (\<lambda>x. x\<lparr>sc_load_average := (sc_load_average x + of_bool now_active - of_bool was_active) mod 2 ^ 32,
            sc_active_next := (sc_active_next x + 1) mod LOAD_MEASURE_WINDOW\<rparr>) k))"

definition tick_interrupt :: "nat \<Rightarrow> bool \<Rightarrow> nat \<Rightarrow> kernel \<Rightarrow> (sched_panic, kernel) result" where
  "tick_interrupt now is_user_time c k =
     bind_result (account_time now is_user_time c k) (\<lambda>k.
     bind_result (measure_load c k) (\<lambda>k.
       if sc_preempt_ticks (kn_cpus k ! c) > 0 then
         let k = upd_cpu c (\<lambda>x. x\<lparr>sc_preempt_ticks := sc_preempt_ticks x - 1\<rparr>) k in
         if sc_preempt_ticks (kn_cpus k ! c) = 0 then sched_yield now c k else Ok k
       else Ok k))"

text \<open>What the idle thread does: take a thread from the CPU with the highest load average.\<close>

fun busiest :: "nat \<Rightarrow> scheduler list \<Rightarrow> nat \<Rightarrow> (nat \<times> nat) option \<Rightarrow> (nat \<times> nat) option" where
  "busiest cur [] i best = best"
| "busiest cur (s # ss) i best = busiest cur ss (Suc i)
     (if i = cur then best
      else case best of
        Some (_, highest) \<Rightarrow> if highest \<ge> sc_load_average s then best else Some (i, sc_load_average s)
      | None \<Rightarrow> Some (i, sc_load_average s))"

definition steal :: "nat \<Rightarrow> nat \<Rightarrow> kernel \<Rightarrow> (sched_panic, kernel) result" where
  "steal now c k =
     (case busiest c (kn_cpus k) 0 None of
        None \<Rightarrow> Ok k
      | Some (b, _) \<Rightarrow> bind_result (choose_thread now (sc_queue (kn_cpus k ! b)) k) (\<lambda>(r, q, k).
          let k = upd_cpu b (\<lambda>x. x\<lparr>sc_queue := q\<rparr>) k in
          case r of
            None \<Rightarrow> Ok k
          | Some t \<Rightarrow> bind_result (add_thread t (sc_queue (kn_cpus k ! c)) k) (\<lambda>(q, k).
              Ok (upd_cpu c (\<lambda>x. x\<lparr>sc_queue := q\<rparr>) k))))"

text \<open>A round of the reaper \<open>r\<close>, with the threads it drops.\<close>

definition reaper_round :: "nat \<Rightarrow> kernel \<Rightarrow> nat list \<times> kernel" where
  "reaper_round r k =
     (let k = or_flags BLOCKED r (upd_thread r (\<lambda>x. x\<lparr>th_timeout := usize_max\<rparr>) k);
          threads = kn_zombies k;
          k = k\<lparr>kn_zombies := []\<rparr>
      in (threads, if threads \<noteq> [] then clear_flags BLOCKED r k else k))"

text \<open>A new thread goes to the back of the queue of the current CPU; a dying one stops and yields.\<close>

definition thread_new :: "nat \<Rightarrow> nat option \<Rightarrow> nat \<Rightarrow> kernel \<Rightarrow> (sched_panic, kernel) result" where
  "thread_new t process c k =
     bind_result (add_thread t (sc_queue (kn_cpus k ! c)) (upd_thread t (\<lambda>x. new_tcb process) k)) (\<lambda>(q, k).
       Ok (upd_cpu c (\<lambda>x. x\<lparr>sc_queue := q\<rparr>) k))"

definition thread_die :: "nat \<Rightarrow> nat \<Rightarrow> nat \<Rightarrow> kernel \<Rightarrow> (sched_panic, kernel) result" where
  "thread_die now c t k =
     (let k = or_flags STOPPED t k; k = fold (clear_flags BLOCKED) (th_waiters (kn_threads k t)) k
      in sched_yield now c (upd_thread t (\<lambda>x. x\<lparr>th_waiters := []\<rparr>) k))"

section \<open>Flags\<close>

lemma bind_Ok [simp]: "bind_result (Ok x) f = f x" "bind_result (Err e) f = Err e"
  by (simp_all add: bind_result_def)

lemma flags_masks: "NOT RUNNING AND STOPPED = STOPPED" "NOT RUNNING AND BLOCKED = BLOCKED" "NOT BLOCKED AND STOPPED = STOPPED"
  "RUNNING AND STOPPED = 0" "RUNNING AND BLOCKED = 0"
  by (simp_all add: RUNNING_def STOPPED_def BLOCKED_def)

lemma thread_flag_upd [simp]:
  "thread_flag m u (upd_thread t (\<lambda>x. x\<lparr>th_linked := b\<rparr>) k) = thread_flag m u k"
  "thread_flag m u (k\<lparr>kn_zombies := z\<rparr>) = thread_flag m u k"
  "thread_flag m u (k\<lparr>kn_rcu := rc\<rparr>) = thread_flag m u k"
  "thread_flag m u (upd_cpu c f k) = thread_flag m u k"
  by (auto simp: thread_flag_def upd_thread_def upd_cpu_def)

lemma thread_flag_clear: "thread_flag m u (clear_flags d t k) \<longleftrightarrow> (if u = t then th_flags (kn_threads k t) AND (NOT d AND m) \<noteq> 0 else thread_flag m u k)"
  by (simp add: thread_flag_def clear_flags_def upd_thread_def and.assoc)

lemma thread_flag_or: "thread_flag m u (or_flags d t k) \<longleftrightarrow>
    (if u = t then thread_flag m t k \<or> d AND m \<noteq> 0 else thread_flag m u k)"
proof -
  have "(a OR d) AND m = (a AND m) OR (d AND m)" for a :: "32 word" by (simp add: bit.conj_disj_distrib2)
  moreover have "a OR b = 0 \<longleftrightarrow> a = 0 \<and> b = 0" for a b :: "32 word"
    by (metis or_eq_0_iff)
  ultimately show ?thesis by (simp add: thread_flag_def or_flags_def upd_thread_def)
qed

lemma thread_flag_simps [simp]:
  "thread_flag STOPPED u (clear_flags BLOCKED t k) = thread_flag STOPPED u k"
  "thread_flag STOPPED u (clear_flags RUNNING t k) = thread_flag STOPPED u k"
  "thread_flag BLOCKED u (clear_flags RUNNING t k) = thread_flag BLOCKED u k"
  "thread_flag BLOCKED u (clear_flags BLOCKED t k) \<longleftrightarrow> u \<noteq> t \<and> thread_flag BLOCKED u k"
  "thread_flag STOPPED u (or_flags RUNNING t k) = thread_flag STOPPED u k"
  "thread_flag BLOCKED u (or_flags RUNNING t k) = thread_flag BLOCKED u k"
  by (simp_all add: thread_flag_clear thread_flag_or flags_masks) (auto simp: thread_flag_def)

text \<open>What the operations on flags and links leave alone.\<close>

lemma upd_fields [simp]:
  "kn_cpus (upd_thread t f k) = kn_cpus k" "kn_zombies (upd_thread t f k) = kn_zombies k" "kn_reaper (upd_thread t f k) = kn_reaper k"
  "kn_cpus (or_flags m t k) = kn_cpus k" "kn_zombies (or_flags m t k) = kn_zombies k" "kn_reaper (or_flags m t k) = kn_reaper k"
  "kn_cpus (clear_flags m t k) = kn_cpus k" "kn_zombies (clear_flags m t k) = kn_zombies k" "kn_reaper (clear_flags m t k) = kn_reaper k"
  "kn_threads (upd_cpu c g k) = kn_threads k" "kn_zombies (upd_cpu c g k) = kn_zombies k" "kn_reaper (upd_cpu c g k) = kn_reaper k"
  "kn_cpus (upd_cpu c g k) = (kn_cpus k)[c := g (kn_cpus k ! c)]"
  by (simp_all add: upd_thread_def or_flags_def clear_flags_def upd_cpu_def)

definition linked :: "kernel \<Rightarrow> nat \<Rightarrow> bool" where
  "linked k t \<longleftrightarrow> th_linked (kn_threads k t)"

lemma linked_simps [simp]:
  "linked (or_flags m t k) u = linked k u" "linked (clear_flags m t k) u = linked k u" "linked (upd_cpu c g k) u = linked k u"
  "linked (k\<lparr>kn_zombies := z\<rparr>) u = linked k u" "linked (k\<lparr>kn_rcu := rc\<rparr>) u = linked k u"
  "linked (upd_thread t (\<lambda>x. x\<lparr>th_linked := b\<rparr>) k) u = (if u = t then b else linked k u)"
  by (simp_all add: linked_def or_flags_def clear_flags_def upd_thread_def)

section \<open>What the queue does\<close>

definition opt_mset :: "nat option \<Rightarrow> nat multiset" where
  "opt_mset r = (case r of None \<Rightarrow> {#} | Some t \<Rightarrow> {#t#})"

lemma opt_mset_simps [simp]: "opt_mset None = {#}" "opt_mset (Some t) = {#t#}"
  by (simp_all add: opt_mset_def)

text \<open>The nodes in lists are those of this queue, the zombies and the queues \<open>R\<close> of the other CPUs, each once.\<close>

definition queue_inv :: "nat set \<Rightarrow> nat list \<Rightarrow> kernel \<Rightarrow> bool" where
  "queue_inv R q k \<longleftrightarrow> distinct (q @ kn_zombies k) \<and> set (q @ kn_zombies k) \<inter> R = {} \<and>
     (\<forall>t. linked k t \<longleftrightarrow> t \<in> set (q @ kn_zombies k) \<union> R)"

text \<open>What a choice leaves alone: CPUs, reaper, stopped threads and threads that are not blocked.\<close>

definition sched_frame :: "kernel \<Rightarrow> kernel \<Rightarrow> bool" where
  "sched_frame k k' \<longleftrightarrow> kn_cpus k' = kn_cpus k \<and> kn_reaper k' = kn_reaper k \<and>
     (\<forall>t. thread_flag STOPPED t k' = thread_flag STOPPED t k) \<and> (\<forall>t. thread_flag BLOCKED t k' \<longrightarrow> thread_flag BLOCKED t k)"

lemma sched_frame_refl: "sched_frame k k"
  by (simp add: sched_frame_def)

lemma sched_frame_trans: "sched_frame k k' \<Longrightarrow> sched_frame k' k'' \<Longrightarrow> sched_frame k k''"
  by (simp add: sched_frame_def)

lemma link_ok:
  assumes "\<not> linked k t"
  shows "link t k = Ok (upd_thread t (\<lambda>x. x\<lparr>th_linked := True\<rparr>) k)"
  using assms by (simp add: link_def linked_def)

lemma bury_ok:
  assumes "queue_inv R (t # q) k" "kn_reaper k \<noteq> None"
  shows "\<exists>k'. bury t (unlink t k) = Ok k' \<and> queue_inv R q k' \<and> kn_zombies k' = kn_zombies k @ [t] \<and> sched_frame k k'"
proof -
  obtain r where r: "kn_reaper k = Some r" using assms(2) by blast
  let ?k = "clear_flags BLOCKED r ((upd_thread t (\<lambda>x. x\<lparr>th_linked := True\<rparr>) (unlink t k))\<lparr>kn_zombies := kn_zombies k @ [t]\<rparr>)"
  have "bury t (unlink t k) = Ok ?k" by (simp add: bury_def link_ok unlink_def r)
  moreover have "queue_inv R q ?k" using assms(1) by (auto simp: queue_inv_def unlink_def)
  moreover have "sched_frame k ?k" by (simp add: sched_frame_def unlink_def)
  ultimately show ?thesis by fastforce
qed

lemma choose_loop_ok:
  assumes "queue_inv R q k" "kn_reaper k \<noteq> None" "n \<le> length q"
  shows "\<exists>r q' k'. choose_loop n now q k = Ok (r, q', k') \<and> queue_inv R q' k' \<and> sched_frame k k' \<and>
    mset q + mset (kn_zombies k) = mset q' + mset (kn_zombies k') + opt_mset r \<and>
    (\<forall>t. r = Some t \<longrightarrow> t \<in> set q \<and> t \<notin> set q' \<and> \<not> thread_flag STOPPED t k' \<and> \<not> thread_flag BLOCKED t k')"
  using assms
proof (induction n arbitrary: q k)
  case 0
  then show ?case by (simp add: sched_frame_refl)
next
  case (Suc n)
  then obtain t p where q: "q = t # p" by (cases q) auto
  have i: "queue_inv R (t # p) k" using Suc.prems(1) q by simp
  have nb: "t \<notin> set p" "t \<notin> set (kn_zombies k)" using i by (simp_all add: queue_inv_def)
  have u: "queue_inv R p (unlink t k)" using i by (auto simp: queue_inv_def unlink_def)
  have fr: "sched_frame k (unlink t k)" by (simp add: sched_frame_def unlink_def)
  consider (stopped) "thread_flag STOPPED t k" | (runs) "\<not> thread_flag STOPPED t k" "\<not> thread_flag BLOCKED t k"
    | (late) "\<not> thread_flag STOPPED t k" "thread_flag BLOCKED t k" "th_timeout (kn_threads k t) < now"
    | (waits) "\<not> thread_flag STOPPED t k" "thread_flag BLOCKED t k" "\<not> th_timeout (kn_threads k t) < now" by blast
  then show ?case
  proof cases
    case stopped
    obtain k1 where k1: "bury t (unlink t k) = Ok k1" "queue_inv R p k1" "kn_zombies k1 = kn_zombies k @ [t]" "sched_frame k k1"
      using bury_ok [OF i] Suc.prems(2) by blast
    have "kn_reaper k1 \<noteq> None" using k1(4) Suc.prems(2) by (simp add: sched_frame_def)
    then obtain r q' k' where c: "choose_loop n now p k1 = Ok (r, q', k')" "queue_inv R q' k'" "sched_frame k1 k'"
      "mset p + mset (kn_zombies k1) = mset q' + mset (kn_zombies k') + opt_mset r"
      "\<forall>t. r = Some t \<longrightarrow> t \<in> set p \<and> t \<notin> set q' \<and> \<not> thread_flag STOPPED t k' \<and> \<not> thread_flag BLOCKED t k'"
      using Suc.IH [OF k1(2)] Suc.prems(3) q by fastforce
    have "choose_loop (Suc n) now q k = Ok (r, q', k')" using q stopped k1(1) c(1) by (simp add: unlink_def)
    then show ?thesis using c k1(3) sched_frame_trans [OF k1(4) c(3)] q by auto
  next
    case runs
    then have "choose_loop (Suc n) now q k = Ok (Some t, p, unlink t k)" using q by (simp add: unlink_def)
    then show ?thesis using u fr runs q nb by (auto simp: unlink_def)
  next
    case late
    then have c: "choose_loop (Suc n) now q k = Ok (Some t, p, clear_flags BLOCKED t (unlink t k))"
      using q by (simp add: unlink_def upd_thread_def thread_flag_def)
    moreover have "queue_inv R p (clear_flags BLOCKED t (unlink t k))" using u by (simp add: queue_inv_def)
    moreover have "sched_frame k (clear_flags BLOCKED t (unlink t k))" using fr by (simp add: sched_frame_def)
    ultimately show ?thesis using late q nb by (auto simp: unlink_def)
  next
    case waits
    let ?k = "upd_thread t (\<lambda>x. x\<lparr>th_linked := True\<rparr>) (unlink t k)"
    have l: "link t (unlink t k) = Ok ?k" by (simp add: link_ok unlink_def)
    have k1: "queue_inv R (p @ [t]) ?k" "sched_frame k ?k" "kn_reaper ?k \<noteq> None" "kn_zombies ?k = kn_zombies k"
      using i Suc.prems(2) by (auto simp: queue_inv_def sched_frame_def unlink_def)
    obtain r q' k' where c: "choose_loop n now (p @ [t]) ?k = Ok (r, q', k')" "queue_inv R q' k'" "sched_frame ?k k'"
      "mset (p @ [t]) + mset (kn_zombies ?k) = mset q' + mset (kn_zombies k') + opt_mset r"
      "\<forall>u. r = Some u \<longrightarrow> u \<in> set (p @ [t]) \<and> u \<notin> set q' \<and> \<not> thread_flag STOPPED u k' \<and> \<not> thread_flag BLOCKED u k'"
      using Suc.IH [OF k1(1,3)] Suc.prems(3) q by fastforce
    have "choose_loop (Suc n) now q k = Ok (r, q', k')"
      using q waits l c(1) by (simp add: unlink_def upd_thread_def thread_flag_def)
    then show ?thesis using c k1(4) sched_frame_trans [OF k1(2) c(3)] q by auto
  qed
qed


text \<open>A runnable thread is chosen, or another one and it moves forward.\<close>

lemma choose_loop_progress:
  assumes "queue_inv R (pre @ t # post) k" "kn_reaper k \<noteq> None" "\<not> thread_flag STOPPED t k" "\<not> thread_flag BLOCKED t k"
    and "length pre < n"
  shows "\<exists>u q' k'. choose_loop n now (pre @ t # post) k = Ok (Some u, q', k') \<and>
    (u = t \<or> (\<exists>pre' post'. q' = pre' @ t # post' \<and> length pre' < length pre))"
  using assms
proof (induction n arbitrary: pre post k)
  case (Suc n)
  show ?case
  proof (cases pre)
    case Nil
    then have "choose_loop (Suc n) now (pre @ t # post) k = Ok (Some t, post, unlink t k)"
      using Suc.prems(3,4) by (simp add: unlink_def)
    then show ?thesis by blast
  next
    case (Cons x xs)
    have i: "queue_inv R (x # (xs @ t # post)) k" using Suc.prems(1) Cons by simp
    have xt: "x \<noteq> t" using i by (auto simp: queue_inv_def)
    let ?x = "th_timeout (kn_threads (unlink x k) x) < now"
    consider (stopped) "thread_flag STOPPED x k" | (runs) "\<not> thread_flag STOPPED x k" "\<not> thread_flag BLOCKED x k \<or> ?x"
      | (waits) "\<not> thread_flag STOPPED x k" "thread_flag BLOCKED x k" "\<not> ?x" by blast
    then show ?thesis
    proof cases
      case stopped
      obtain k1 where k1: "bury x (unlink x k) = Ok k1" "queue_inv R (xs @ t # post) k1" "sched_frame k k1"
        using bury_ok [OF i] Suc.prems(2) by blast
      have "kn_reaper k1 \<noteq> None" "\<not> thread_flag STOPPED t k1" "\<not> thread_flag BLOCKED t k1"
        using k1(3) Suc.prems(2-4) by (auto simp: sched_frame_def)
      then obtain u q' k' where "choose_loop n now (xs @ t # post) k1 = Ok (Some u, q', k')"
        "u = t \<or> (\<exists>pre' post'. q' = pre' @ t # post' \<and> length pre' < length xs)"
        using Suc.IH [OF k1(2)] Suc.prems(5) Cons by fastforce
      moreover have "choose_loop (Suc n) now (pre @ t # post) k = choose_loop n now (xs @ t # post) k1"
        using Cons stopped k1(1) by (simp add: unlink_def)
      ultimately show ?thesis using Cons by fastforce
    next
      case runs
      then have "\<exists>k'. choose_loop (Suc n) now (pre @ t # post) k = Ok (Some x, xs @ t # post, k')"
        using Cons by (auto simp: unlink_def Let_def)
      then show ?thesis using Cons by fastforce
    next
      case waits
      let ?k = "upd_thread x (\<lambda>x. x\<lparr>th_linked := True\<rparr>) (unlink x k)"
      have l: "link x (unlink x k) = Ok ?k" by (simp add: link_ok unlink_def)
      have k1: "queue_inv R (xs @ t # (post @ [x])) ?k" "kn_reaper ?k \<noteq> None" "\<not> thread_flag STOPPED t ?k" "\<not> thread_flag BLOCKED t ?k"
        using i Suc.prems(2-4) by (auto simp: queue_inv_def unlink_def)
      obtain u q' k' where "choose_loop n now (xs @ t # (post @ [x])) ?k = Ok (Some u, q', k')"
        "u = t \<or> (\<exists>pre' post'. q' = pre' @ t # post' \<and> length pre' < length xs)"
        using Suc.IH [OF k1] Suc.prems(5) Cons by fastforce
      moreover have "choose_loop (Suc n) now (pre @ t # post) k = choose_loop n now (xs @ t # (post @ [x])) ?k"
        using Cons waits l by (simp add: unlink_def)
      ultimately show ?thesis using Cons by fastforce
    qed
  qed
qed simp

section \<open>The invariant of the scheduler\<close>

definition cpu_threads :: "scheduler \<Rightarrow> nat multiset" where
  "cpu_threads s = mset (sc_queue s) + opt_mset (sc_idle s) + opt_mset (sc_thread s)"

text \<open>Where every thread is: in a queue, an idle slot, running, or with the zombies.\<close>

definition all_threads :: "kernel \<Rightarrow> nat multiset" where
  "all_threads k = (\<Sum>s\<leftarrow>kn_cpus k. cpu_threads s) + mset (kn_zombies k)"

definition in_lists :: "kernel \<Rightarrow> nat set" where
  "in_lists k = (\<Union>s\<in>set (kn_cpus k). set (sc_queue s)) \<union> set (kn_zombies k)"

definition cpu_ok :: "scheduler \<Rightarrow> bool" where
  "cpu_ok s \<longleftrightarrow> sc_idle s \<noteq> None \<or> sc_thread s \<noteq> None"

definition sched_inv :: "kernel \<Rightarrow> bool" where
  "sched_inv k \<longleftrightarrow> (\<forall>t. count (all_threads k) t \<le> 1) \<and> (\<forall>t. linked k t \<longleftrightarrow> t \<in> in_lists k) \<and>
     kn_reaper k \<noteq> None \<and> (\<forall>s\<in>set (kn_cpus k). cpu_ok s)"

text \<open>The queues of the CPUs other than \<open>c\<close>.\<close>

definition other_queues :: "nat \<Rightarrow> kernel \<Rightarrow> nat set" where
  "other_queues c k = (\<Union>i\<in>{i. i < length (kn_cpus k) \<and> i \<noteq> c}. set (sc_queue (kn_cpus k ! i)))"

lemma sum_cpus:
  assumes "c < length xs"
  shows "(\<Sum>s\<leftarrow>xs[c := y]. cpu_threads s) + cpu_threads (xs ! c) = (\<Sum>s\<leftarrow>xs. cpu_threads s) + cpu_threads y"
  using assms
proof (induction xs arbitrary: c)
  case (Cons x xs)
  then show ?case by (cases c) (auto simp: ac_simps)
qed simp

lemma cpu_threads_sub: "s \<in> set xs \<Longrightarrow> t \<in> set (sc_queue s) \<Longrightarrow> 0 < count (\<Sum>s\<leftarrow>xs. cpu_threads s) t"
  by (induction xs) (auto simp: cpu_threads_def count_mset_gt_0)

lemma sum_cpus_split:
  assumes "c < length xs"
  shows "(\<Sum>s\<leftarrow>xs. cpu_threads s) = (\<Sum>s\<leftarrow>take c xs @ drop (Suc c) xs. cpu_threads s) + cpu_threads (xs ! c)"
  by (subst (1) id_take_nth_drop [OF assms]) (simp add: ac_simps)

lemma other_cpu:
  assumes "i < length xs" "i \<noteq> c"
  shows "xs ! i \<in> set (take c xs @ drop (Suc c) xs)"
proof (cases "i < c")
  case True
  then show ?thesis using assms by (auto simp: in_set_conv_nth)
next
  case False
  then have "drop (Suc c) xs ! (i - Suc c) = xs ! i" "i - Suc c < length (drop (Suc c) xs)" using assms by auto
  then show ?thesis by (metis Un_iff nth_mem set_append)
qed

lemma in_lists_cpu:
  assumes "c < length (kn_cpus k)"
  shows "in_lists k = other_queues c k \<union> set (sc_queue (kn_cpus k ! c)) \<union> set (kn_zombies k)"
proof -
  have "(\<Union>s\<in>set (kn_cpus k). set (sc_queue s)) = (\<Union>i\<in>{i. i < length (kn_cpus k)}. set (sc_queue (kn_cpus k ! i)))"
    unfolding set_conv_nth [of "kn_cpus k"] by blast
  also have "\<dots> = other_queues c k \<union> set (sc_queue (kn_cpus k ! c))" using assms by (auto simp: other_queues_def)
  finally show ?thesis by (simp add: in_lists_def)
qed

lemma other_queues_upd: "kn_cpus k' = (kn_cpus k)[c := s'] \<Longrightarrow> other_queues c k' = other_queues c k"
  by (auto simp: other_queues_def)

text \<open>An operation on CPU \<open>c\<close> that moves its threads around, possibly to the zombies.\<close>

lemma sched_inv_step:
  assumes "sched_inv k" "c < length (kn_cpus k)" "kn_cpus k' = (kn_cpus k)[c := s']"
    and "cpu_threads s' + mset (kn_zombies k') = cpu_threads (kn_cpus k ! c) + mset (kn_zombies k)"
    and "\<And>t. linked k' t \<longleftrightarrow> t \<in> other_queues c k \<union> set (sc_queue s') \<union> set (kn_zombies k')"
    and "kn_reaper k' = kn_reaper k" "cpu_ok s'"
  shows "sched_inv k'" "all_threads k' = all_threads k"
proof -
  have "all_threads k' + cpu_threads (kn_cpus k ! c) = all_threads k + cpu_threads (kn_cpus k ! c)"
    using sum_cpus [OF assms(2), of s'] assms(4) by (simp add: all_threads_def assms(3) ac_simps)
  then show e: "all_threads k' = all_threads k" by simp
  have "in_lists k' = other_queues c k \<union> set (sc_queue s') \<union> set (kn_zombies k')"
    using in_lists_cpu [of c k'] other_queues_upd [OF assms(3)] assms(2,3) by simp
  moreover have "\<forall>s\<in>set (kn_cpus k'). cpu_ok s"
    using assms(1,7) set_update_subset_insert [of "kn_cpus k" c s'] unfolding assms(3) sched_inv_def by blast
  ultimately show "sched_inv k'" using e assms(1,5,6) by (simp add: sched_inv_def)
qed

lemma sched_inv_queue:
  assumes "sched_inv k" "c < length (kn_cpus k)"
  shows "queue_inv (other_queues c k) (sc_queue (kn_cpus k ! c)) k"
proof -
  let ?s = "kn_cpus k ! c"
  have one: "count (all_threads k) t \<le> 1" for t using assms(1) by (simp add: sched_inv_def)
  have all: "all_threads k = (\<Sum>s\<leftarrow>take c (kn_cpus k) @ drop (Suc c) (kn_cpus k). cpu_threads s) + cpu_threads ?s + mset (kn_zombies k)"
    using sum_cpus_split [OF assms(2)] by (simp add: all_threads_def)
  have le: "count (mset (sc_queue ?s @ kn_zombies k)) t \<le> 1" for t using one [of t] unfolding all by (simp add: cpu_threads_def)
  have d: "distinct (sc_queue ?s @ kn_zombies k)"
    unfolding distinct_count_atmost_1 using le by (metis count_mset_gt_0 count_eq_zero_iff le_antisym less_one linorder_not_less set_mset_mset)
  have x: "t \<notin> set (sc_queue ?s @ kn_zombies k)" if o: "t \<in> other_queues c k" for t
  proof
    assume "t \<in> set (sc_queue ?s @ kn_zombies k)"
    then have "0 < count (mset (sc_queue ?s @ kn_zombies k)) t" by (metis count_mset_gt_0)
    moreover obtain i where "i < length (kn_cpus k)" "i \<noteq> c" "t \<in> set (sc_queue (kn_cpus k ! i))"
      using o by (auto simp: other_queues_def)
    then have "0 < count (\<Sum>s\<leftarrow>take c (kn_cpus k) @ drop (Suc c) (kn_cpus k). cpu_threads s) t"
      using cpu_threads_sub [OF other_cpu] by blast
    moreover have "count (all_threads k) t \<ge> count (\<Sum>s\<leftarrow>take c (kn_cpus k) @ drop (Suc c) (kn_cpus k). cpu_threads s) t
        + count (mset (sc_queue ?s @ kn_zombies k)) t"
      unfolding all by (simp add: cpu_threads_def [of ?s])
    ultimately show False using one [of t] by linarith
  qed
  have "linked k t \<longleftrightarrow> t \<in> set (sc_queue ?s @ kn_zombies k) \<union> other_queues c k" for t
    using assms by (auto simp: sched_inv_def in_lists_cpu)
  then show ?thesis using d x unfolding queue_inv_def by blast
qed

lemma held_not_linked:
  assumes "sched_inv k" "c < length (kn_cpus k)" "t \<in># opt_mset (sc_thread (kn_cpus k ! c)) + opt_mset (sc_idle (kn_cpus k ! c))"
  shows "\<not> linked k t"
proof
  let ?s = "kn_cpus k ! c"
  let ?r = "\<Sum>s\<leftarrow>take c (kn_cpus k) @ drop (Suc c) (kn_cpus k). cpu_threads s"
  assume "linked k t"
  then consider "t \<in> other_queues c k" | "t \<in> set (sc_queue ?s)" | "t \<in> set (kn_zombies k)"
    using assms(1) in_lists_cpu [OF assms(2)] by (auto simp: sched_inv_def)
  then have "0 < count ?r t + count (mset (sc_queue ?s)) t + count (mset (kn_zombies k)) t"
  proof cases
    case 1
    then obtain i where "i < length (kn_cpus k)" "i \<noteq> c" "t \<in> set (sc_queue (kn_cpus k ! i))" by (auto simp: other_queues_def)
    then show ?thesis using cpu_threads_sub [OF other_cpu] by blast
  qed (simp_all add: count_mset_gt_0)
  moreover have "0 < count (opt_mset (sc_thread ?s)) t + count (opt_mset (sc_idle ?s)) t"
    using assms(3) by (metis count_greater_zero_iff count_union)
  moreover have "count (all_threads k) t = count ?r t + count (mset (sc_queue ?s)) t + count (mset (kn_zombies k)) t
      + count (opt_mset (sc_thread ?s)) t + count (opt_mset (sc_idle ?s)) t"
    using sum_cpus_split [OF assms(2)] by (simp add: all_threads_def cpu_threads_def [of ?s])
  moreover have "count (all_threads k) t \<le> 1" using assms(1) by (simp add: sched_inv_def)
  ultimately show False by linarith
qed

text \<open>Putting the running thread back and choosing the next one.\<close>

lemma flags_same_upd [simp]: "thread_flag m u (k\<lparr>kn_cpus := cs\<rparr>) = thread_flag m u k"
  by (simp add: thread_flag_def)

lemma sched_inv_rcu [simp]: "sched_inv (k\<lparr>kn_rcu := r\<rparr>) = sched_inv k" "all_threads (k\<lparr>kn_rcu := r\<rparr>) = all_threads k"
  by (simp_all add: sched_inv_def all_threads_def in_lists_def)

lemma put_back_ok:
  assumes "sched_inv k" "c < length (kn_cpus k)"
  shows "\<exists>k' tl. put_back c k = Ok k' \<and> sched_inv k' \<and> all_threads k' = all_threads k \<and>
    length (kn_cpus k') = length (kn_cpus k) \<and> sc_queue (kn_cpus k' ! c) = sc_queue (kn_cpus k ! c) @ tl \<and>
    sc_thread (kn_cpus k' ! c) = None \<and> sc_idle (kn_cpus k' ! c) \<noteq> None \<and>
    (\<forall>t. thread_flag STOPPED t k' = thread_flag STOPPED t k \<and> thread_flag BLOCKED t k' = thread_flag BLOCKED t k)"
proof (cases "sc_thread (kn_cpus k ! c)")
  case None
  have "cpu_ok (kn_cpus k ! c)" using assms by (simp add: sched_inv_def)
  then show ?thesis using None assms by (auto simp: put_back_def cpu_ok_def)
next
  case (Some old)
  note th = Some
  let ?s = "kn_cpus k ! c"
  let ?k1 = "clear_flags RUNNING old (upd_cpu c (\<lambda>x. x\<lparr>sc_thread := None\<rparr>) k)"
  have q: "queue_inv (other_queues c k) (sc_queue ?s) k" by (rule sched_inv_queue [OF assms])
  show ?thesis
  proof (cases "sc_idle ?s")
    case None
    let ?k = "upd_cpu c (\<lambda>x. x\<lparr>sc_idle := Some old\<rparr>) ?k1"
    have p: "put_back c k = Ok ?k" using Some None assms(2) by (simp add: put_back_def)
    have cs: "kn_cpus ?k = (kn_cpus k)[c := ?s\<lparr>sc_thread := None, sc_idle := Some old\<rparr>]" using assms(2) by simp
    have "sched_inv ?k \<and> all_threads ?k = all_threads k"
      by (intro conjI sched_inv_step [OF assms cs])
        (use q Some None in \<open>auto simp: cpu_threads_def cpu_ok_def queue_inv_def\<close>)
    then show ?thesis using p cs assms(2) by auto
  next
    case (Some i)
    let ?k = "upd_cpu c (\<lambda>x. x\<lparr>sc_queue := sc_queue ?s @ [old]\<rparr>) (upd_thread old (\<lambda>x. x\<lparr>th_linked := True\<rparr>) ?k1)"
    have "\<not> linked ?k1 old" using held_not_linked [OF assms, of old] th by simp
    then have p: "put_back c k = Ok ?k" using th Some assms(2) by (simp add: put_back_def return_thread_def link_ok)
    have cs: "kn_cpus ?k = (kn_cpus k)[c := ?s\<lparr>sc_thread := None, sc_queue := sc_queue ?s @ [old]\<rparr>]" using assms(2) by simp
    have "sched_inv ?k \<and> all_threads ?k = all_threads k"
      by (intro conjI sched_inv_step [OF assms cs])
        (use q th Some in \<open>auto simp: cpu_threads_def cpu_ok_def queue_inv_def\<close>)
    then show ?thesis using p cs assms(2) Some by auto
  qed
qed


lemma switch_to_fields [simp]:
  "linked (switch_to c t k) u = linked k u" "kn_zombies (switch_to c t k) = kn_zombies k" "kn_reaper (switch_to c t k) = kn_reaper k"
  "thread_flag STOPPED u (switch_to c t k) = thread_flag STOPPED u k" "thread_flag BLOCKED u (switch_to c t k) = thread_flag BLOCKED u k"
  by (simp_all add: switch_to_def)

lemma switch_to_cpus: "c < length (kn_cpus k) \<Longrightarrow> \<exists>s'. kn_cpus (switch_to c t k) = (kn_cpus k)[c := s'] \<and> sc_thread s' = Some t \<and>
    sc_idle s' = sc_idle (kn_cpus k ! c) \<and> sc_queue s' = sc_queue (kn_cpus k ! c)"
  by (rule exI [of _ "kn_cpus (switch_to c t k) ! c"]) (simp add: switch_to_def)

lemma pick_next_ok:
  assumes "sched_inv k" "c < length (kn_cpus k)" "sc_thread (kn_cpus k ! c) = None" "sc_idle (kn_cpus k ! c) \<noteq> None"
  shows "\<exists>k' r q' k1. pick_next now c k = Ok k' \<and> sched_inv k' \<and> all_threads k' = all_threads k \<and>
    length (kn_cpus k') = length (kn_cpus k) \<and> choose_thread now (sc_queue (kn_cpus k ! c)) k = Ok (r, q', k1) \<and>
    sc_queue (kn_cpus k' ! c) = q' \<and> (r \<noteq> None \<longrightarrow> sc_thread (kn_cpus k' ! c) = r) \<and> sc_thread (kn_cpus k' ! c) \<noteq> None \<and>
    (\<forall>t. thread_flag STOPPED t k' = thread_flag STOPPED t k) \<and> (\<forall>t. thread_flag BLOCKED t k' \<longrightarrow> thread_flag BLOCKED t k)"
proof -
  let ?s = "kn_cpus k ! c"
  have q: "queue_inv (other_queues c k) (sc_queue ?s) k" by (rule sched_inv_queue [OF assms(1,2)])
  have "kn_reaper k \<noteq> None" using assms(1) by (simp add: sched_inv_def)
  then obtain r q' k1 where c: "choose_thread now (sc_queue ?s) k = Ok (r, q', k1)" "queue_inv (other_queues c k) q' k1" "sched_frame k k1"
    "mset (sc_queue ?s) + mset (kn_zombies k) = mset q' + mset (kn_zombies k1) + opt_mset r"
    using choose_loop_ok [OF q] unfolding choose_thread_def by blast
  have cp: "kn_cpus k1 = kn_cpus k" "kn_reaper k1 = kn_reaper k" using c(3) by (simp_all add: sched_frame_def)
  let ?k2 = "upd_cpu c (\<lambda>x. x\<lparr>sc_queue := q'\<rparr>) k1"
  obtain t idle where ti: "t = (case r of Some t \<Rightarrow> t | None \<Rightarrow> the (sc_idle ?s))" "idle = (if r = None then None else sc_idle ?s)" by blast
  let ?k3 = "if r = None then upd_cpu c (\<lambda>x. x\<lparr>sc_idle := None\<rparr>) ?k2 else ?k2"
  have pk: "pick_next now c k = Ok (switch_to c t ?k3)"
    using c(1) cp assms(2,4) ti by (auto simp: pick_next_def Let_def split: option.splits)
  have len: "c < length (kn_cpus ?k3)" using assms(2) cp by simp
  obtain s' where s': "kn_cpus (switch_to c t ?k3) = (kn_cpus ?k3)[c := s']" "sc_thread s' = Some t"
    "sc_idle s' = sc_idle (kn_cpus ?k3 ! c)" "sc_queue s' = sc_queue (kn_cpus ?k3 ! c)"
    using switch_to_cpus [OF len] by blast
  have f: "sc_idle (kn_cpus ?k3 ! c) = idle" "sc_queue (kn_cpus ?k3 ! c) = q'" using assms(2) cp ti by simp_all
  have cs: "kn_cpus (switch_to c t ?k3) = (kn_cpus k)[c := s']" using s'(1) cp by (simp split: if_splits)
  have k3: "linked (switch_to c t ?k3) u = linked k1 u" "kn_zombies (switch_to c t ?k3) = kn_zombies k1"
    "kn_reaper (switch_to c t ?k3) = kn_reaper k" for u using cp by (simp_all split: if_splits)
  have "mset q' + opt_mset idle + opt_mset (Some t) + mset (kn_zombies k1) = mset (sc_queue ?s) + opt_mset (sc_idle ?s) + mset (kn_zombies k)"
    using c(4) ti assms(4) by (cases r) (auto simp: ac_simps)
  then have m: "cpu_threads s' + mset (kn_zombies (switch_to c t ?k3)) = cpu_threads ?s + mset (kn_zombies k)"
    using s'(2-4) f k3(2) assms(3) by (simp add: cpu_threads_def)
  have "sched_inv (switch_to c t ?k3) \<and> all_threads (switch_to c t ?k3) = all_threads k"
    by (intro conjI sched_inv_step [OF assms(1,2) cs m])
      (use c(2) k3 s'(2-4) f in \<open>auto simp: cpu_ok_def queue_inv_def\<close>)
  moreover have "thread_flag STOPPED u (switch_to c t ?k3) = thread_flag STOPPED u k"
    "thread_flag BLOCKED u (switch_to c t ?k3) \<longrightarrow> thread_flag BLOCKED u k" for u
    using c(3) by (simp_all add: sched_frame_def split: if_splits)
  moreover have "kn_cpus (switch_to c t ?k3) ! c = s'" "length (kn_cpus (switch_to c t ?k3)) = length (kn_cpus k)" using cs assms(2) by simp_all
  ultimately show ?thesis using pk c(1) s'(2-4) f ti by (intro exI [of _ "switch_to c t ?k3"]) (auto split: option.splits)
qed

definition runnable :: "kernel \<Rightarrow> nat \<Rightarrow> bool" where
  "runnable k t \<longleftrightarrow> \<not> thread_flag STOPPED t k \<and> \<not> thread_flag BLOCKED t k"

lemma sched_yield_ok:
  assumes "sched_inv k" "c < length (kn_cpus k)"
  shows "\<exists>k'. sched_yield now c k = Ok k' \<and> sched_inv k' \<and> all_threads k' = all_threads k \<and> length (kn_cpus k') = length (kn_cpus k) \<and>
    sc_thread (kn_cpus k' ! c) \<noteq> None \<and>
    (\<forall>pre t post. sc_queue (kn_cpus k ! c) = pre @ t # post \<and> runnable k t \<longrightarrow> runnable k' t \<and>
       (sc_thread (kn_cpus k' ! c) = Some t \<or> (\<exists>pre' post'. sc_queue (kn_cpus k' ! c) = pre' @ t # post' \<and> length pre' < length pre)))"
proof -
  let ?k0 = "k\<lparr>kn_rcu := sched_callback c (kn_rcu k)\<rparr>"
  have i0: "sched_inv ?k0" "c < length (kn_cpus ?k0)" using assms by simp_all
  obtain k1 tl where k1: "put_back c ?k0 = Ok k1" "sched_inv k1" "all_threads k1 = all_threads k"
    "length (kn_cpus k1) = length (kn_cpus k)" "sc_queue (kn_cpus k1 ! c) = sc_queue (kn_cpus k ! c) @ tl"
    "sc_thread (kn_cpus k1 ! c) = None" "sc_idle (kn_cpus k1 ! c) \<noteq> None"
    "\<And>t. thread_flag STOPPED t k1 = thread_flag STOPPED t k \<and> thread_flag BLOCKED t k1 = thread_flag BLOCKED t k"
    using put_back_ok [OF i0] by auto
  note len = k1(4)
  have c1: "c < length (kn_cpus k1)" using assms(2) len by simp
  obtain k' r q' k2 where k': "pick_next now c k1 = Ok k'" "sched_inv k'" "all_threads k' = all_threads k1"
    "length (kn_cpus k') = length (kn_cpus k1)" "choose_thread now (sc_queue (kn_cpus k1 ! c)) k1 = Ok (r, q', k2)"
    "sc_queue (kn_cpus k' ! c) = q'" "r \<noteq> None \<longrightarrow> sc_thread (kn_cpus k' ! c) = r" "sc_thread (kn_cpus k' ! c) \<noteq> None"
    "\<And>t. thread_flag STOPPED t k' = thread_flag STOPPED t k1" "\<And>t. thread_flag BLOCKED t k' \<longrightarrow> thread_flag BLOCKED t k1"
    using pick_next_ok [OF k1(2) c1 k1(6,7), of now] by blast
  have y: "sched_yield now c k = Ok k'" using k1(1) k'(1) by (simp add: sched_yield_def)
  have "runnable k' t \<and> (sc_thread (kn_cpus k' ! c) = Some t \<or> (\<exists>pre' post'. sc_queue (kn_cpus k' ! c) = pre' @ t # post' \<and> length pre' < length pre))"
    if a: "sc_queue (kn_cpus k ! c) = pre @ t # post" "runnable k t" for pre t post
  proof -
    have q: "queue_inv (other_queues c k1) (pre @ t # (post @ tl)) k1"
      using sched_inv_queue [OF k1(2), of c] assms(2) len k1(5) a(1) by simp
    have t: "kn_reaper k1 \<noteq> None" "\<not> thread_flag STOPPED t k1" "\<not> thread_flag BLOCKED t k1"
      using k1(2,8) a(2) by (auto simp: sched_inv_def runnable_def)
    have qe: "sc_queue (kn_cpus k1 ! c) = pre @ t # (post @ tl)" using k1(5) a(1) by simp
    have "length pre < length (pre @ t # (post @ tl))" by simp
    from choose_loop_progress [OF q t this, of now] obtain u q2 k3 where "choose_thread now (sc_queue (kn_cpus k1 ! c)) k1 = Ok (Some u, q2, k3)"
      "u = t \<or> (\<exists>pre' post'. q2 = pre' @ t # post' \<and> length pre' < length pre)"
      unfolding choose_thread_def qe by blast
    moreover have "runnable k' t" using t(2,3) k'(9,10) by (auto simp: runnable_def)
    ultimately show ?thesis using k'(5-7) by auto
  qed
  then have "\<forall>pre t post. sc_queue (kn_cpus k ! c) = pre @ t # post \<and> runnable k t \<longrightarrow> runnable k' t \<and>
       (sc_thread (kn_cpus k' ! c) = Some t \<or> (\<exists>pre' post'. sc_queue (kn_cpus k' ! c) = pre' @ t # post' \<and> length pre' < length pre))"
    by blast
  moreover have "all_threads k' = all_threads k" "length (kn_cpus k') = length (kn_cpus k)" using k'(3,4) k1(3) len by simp_all
  ultimately show ?thesis using y k'(2,8) by blast
qed


lemma sched_yield_progress:
  assumes "sched_inv k" "c < length (kn_cpus k)" "sc_queue (kn_cpus k ! c) = pre @ t # post" "runnable k t"
  shows "\<exists>k'. sched_yield now c k = Ok k' \<and> sched_inv k' \<and> length (kn_cpus k') = length (kn_cpus k) \<and> runnable k' t \<and>
    (sc_thread (kn_cpus k' ! c) = Some t \<or> (\<exists>pre' post'. sc_queue (kn_cpus k' ! c) = pre' @ t # post' \<and> length pre' < length pre))"
  using sched_yield_ok [OF assms(1,2), of now] assms(3,4) by blast

section \<open>Work stealing\<close>

text \<open>Moving a thread from the queue of one CPU to that of another.\<close>

lemma busiest_other: "busiest c ss i best = Some (b, l) \<Longrightarrow> (\<forall>b l. best = Some (b, l) \<longrightarrow> b \<noteq> c \<and> b < i) \<Longrightarrow> b \<noteq> c \<and> b < i + length ss"
proof (induction ss arbitrary: i best)
  case (Cons s ss)
  from Cons.IH [of "Suc i", OF Cons.prems(1) [simplified]] Cons.prems(2) show ?case
    by (fastforce split: option.splits if_splits prod.splits)
qed auto

lemma steal_ok:
  assumes "sched_inv k" "c < length (kn_cpus k)"
  shows "\<exists>k'. steal now c k = Ok k' \<and> sched_inv k' \<and> all_threads k' = all_threads k \<and> length (kn_cpus k') = length (kn_cpus k)"
proof (cases "busiest c (kn_cpus k) 0 None")
  case None
  then show ?thesis using assms by (simp add: steal_def)
next
  case (Some bl)
  then obtain b l where b: "busiest c (kn_cpus k) 0 None = Some (b, l)" by (cases bl) auto
  then have bc: "b \<noteq> c" "b < length (kn_cpus k)" using busiest_other [OF b] by simp_all
  let ?s = "kn_cpus k ! b"
  have q: "queue_inv (other_queues b k) (sc_queue ?s) k" by (rule sched_inv_queue [OF assms(1) bc(2)])
  have "kn_reaper k \<noteq> None" using assms(1) by (simp add: sched_inv_def)
  then obtain r q' k1 where c: "choose_thread now (sc_queue ?s) k = Ok (r, q', k1)" "queue_inv (other_queues b k) q' k1" "sched_frame k k1"
    "mset (sc_queue ?s) + mset (kn_zombies k) = mset q' + mset (kn_zombies k1) + opt_mset r"
    "\<forall>t. r = Some t \<longrightarrow> t \<in> set (sc_queue ?s) \<and> t \<notin> set q' \<and> \<not> thread_flag STOPPED t k1 \<and> \<not> thread_flag BLOCKED t k1"
    using choose_loop_ok [OF q] unfolding choose_thread_def by blast
  have cp: "kn_cpus k1 = kn_cpus k" "kn_reaper k1 = kn_reaper k" using c(3) by (simp_all add: sched_frame_def)
  let ?k2 = "upd_cpu b (\<lambda>x. x\<lparr>sc_queue := q'\<rparr>) k1"
  have k2: "kn_cpus ?k2 = (kn_cpus k)[b := ?s\<lparr>sc_queue := q'\<rparr>]" using cp by simp
  show ?thesis
  proof (cases r)
    case None
    have "cpu_ok (?s\<lparr>sc_queue := q'\<rparr>)" using assms(1) bc(2) by (simp add: sched_inv_def cpu_ok_def)
    then have "sched_inv ?k2 \<and> all_threads ?k2 = all_threads k"
      by (intro conjI sched_inv_step [OF assms(1) bc(2) k2])
        (use c(2,4) cp None in \<open>auto simp: cpu_threads_def queue_inv_def ac_simps\<close>)
    then show ?thesis using b c(1) None k2 by (simp add: steal_def)
  next
    case (Some t)
    let ?q = "sc_queue (kn_cpus k ! c) @ [t]"
    let ?k3 = "upd_cpu c (\<lambda>x. x\<lparr>sc_queue := ?q\<rparr>) (upd_thread t (\<lambda>x. x\<lparr>th_linked := True\<rparr>) ?k2)"
    have tq: "t \<in> set (sc_queue ?s)" "t \<notin> other_queues b k" using c(5) Some q by (auto simp: queue_inv_def)
    have "count (mset (sc_queue ?s @ kn_zombies k)) t = 1"
      using q tq(1) by (simp add: queue_inv_def distinct_count_atmost_1 del: distinct_append mset_append)
    then have "count (mset q') t + count (mset (kn_zombies k1)) t = 0" using arg_cong [OF c(4), of "\<lambda>m. count m t"] Some by simp
    then have "t \<notin> set (kn_zombies k1)" "t \<notin> set q'" using count_mset_gt_0 by fastforce+
    then have nl: "\<not> linked ?k2 t" using c(2) tq(2) by (simp add: queue_inv_def)
    have st: "steal now c k = Ok ?k3"
      using b c(1) Some cp bc assms(2) nl by (simp add: steal_def add_thread_def link_ok)
    have k3: "kn_cpus ?k3 = (kn_cpus ?k2)[c := (kn_cpus k ! c)\<lparr>sc_queue := ?q\<rparr>]" "kn_zombies ?k3 = kn_zombies k1" using cp bc by simp_all
    have c2: "c < length (kn_cpus ?k2)" "b < length (kn_cpus ?k2)" "kn_cpus ?k2 ! c = kn_cpus k ! c" using assms(2) bc cp by simp_all
    have "all_threads ?k3 + cpu_threads (kn_cpus k ! c) = all_threads ?k2 + cpu_threads ((kn_cpus k ! c)\<lparr>sc_queue := ?q\<rparr>)"
      using sum_cpus [OF c2(1)] c2(3) unfolding all_threads_def k3 by (simp add: ac_simps)
    then have "all_threads ?k3 = all_threads ?k2 + {#t#}" by (simp add: cpu_threads_def)
    moreover have "all_threads ?k2 + {#t#} = all_threads k"
    proof -
      let ?S = "\<Sum>s\<leftarrow>kn_cpus k. cpu_threads s" and ?S' = "\<Sum>s\<leftarrow>kn_cpus ?k2. cpu_threads s"
      have "?S' + mset (sc_queue ?s) = ?S + mset q'"
        using sum_cpus [OF bc(2), of "?s\<lparr>sc_queue := q'\<rparr>"] unfolding k2 by (simp add: cpu_threads_def [of ?s] cpu_threads_def [of "?s\<lparr>sc_queue := q'\<rparr>"])
      then have "?S' + mset (kn_zombies k1) + {#t#} + mset (sc_queue ?s) = ?S + (mset q' + mset (kn_zombies k1) + {#t#})" by simp
      also have "\<dots> = ?S + mset (kn_zombies k) + mset (sc_queue ?s)" using c(4) Some by (simp add: ac_simps)
      finally show ?thesis by (simp add: all_threads_def)
    qed
    ultimately have al: "all_threads ?k3 = all_threads k" by simp
    have l2: "in_lists ?k2 = other_queues b k \<union> set q' \<union> set (kn_zombies k1)"
      using in_lists_cpu [OF c2(2)] other_queues_upd [OF k2] bc(2) cp by simp
    have "in_lists ?k3 = insert t (in_lists ?k2)"
      using in_lists_cpu [of c ?k3] in_lists_cpu [OF c2(1)] other_queues_upd [OF k3(1)] c2 k3 by auto
    then have li: "linked ?k3 u \<longleftrightarrow> u \<in> in_lists ?k3" for u using c(2) l2 by (auto simp: queue_inv_def)
    have "\<forall>s\<in>set (kn_cpus ?k3). cpu_ok s"
      using assms bc set_update_subset_insert unfolding k3(1) k2 sched_inv_def
      by (metis (no_types, lifting) cpu_ok_def insertE nth_mem scheduler.select_convs(1,8) scheduler.surjective scheduler.update_convs(2) subsetD)
    then have "sched_inv ?k3" using al li cp assms(1) by (simp add: sched_inv_def)
    then show ?thesis using st al k3 c2 cp by simp
  qed
qed


section \<open>Properties\<close>

text \<open>What CPUs and threads do to the scheduler: yield, steal, and set and clear flags.\<close>

datatype sched_op = Yield nat nat | Steal nat nat | Unblock nat | Stop nat | Send nat nat

fun sched_apply :: "sched_op \<Rightarrow> kernel \<Rightarrow> (sched_panic, kernel) result" where
  "sched_apply (Yield now c) k = sched_yield now c k"
| "sched_apply (Steal now c) k = steal now c k"
| "sched_apply (Unblock t) k = Ok (unblock t k)"
| "sched_apply (Stop t) k = Ok (thread_stop t k)"
| "sched_apply (Send g t) k = Ok (send_async_sig g t k)"

fun sched_run :: "sched_op list \<Rightarrow> kernel \<Rightarrow> (sched_panic, kernel) result" where
  "sched_run [] k = Ok k"
| "sched_run (p # ps) k = bind_result (sched_apply p k) (sched_run ps)"

fun op_cpu :: "sched_op \<Rightarrow> nat" where
  "op_cpu (Yield now c) = c"
| "op_cpu (Steal now c) = c"
| "op_cpu _ = 0"

lemma sched_inv_threads:
  assumes "sched_inv k" "kn_cpus k' = kn_cpus k" "kn_zombies k' = kn_zombies k" "kn_reaper k' = kn_reaper k" "\<And>t. linked k' t = linked k t"
  shows "sched_inv k' \<and> all_threads k' = all_threads k"
  using assms by (simp add: sched_inv_def all_threads_def in_lists_def)

lemma sched_apply_ok:
  assumes "sched_inv k" "op_cpu p < length (kn_cpus k)"
  shows "\<exists>k'. sched_apply p k = Ok k' \<and> sched_inv k' \<and> all_threads k' = all_threads k \<and> length (kn_cpus k') = length (kn_cpus k)"
proof (cases p)
  case (Send g t)
  let ?k = "upd_thread t (\<lambda>x. x\<lparr>th_sigqueue := th_sigqueue x @ [g]\<rparr>) k"
  have "linked ?k u = linked k u" for u by (simp add: linked_def upd_thread_def)
  then show ?thesis using sched_inv_threads [OF assms(1), of "send_async_sig g t k"] Send by (simp add: send_async_sig_def)
next
  case (Yield now c)
  then show ?thesis using sched_yield_ok [OF assms(1), of c now] assms(2) by auto
next
  case (Steal now c)
  then show ?thesis using steal_ok [OF assms(1), of c now] assms(2) by simp
next
  case (Unblock t)
  then show ?thesis using sched_inv_threads [OF assms(1), of "clear_flags BLOCKED t k"] by (simp add: unblock_def)
next
  case (Stop t)
  then show ?thesis using sched_inv_threads [OF assms(1), of "or_flags STOPPING t k"] by (simp add: thread_stop_def)
qed

text \<open>
  C7. No thread is ever lost, duplicated or put into two places: over any sequence of yields, work
  stealing, wake-ups, stop requests and signals on any number of CPUs, the scheduler does not panic and
  the threads in the queues, in the idle slots, running and with the zombies stay the same, each once.
\<close>

theorem sched_keeps_threads:
  assumes "sched_inv k" "\<forall>p\<in>set ps. op_cpu p < length (kn_cpus k)"
  shows "\<exists>k'. sched_run ps k = Ok k' \<and> sched_inv k' \<and> all_threads k' = all_threads k"
  using assms
proof (induction ps arbitrary: k)
  case (Cons p ps)
  obtain k1 where k1: "sched_apply p k = Ok k1" "sched_inv k1" "all_threads k1 = all_threads k" "length (kn_cpus k1) = length (kn_cpus k)"
    using sched_apply_ok [OF Cons.prems(1), of p] Cons.prems(2) by auto
  then show ?case using Cons.IH [OF k1(2)] Cons.prems(2) by simp
qed simp

text \<open>Two CPUs with their idle threads 0 and 1, the reaper 2, and the threads 3, which is blocked, and 4 in the first queue.\<close>

definition boot_cpu :: "nat \<Rightarrow> nat list \<Rightarrow> scheduler" where
  "boot_cpu idle q = \<lparr>sc_idle = Some idle, sc_queue = q, sc_preempt_ticks = 0, sc_last_account_us = 0, sc_active_set = bs_empty 256,
     sc_active_next = 0, sc_load_average = 0, sc_thread = None, sc_memmap = None\<rparr>"

definition boot_kernel :: kernel where
  "boot_kernel = \<lparr>kn_threads = (\<lambda>t. (new_tcb None)\<lparr>th_linked := t \<in> {2, 3, 4}, th_flags := if t = 3 then BLOCKED else 0, th_timeout := 100\<rparr>),
     kn_zombies = [], kn_reaper = Some 2, kn_proc_sigqueue = (\<lambda>p. []), kn_cpus = [boot_cpu 0 [2, 3, 4], boot_cpu 1 []], kn_rcu = rcu_init\<rparr>"

lemma boot_kernel_inv: "sched_inv boot_kernel"
  by (simp add: sched_inv_def boot_kernel_def boot_cpu_def all_threads_def in_lists_def cpu_threads_def cpu_ok_def linked_def)

theorem sched_keeps_threads_witness:
  "\<exists>k'. sched_run [Yield 5 0, Steal 6 1, Yield 7 1, Stop 4, Yield 8 0] boot_kernel = Ok k' \<and> sched_inv k' \<and>
     all_threads k' = all_threads boot_kernel"
  by (rule sched_keeps_threads [OF boot_kernel_inv]) (simp add: boot_kernel_def)

text \<open>Rounds of a CPU: whatever happens in between, then a yield.\<close>

fun rounds :: "nat \<Rightarrow> (nat \<times> (kernel \<Rightarrow> kernel)) list \<Rightarrow> kernel \<Rightarrow> (sched_panic, kernel) result" where
  "rounds c [] k = Ok k"
| "rounds c ((now, e) # es) k = bind_result (sched_yield now c (e k)) (rounds c es)"

text \<open>What may happen in between: anything that keeps \<open>t\<close> runnable and its place in the queue.\<close>

definition harmless :: "nat \<Rightarrow> nat \<Rightarrow> (kernel \<Rightarrow> kernel) \<Rightarrow> bool" where
  "harmless c t e \<longleftrightarrow> (\<forall>k. sched_inv k \<and> c < length (kn_cpus k) \<and> runnable k t \<longrightarrow>
     sched_inv (e k) \<and> length (kn_cpus (e k)) = length (kn_cpus k) \<and> runnable (e k) t \<and>
     (\<exists>tl. sc_queue (kn_cpus (e k) ! c) = sc_queue (kn_cpus k ! c) @ tl))"

text \<open>
  C21. No runnable thread starves: a thread that waits at position \<open>i\<close> of the queue of a CPU and stays
  runnable runs after at most \<open>i + 1\<close> yields of that CPU, whatever the other threads and CPUs do to
  their flags and however many threads are added behind it.
\<close>

theorem rr_no_starvation:
  assumes "sched_inv k" "c < length (kn_cpus k)" "sc_queue (kn_cpus k ! c) = pre @ t # post" "runnable k t"
    and "length pre < length es" "\<forall>x\<in>set es. harmless c t (snd x)"
  shows "\<exists>j k'. j \<le> Suc (length pre) \<and> rounds c (take j es) k = Ok k' \<and> sc_thread (kn_cpus k' ! c) = Some t"
  using assms
proof (induction es arbitrary: k pre post)
  case (Cons x es)
  obtain now e where x: "x = (now, e)" by (cases x)
  obtain tl where e: "sched_inv (e k)" "length (kn_cpus (e k)) = length (kn_cpus k)" "runnable (e k) t"
    "sc_queue (kn_cpus (e k) ! c) = pre @ t # (post @ tl)"
    using Cons.prems x unfolding harmless_def by fastforce
  obtain k1 where k1: "sched_yield now c (e k) = Ok k1" "sched_inv k1" "length (kn_cpus k1) = length (kn_cpus k)"
    "runnable k1 t" "sc_thread (kn_cpus k1 ! c) = Some t \<or> (\<exists>pre' post'. sc_queue (kn_cpus k1 ! c) = pre' @ t # post' \<and> length pre' < length pre)"
    using sched_yield_progress [OF e(1) _ e(4,3), of now] Cons.prems(2) e(2) by auto
  show ?case
  proof (cases "sc_thread (kn_cpus k1 ! c) = Some t")
    case True
    then show ?thesis using k1(1) x by (intro exI [of _ 1] exI [of _ k1]) simp
  next
    case False
    then obtain pre' post' where p: "sc_queue (kn_cpus k1 ! c) = pre' @ t # post'" "length pre' < length pre" using k1(5) by blast
    obtain j k' where "j \<le> Suc (length pre')" "rounds c (take j es) k1 = Ok k'" "sc_thread (kn_cpus k' ! c) = Some t"
      using Cons.IH [OF k1(2) _ p(1) k1(4)] Cons.prems(2,5,6) k1(3) p(2) by auto
    then show ?thesis using k1(1) x p(2) by (intro exI [of _ "Suc j"] exI [of _ k']) simp
  qed
qed simp

theorem rr_no_starvation_witness:
  "\<exists>j k'. j \<le> 3 \<and> rounds 0 (take j [(5, id), (6, id), (7, id)]) boot_kernel = Ok k' \<and> sc_thread (kn_cpus k' ! 0) = Some 4"
proof -
  have q: "sc_queue (kn_cpus boot_kernel ! 0) = [2, 3] @ 4 # []" "0 < length (kn_cpus boot_kernel)"
    by (simp_all add: boot_kernel_def boot_cpu_def)
  have r: "runnable boot_kernel 4" by (simp add: runnable_def thread_flag_def boot_kernel_def new_tcb_def)
  have "harmless 0 4 id" by (simp add: harmless_def)
  then have "\<forall>x\<in>set [(5, id), (6, id), (7, id)]. harmless 0 4 (snd x)" by simp
  from rr_no_starvation [OF boot_kernel_inv q(2,1) r _ this] show ?thesis by (simp add: numeral_3_eq_3)
qed


section \<open>RCU and load\<close>

text \<open>The callback of a yield is a run of the steps of \<open>RcuCtx::sched_callback\<close>.\<close>

lemma sched_callback_run:
  assumes "rc_pc s c = RcRun" "rc_lock s = None" "rc_generation s + 2 < 2 ^ 32" "c < n"
  shows "rcu_run n s (sched_callback c s)"
proof -
  have pc: "(rc_pc s)(c := RcRun) = rc_pc s" using assms(1) by auto
  let ?cs = "if rc_generation s = rc_gen s c \<and> rc_outstanding s \<le> 1 then [c, c, c, c] else [c, c]"
  have "rcu_exec ?cs s = Some (sched_callback c s)"
    using assms(1-3) pc by (auto simp: rcu_exec1_def rc_goto_def sched_callback_def Let_def)
  then show ?thesis by (rule rcu_exec_run [OF _ _ rcu_refl]) (use assms(4) in \<open>simp split: if_splits\<close>)
qed

text \<open>
  The load average counts the ticks of the idle thread: nothing sets a bit of the active set, and a tick
  counts as active when the idle slot is empty, which is when the idle thread runs.
\<close>

lemma load_counts_idle_ticks:
  assumes "bs_elems (sc_active_set (kn_cpus k ! c)) = {}" "measure_load c k = Ok k'" "c < length (kn_cpus k)"
  shows "sc_load_average (kn_cpus k' ! c) = (sc_load_average (kn_cpus k ! c) + of_bool (sc_idle (kn_cpus k ! c) = None)) mod 2 ^ 32 \<and>
    sc_active_set (kn_cpus k' ! c) = sc_active_set (kn_cpus k ! c)"
  using assms by (auto simp: measure_load_def bs_test_elems Let_def split: if_splits)

text \<open>A thread that blocks for 100 microseconds at any later time is runnable again at once.\<close>

lemma relative_timeout_expires:
  "\<exists>q k. choose_thread 101 [3] boot_kernel = Ok (Some 3, q, k)"
  by (auto simp: choose_thread_def thread_flag_def boot_kernel_def new_tcb_def unlink_def upd_thread_def clear_flags_def BLOCKED_def STOPPED_def Let_def)


end
