(* ===== verification/Errno.thy ===== *)
theory Errno
  imports Badger_Prelude
begin

text \<open>
  Error numbers (\<open>src/error.rs\<close> with the values of \<open>misc/abi/abi-bits/errno.h\<close>). The enumeration is the
  \<open>u32\<close> it is represented by, since the code converts between the two by reinterpretation; the table
  says which numbers are errors and how they are called.
\<close>

type_synonym errno = nat

type_synonym 'a eresult = "(errno, 'a) result"

section \<open>The enumeration\<close>

definition errno_table :: "(string \<times> errno) list" where
  "errno_table =
  [(''EPERM'', 1), (''ENOENT'', 2), (''ESRCH'', 3), (''EINTR'', 4), (''EIO'', 5), (''ENXIO'', 6), (''E2BIG'', 7),
   (''ENOEXEC'', 8), (''EBADF'', 9), (''ECHILD'', 10), (''EAGAIN'', 11), (''ENOMEM'', 12), (''EACCES'', 13),
   (''EFAULT'', 14), (''ENOTBLK'', 15), (''EBUSY'', 16), (''EEXIST'', 17), (''EXDEV'', 18), (''ENODEV'', 19),
   (''ENOTDIR'', 20), (''EISDIR'', 21), (''EINVAL'', 22), (''ENFILE'', 23), (''EMFILE'', 24), (''ENOTTY'', 25),
   (''ETXTBSY'', 26), (''EFBIG'', 27), (''ENOSPC'', 28), (''ESPIPE'', 29), (''EROFS'', 30), (''EMLINK'', 31),
   (''EPIPE'', 32), (''EDOM'', 33), (''ERANGE'', 34), (''EDEADLK'', 35), (''ENAMETOOLONG'', 36), (''ENOLCK'', 37),
   (''ENOSYS'', 38), (''ENOTEMPTY'', 39), (''ELOOP'', 40), (''ENOTSUP'', 95), (''ENOMSG'', 42), (''EIDRM'', 43),
   (''ECHRNG'', 44), (''EL2NSYNC'', 45), (''EL3HLT'', 46), (''EL3RST'', 47), (''ELNRNG'', 48), (''EUNATCH'', 49),
   (''ENOCSI'', 50), (''EL2HLT'', 51), (''EBADE'', 52), (''EBADR'', 53), (''EXFULL'', 54), (''ENOANO'', 55),
   (''EBADRQC'', 56), (''EBADSLT'', 57), (''EBFONT'', 59), (''ENOSTR'', 60), (''ENODATA'', 61), (''ETIME'', 62),
   (''ENOSR'', 63), (''ENONET'', 64), (''ENOPKG'', 65), (''EREMOTE'', 66), (''ENOLINK'', 67), (''EADV'', 68),
   (''ESRMNT'', 69), (''ECOMM'', 70), (''EPROTO'', 71), (''EMULTIHOP'', 72), (''EDOTDOT'', 73), (''EBADMSG'', 74),
   (''EOVERFLOW'', 75), (''ENOTUNIQ'', 76), (''EBADFD'', 77), (''EREMCHG'', 78), (''ELIBACC'', 79),
   (''ELIBBAD'', 80), (''ELIBSCN'', 81), (''ELIBMAX'', 82), (''ELIBEXEC'', 83), (''EILSEQ'', 84), (''ERESTART'', 85),
   (''ESTRPIPE'', 86), (''EUSERS'', 87), (''ENOTSOCK'', 88), (''EDESTADDRREQ'', 89), (''EMSGSIZE'', 90),
   (''EPROTOTYPE'', 91), (''ENOPROTOOPT'', 92), (''EPROTONOSUPPORT'', 93), (''ESOCKTNOSUPPORT'', 94),
   (''EPFNOSUPPORT'', 96), (''EAFNOSUPPORT'', 97), (''EADDRINUSE'', 98), (''EADDRNOTAVAIL'', 99),
   (''ENETDOWN'', 100), (''ENETUNREACH'', 101), (''ENETRESET'', 102), (''ECONNABORTED'', 103), (''ECONNRESET'', 104),
   (''ENOBUFS'', 105), (''EISCONN'', 106), (''ENOTCONN'', 107), (''ESHUTDOWN'', 108), (''ETOOMANYREFS'', 109),
   (''ETIMEDOUT'', 110), (''ECONNREFUSED'', 111), (''EHOSTDOWN'', 112), (''EHOSTUNREACH'', 113), (''EALREADY'', 114),
   (''EINPROGRESS'', 115), (''ESTALE'', 116), (''EUCLEAN'', 117), (''ENOTNAM'', 118), (''ENAVAIL'', 119),
   (''EISNAM'', 120), (''EREMOTEIO'', 121), (''EDQUOT'', 122), (''ENOMEDIUM'', 123), (''EMEDIUMTYPE'', 124),
   (''ECANCELED'', 125), (''ENOKEY'', 126), (''EKEYEXPIRED'', 127), (''EKEYREVOKED'', 128), (''EKEYREJECTED'', 129),
   (''EOWNERDEAD'', 130), (''ENOTRECOVERABLE'', 131), (''ERFKILL'', 132), (''EHWPOISON'', 133), (''EASSERT'', 1024),
   (''EALIGN'', 1025)]"

definition is_errno :: "errno \<Rightarrow> bool" where
  "is_errno e \<longleftrightarrow> e \<in> set (map snd errno_table)"

definition errno_name :: "errno \<Rightarrow> string option" where
  "errno_name e = map_option fst (find (\<lambda>(n, c). c = e) errno_table)"

definition EPERM :: errno where "EPERM = 1"
definition ENOENT :: errno where "ENOENT = 2"
definition EINTR :: errno where "EINTR = 4"
definition EIO :: errno where "EIO = 5"
definition EBADF :: errno where "EBADF = 9"
definition EAGAIN :: errno where "EAGAIN = 11"
definition ENOMEM :: errno where "ENOMEM = 12"
definition EACCES :: errno where "EACCES = 13"
definition EFAULT :: errno where "EFAULT = 14"
definition EBUSY :: errno where "EBUSY = 16"
definition EEXIST :: errno where "EEXIST = 17"
definition EXDEV :: errno where "EXDEV = 18"
definition ENODEV :: errno where "ENODEV = 19"
definition ENOTDIR :: errno where "ENOTDIR = 20"
definition EISDIR :: errno where "EISDIR = 21"
definition EINVAL :: errno where "EINVAL = 22"
definition EMFILE :: errno where "EMFILE = 24"
definition ENOSPC :: errno where "ENOSPC = 28"
definition ESPIPE :: errno where "ESPIPE = 29"
definition EROFS :: errno where "EROFS = 30"
definition EMLINK :: errno where "EMLINK = 31"
definition EPIPE :: errno where "EPIPE = 32"
definition ENAMETOOLONG :: errno where "ENAMETOOLONG = 36"
definition ENOSYS :: errno where "ENOSYS = 38"
definition ENOTEMPTY :: errno where "ENOTEMPTY = 39"
definition ELOOP :: errno where "ELOOP = 40"
definition ETIMEDOUT :: errno where "ETIMEDOUT = 110"
definition ENOTSUP :: errno where "ENOTSUP = 95"
definition ERANGE :: errno where "ERANGE = 34"

section \<open>Integers that carry results\<close>

text \<open>
  A negative number is the negated error. \<open>None\<close> is a negation that overflows, or a number that is no
  error, whose reinterpretation is undefined.
\<close>

definition as_errno :: "int \<Rightarrow> 'a eresult option" where
  "as_errno x = (if 0 \<le> x \<and> is_errno (nat x) then Some (Err (nat x)) else None)"

definition check_i32 :: "int \<Rightarrow> int eresult option" where
  "check_i32 x = (if x < 0 then if x = - (2 ^ 31) then None else as_errno (- x) else Some (Ok x))"

definition check_i64 :: "int \<Rightarrow> int eresult option" where
  "check_i64 x = (if x < 0 then if x = - (2 ^ 63) then None else as_errno ((- x) mod 2 ^ 32) else Some (Ok x))"

definition check_bool :: "int \<Rightarrow> bool eresult option" where
  "check_bool x = (if x < 0 then if x = - (2 ^ 31) then None else as_errno (- x) else Some (Ok (x \<noteq> 0)))"

definition check_unit :: "int \<Rightarrow> unit eresult option" where
  "check_unit x = (if x < 0 then if x = - (2 ^ 31) then None else as_errno (- x) else Some (Ok ()))"

definition check_u32 :: "int \<Rightarrow> nat eresult option" where
  "check_u32 x = (if x < 0 then if x = - (2 ^ 31) then None else as_errno (- x) else Some (Ok (nat x)))"

definition check_u64 :: "int \<Rightarrow> nat eresult option" where
  "check_u64 x = (if x < 0 then if x = - (2 ^ 63) then None else as_errno ((- x) mod 2 ^ 32) else Some (Ok (nat x)))"

text \<open>\<open>as i32\<close> and \<open>as i64\<close> of a larger value wrap.\<close>

definition wrap_int :: "nat \<Rightarrow> int \<Rightarrow> int" where
  "wrap_int w x = (x + 2 ^ (w - 1)) mod 2 ^ w - 2 ^ (w - 1)"

definition extract_i32 :: "int eresult \<Rightarrow> int" where
  "extract_i32 r = (case r of Inr x \<Rightarrow> x | Inl e \<Rightarrow> - wrap_int 32 (int e))"

definition extract_i64 :: "int eresult \<Rightarrow> int" where
  "extract_i64 r = (case r of Inr x \<Rightarrow> x | Inl e \<Rightarrow> - int e)"

definition extract_u32 :: "nat eresult \<Rightarrow> int" where
  "extract_u32 r = (case r of Inr x \<Rightarrow> wrap_int 32 (int x) | Inl e \<Rightarrow> - wrap_int 32 (int e))"

definition extract_u64 :: "nat eresult \<Rightarrow> int" where
  "extract_u64 r = (case r of Inr x \<Rightarrow> wrap_int 64 (int x) | Inl e \<Rightarrow> - int e)"

definition extract_bool :: "bool eresult \<Rightarrow> int" where
  "extract_bool r = (case r of Inr x \<Rightarrow> of_bool x | Inl e \<Rightarrow> - wrap_int 32 (int e))"

definition extract_unit :: "unit eresult \<Rightarrow> int" where
  "extract_unit r = (case r of Inr x \<Rightarrow> 0 | Inl e \<Rightarrow> - wrap_int 32 (int e))"

section \<open>Lemmas\<close>

lemma errno_codes_bounded: "\<forall>e\<in>set (map snd errno_table). 0 < e \<and> e \<le> 1025"
  by (simp add: errno_table_def)

lemma errno_codes_distinct: "distinct (map snd errno_table)"
  by (simp add: errno_table_def)

lemma is_errno_bounds: "is_errno e \<Longrightarrow> 0 < e \<and> e \<le> 1025"
  using errno_codes_bounded by (auto simp: is_errno_def)

lemma find_in: "find P xs = Some x \<Longrightarrow> P x \<and> x \<in> set xs"
  by (induction xs) (auto split: if_splits)

lemma as_errno_ok: "is_errno e \<Longrightarrow> as_errno (int e) = Some (Err e)"
  by (simp add: as_errno_def)

text \<open>Every error has one name, and the name has one number.\<close>

lemma errno_name_unique:
  assumes "is_errno e"
  shows "\<exists>n. errno_name e = Some n \<and> (n, e) \<in> set errno_table"
proof -
  obtain n where n: "(n, e) \<in> set errno_table" using assms by (auto simp: is_errno_def)
  then obtain p where p: "find (\<lambda>(n, c). c = e) errno_table = Some p"
    by (cases "find (\<lambda>(n, c). c = e) errno_table") (auto simp: find_None_iff)
  obtain m c where mc: "p = (m, c)" by (cases p)
  then show ?thesis using find_in [OF p] p by (auto simp: errno_name_def)
qed

lemma wrap_int_small: "0 < w \<Longrightarrow> - (2 ^ (w - 1)) \<le> x \<Longrightarrow> x < 2 ^ (w - 1) \<Longrightarrow> wrap_int w x = x"
  unfolding wrap_int_def by (subst mod_pos_pos_trivial) (auto simp: power_eq_if)

lemma wrap_errno: "is_errno e \<Longrightarrow> wrap_int 32 (int e) = int e"
  using is_errno_bounds [of e] by (intro wrap_int_small) auto

section \<open>Properties\<close>



section \<open>What the integers cannot carry\<close>

text \<open>A large \<open>u32\<close> comes back as an error: \<open>u32::MAX\<close> as \<open>EPERM\<close>.\<close>

lemma large_u32_is_error: "check_u32 (extract_u32 (Ok (2 ^ 32 - 1))) = Some (Err EPERM)"
  by (simp add: check_u32_def extract_u32_def wrap_int_def as_errno_def is_errno_def errno_table_def EPERM_def)


end
