(* ===== verification/User_Copy.thy ===== *)
theory User_Copy
  imports Errno Page_Table
begin

text \<open>
  Access to user memory (\<open>src/process/usercopy.rs\<close>): slices of user memory, the copy loops over the
  fallible loads and stores of \<open>src/arch/riscv64/except.rs\<close>, and strings. The machine state is the bytes
  that are mapped, which of them can be written, and the SUM bit, without which the kernel may not
  touch user memory. The model is of a release build: debug assertions are left out.
\<close>

type_synonym byte = nat

type_synonym bytes = "byte list"

section \<open>Memory\<close>

record user_mem =
  um_byte :: "nat \<Rightarrow> byte option"
  um_writable :: "nat \<Rightarrow> bool"
  um_sum :: bool

definition enable_sum :: "user_mem \<Rightarrow> user_mem" where
  "enable_sum m = m\<lparr>um_sum := True\<rparr>"

definition disable_sum :: "user_mem \<Rightarrow> user_mem" where
  "disable_sum m = m\<lparr>um_sum := False\<rparr>"

definition fallible_load_u8 :: "user_mem \<Rightarrow> nat \<Rightarrow> byte eresult" where
  "fallible_load_u8 m a =
     (if um_sum m then (case um_byte m a of Some b \<Rightarrow> Ok b | None \<Rightarrow> Err EFAULT) else Err EFAULT)"

definition fallible_store_u8 :: "user_mem \<Rightarrow> nat \<Rightarrow> byte \<Rightarrow> unit eresult \<times> user_mem" where
  "fallible_store_u8 m a b =
     (if um_sum m \<and> um_byte m a \<noteq> None \<and> um_writable m a then (Ok (), m\<lparr>um_byte := (um_byte m)(a \<mapsto> b)\<rparr>)
      else (Err EFAULT, m))"

definition wrapping_byte_add :: "nat \<Rightarrow> nat \<Rightarrow> nat" where
  "wrapping_byte_add p i = (p + i) mod 2 ^ 64"

section \<open>Copying\<close>

function copy_from_loop :: "user_mem \<Rightarrow> nat \<Rightarrow> nat \<Rightarrow> nat \<Rightarrow> bytes \<Rightarrow> unit eresult \<times> bytes" where
  "copy_from_loop m src len i dest =
     (if i < len then
        case fallible_load_u8 m (wrapping_byte_add src i) of
          Inr tmp \<Rightarrow> copy_from_loop m src len (i + 1) (dest[i := tmp])
        | Inl e \<Rightarrow> (Err e, dest)
      else (Ok (), dest))"
  by pat_completeness auto

termination
  by (relation "measure (\<lambda>(m, src, len, i, dest). len - i)") auto

function copy_to_loop :: "user_mem \<Rightarrow> nat \<Rightarrow> nat \<Rightarrow> nat \<Rightarrow> bytes \<Rightarrow> unit eresult \<times> user_mem" where
  "copy_to_loop m dest len i src =
     (if i < len then
        case fallible_store_u8 m (wrapping_byte_add dest i) (src ! i) of
          (Inr u, m') \<Rightarrow> copy_to_loop m' dest len (i + 1) src
        | (Inl e, m') \<Rightarrow> (Err e, m')
      else (Ok (), m))"
  by pat_completeness auto

termination
  by (relation "measure (\<lambda>(m, dest, len, i, src). len - i)") auto

declare copy_from_loop.simps [simp del] copy_to_loop.simps [simp del]

definition copy_from_user :: "user_mem \<Rightarrow> bytes \<Rightarrow> nat \<Rightarrow> nat \<Rightarrow> unit eresult \<times> bytes \<times> user_mem" where
  "copy_from_user m dest src len =
     (let m = enable_sum m; (r, dest) = copy_from_loop m src len 0 dest in (r, dest, disable_sum m))"

definition copy_to_user :: "user_mem \<Rightarrow> nat \<Rightarrow> bytes \<Rightarrow> nat \<Rightarrow> unit eresult \<times> user_mem" where
  "copy_to_user m dest src len =
     (let m = enable_sum m; (r, m) = copy_to_loop m dest len 0 src in (r, disable_sum m))"

section \<open>Slices\<close>

text \<open>The element type enters by its size; a buffer of the kernel is the bytes of its elements.\<close>

record user_slice =
  us_ptr :: nat
  us_length :: nat
  us_size :: nat

definition slice_end :: "nat \<Rightarrow> nat \<Rightarrow> nat \<Rightarrow> nat option" where
  "slice_end sz ptr len =
     (if usize_max < len * sz then None else checked_add usize_max ptr (len * sz))"

definition user_slice_new :: "nat \<Rightarrow> nat \<Rightarrow> nat \<Rightarrow> nat \<Rightarrow> nat \<Rightarrow> user_slice eresult" where
  "user_slice_new nlev al sz ptr len =
     (if ptr mod al \<noteq> 0 then Err EFAULT else
      case slice_end sz ptr len of
        None \<Rightarrow> Err EFAULT
      | Some e \<Rightarrow>
          if \<not> is_canon_user_range nlev (ptr, e) then Err EFAULT
          else if ptr = 0 then Err EFAULT
          else Ok \<lparr>us_ptr = ptr, us_length = len, us_size = sz\<rparr>)"

definition user_slice_new_mut :: "nat \<Rightarrow> nat \<Rightarrow> nat \<Rightarrow> nat \<Rightarrow> user_slice eresult" where
  "user_slice_new_mut nlev sz ptr len =
     (case slice_end sz ptr len of
        None \<Rightarrow> Err EFAULT
      | Some e \<Rightarrow>
          if \<not> is_canon_user_range nlev (ptr, e) then Err EFAULT
          else if ptr = 0 then Err EFAULT
          else Ok \<lparr>us_ptr = ptr, us_length = len, us_size = sz\<rparr>)"

text \<open>\<open>None\<close> is the panic of the assertion.\<close>

definition subslice :: "user_slice \<Rightarrow> nat \<Rightarrow> nat \<Rightarrow> user_slice option" where
  "subslice u start stop =
     (if stop \<le> us_length u then Some (u\<lparr>us_ptr := us_ptr u + start * us_size u, us_length := stop - start\<rparr>)
      else None)"

definition read_multiple :: "user_mem \<Rightarrow> user_slice \<Rightarrow> nat \<Rightarrow> bytes \<Rightarrow> unit eresult \<times> bytes \<times> user_mem" where
  "read_multiple m u index out = copy_from_user m out (us_ptr u + index * us_size u) (length out)"

definition write_multiple :: "user_mem \<Rightarrow> user_slice \<Rightarrow> nat \<Rightarrow> bytes \<Rightarrow> unit eresult \<times> user_mem" where
  "write_multiple m u index data = copy_to_user m (us_ptr u + index * us_size u) data (length data)"

function fill_loop :: "user_mem \<Rightarrow> user_slice \<Rightarrow> nat \<Rightarrow> bytes \<Rightarrow> unit eresult \<times> user_mem" where
  "fill_loop m u i data =
     (if i < us_length u then
        case copy_to_user m (us_ptr u + i * us_size u) data (us_size u) of
          (Inr x, m') \<Rightarrow> fill_loop m' u (i + 1) data
        | (Inl e, m') \<Rightarrow> (Err EFAULT, m')
      else (Ok (), m))"
  by pat_completeness auto

termination
  by (relation "measure (\<lambda>(m, u, i, data). us_length u - i)") auto

declare fill_loop.simps [simp del]

definition slice_fill :: "user_mem \<Rightarrow> user_slice \<Rightarrow> bytes \<Rightarrow> unit eresult \<times> user_mem" where
  "slice_fill m u data = fill_loop m u 0 data"

section \<open>Strings\<close>

function read_cstr_loop :: "nat \<Rightarrow> user_mem \<Rightarrow> nat \<Rightarrow> nat \<Rightarrow> bytes \<Rightarrow> nat eresult \<times> bytes" where
  "read_cstr_loop nlev m p i buffer =
     (if i < length buffer then
        if \<not> is_canon_user_addr nlev p then (Err EFAULT, buffer) else
        case fallible_load_u8 m p of
          Inl e \<Rightarrow> (Err e, buffer)
        | Inr c \<Rightarrow>
            if c = 0 then (Ok i, buffer)
            else read_cstr_loop nlev m (wrapping_byte_add p 1) (i + 1) (buffer[i := c])
      else (Ok (length buffer), buffer))"
  by pat_completeness auto

termination
  by (relation "measure (\<lambda>(nlev, m, p, i, buffer). length buffer - i)") auto

declare read_cstr_loop.simps [simp del]

definition read_user_cstr :: "nat \<Rightarrow> user_mem \<Rightarrow> nat \<Rightarrow> bytes \<Rightarrow> nat eresult \<times> bytes \<times> user_mem" where
  "read_user_cstr nlev m p buffer =
     (let m = enable_sum m; (r, buffer) = read_cstr_loop nlev m p 0 buffer in (r, buffer, disable_sum m))"

text \<open>
  The string grows by one byte at a time; \<open>oom n\<close> says that growing it past \<open>n\<close> bytes fails. That early
  return is the one that does not clear SUM.
\<close>

function copy_cstr_loop :: "nat \<Rightarrow> (nat \<Rightarrow> bool) \<Rightarrow> user_mem \<Rightarrow> nat \<Rightarrow> bytes \<Rightarrow> bytes eresult \<times> user_mem" where
  "copy_cstr_loop nlev oom m p res =
     (if \<not> is_canon_user_addr nlev p then (Err EFAULT, disable_sum m) else
      case fallible_load_u8 m p of
        Inl e \<Rightarrow> (Err e, disable_sum m)
      | Inr c \<Rightarrow>
          if c = 0 then (Ok res, disable_sum m)
          else if oom (length res) then (Err ENOMEM, m)
          else copy_cstr_loop nlev oom m (wrapping_byte_add p 1) (res @ [c]))"
  by pat_completeness auto

termination
  by (relation "measure (\<lambda>(nlev, oom, m, p, res). if p \<le> 2 ^ 63 then 2 ^ 63 - p else if p < 2 ^ 64 then 2 ^ 63 + 1 else 2 ^ 63 + 2)")
    (auto simp: wrapping_byte_add_def is_canon_user_addr_def as_isize_def split: if_splits)

declare copy_cstr_loop.simps [simp del]

definition copy_user_cstr :: "nat \<Rightarrow> (nat \<Rightarrow> bool) \<Rightarrow> user_mem \<Rightarrow> nat \<Rightarrow> bytes eresult \<times> user_mem" where
  "copy_user_cstr nlev oom m p = copy_cstr_loop nlev oom (enable_sum m) p []"

section \<open>What the loops do\<close>

lemma sum_simps [simp]:
  "um_sum (enable_sum m)" "\<not> um_sum (disable_sum m)" "um_byte (enable_sum m) = um_byte m" "um_byte (disable_sum m) = um_byte m"
  "um_writable (enable_sum m) = um_writable m" "um_writable (disable_sum m) = um_writable m"
  by (simp_all add: enable_sum_def disable_sum_def)

text \<open>The bytes of \<open>new\<close> from \<open>i\<close> on are those of memory up to \<open>k\<close> and those of \<open>old\<close> from \<open>k\<close> on.\<close>

definition copied :: "(nat \<Rightarrow> byte option) \<Rightarrow> nat \<Rightarrow> nat \<Rightarrow> bytes \<Rightarrow> bytes \<Rightarrow> bool" where
  "copied mem src k old new \<longleftrightarrow> length new = length old \<and>
     (\<forall>j<length old. if j < k then mem (wrapping_byte_add src j) = Some (new ! j) else new ! j = old ! j)"

lemma copied_refl: "copied mem src 0 xs xs"
  by (simp add: copied_def)

lemma copied_step:
  "copied mem src k old new \<Longrightarrow> k < length old \<Longrightarrow> mem (wrapping_byte_add src k) = Some b \<Longrightarrow>
   copied mem src (Suc k) old (new[k := b])"
  by (auto simp: copied_def nth_list_update less_Suc_eq)

lemma copy_from_loop_spec:
  assumes "copied (um_byte m) src i old dest" "i \<le> length old" "um_sum m"
  shows "\<exists>k new. i \<le> k \<and> k \<le> length old \<and> copied (um_byte m) src k old new \<and>
    (k < length old \<longrightarrow> um_byte m (wrapping_byte_add src k) = None) \<and>
    copy_from_loop m src (length old) i dest = (if k = length old then Ok () else Err EFAULT, new)"
  using assms
proof (induction m src "length old" i dest rule: copy_from_loop.induct)
  case (1 m src i dest)
  show ?case
  proof (cases "i < length old")
    case False
    then show ?thesis using 1(2,3) by (intro exI [of _ i] exI [of _ dest]) (simp add: copy_from_loop.simps)
  next
    case True
    show ?thesis
    proof (cases "um_byte m (wrapping_byte_add src i)")
      case None
      then show ?thesis using True 1(2-4)
        by (intro exI [of _ i] exI [of _ dest]) (simp add: copy_from_loop.simps fallible_load_u8_def)
    next
      case (Some b)
      then have l: "fallible_load_u8 m (wrapping_byte_add src i) = Ok b" using 1(4) by (simp add: fallible_load_u8_def)
      have "copied (um_byte m) src (i + 1) old (dest[i := b])" using copied_step [OF 1(2) True Some] by simp
      from 1(1) [OF True l this] True 1(4)
      obtain k new where "i + 1 \<le> k" "k \<le> length old" "copied (um_byte m) src k old new"
        "k < length old \<longrightarrow> um_byte m (wrapping_byte_add src k) = None"
        "copy_from_loop m src (length old) (i + 1) (dest[i := b]) = (if k = length old then Ok () else Err EFAULT, new)"
        by auto
      then show ?thesis using True l
        by (intro exI [of _ k] exI [of _ new]) (simp add: copy_from_loop.simps [of m src _ i])
    qed
  qed
qed

text \<open>
  A copy from user memory takes the bytes up to the first that is not mapped, leaves the rest of the
  buffer as it was, fails exactly when it did not take all, and leaves SUM off.
\<close>

lemma copy_from_user_spec:
  "\<exists>k new. k \<le> length dest \<and> copied (um_byte m) src k dest new \<and>
    (k < length dest \<longrightarrow> um_byte m (wrapping_byte_add src k) = None) \<and>
    copy_from_user m dest src (length dest) =
      (if k = length dest then Ok () else Err EFAULT, new, disable_sum (enable_sum m))"
  using copy_from_loop_spec [OF copied_refl, of dest "enable_sum m" src] by (auto simp: copy_from_user_def Let_def)

definition stored :: "user_mem \<Rightarrow> nat \<Rightarrow> nat \<Rightarrow> bytes \<Rightarrow> user_mem" where
  "stored m dest k src =
     m\<lparr>um_byte := (\<lambda>a. if dest \<le> a \<and> a < dest + k then Some (src ! (a - dest)) else um_byte m a)\<rparr>"

lemma stored_0 [simp]: "stored m dest 0 src = m"
proof -
  have "(\<lambda>a. if dest \<le> a \<and> a < dest + 0 then Some (src ! (a - dest)) else um_byte m a) = um_byte m"
    by (auto simp: fun_eq_iff)
  then show ?thesis unfolding stored_def by simp
qed

lemma stored_simps [simp]:
  "um_sum (stored m dest k src) = um_sum m" "um_writable (stored m dest k src) = um_writable m"
  by (simp_all add: stored_def)

lemma disable_stored_enable [simp]: "disable_sum (stored (enable_sum m) dest k src) = disable_sum (stored m dest k src)"
  unfolding stored_def by (simp add: enable_sum_def disable_sum_def cong: if_cong)

lemma stored_step:
  "(stored m dest k src)\<lparr>um_byte := (um_byte (stored m dest k src))(dest + k \<mapsto> src ! k)\<rparr> = stored m dest (Suc k) src"
  unfolding stored_def by (auto intro!: arg_cong [of _ _ "\<lambda>f. m\<lparr>um_byte := f\<rparr>"] simp: fun_eq_iff)

lemma wrapping_small: "p + i < 2 ^ 64 \<Longrightarrow> wrapping_byte_add p i = p + i"
  by (simp add: wrapping_byte_add_def)

definition can_store :: "user_mem \<Rightarrow> nat \<Rightarrow> bool" where
  "can_store m a \<longleftrightarrow> um_byte m a \<noteq> None \<and> um_writable m a"

lemma fallible_store_stored:
  assumes "um_sum m" "dest + i < 2 ^ 64"
  shows "fallible_store_u8 (stored m dest i src) (wrapping_byte_add dest i) (src ! i) =
    (if can_store m (dest + i) then (Ok (), stored m dest (Suc i) src) else (Err EFAULT, stored m dest i src))"
proof -
  have b: "um_byte (stored m dest i src) (dest + i) = um_byte m (dest + i)" by (simp add: stored_def)
  show ?thesis using assms b stored_step [of m dest i src]
    by (auto simp: fallible_store_u8_def wrapping_small can_store_def simp del: fun_upd_apply)
qed

lemma copy_to_loop_spec:
  assumes "i \<le> n" "dest + n \<le> 2 ^ 64" "um_sum m"
  shows "\<exists>k. i \<le> k \<and> k \<le> n \<and> (k < n \<longrightarrow> \<not> can_store m (dest + k)) \<and>
    (\<forall>j. i \<le> j \<and> j < k \<longrightarrow> can_store m (dest + j)) \<and>
    copy_to_loop (stored m dest i src) dest n i src = (if k = n then Ok () else Err EFAULT, stored m dest k src)"
  using assms(1)
proof (induction "n - i" arbitrary: i)
  case 0
  then show ?case by (intro exI [of _ i]) (auto simp: copy_to_loop.simps)
next
  case (Suc x)
  then have i: "i < n" "dest + i < 2 ^ 64" using assms(2) by auto
  show ?case
  proof (cases "can_store m (dest + i)")
    case False
    then show ?thesis using i fallible_store_stored [OF assms(3) i(2), of src]
      by (intro exI [of _ i]) (auto simp: copy_to_loop.simps)
  next
    case True
    have x: "x = n - Suc i" "Suc i \<le> n" using Suc(2) i by auto
    obtain k where k: "Suc i \<le> k" "k \<le> n" "k < n \<longrightarrow> \<not> can_store m (dest + k)"
      "\<forall>j. Suc i \<le> j \<and> j < k \<longrightarrow> can_store m (dest + j)"
      "copy_to_loop (stored m dest (Suc i) src) dest n (Suc i) src =
        (if k = n then Ok () else Err EFAULT, stored m dest k src)" using Suc(1) [OF x] by blast
    have "\<forall>j. i \<le> j \<and> j < k \<longrightarrow> can_store m (dest + j)"
      using k(4) True by (metis le_eq_less_or_eq Suc_le_eq)
    then show ?thesis using k i True fallible_store_stored [OF assms(3) i(2), of src]
      by (intro exI [of _ k]) (simp add: copy_to_loop.simps [of _ dest n i])
  qed
qed

lemma can_store_enable [simp]: "can_store (enable_sum m) a = can_store m a"
  by (simp add: can_store_def)

text \<open>A copy to user memory stores the bytes up to the first address that cannot be written, and no others.\<close>

lemma copy_to_user_spec:
  assumes "dest + length src \<le> 2 ^ 64"
  shows "\<exists>k. k \<le> length src \<and> (k < length src \<longrightarrow> \<not> can_store m (dest + k)) \<and> (\<forall>j<k. can_store m (dest + j)) \<and>
    copy_to_user m dest src (length src) =
      (if k = length src then Ok () else Err EFAULT, disable_sum (stored (enable_sum m) dest k src))"
  using copy_to_loop_spec [of 0 "length src" dest "enable_sum m" src] assms by (auto simp: copy_to_user_def Let_def)

section \<open>Slices hold user memory only\<close>

lemma slice_new_fields:
  assumes "user_slice_new nlev al sz ptr n = Ok u \<or> user_slice_new_mut nlev sz ptr n = Ok u"
  shows "u = \<lparr>us_ptr = ptr, us_length = n, us_size = sz\<rparr>" "ptr + n * sz < 2 ^ 64" "is_canon_user_range nlev (ptr, ptr + n * sz)"
  using assms by (auto simp: user_slice_new_def user_slice_new_mut_def slice_end_def usize_max_def
      split: if_splits option.splits)

lemma slice_addr_user:
  assumes "user_slice_new nlev al sz ptr n = Ok u \<or> user_slice_new_mut nlev sz ptr n = Ok u"
    and "1 \<le> nlev" "nlev \<le> 5" "ptr \<le> a" "a < ptr + n * sz"
  shows "is_canon_user_addr nlev a"
proof -
  note f = slice_new_fields [OF assms(1)]
  have "is_canon_user_addr nlev (ptr + n * sz - 1)" using f(3) assms(4,5) by (auto simp: is_canon_user_range_def)
  then have "ptr + n * sz - 1 < canon_half_size nlev" using canon_user_iff [OF assms(2,3)] f(2) by simp
  then show ?thesis using canon_user_iff [OF assms(2,3), of a] f(2) assms(5) by simp
qed

lemma disable_enable [simp]: "disable_sum (enable_sum m) = disable_sum m"
  by (simp add: disable_sum_def enable_sum_def)

lemma copied_small:
  assumes "copied mem src k old new" "src + length old \<le> 2 ^ 64" "k \<le> length old"
  shows "length new = length old" "drop k new = drop k old" "\<forall>j<k. mem (src + j) = Some (new ! j)"
proof -
  show l: "length new = length old" using assms(1) by (simp add: copied_def)
  have "new ! j = old ! j" if "k \<le> j" "j < length old" for j using assms(1) that unfolding copied_def by force
  then show "drop k new = drop k old" using l by (auto intro!: nth_equalityI)
  show "\<forall>j<k. mem (src + j) = Some (new ! j)"
  proof (intro allI impI)
    fix j assume "j < k"
    then have "mem (wrapping_byte_add src j) = Some (new ! j)" using assms(1,3) unfolding copied_def by force
    then show "mem (src + j) = Some (new ! j)" using assms(2,3) \<open>j < k\<close> by (simp add: wrapping_small)
  qed
qed

lemma read_multiple_spec:
  assumes "us_ptr u + index * us_size u + length out \<le> 2 ^ 64"
  shows "\<exists>k new. k \<le> length out \<and> length new = length out \<and> drop k new = drop k out \<and>
    (\<forall>j<k. um_byte m (us_ptr u + index * us_size u + j) = Some (new ! j)) \<and>
    (k < length out \<longrightarrow> um_byte m (us_ptr u + index * us_size u + k) = None) \<and>
    read_multiple m u index out = (if k = length out then Ok () else Err EFAULT, new, disable_sum m)"
proof -
  let ?s = "us_ptr u + index * us_size u"
  obtain k new where k: "k \<le> length out" "copied (um_byte m) ?s k out new"
    "k < length out \<longrightarrow> um_byte m (wrapping_byte_add ?s k) = None"
    "copy_from_user m out ?s (length out) = (if k = length out then Ok () else Err EFAULT, new, disable_sum m)"
    using copy_from_user_spec [of out m ?s] by auto
  have "k < length out \<longrightarrow> um_byte m (?s + k) = None" using k(3) assms by (auto simp: wrapping_small)
  then show ?thesis using k(1,4) copied_small [OF k(2) assms k(1)] unfolding read_multiple_def by blast
qed

section \<open>Properties\<close>

text \<open>
  C24. Copies through a slice that was made from a user pointer, inside its bounds, touch user addresses
  only. A read delivers the bytes of memory up to the first that is not mapped, and leaves the rest
  of the buffer; a write stores the bytes up to the first address that cannot be written, and nothing
  else. Each fails exactly when it did not copy all, and leaves SUM off; and what a write stored is
  what a read then delivers.
\<close>

theorem user_copy_correct:
  assumes "user_slice_new nlev al sz ptr n = Ok u \<or> user_slice_new_mut nlev sz ptr n = Ok u"
    and "1 \<le> nlev" "nlev \<le> 5" "index * sz + length out \<le> n * sz" "length data = length out"
  shows "(\<forall>j<length out. is_canon_user_addr nlev (ptr + index * sz + j)) \<and>
    (\<exists>k new. k \<le> length out \<and> length new = length out \<and> drop k new = drop k out \<and>
      (\<forall>j<k. um_byte m (ptr + index * sz + j) = Some (new ! j)) \<and>
      (k < length out \<longrightarrow> um_byte m (ptr + index * sz + k) = None) \<and>
      read_multiple m u index out = (if k = length out then Ok () else Err EFAULT, new, disable_sum m)) \<and>
    (\<exists>k m'. k \<le> length data \<and> m' = disable_sum (stored m (ptr + index * sz) k data) \<and>
      (k < length data \<longrightarrow> \<not> can_store m (ptr + index * sz + k)) \<and>
      write_multiple m u index data = (if k = length data then Ok () else Err EFAULT, m') \<and>
      (k = length data \<longrightarrow> read_multiple m' u index out = (Ok (), data, m')))"
proof -
  note f = slice_new_fields [OF assms(1)]
  let ?s = "ptr + index * sz"
  have u: "us_ptr u + index * us_size u = ?s" using f(1) by simp
  have b: "?s + length out \<le> 2 ^ 64" using f(2) assms(4) by simp
  have a: "\<forall>j<length out. is_canon_user_addr nlev (?s + j)"
    using slice_addr_user [OF assms(1-3)] assms(4) by auto
  obtain k where k: "k \<le> length data" "k < length data \<longrightarrow> \<not> can_store m (?s + k)"
    "copy_to_user m ?s data (length data) =
      (if k = length data then Ok () else Err EFAULT, disable_sum (stored (enable_sum m) ?s k data))"
    using copy_to_user_spec [of ?s data m] b assms(5) by auto
  have w: "write_multiple m u index data = (if k = length data then Ok () else Err EFAULT, disable_sum (stored m ?s k data))"
    using k(3) u by (simp add: write_multiple_def)
  have r: "read_multiple m' u index out = (Ok (), data, m')"
    if "m' = disable_sum (stored m ?s k data)" "k = length data" for m'
  proof -
    have mem: "um_byte m' (?s + j) = Some (data ! j)" if "j < length data" for j
      using that \<open>m' = _\<close> \<open>k = _\<close> by (simp add: stored_def)
    obtain i new where i: "i \<le> length out" "length new = length out" "\<forall>j<i. um_byte m' (?s + j) = Some (new ! j)"
      "i < length out \<longrightarrow> um_byte m' (?s + i) = None"
      "read_multiple m' u index out = (if i = length out then Ok () else Err EFAULT, new, disable_sum m')"
      using read_multiple_spec [of u index out m'] b unfolding u by blast
    have il: "i = length out" using i(1,4) mem assms(5) by (metis le_neq_implies_less option.distinct(1))
    have "new = data" using i(2,3) mem il assms(5) by (intro nth_equalityI) auto
    moreover have "disable_sum m' = m'" using that(1) by (simp add: disable_sum_def)
    ultimately show ?thesis using i(5) il by simp
  qed
  show ?thesis using a read_multiple_spec [of u index out m] b w k(1,2) r unfolding u by blast
qed

definition demo_mem :: user_mem where
  "demo_mem = \<lparr>um_byte = (\<lambda>a. if a < 4098 then Some 7 else None), um_writable = (\<lambda>a. True), um_sum = False\<rparr>"

theorem user_copy_correct_witness:
  "\<exists>u (k::nat) new. user_slice_new_mut 3 1 4096 4 = Ok u \<and> k \<le> 4 \<and>
    read_multiple demo_mem u 0 (replicate 4 0) = (if k = 4 then Ok () else Err EFAULT, new, disable_sum demo_mem)"
proof -
  have r: "is_canon_user_range 3 (4096, 4100)" using canon_user_iff [of 3 4096] canon_user_iff [of 3 4099]
    by (simp add: is_canon_user_range_def canon_half_size_def page_bytes_def bits_per_level_def)
  then obtain u where u: "user_slice_new_mut 3 1 4096 4 = Ok u"
    by (simp add: user_slice_new_mut_def slice_end_def usize_max_def checked_add_def)
  have h: "user_slice_new 3 1 1 4096 4 = Ok u \<or> user_slice_new_mut 3 1 4096 4 = Ok u" "0 * 1 + length (replicate 4 (0::nat)) \<le> 4 * 1"
    "length (replicate 4 (1::nat)) = length (replicate 4 (0::nat))" using u by simp_all
  obtain k new where "k \<le> length (replicate 4 (0::nat))"
    "read_multiple demo_mem u 0 (replicate 4 0) =
      (if k = length (replicate 4 (0::nat)) then Ok () else Err EFAULT, new, disable_sum demo_mem)"
    using user_copy_correct [OF h(1) _ _ h(2,3), of demo_mem] by auto
  then show ?thesis using u by auto
qed

section \<open>Strings\<close>

text \<open>
  Reading a string into a buffer ends at its terminator, or fills the buffer and does not tell that
  the string goes on; it leaves SUM off.
\<close>

lemma wrapping_next: "wrapping_byte_add (wrapping_byte_add p i) 1 = wrapping_byte_add p (i + 1)"
  by (simp add: wrapping_byte_add_def mod_simps)

definition is_cstr :: "(nat \<Rightarrow> byte option) \<Rightarrow> nat \<Rightarrow> nat \<Rightarrow> bytes \<Rightarrow> bool" where
  "is_cstr mem p k s \<longleftrightarrow> (\<forall>j<k. mem (wrapping_byte_add p j) = Some (s ! j) \<and> s ! j \<noteq> 0)"

lemma read_cstr_loop_ok:
  assumes "read_cstr_loop nlev m (wrapping_byte_add p i) i buffer = (Ok k, new)" "is_cstr (um_byte m) p i buffer" "i \<le> length buffer"
  shows "length new = length buffer \<and> k \<le> length buffer \<and> is_cstr (um_byte m) p k new \<and>
    (k < length buffer \<longrightarrow> um_byte m (wrapping_byte_add p k) = Some 0)"
  using assms
proof (induction "length buffer - i" arbitrary: i buffer)
  case 0
  then show ?case by (simp add: read_cstr_loop.simps)
next
  case (Suc x)
  then have i: "i < length buffer" by simp
  obtain c where c: "fallible_load_u8 m (wrapping_byte_add p i) = Ok c"
    using Suc(3) i by (subst (asm) read_cstr_loop.simps) (auto split: if_splits sum.splits)
  then have b: "um_byte m (wrapping_byte_add p i) = Some c" by (auto simp: fallible_load_u8_def split: if_splits option.splits)
  show ?case
  proof (cases "c = 0")
    case True
    then show ?thesis using Suc(3,4) i c b by (subst (asm) read_cstr_loop.simps) (auto split: if_splits)
  next
    case False
    then have "read_cstr_loop nlev m (wrapping_byte_add p (i + 1)) (i + 1) (buffer[i := c]) = (Ok k, new)"
      using Suc(3) i c unfolding wrapping_next [symmetric] by (subst (asm) read_cstr_loop.simps) (auto split: if_splits)
    moreover have "is_cstr (um_byte m) p (i + 1) (buffer[i := c])"
      using Suc(4) b False i by (auto simp: is_cstr_def nth_list_update less_Suc_eq)
    ultimately show ?thesis using Suc(1) [of "buffer[i := c]" "i + 1"] Suc(2) i by simp
  qed
qed

lemma read_user_cstr_ok:
  assumes "read_user_cstr nlev m p buffer = (Ok k, new, m')" "p < 2 ^ 64"
  shows "k \<le> length buffer \<and> is_cstr (um_byte m) p k new \<and>
    (k < length buffer \<longrightarrow> um_byte m (wrapping_byte_add p k) = Some 0) \<and> m' = disable_sum m"
proof -
  have "read_cstr_loop nlev (enable_sum m) (wrapping_byte_add p 0) 0 buffer = (Ok k, new)" "m' = disable_sum m"
    using assms by (auto simp: read_user_cstr_def Let_def wrapping_byte_add_def split: prod.splits)
  then show ?thesis using read_cstr_loop_ok [of nlev "enable_sum m" p 0 buffer k new] by (simp add: is_cstr_def)
qed

text \<open>A string whose buffer cannot grow leaves SUM on: the one early return that does not clear it.\<close>

lemma copy_user_cstr_leaves_sum:
  "fst (copy_user_cstr 3 (\<lambda>n. True) demo_mem 4096) = Err ENOMEM \<and> um_sum (snd (copy_user_cstr 3 (\<lambda>n. True) demo_mem 4096))"
proof -
  have "is_canon_user_addr 3 4096" using canon_user_iff [of 3 4096]
    by (simp add: canon_half_size_def page_bytes_def bits_per_level_def)
  then show ?thesis
    by (simp add: copy_user_cstr_def copy_cstr_loop.simps fallible_load_u8_def demo_mem_def enable_sum_def)
qed

end
