(* ===== verification/Vfs_Types.thy ===== *)
theory Vfs_Types
  imports User_Copy
begin

unbundle bit_operations_syntax

text \<open>
  The data of the filesystem layer (\<open>src/filesystem/mod.rs\<close>): types of nodes, mode bits and their
  packed form, directory entries, what to create and what to remove, and the flags of an open file.
\<close>

datatype inode_type =
  IT_Unknown | IT_Fifo | IT_CharDev | IT_Directory | IT_BlockDev | IT_Regular | IT_Symlink | IT_UnixSocket

datatype unlink_mode = FileOnly | DirOnly | AnyNode

record dirent =
  de_ino :: nat
  de_type :: inode_type
  de_name :: bytes
  de_disk_off :: nat
  de_off :: nat

text \<open>Devices are known by a number.\<close>

datatype make_file_spec =
  MF_Fifo | MF_CharDev nat | MF_Directory | MF_BlockDev nat | MF_Regular | MF_Symlink bytes | MF_UnixSocket

definition spec_node_type :: "make_file_spec \<Rightarrow> inode_type" where
  "spec_node_type s = (case s of
     MF_Fifo \<Rightarrow> IT_Fifo
   | MF_CharDev d \<Rightarrow> IT_CharDev
   | MF_Directory \<Rightarrow> IT_Directory
   | MF_BlockDev d \<Rightarrow> IT_BlockDev
   | MF_Regular \<Rightarrow> IT_Regular
   | MF_Symlink t \<Rightarrow> IT_Symlink
   | MF_UnixSocket \<Rightarrow> IT_UnixSocket)"

section \<open>Modes\<close>

definition S_IFMT :: nat where "S_IFMT = 61440"
definition S_IFSOCK :: nat where "S_IFSOCK = 49152"
definition S_IFLNK :: nat where "S_IFLNK = 40960"
definition S_IFREG :: nat where "S_IFREG = 32768"
definition S_IFBLK :: nat where "S_IFBLK = 24576"
definition S_IFDIR :: nat where "S_IFDIR = 16384"
definition S_IFCHR :: nat where "S_IFCHR = 8192"
definition S_IFIFO :: nat where "S_IFIFO = 4096"

lemmas S_defs = S_IFMT_def S_IFSOCK_def S_IFLNK_def S_IFREG_def S_IFBLK_def S_IFDIR_def S_IFCHR_def S_IFIFO_def

record mode_flags =
  mf_type :: inode_type
  mf_others :: nat
  mf_group :: nat
  mf_owner :: nat
  mf_suid :: bool
  mf_sgid :: bool
  mf_sticky :: bool

definition type_bits :: "inode_type \<Rightarrow> nat" where
  "type_bits t = (case t of
     IT_Unknown \<Rightarrow> 0
   | IT_Fifo \<Rightarrow> S_IFIFO
   | IT_CharDev \<Rightarrow> S_IFCHR
   | IT_Directory \<Rightarrow> S_IFDIR
   | IT_BlockDev \<Rightarrow> S_IFBLK
   | IT_Regular \<Rightarrow> S_IFREG
   | IT_Symlink \<Rightarrow> S_IFLNK
   | IT_UnixSocket \<Rightarrow> S_IFSOCK)"

text \<open>\<open>None\<close> is the overflow of the \<open>u16\<close> sum, which access bits above 7 can cause.\<close>

definition into_u16 :: "mode_flags \<Rightarrow> nat option" where
  "into_u16 m =
     (let v = type_bits (mf_type m) + mf_others m * 1 + mf_group m * 8 + mf_owner m * 64 +
            of_bool (mf_suid m) * 2048 + of_bool (mf_sgid m) * 1024 + of_bool (mf_sticky m) * 512
      in if v < 2 ^ 16 then Some v else None)"

definition bits_type :: "nat \<Rightarrow> inode_type" where
  "bits_type b =
     (if b = S_IFIFO then IT_Fifo
      else if b = S_IFCHR then IT_CharDev
      else if b = S_IFDIR then IT_Directory
      else if b = S_IFBLK then IT_BlockDev
      else if b = S_IFREG then IT_Regular
      else if b = S_IFLNK then IT_Symlink
      else if b = S_IFSOCK then IT_UnixSocket
      else IT_Unknown)"

definition from_u16 :: "nat \<Rightarrow> mode_flags" where
  "from_u16 v =
     \<lparr>mf_type = bits_type (v AND S_IFMT),
      mf_others = v AND 7,
      mf_group = drop_bit 3 (v AND 56),
      mf_owner = drop_bit 3 (v AND 448),
      mf_suid = (v AND 2048 \<noteq> 0),
      mf_sgid = (v AND 1024 \<noteq> 0),
      mf_sticky = (v AND 512 \<noteq> 0)\<rparr>"

record stat =
  st_dev :: nat
  st_ino :: nat
  st_mode :: nat
  st_nlink :: nat
  st_uid :: nat
  st_gid :: nat
  st_rdev :: nat
  st_size :: nat
  st_blksize :: nat
  st_blocks :: nat
  st_atim :: nat
  st_mtim :: nat
  st_ctim :: nat

section \<open>Flags of an open file\<close>

definition READ_ONLY :: nat where "READ_ONLY = 1"
definition WRITE_ONLY :: nat where "WRITE_ONLY = 2"
definition READ_WRITE :: nat where "READ_WRITE = 3"
definition APPEND :: nat where "APPEND = 4"
definition FILE_ONLY :: nat where "FILE_ONLY = 8"
definition DIR_ONLY :: nat where "DIR_ONLY = 16"
definition NOFOLLOW :: nat where "NOFOLLOW = 32"
definition CREATE :: nat where "CREATE = 64"
definition EXCLUSIVE :: nat where "EXCLUSIVE = 128"
definition TRUNCATE :: nat where "TRUNCATE = 256"
definition NONBLOCK :: nat where "NONBLOCK = 512"

lemmas oflag_defs = READ_ONLY_def WRITE_ONLY_def READ_WRITE_def APPEND_def FILE_ONLY_def DIR_ONLY_def
  NOFOLLOW_def CREATE_def EXCLUSIVE_def TRUNCATE_def NONBLOCK_def

definition LINK_MAX :: nat where "LINK_MAX = 32"
definition PATH_MAX :: nat where "PATH_MAX = 4096"
definition NAME_MAX :: nat where "NAME_MAX = 255"

section \<open>Packing a mode\<close>

lemma and_field: "(v::nat) AND push_bit k (mask m) = v div 2 ^ k mod 2 ^ m * 2 ^ k"
  unfolding and_push_mask by (simp add: push_bit_eq_mult drop_bit_eq_div take_bit_eq_mod)

lemma mode_fields:
  fixes v :: nat
  shows "v AND 7 = v mod 8" "v AND 56 = v div 8 mod 8 * 8" "v AND 448 = v div 64 mod 8 * 64"
    "v AND 512 = v div 512 mod 2 * 512" "v AND 1024 = v div 1024 mod 2 * 1024" "v AND 2048 = v div 2048 mod 2 * 2048"
    "v AND 61440 = v div 4096 mod 16 * 4096"
proof -
  have m: "push_bit 0 (mask 3) = (7::nat)" "push_bit 3 (mask 3) = (56::nat)" "push_bit 6 (mask 3) = (448::nat)"
    "push_bit 9 (mask 1) = (512::nat)" "push_bit 10 (mask 1) = (1024::nat)" "push_bit 11 (mask 1) = (2048::nat)"
    "push_bit 12 (mask 4) = (61440::nat)" by (simp_all add: mask_eq_exp_minus_1 push_bit_eq_mult)
  show "v AND 7 = v mod 8" using and_field [of v 0 3] unfolding m by simp
  show "v AND 56 = v div 8 mod 8 * 8" using and_field [of v 3 3] unfolding m by simp
  show "v AND 448 = v div 64 mod 8 * 64" using and_field [of v 6 3] unfolding m by simp
  show "v AND 512 = v div 512 mod 2 * 512" using and_field [of v 9 1] unfolding m by simp
  show "v AND 1024 = v div 1024 mod 2 * 1024" using and_field [of v 10 1] unfolding m by simp
  show "v AND 2048 = v div 2048 mod 2 * 2048" using and_field [of v 11 1] unfolding m by simp
  show "v AND 61440 = v div 4096 mod 16 * 4096" using and_field [of v 12 4] unfolding m by simp
qed

lemma digit: "(a::nat) < m \<Longrightarrow> (a + m * r) mod m = a" "(a::nat) < m \<Longrightarrow> (a + m * r) div m = r"
  by simp_all

lemma mode_parts:
  fixes a b c x y z t :: nat
  assumes "a < 8" "b < 8" "c < 8" "x < 2" "y < 2" "z < 2" "t < 16"
    and v: "v = t * 4096 + a + b * 8 + c * 64 + x * 2048 + y * 1024 + z * 512"
  shows "v mod 8 = a" "v div 8 mod 8 = b" "v div 64 mod 8 = c" "v div 512 mod 2 = z" "v div 1024 mod 2 = y"
    "v div 2048 mod 2 = x" "v div 4096 mod 16 = t" "v < 2 ^ 16"
proof -
  have e: "v = a + 8 * (b + 8 * (c + 8 * (z + 2 * (y + 2 * (x + 2 * t)))))" unfolding v by simp
  have d1: "v div 8 = b + 8 * (c + 8 * (z + 2 * (y + 2 * (x + 2 * t))))" unfolding e by (rule digit(2) [OF assms(1)])
  have d2: "v div 64 = c + 8 * (z + 2 * (y + 2 * (x + 2 * t)))"
    using div_mult2_eq [of v 8 8] unfolding d1 digit(2) [OF assms(2)] by simp
  have d3: "v div 512 = z + 2 * (y + 2 * (x + 2 * t))"
    using div_mult2_eq [of v 64 8] unfolding d2 digit(2) [OF assms(3)] by simp
  have d4: "v div 1024 = y + 2 * (x + 2 * t)"
    using div_mult2_eq [of v 512 2] unfolding d3 digit(2) [OF assms(6)] by simp
  have d5: "v div 2048 = x + 2 * t"
    using div_mult2_eq [of v 1024 2] unfolding d4 digit(2) [OF assms(5)] by simp
  have d6: "v div 4096 = t"
    using div_mult2_eq [of v 2048 2] unfolding d5 digit(2) [OF assms(4)] by simp
  show "v mod 8 = a" unfolding e by (rule digit(1) [OF assms(1)])
  show "v div 8 mod 8 = b" unfolding d1 by (rule digit(1) [OF assms(2)])
  show "v div 64 mod 8 = c" unfolding d2 by (rule digit(1) [OF assms(3)])
  show "v div 512 mod 2 = z" unfolding d3 by (rule digit(1) [OF assms(6)])
  show "v div 1024 mod 2 = y" unfolding d4 by (rule digit(1) [OF assms(5)])
  show "v div 2048 mod 2 = x" unfolding d5 by (rule digit(1) [OF assms(4)])
  show "v div 4096 mod 16 = t" unfolding d6 using assms(7) by simp
  show "v < 2 ^ 16" unfolding v using assms(1-7) by simp
qed

lemma type_bits_small: "\<exists>t<16. type_bits ty = t * 4096 \<and> bits_type (t * 4096) = ty"
  by (intro exI [of _ "type_bits ty div 4096"], cases ty) (simp_all add: type_bits_def bits_type_def S_defs)

text \<open>
  Packing a mode and unpacking it gives every field back but the owner's access bits, which come
  back shifted: \<open>from_u16\<close> shifts them by three places instead of six.
\<close>

lemma mode_roundtrip:
  assumes "mf_others m < 8" "mf_group m < 8" "mf_owner m < 8"
  shows "\<exists>v. into_u16 m = Some v \<and> from_u16 v = m\<lparr>mf_owner := 8 * mf_owner m\<rparr>"
proof -
  obtain t where t: "t < 16" "type_bits (mf_type m) = t * 4096" "bits_type (t * 4096) = mf_type m"
    using type_bits_small by blast
  let ?v = "t * 4096 + mf_others m + mf_group m * 8 + mf_owner m * 64 + of_bool (mf_suid m) * 2048 +
    of_bool (mf_sgid m) * 1024 + of_bool (mf_sticky m) * 512"
  have b: "of_bool c < (2::nat)" for c by simp
  note p = mode_parts [OF assms b b b t(1) refl, of "mf_suid m" "mf_sgid m" "mf_sticky m"]
  have i: "into_u16 m = Some ?v" unfolding into_u16_def Let_def t(2) using p(8) by simp
  have "from_u16 ?v = m\<lparr>mf_owner := 8 * mf_owner m\<rparr>"
    unfolding from_u16_def mode_fields S_IFMT_def p(1-7) t(3) drop_bit_eq_div by simp
  then show ?thesis using i by blast
qed

end
