(* ===== verification/Ram_Fs.thy ===== *)
theory Ram_Fs
  imports Vfs_Types "HOL-Library.AList" "HOL-Library.List_Lexorder"
begin

text \<open>
  The RAM filesystem (\<open>src/filesystem/ramfs.rs\<close>), which backs \<open>ramfs\<close> and \<open>devtmpfs\<close>. A cell is a shared
  \<open>RamINode\<close>; it is known by its inode number, which is never used twice before the 64-bit counter
  wraps. The table holds the numbers of the cells the filesystem knows, and an open vnode may refer
  to a cell that has left it. A directory is an association list with distinct names, iterated in the
  order of names as the \<open>BTreeMap\<close> is. A call that can panic gives \<open>None\<close> then.
\<close>

section \<open>Data\<close>

datatype ram_fs_data =
  RD_Fifo | RD_CharDev nat | RD_Directory "(bytes \<times> dirent) list" | RD_BlockDev nat | RD_Regular bytes
| RD_Symlink bytes | RD_UnixSocket

definition as_directory :: "ram_fs_data \<Rightarrow> (bytes \<times> dirent) list option" where
  "as_directory x = (case x of RD_Directory d \<Rightarrow> Some d | _ \<Rightarrow> None)"

definition as_regular :: "ram_fs_data \<Rightarrow> bytes option" where
  "as_regular x = (case x of RD_Regular b \<Rightarrow> Some b | _ \<Rightarrow> None)"

definition as_symlink :: "ram_fs_data \<Rightarrow> bytes option" where
  "as_symlink x = (case x of RD_Symlink b \<Rightarrow> Some b | _ \<Rightarrow> None)"

definition data_node_type :: "ram_fs_data \<Rightarrow> inode_type" where
  "data_node_type x = (case x of
     RD_Fifo \<Rightarrow> IT_Fifo
   | RD_CharDev d \<Rightarrow> IT_CharDev
   | RD_Directory d \<Rightarrow> IT_Directory
   | RD_BlockDev d \<Rightarrow> IT_BlockDev
   | RD_Regular b \<Rightarrow> IT_Regular
   | RD_Symlink b \<Rightarrow> IT_Symlink
   | RD_UnixSocket \<Rightarrow> IT_UnixSocket)"

record ram_inode =
  ri_data :: ram_fs_data
  ri_size :: nat
  ri_links :: nat
  ri_ino :: nat
  ri_atim :: nat
  ri_mtim :: nat
  ri_ctim :: nat

record ram_fs =
  rf_inodes :: "nat list"
  rf_cell :: "nat \<Rightarrow> ram_inode"
  rf_ino_ctr :: nat
  rf_allow_devfiles :: bool

definition mk_inode :: "ram_fs_data \<Rightarrow> nat \<Rightarrow> nat \<Rightarrow> nat \<Rightarrow> ram_inode" where
  "mk_inode d links ino now =
     \<lparr>ri_data = d, ri_size = 0, ri_links = links, ri_ino = ino, ri_atim = now, ri_mtim = now, ri_ctim = now\<rparr>"

definition ramfs_new :: "bool \<Rightarrow> nat \<Rightarrow> ram_fs" where
  "ramfs_new allow now =
     \<lparr>rf_inodes = [1], rf_cell = (\<lambda>i. mk_inode (RD_Directory []) 0 1 now), rf_ino_ctr = 2, rf_allow_devfiles = allow\<rparr>"

definition open_impl :: "ram_fs \<Rightarrow> nat \<Rightarrow> nat eresult" where
  "open_impl fs ino = (if ino \<in> set (rf_inodes fs) then Ok ino else Err EIO)"

text \<open>Writing to the data and to the link count of a cell.\<close>

definition set_data :: "ram_fs \<Rightarrow> nat \<Rightarrow> ram_fs_data \<Rightarrow> ram_fs" where
  "set_data fs i x = fs\<lparr>rf_cell := (rf_cell fs)(i := (rf_cell fs i)\<lparr>ri_data := x\<rparr>)\<rparr>"

definition set_links :: "ram_fs \<Rightarrow> nat \<Rightarrow> nat \<Rightarrow> ram_fs" where
  "set_links fs i n = fs\<lparr>rf_cell := (rf_cell fs)(i := (rf_cell fs i)\<lparr>ri_links := n\<rparr>)\<rparr>"

definition node_data :: "ram_fs \<Rightarrow> nat \<Rightarrow> ram_fs_data" where
  "node_data fs i = ri_data (rf_cell fs i)"

section \<open>Files\<close>

definition ram_write ::
  "ram_fs \<Rightarrow> nat \<Rightarrow> user_mem \<Rightarrow> nat \<Rightarrow> user_slice \<Rightarrow> unit eresult \<times> ram_fs \<times> user_mem" where
  "ram_write fs v m offset wdata =
     (case as_regular (node_data fs v) of
        None \<Rightarrow> (Err EINVAL, fs, m)
      | Some regular \<Rightarrow>
          (case checked_add usize_max offset (us_length wdata) of
             None \<Rightarrow> (Err EIO, fs, m)
           | Some e \<Rightarrow>
               if e > length regular then (Err EIO, fs, m) else
               let (r, new, m') = read_multiple m wdata offset (take (us_length wdata) (drop offset regular))
               in (r, set_data fs v (RD_Regular (take offset regular @ new @ drop e regular)), m')))"

definition ram_read ::
  "ram_fs \<Rightarrow> nat \<Rightarrow> user_mem \<Rightarrow> nat \<Rightarrow> user_slice \<Rightarrow> unit eresult \<times> user_mem" where
  "ram_read fs v m offset rdata =
     (case as_regular (node_data fs v) of
        None \<Rightarrow> (Err EINVAL, m)
      | Some regular \<Rightarrow>
          (case checked_add usize_max offset (us_length rdata) of
             None \<Rightarrow> (Err EIO, m)
           | Some e \<Rightarrow>
               if e > length regular then (Err EIO, m)
               else write_multiple m rdata 0 (take (us_length rdata) (drop offset regular))))"

text \<open>\<open>oom\<close> says that the reservation fails.\<close>

definition ram_resize :: "ram_fs \<Rightarrow> nat \<Rightarrow> nat \<Rightarrow> bool \<Rightarrow> unit eresult \<times> ram_fs" where
  "ram_resize fs v new_size oom =
     (case as_regular (node_data fs v) of
        None \<Rightarrow> (Err EINVAL, fs)
      | Some regular \<Rightarrow>
          if oom then (Err ENOSPC, fs) else
          let fs = set_data fs v (RD_Regular (take new_size regular @ replicate (new_size - length regular) 0))
          in (Ok (), fs\<lparr>rf_cell := (rf_cell fs)(v := (rf_cell fs v)\<lparr>ri_size := new_size\<rparr>)\<rparr>))"

section \<open>Directories\<close>

definition find_dirent :: "ram_fs \<Rightarrow> nat \<Rightarrow> bytes \<Rightarrow> dirent eresult" where
  "find_dirent fs v name =
     (case as_directory (node_data fs v) of
        None \<Rightarrow> Err EINVAL
      | Some d \<Rightarrow> (case map_of d name of None \<Rightarrow> Err ENOENT | Some e \<Rightarrow> Ok e))"

fun dirents_loop ::
  "('b \<Rightarrow> dirent \<Rightarrow> bool eresult \<times> 'b) \<Rightarrow> nat \<Rightarrow> nat \<Rightarrow> 'b \<Rightarrow> dirent list \<Rightarrow> nat eresult \<times> 'b" where
  "dirents_loop push offset i buf [] = (Ok i, buf)"
| "dirents_loop push offset i buf (e # es) =
     (if i \<ge> offset then
        case push buf e of
          (Inl x, buf') \<Rightarrow> (Err x, buf')
        | (Inr room, buf') \<Rightarrow> if \<not> room then (Ok i, buf') else dirents_loop push offset (i + 1) buf' es
      else dirents_loop push offset (i + 1) buf es)"

definition get_dirents ::
  "('b \<Rightarrow> dirent \<Rightarrow> bool eresult \<times> 'b) \<Rightarrow> ram_fs \<Rightarrow> nat \<Rightarrow> nat \<Rightarrow> 'b \<Rightarrow> nat eresult \<times> 'b" where
  "get_dirents push fs v offset buf =
     (case as_directory (node_data fs v) of
        None \<Rightarrow> (Err EINVAL, buf)
      | Some d \<Rightarrow> dirents_loop push offset 0 buf (map snd (sort_key fst d)))"

definition unlink_check :: "ram_fs_data \<Rightarrow> unlink_mode \<Rightarrow> errno option" where
  "unlink_check x mode =
     (case x of
        RD_Directory data \<Rightarrow>
          if mode = FileOnly then Some EISDIR else if length data \<noteq> 0 then Some ENOTEMPTY else None
      | _ \<Rightarrow> if mode = DirOnly then Some ENOTDIR else None)"

definition ram_unlink :: "ram_fs \<Rightarrow> nat \<Rightarrow> bytes \<Rightarrow> unlink_mode \<Rightarrow> (unit eresult \<times> ram_fs) option" where
  "ram_unlink fs v name mode =
     (case as_directory (node_data fs v) of
        None \<Rightarrow> Some (Err EINVAL, fs)
      | Some d \<Rightarrow>
          (case map_of d name of
             None \<Rightarrow> Some (Err ENOENT, fs)
           | Some de \<Rightarrow>
               let fs = set_data fs v (RD_Directory (AList.delete name d)); i = de_ino de in
               if i \<notin> set (rf_inodes fs) then None else
               (case unlink_check (node_data fs i) mode of
                  Some e \<Rightarrow> Some (Err e, fs)
                | None \<Rightarrow>
                    let prev_links = ri_links (rf_cell fs i) in
                    if prev_links = 0 then None else
                    let fs = set_links fs i (prev_links - 1) in
                    Some (Ok (), if prev_links = 1 then fs\<lparr>rf_inodes := remove1 i (rf_inodes fs)\<rparr> else fs))))"

definition new_dirent :: "nat \<Rightarrow> inode_type \<Rightarrow> bytes \<Rightarrow> dirent" where
  "new_dirent ino ty name = \<lparr>de_ino = ino, de_type = ty, de_name = name, de_disk_off = 0, de_off = 0\<rparr>"

text \<open>The first argument is an error of the lock.\<close>

definition ram_link :: "errno option \<Rightarrow> ram_fs \<Rightarrow> nat \<Rightarrow> bytes \<Rightarrow> nat \<Rightarrow> (unit eresult \<times> ram_fs) option" where
  "ram_link fail fs v name i =
     (case as_directory (node_data fs v) of
        None \<Rightarrow> Some (Err EINVAL, fs)
      | Some d \<Rightarrow>
          if map_of d name \<noteq> None then Some (Err EEXIST, fs) else
          (case fail of Some e \<Rightarrow> Some (Err e, fs) | None \<Rightarrow>
             if i \<notin> set (rf_inodes fs) then Some (Err EIO, fs) else
             let links = ri_links (rf_cell fs i) in
             if links = 0 then None
             else if links \<ge> 65535 then Some (Err EMLINK, fs)
             else
               let fs = set_links fs i (links + 1);
                   de = new_dirent (ri_ino (rf_cell fs i)) (data_node_type (node_data fs i)) name
               in Some (Ok (), set_data fs v (RD_Directory (AList.update name de d)))))"

definition spec_data :: "make_file_spec \<Rightarrow> ram_fs_data" where
  "spec_data s = (case s of
     MF_Fifo \<Rightarrow> RD_Fifo
   | MF_CharDev dev \<Rightarrow> RD_CharDev dev
   | MF_Directory \<Rightarrow> RD_Directory []
   | MF_BlockDev dev \<Rightarrow> RD_BlockDev dev
   | MF_Regular \<Rightarrow> RD_Regular []
   | MF_Symlink items \<Rightarrow> RD_Symlink items
   | MF_UnixSocket \<Rightarrow> RD_UnixSocket)"

definition is_dev_spec :: "make_file_spec \<Rightarrow> bool" where
  "is_dev_spec s = (case s of MF_CharDev dev \<Rightarrow> True | MF_BlockDev dev \<Rightarrow> True | _ \<Rightarrow> False)"

text \<open>The first argument is an error of an allocation or of the lock, all of which come after the counter was advanced.\<close>

definition ram_make_file ::
  "errno option \<Rightarrow> nat \<Rightarrow> ram_fs \<Rightarrow> nat \<Rightarrow> bytes \<Rightarrow> make_file_spec \<Rightarrow> (dirent \<times> nat) eresult \<times> ram_fs" where
  "ram_make_file fail now fs v name spec =
     (case as_directory (node_data fs v) of
        None \<Rightarrow> (Err EINVAL, fs)
      | Some d \<Rightarrow>
          if map_of d name \<noteq> None then (Err EEXIST, fs)
          else if \<not> rf_allow_devfiles fs \<and> is_dev_spec spec then (Err EINVAL, fs)
          else
            let ino = rf_ino_ctr fs; fs = fs\<lparr>rf_ino_ctr := (ino + 1) mod 2 ^ 64\<rparr> in
            (case fail of Some e \<Rightarrow> (Err e, fs) | None \<Rightarrow>
               let new = mk_inode (spec_data spec) 1 ino now;
                   fs = fs\<lparr>rf_cell := (rf_cell fs)(ino := new), rf_inodes := ino # rf_inodes fs\<rparr>;
                   de = new_dirent ino (data_node_type (ri_data new)) name
               in (Ok (de, ino), set_data fs v (RD_Directory (AList.update name de d)))))"

definition ram_rename :: "ram_fs \<Rightarrow> nat \<Rightarrow> bytes \<Rightarrow> bytes \<Rightarrow> dirent eresult \<times> ram_fs" where
  "ram_rename fs v old_name new_name =
     (case as_directory (node_data fs v) of
        None \<Rightarrow> (Err EINVAL, fs)
      | Some d \<Rightarrow>
          if old_name = new_name then (case map_of d old_name of Some e \<Rightarrow> Ok e | None \<Rightarrow> Err ENOENT, fs)
          else
            (case map_of d old_name of
               None \<Rightarrow> (Err ENOENT, fs)
             | Some e \<Rightarrow>
                 let e = e\<lparr>de_name := new_name\<rparr> in
                 if map_of d new_name \<noteq> None then (Err EEXIST, fs)
                 else (Ok e, set_data fs v (RD_Directory (AList.delete old_name (AList.update new_name e d))))))"

text \<open>
  Moving an entry to another directory, from the point where both directories are at hand; \<open>None\<close> is a
  node that is no directory.
\<close>

definition move_entry :: "ram_fs \<Rightarrow> nat \<Rightarrow> bytes \<Rightarrow> nat \<Rightarrow> bytes \<Rightarrow> (dirent eresult \<times> ram_fs) option" where
  "move_entry fs src src_name dest dest_name =
     (case as_directory (node_data fs src) of
        None \<Rightarrow> None
      | Some sd \<Rightarrow>
          (case map_of sd src_name of
             None \<Rightarrow> Some (Err ENOENT, fs)
           | Some e \<Rightarrow>
               let fs = set_data fs src (RD_Directory (AList.delete src_name sd)) in
               (case as_directory (node_data fs dest) of
                  None \<Rightarrow> None
                | Some dd \<Rightarrow>
                    if map_of dd dest_name \<noteq> None then Some (Err EEXIST, fs)
                    else let e = e\<lparr>de_name := dest_name\<rparr>
                         in Some (Ok e, set_data fs dest (RD_Directory (AList.update dest_name e dd))))))"

section \<open>Attributes\<close>

definition readlink :: "ram_fs \<Rightarrow> nat \<Rightarrow> bytes eresult" where
  "readlink fs v = (case as_symlink (node_data fs v) of None \<Rightarrow> Err EINVAL | Some t \<Rightarrow> Ok t)"

definition ram_get_device :: "ram_fs \<Rightarrow> nat \<Rightarrow> nat option" where
  "ram_get_device fs v = (case node_data fs v of RD_CharDev dev \<Rightarrow> Some dev | RD_BlockDev dev \<Rightarrow> Some dev | _ \<Rightarrow> None)"

definition ram_get_inode :: "ram_fs \<Rightarrow> nat \<Rightarrow> nat" where
  "ram_get_inode fs v = ri_ino (rf_cell fs v)"

definition ram_get_size :: "ram_fs \<Rightarrow> nat \<Rightarrow> nat" where
  "ram_get_size fs v = ri_size (rf_cell fs v)"

definition ram_get_type :: "ram_fs \<Rightarrow> nat \<Rightarrow> inode_type" where
  "ram_get_type fs v = data_node_type (node_data fs v)"

text \<open>The device number is the device's ID in the upper half; \<open>None\<close> is the overflow of the mode.\<close>

definition ram_stat :: "ram_fs \<Rightarrow> nat \<Rightarrow> stat option" where
  "ram_stat fs v =
     (case into_u16 \<lparr>mf_type = ram_get_type fs v, mf_others = 7, mf_group = 7, mf_owner = 7, mf_suid = False,
                     mf_sgid = False, mf_sticky = False\<rparr> of
        None \<Rightarrow> None
      | Some mode \<Rightarrow>
          Some \<lparr>st_dev = 0, st_ino = 0, st_mode = mode, st_nlink = ri_links (rf_cell fs v), st_uid = 0, st_gid = 0,
                st_rdev = (case ram_get_device fs v of Some dev \<Rightarrow> dev * 2 ^ 32 | None \<Rightarrow> 0),
                st_size = ri_size (rf_cell fs v), st_blksize = 1, st_blocks = ri_size (rf_cell fs v) div 512,
                st_atim = ri_atim (rf_cell fs v), st_mtim = ri_mtim (rf_cell fs v), st_ctim = ri_ctim (rf_cell fs v)\<rparr>)"

section \<open>The invariant\<close>

lemma set_simps [simp]:
  "rf_inodes (set_data fs i x) = rf_inodes fs" "rf_inodes (set_links fs i n) = rf_inodes fs"
  "rf_ino_ctr (set_data fs i x) = rf_ino_ctr fs" "rf_ino_ctr (set_links fs i n) = rf_ino_ctr fs"
  "node_data (set_data fs i x) j = (if j = i then x else node_data fs j)" "node_data (set_links fs i n) j = node_data fs j"
  "ri_links (rf_cell (set_data fs i x) j) = ri_links (rf_cell fs j)"
  "ri_links (rf_cell (set_links fs i n) j) = (if j = i then n else ri_links (rf_cell fs j))"
  "ri_ino (rf_cell (set_data fs i x) j) = ri_ino (rf_cell fs j)" "ri_ino (rf_cell (set_links fs i n) j) = ri_ino (rf_cell fs j)"
  "ri_size (rf_cell (set_data fs i x) j) = ri_size (rf_cell fs j)" "ri_size (rf_cell (set_links fs i n) j) = ri_size (rf_cell fs j)"
  "rf_allow_devfiles (set_data fs i x) = rf_allow_devfiles fs"
  by (simp_all add: set_data_def set_links_def node_data_def)

lemma node_data_inodes [simp]: "node_data (fs\<lparr>rf_inodes := xs\<rparr>) j = node_data fs j" "node_data (fs\<lparr>rf_ino_ctr := n\<rparr>) j = node_data fs j"
  by (simp_all add: node_data_def)

text \<open>The entries of a directory, and the number of them that name a node.\<close>

definition dir_entries :: "ram_fs_data \<Rightarrow> (bytes \<times> dirent) list" where
  "dir_entries x = (case x of RD_Directory d \<Rightarrow> d | _ \<Rightarrow> [])"

definition names_ino :: "nat \<Rightarrow> (bytes \<times> dirent) list \<Rightarrow> nat" where
  "names_ino i d = length (filter (\<lambda>x. de_ino (snd x) = i) d)"

definition refs :: "ram_fs \<Rightarrow> nat \<Rightarrow> nat" where
  "refs fs i = (\<Sum>d\<in>set (rf_inodes fs). names_ino i (dir_entries (node_data fs d)))"

definition entry_ok :: "ram_fs \<Rightarrow> bytes \<times> dirent \<Rightarrow> bool" where
  "entry_ok fs x \<longleftrightarrow> de_name (snd x) = fst x \<and> de_ino (snd x) \<in> set (rf_inodes fs) \<and>
     de_type (snd x) = data_node_type (node_data fs (de_ino (snd x)))"

definition dirs_ok :: "ram_fs \<Rightarrow> bool" where
  "dirs_ok fs \<longleftrightarrow> (\<forall>d\<in>set (rf_inodes fs). distinct (map fst (dir_entries (node_data fs d))) \<and>
     (\<forall>x\<in>set (dir_entries (node_data fs d)). entry_ok fs x))"

definition links_ok :: "ram_fs \<Rightarrow> bool" where
  "links_ok fs \<longleftrightarrow> (\<forall>i\<in>set (rf_inodes fs). ri_links (rf_cell fs i) = refs fs i \<and> refs fs i \<le> 65535 \<and> (0 < refs fs i) = (i \<noteq> 1))"

definition table_ok :: "ram_fs \<Rightarrow> bool" where
  "table_ok fs \<longleftrightarrow> distinct (rf_inodes fs) \<and> 1 \<in> set (rf_inodes fs) \<and> data_node_type (node_data fs 1) = IT_Directory \<and>
     1 < rf_ino_ctr fs \<and> (\<forall>i\<in>set (rf_inodes fs). i < rf_ino_ctr fs \<and> ri_ino (rf_cell fs i) = i)"

definition sizes_ok :: "ram_fs \<Rightarrow> bool" where
  "sizes_ok fs \<longleftrightarrow> (\<forall>i\<in>set (rf_inodes fs).
     ri_size (rf_cell fs i) = (case node_data fs i of RD_Regular b \<Rightarrow> length b | _ \<Rightarrow> 0))"

definition ramfs_wf :: "ram_fs \<Rightarrow> bool" where
  "ramfs_wf fs \<longleftrightarrow> table_ok fs \<and> dirs_ok fs \<and> links_ok fs \<and> sizes_ok fs"

lemma as_directory_iff: "as_directory x = Some d \<longleftrightarrow> x = RD_Directory d"
  by (auto simp: as_directory_def split: ram_fs_data.splits)

lemma as_regular_iff: "as_regular x = Some b \<longleftrightarrow> x = RD_Regular b"
  by (auto simp: as_regular_def split: ram_fs_data.splits)

lemma as_directory_dir [simp]: "as_directory (RD_Directory d) = Some d"
  by (simp add: as_directory_def)

lemma dir_entries_simps [simp]: "dir_entries (RD_Directory d) = d" "dir_entries (RD_Regular b) = []"
  by (simp_all add: dir_entries_def)

lemma node_type_dir [simp]: "data_node_type (RD_Directory d) = IT_Directory" "data_node_type (RD_Regular b) = IT_Regular"
  by (simp_all add: data_node_type_def)

lemma ramfs_new_wf: "ramfs_wf (ramfs_new allow now)"
  by (simp add: ramfs_wf_def table_ok_def dirs_ok_def links_ok_def sizes_ok_def refs_def names_ino_def ramfs_new_def
    mk_inode_def node_data_def)

subsection \<open>Changing one directory\<close>

lemma names_ino_delete:
  assumes "distinct (map fst d)" "map_of d n = Some e"
  shows "names_ino i (AList.delete n d) + of_bool (de_ino e = i) = names_ino i d"
  using assms
proof (induction d)
  case (Cons a d)
  then show ?case
    by (cases "fst a = n") (auto simp: names_ino_def delete_id split: if_splits)
qed simp

lemma names_ino_update:
  "map_of d n = None \<Longrightarrow> names_ino i (AList.update n e d) = names_ino i d + of_bool (de_ino e = i)"
  by (induction d) (auto simp: names_ino_def split: if_splits)

text \<open>What the references become when the entries of one directory of the table change.\<close>

lemma refs_change:
  assumes "distinct (rf_inodes fs)" "v \<in> set (rf_inodes fs)" "set (rf_inodes fs') = set (rf_inodes fs)"
    and "\<forall>d\<in>set (rf_inodes fs). d \<noteq> v \<longrightarrow> dir_entries (node_data fs' d) = dir_entries (node_data fs d)"
    and "names_ino i (dir_entries (node_data fs' v)) + a = names_ino i (dir_entries (node_data fs v)) + b"
  shows "refs fs' i + a = refs fs i + b"
proof -
  let ?T = "set (rf_inodes fs)"
  have "(\<Sum>d\<in>?T - {v}. names_ino i (dir_entries (node_data fs' d))) = (\<Sum>d\<in>?T - {v}. names_ino i (dir_entries (node_data fs d)))"
    using assms(4) by (intro sum.cong) auto
  then show ?thesis
    using sum.remove [of ?T v "\<lambda>d. names_ino i (dir_entries (node_data fs d))"]
      sum.remove [of ?T v "\<lambda>d. names_ino i (dir_entries (node_data fs' d))"] assms(2,3,5)
    unfolding refs_def by simp
qed

lemma refs_cong:
  "set (rf_inodes fs') = set (rf_inodes fs) \<Longrightarrow>
   (\<forall>d\<in>set (rf_inodes fs). dir_entries (node_data fs' d) = dir_entries (node_data fs d)) \<Longrightarrow> refs fs' i = refs fs i"
  unfolding refs_def by (intro sum.cong) auto

lemma refs_zero: "refs fs i = 0 \<longleftrightarrow> (\<forall>d\<in>set (rf_inodes fs). \<forall>x\<in>set (dir_entries (node_data fs d)). de_ino (snd x) \<noteq> i)"
  by (simp add: refs_def names_ino_def filter_empty_conv)

text \<open>A change that keeps the nodes of the table, their types, numbers and sizes.\<close>

definition same_nodes :: "ram_fs \<Rightarrow> ram_fs \<Rightarrow> bool" where
  "same_nodes fs fs' \<longleftrightarrow> rf_inodes fs' = rf_inodes fs \<and> rf_ino_ctr fs \<le> rf_ino_ctr fs' \<and>
     (\<forall>i. data_node_type (node_data fs' i) = data_node_type (node_data fs i) \<and>
       ri_ino (rf_cell fs' i) = ri_ino (rf_cell fs i))"

lemma table_ok_same: "table_ok fs \<Longrightarrow> same_nodes fs fs' \<Longrightarrow> table_ok fs'"
  unfolding table_ok_def same_nodes_def by force

lemma entry_ok_same: "entry_ok fs x \<Longrightarrow> same_nodes fs fs' \<Longrightarrow> entry_ok fs' x"
  by (simp add: entry_ok_def same_nodes_def)

lemma dirs_ok_change:
  assumes "dirs_ok fs" "same_nodes fs fs'" "distinct (map fst (dir_entries (node_data fs' v)))"
    and "\<forall>d. d \<noteq> v \<longrightarrow> dir_entries (node_data fs' d) = dir_entries (node_data fs d)"
    and "\<forall>x\<in>set (dir_entries (node_data fs' v)). entry_ok fs x"
  shows "dirs_ok fs'"
  unfolding dirs_ok_def
proof (intro ballI conjI)
  fix d assume d: "d \<in> set (rf_inodes fs')"
  then have t: "d \<in> set (rf_inodes fs)" using assms(2) by (simp add: same_nodes_def)
  show "distinct (map fst (dir_entries (node_data fs' d)))"
    using assms(1,3,4) t unfolding dirs_ok_def by (cases "d = v") auto
  fix x assume "x \<in> set (dir_entries (node_data fs' d))"
  then have "entry_ok fs x" using assms(1,4,5) t unfolding dirs_ok_def by (cases "d = v") auto
  then show "entry_ok fs' x" using assms(2) by (rule entry_ok_same)
qed

lemma sizes_ok_dirs:
  assumes "sizes_ok fs" "rf_inodes fs' = rf_inodes fs"
    and "\<forall>i. ri_size (rf_cell fs' i) = ri_size (rf_cell fs i) \<and>
      (node_data fs' i = node_data fs i \<or> (\<exists>d d'. node_data fs i = RD_Directory d \<and> node_data fs' i = RD_Directory d'))"
  shows "sizes_ok fs'"
  unfolding sizes_ok_def
proof
  fix i assume i: "i \<in> set (rf_inodes fs')"
  have s: "ri_size (rf_cell fs i) = (case node_data fs i of RD_Regular b \<Rightarrow> length b | _ \<Rightarrow> 0)"
    using assms(1,2) i by (simp add: sizes_ok_def)
  have z: "ri_size (rf_cell fs' i) = ri_size (rf_cell fs i)" using assms(3) by blast
  consider "node_data fs' i = node_data fs i" | d d' where "node_data fs i = RD_Directory d" "node_data fs' i = RD_Directory d'"
    using assms(3) by blast
  then show "ri_size (rf_cell fs' i) = (case node_data fs' i of RD_Regular b \<Rightarrow> length b | _ \<Rightarrow> 0)"
    using s z by cases simp_all
qed

lemma wf_parts:
  assumes "ramfs_wf fs"
  shows "table_ok fs" "dirs_ok fs" "links_ok fs" "sizes_ok fs" "distinct (rf_inodes fs)"
  using assms by (simp_all add: ramfs_wf_def table_ok_def)

lemma wf_dir:
  assumes "ramfs_wf fs" "v \<in> set (rf_inodes fs)" "node_data fs v = RD_Directory d"
  shows "distinct (map fst d)" "\<forall>x\<in>set d. entry_ok fs x"
  using assms unfolding ramfs_wf_def dirs_ok_def by force+

lemma wf_entry:
  assumes "ramfs_wf fs" "v \<in> set (rf_inodes fs)" "node_data fs v = RD_Directory d" "map_of d n = Some e"
  shows "entry_ok fs (n, e)" "de_ino e \<in> set (rf_inodes fs)" "0 < refs fs (de_ino e)" "ri_links (rf_cell fs (de_ino e)) = refs fs (de_ino e)"
    "de_ino e \<noteq> 1"
proof -
  have m: "(n, e) \<in> set d" using assms(4) by (rule map_of_SomeD)
  show e: "entry_ok fs (n, e)" using wf_dir(2) [OF assms(1-3)] m by blast
  then show t: "de_ino e \<in> set (rf_inodes fs)" by (simp add: entry_ok_def)
  have "refs fs (de_ino e) \<noteq> 0" using refs_zero [of fs "de_ino e"] m assms(2,3) by force
  then show "0 < refs fs (de_ino e)" by simp
  then show "ri_links (rf_cell fs (de_ino e)) = refs fs (de_ino e)" "de_ino e \<noteq> 1"
    using t assms(1) by (auto simp: ramfs_wf_def links_ok_def)
qed

subsection \<open>Removing a name\<close>

text \<open>The entry is gone and the link count is one less; the node is still in the table.\<close>

lemma unlink_counts:
  assumes wf: "ramfs_wf fs" and v: "v \<in> set (rf_inodes fs)" "node_data fs v = RD_Directory d" "map_of d n = Some e"
    and fs': "fs' = set_links (set_data fs v (RD_Directory (AList.delete n d))) (de_ino e) (ri_links (rf_cell fs (de_ino e)) - 1)"
  shows "table_ok fs'" "dirs_ok fs'" "sizes_ok fs'" "refs fs' i + of_bool (de_ino e = i) = refs fs i"
    "i \<in> set (rf_inodes fs) \<Longrightarrow> ri_links (rf_cell fs' i) = refs fs' i"
proof -
  note p = wf_parts [OF wf] and w = wf_dir [OF wf v(1,2)] and e = wf_entry [OF wf v]
  have s: "same_nodes fs fs'" using v(2) by (simp add: same_nodes_def fs')
  show "table_ok fs'" by (rule table_ok_same [OF p(1) s])
  show "dirs_ok fs'"
  proof (rule dirs_ok_change [OF p(2) s, where v = v])
    show "distinct (map fst (dir_entries (node_data fs' v)))" using w(1) by (simp add: fs' distinct_delete)
    show "\<forall>x\<in>set (dir_entries (node_data fs' v)). entry_ok fs x"
      using w(2) by (auto simp: fs' AList.delete_eq)
  qed (simp add: fs')
  show "sizes_ok fs'" using v(2) by (intro sizes_ok_dirs [OF p(4)]) (auto simp: fs')
  have r: "refs fs' j + of_bool (de_ino e = j) = refs fs j" for j
    using refs_change [OF p(5) v(1), of fs' j "of_bool (de_ino e = j)" 0] names_ino_delete [OF w(1) v(3), of j] v(2) by (simp add: fs')
  show "refs fs' i + of_bool (de_ino e = i) = refs fs i" by (rule r)
  show "ri_links (rf_cell fs' i) = refs fs' i" if i: "i \<in> set (rf_inodes fs)"
  proof -
    have "ri_links (rf_cell fs i) = refs fs i" using p(3) i by (simp add: links_ok_def)
    then show ?thesis using r [of i] by (auto simp: fs')
  qed
qed

lemma unlink_check_none: "unlink_check x mode = None \<Longrightarrow> dir_entries x = []"
  by (auto simp: unlink_check_def dir_entries_def split: ram_fs_data.splits if_splits)

text \<open>The node leaves the table when nothing names it any more.\<close>

lemma drop_node_wf:
  assumes "table_ok fs" "dirs_ok fs" "sizes_ok fs" "\<forall>j\<in>set (rf_inodes fs). ri_links (rf_cell fs j) = refs fs j \<and> refs fs j \<le> 65535"
    and "\<forall>j\<in>set (rf_inodes fs). j \<noteq> i \<longrightarrow> (0 < refs fs j) = (j \<noteq> 1)"
    and "i \<noteq> 1" "refs fs i = 0" "dir_entries (node_data fs i) = []"
  shows "ramfs_wf (fs\<lparr>rf_inodes := remove1 i (rf_inodes fs)\<rparr>)"
proof -
  let ?fs = "fs\<lparr>rf_inodes := remove1 i (rf_inodes fs)\<rparr>"
  have T: "set (rf_inodes ?fs) = set (rf_inodes fs) - {i}" using assms(1) by (simp add: table_ok_def)
  have r: "refs ?fs j = refs fs j" for j
  proof -
    have "names_ino j (dir_entries (node_data fs i)) = 0" using assms(8) by (simp add: names_ino_def)
    then show ?thesis unfolding refs_def T by (cases "i \<in> set (rf_inodes fs)") (simp_all add: sum_diff1_nat)
  qed
  have "table_ok ?fs" using assms(1,6) T unfolding table_ok_def by (auto simp: distinct_remove1)
  moreover have "dirs_ok ?fs"
    unfolding dirs_ok_def T
  proof (intro ballI conjI)
    fix d assume d: "d \<in> set (rf_inodes fs) - {i}"
    then show "distinct (map fst (dir_entries (node_data ?fs d)))" using assms(2) by (auto simp: dirs_ok_def)
    fix x assume x: "x \<in> set (dir_entries (node_data ?fs d))"
    then have "entry_ok fs x" using assms(2) d by (auto simp: dirs_ok_def)
    moreover have "de_ino (snd x) \<noteq> i" using assms(7) x d refs_zero by auto
    ultimately show "entry_ok ?fs x" using T by (simp add: entry_ok_def)
  qed
  moreover have "links_ok ?fs" unfolding links_ok_def T using assms(4,5) r by auto
  moreover have "sizes_ok ?fs" using assms(3) T by (auto simp: sizes_ok_def)
  ultimately show ?thesis by (simp add: ramfs_wf_def)
qed

lemma ram_unlink_eq:
  assumes wf: "ramfs_wf fs" and v: "v \<in> set (rf_inodes fs)" "node_data fs v = RD_Directory d" "map_of d name = Some e"
    and f1: "f1 = set_data fs v (RD_Directory (AList.delete name d))"
    and f2: "f2 = set_links f1 (de_ino e) (ri_links (rf_cell fs (de_ino e)) - 1)"
  shows "ram_unlink fs v name mode =
    (case unlink_check (node_data f1 (de_ino e)) mode of
       Some x \<Rightarrow> Some (Err x, f1)
     | None \<Rightarrow> Some (Ok (), if ri_links (rf_cell fs (de_ino e)) = 1 then f2\<lparr>rf_inodes := remove1 (de_ino e) (rf_inodes f2)\<rparr> else f2))"
proof -
  note en = wf_entry [OF wf v]
  have "ri_links (rf_cell fs (de_ino e)) \<noteq> 0" using en(3,4) by simp
  then show ?thesis using en(2) v(2,3) unfolding ram_unlink_def Let_def f2
    by (cases "unlink_check (node_data f1 (de_ino e)) mode") (auto simp: f1)
qed

lemma unlink_check_errors: "unlink_check x mode = Some e \<Longrightarrow> e \<in> {EISDIR, ENOTEMPTY, ENOTDIR}"
  by (auto simp: unlink_check_def split: ram_fs_data.splits if_splits)

lemma ram_unlink_miss:
  "\<nexists>d e. node_data fs v = RD_Directory d \<and> map_of d name = Some e \<Longrightarrow>
   ram_unlink fs v name mode = Some (Err EINVAL, fs) \<or> ram_unlink fs v name mode = Some (Err ENOENT, fs)"
  by (auto simp: ram_unlink_def as_directory_iff split: option.splits)

lemma ram_unlink_wf:
  assumes wf: "ramfs_wf fs" and v: "v \<in> set (rf_inodes fs)" and u: "ram_unlink fs v name mode = Some (r, fs')"
    and r: "r \<notin> {Err EISDIR, Err ENOTEMPTY, Err ENOTDIR}"
  shows "ramfs_wf fs'"
proof (cases "\<exists>d e. node_data fs v = RD_Directory d \<and> map_of d name = Some e")
  case False
  then show ?thesis using u wf ram_unlink_miss [OF False, of mode] by auto
next
  case True
  then obtain d e where d: "node_data fs v = RD_Directory d" "map_of d name = Some e" by blast
  define f1 where "f1 = set_data fs v (RD_Directory (AList.delete name d))"
  define f2 where "f2 = set_links f1 (de_ino e) (ri_links (rf_cell fs (de_ino e)) - 1)"
  note c = unlink_counts [OF wf v d f2_def [unfolded f1_def]] and en = wf_entry [OF wf v d] and p = wf_parts [OF wf]
    and eq = ram_unlink_eq [OF wf v d f1_def f2_def, of mode]
  have ck: "unlink_check (node_data f1 (de_ino e)) mode = None"
    using u r eq unlink_check_errors [of "node_data f1 (de_ino e)" mode] by (auto split: option.splits)
  have T: "rf_inodes f2 = rf_inodes fs" by (simp add: f2_def f1_def)
  have lk: "ri_links (rf_cell f2 j) = refs f2 j" "refs f2 j \<le> 65535" "j \<noteq> de_ino e \<Longrightarrow> (0 < refs f2 j) = (j \<noteq> 1)"
    if "j \<in> set (rf_inodes f2)" for j
    using c(4) [of j] c(5) [of j] p(3) that T by (auto simp: links_ok_def)
  have ne: "dir_entries (node_data f2 (de_ino e)) = []" using unlink_check_none [OF ck] by (simp add: f2_def)
  show ?thesis
  proof (cases "ri_links (rf_cell fs (de_ino e)) = 1")
    case True
    then have "refs f2 (de_ino e) = 0" using c(4) [of "de_ino e"] en(4) by simp
    then have "ramfs_wf (f2\<lparr>rf_inodes := remove1 (de_ino e) (rf_inodes f2)\<rparr>)"
      using lk ne en(5) by (intro drop_node_wf c(1-3)) auto
    then show ?thesis using True u eq ck by simp
  next
    case False
    then have "0 < refs f2 (de_ino e)" using c(4) [of "de_ino e"] en(3,4) by simp
    then have "links_ok f2" unfolding links_ok_def using lk en(5) by metis
    then show ?thesis using False u eq ck c(1-3) by (simp add: ramfs_wf_def)
  qed
qed

lemma ram_unlink_no_panic:
  assumes "ramfs_wf fs" "v \<in> set (rf_inodes fs)"
  shows "ram_unlink fs v name mode \<noteq> None"
proof (cases "\<exists>d e. node_data fs v = RD_Directory d \<and> map_of d name = Some e")
  case False
  then show ?thesis using ram_unlink_miss [OF False, of mode] by auto
next
  case True
  then obtain d e where d: "node_data fs v = RD_Directory d" "map_of d name = Some e" by blast
  show ?thesis using ram_unlink_eq [OF assms d refl refl, of mode] by (simp split: option.splits)
qed

subsection \<open>Adding a name\<close>

lemma set_update: "map_of d n = None \<Longrightarrow> set (AList.update n e d) = insert (n, e) (set d)"
  by (induction d) (auto split: if_splits)

lemma ram_link_wf:
  assumes wf: "ramfs_wf fs" and v: "v \<in> set (rf_inodes fs)" and l: "ram_link fail fs v name i = Some (r, fs')"
  shows "ramfs_wf fs'"
proof (cases "r = Ok ()")
  case False
  then show ?thesis using l wf by (auto simp: ram_link_def Let_def split: option.splits if_splits)
next
  case True
  then obtain d where d: "node_data fs v = RD_Directory d" "map_of d name = None" "i \<in> set (rf_inodes fs)"
    "0 < ri_links (rf_cell fs i)" "ri_links (rf_cell fs i) < 65535" and
    fs': "fs' = set_data (set_links fs i (ri_links (rf_cell fs i) + 1)) v
      (RD_Directory (AList.update name (new_dirent (ri_ino (rf_cell fs i)) (data_node_type (node_data fs i)) name) d))"
    using l by (auto simp: ram_link_def Let_def as_directory_iff split: option.splits if_splits)
  let ?e = "new_dirent (ri_ino (rf_cell fs i)) (data_node_type (node_data fs i)) name"
  note p = wf_parts [OF wf] and w = wf_dir [OF wf v d(1)]
  have ino: "ri_ino (rf_cell fs i) = i" using p(1) d(3) by (simp add: table_ok_def)
  have s: "same_nodes fs fs'" using d(1) by (simp add: same_nodes_def fs')
  have "dirs_ok fs'"
  proof (rule dirs_ok_change [OF p(2) s, where v = v])
    show "distinct (map fst (dir_entries (node_data fs' v)))" using w(1) by (simp add: fs' distinct_update)
    show "\<forall>x\<in>set (dir_entries (node_data fs' v)). entry_ok fs x"
      using w(2) d(2,3) ino by (auto simp: fs' set_update entry_ok_def new_dirent_def)
  qed (simp add: fs')
  moreover have "sizes_ok fs'" using d(1) by (intro sizes_ok_dirs [OF p(4)]) (auto simp: fs')
  moreover have rf: "refs fs' j = refs fs j + of_bool (i = j)" for j
    using refs_change [OF p(5) v, of fs' j 0 "of_bool (i = j)"] names_ino_update [OF d(2), of j ?e] d(1) ino
    by (simp add: fs' new_dirent_def)
  moreover have "links_ok fs'"
    unfolding links_ok_def
  proof
    fix j assume "j \<in> set (rf_inodes fs')"
    then have "ri_links (rf_cell fs j) = refs fs j \<and> refs fs j \<le> 65535 \<and> (0 < refs fs j) = (j \<noteq> 1)"
      using p(3) by (simp add: links_ok_def fs')
    then show "ri_links (rf_cell fs' j) = refs fs' j \<and> refs fs' j \<le> 65535 \<and> (0 < refs fs' j) = (j \<noteq> 1)"
      using d(4,5) rf [of j] by (auto simp: fs')
  qed
  ultimately show ?thesis using table_ok_same [OF p(1) s] by (simp add: ramfs_wf_def)
qed

lemma ram_link_no_panic:
  assumes "ramfs_wf fs" "i \<noteq> 1"
  shows "ram_link fail fs v name i \<noteq> None"
  using assms by (auto simp: ram_link_def Let_def ramfs_wf_def links_ok_def split: option.splits)

lemma spec_data_fresh [simp]: "dir_entries (spec_data s) = []" "data_node_type (spec_data s) = spec_node_type s"
  by (auto simp: spec_data_def dir_entries_def data_node_type_def spec_node_type_def split: make_file_spec.splits)

text \<open>A fresh node enters the table; nothing names it yet.\<close>

lemma add_node:
  assumes wf: "ramfs_wf fs" and c: "rf_ino_ctr fs = ino" "ino + 1 < 2 ^ 64" "dir_entries x = []"
    and sz: "case x of RD_Regular b \<Rightarrow> b = [] | _ \<Rightarrow> True"
    and f: "f = fs\<lparr>rf_ino_ctr := (ino + 1) mod 2 ^ 64, rf_cell := (rf_cell fs)(ino := mk_inode x 1 ino now), rf_inodes := ino # rf_inodes fs\<rparr>"
  shows "ino \<notin> set (rf_inodes fs)" "ino \<noteq> 1" "table_ok f" "dirs_ok f" "sizes_ok f" "refs f j = refs fs j" "refs f ino = 0"
    "\<forall>i\<in>set (rf_inodes fs). node_data f i = node_data fs i"
proof -
  note p = wf_parts [OF wf]
  show n: "ino \<notin> set (rf_inodes fs)" using p(1) c(1) by (auto simp: table_ok_def)
  have n1: "1 \<noteq> ino" "1 < ino" using p(1) c(1) by (auto simp: table_ok_def)
  then show "ino \<noteq> 1" by simp
  have nd: "node_data f i = (if i = ino then x else node_data fs i)" for i by (simp add: f node_data_def mk_inode_def)
  then show d: "\<forall>i\<in>set (rf_inodes fs). node_data f i = node_data fs i" using n by auto
  show "table_ok f" using p(1) c n n1 nd unfolding table_ok_def f by (auto simp: mk_inode_def)
  have e: "entry_ok f y" if "entry_ok fs y" for y using that d n by (auto simp: entry_ok_def f nd)
  show "dirs_ok f" unfolding dirs_ok_def
  proof
    fix d assume d: "d \<in> set (rf_inodes f)"
    show "distinct (map fst (dir_entries (node_data f d))) \<and> (\<forall>y\<in>set (dir_entries (node_data f d)). entry_ok f y)"
    proof (cases "d = ino")
      case False
      then have "d \<in> set (rf_inodes fs)" using d by (simp add: f)
      then show ?thesis using False p(2) e unfolding dirs_ok_def nd by simp
    qed (simp add: nd c(3))
  qed
  show "sizes_ok f" using p(4) sz n by (auto simp: sizes_ok_def f node_data_def mk_inode_def split: ram_fs_data.splits)
  have r: "refs f j = refs fs j" for j
  proof -
    have T: "set (rf_inodes f) = insert ino (set (rf_inodes fs))" by (simp add: f)
    have "(\<Sum>d\<in>set (rf_inodes fs). names_ino j (dir_entries (node_data f d))) = refs fs j"
      unfolding refs_def using d by (intro sum.cong) auto
    then show ?thesis unfolding refs_def T using n c(3) by (simp add: nd names_ino_def)
  qed
  then show "refs f j = refs fs j" .
  show "refs f ino = 0" unfolding r refs_zero using p(2) n unfolding dirs_ok_def entry_ok_def by blast
qed

lemma ctr_bump:
  assumes "ramfs_wf fs" "rf_ino_ctr fs \<le> n"
  shows "ramfs_wf (fs\<lparr>rf_ino_ctr := n\<rparr>)"
proof -
  have r: "refs (fs\<lparr>rf_ino_ctr := n\<rparr>) i = refs fs i" for i by (simp add: refs_def)
  have e: "entry_ok (fs\<lparr>rf_ino_ctr := n\<rparr>) x = entry_ok fs x" for x by (simp add: entry_ok_def)
  have s: "same_nodes fs (fs\<lparr>rf_ino_ctr := n\<rparr>)" using assms(2) by (simp add: same_nodes_def)
  show ?thesis using wf_parts [OF assms(1)] table_ok_same [OF _ s]
    by (simp add: ramfs_wf_def dirs_ok_def links_ok_def sizes_ok_def r e)
qed

lemma spec_data_empty: "case spec_data s of RD_Regular b \<Rightarrow> b = [] | _ \<Rightarrow> True"
  by (auto simp: spec_data_def split: make_file_spec.splits)

definition with_node :: "ram_fs \<Rightarrow> ram_fs_data \<Rightarrow> nat \<Rightarrow> ram_fs" where
  "with_node fs x now = fs\<lparr>rf_ino_ctr := (rf_ino_ctr fs + 1) mod 2 ^ 64,
     rf_cell := (rf_cell fs)(rf_ino_ctr fs := mk_inode x 1 (rf_ino_ctr fs) now), rf_inodes := rf_ino_ctr fs # rf_inodes fs\<rparr>"

lemma ram_make_file_cases:
  assumes "ram_make_file fail now fs v name spec = (r, fs')"
  shows "(\<exists>e. r = Err e) \<and> (fs' = fs \<or> fs' = fs\<lparr>rf_ino_ctr := (rf_ino_ctr fs + 1) mod 2 ^ 64\<rparr>) \<or>
    (\<exists>d e. node_data fs v = RD_Directory d \<and> map_of d name = None \<and> e = new_dirent (rf_ino_ctr fs) (spec_node_type spec) name \<and>
      r = Ok (e, rf_ino_ctr fs) \<and> fs' = set_data (with_node fs (spec_data spec) now) v (RD_Directory (AList.update name e d)))"
proof (cases "as_directory (node_data fs v)")
  case None
  then show ?thesis using assms by (auto simp: ram_make_file_def)
next
  case (Some d)
  have d: "node_data fs v = RD_Directory d" using Some by (simp add: as_directory_iff)
  have n: "ri_data (mk_inode (spec_data spec) 1 (rf_ino_ctr fs) now) = spec_data spec" by (simp add: mk_inode_def)
  show ?thesis
  proof (cases "map_of d name = None \<and> (rf_allow_devfiles fs \<or> \<not> is_dev_spec spec)")
    case False
    then show ?thesis using assms d unfolding ram_make_file_def by (auto split: if_splits)
  next
    case True
    then have "(case fail of Some e \<Rightarrow> (Err e, fs\<lparr>rf_ino_ctr := (rf_ino_ctr fs + 1) mod 2 ^ 64\<rparr>) | None \<Rightarrow>
        (Ok (new_dirent (rf_ino_ctr fs) (spec_node_type spec) name, rf_ino_ctr fs),
         set_data (with_node fs (spec_data spec) now) v
           (RD_Directory (AList.update name (new_dirent (rf_ino_ctr fs) (spec_node_type spec) name) d)))) = (r, fs')"
      using assms d n by (cases fail) (auto simp: ram_make_file_def Let_def with_node_def)
    then show ?thesis using d True by (cases fail) auto
  qed
qed

lemma ram_make_file_wf:
  assumes wf: "ramfs_wf fs" and v: "v \<in> set (rf_inodes fs)" and c: "rf_ino_ctr fs + 1 < 2 ^ 64"
    and m: "ram_make_file fail now fs v name spec = (r, fs')"
  shows "ramfs_wf fs'"
proof -
  let ?i = "rf_ino_ctr fs" and ?x = "spec_data spec"
  define f where "f = with_node fs ?x now"
  note f_def = f_def [unfolded with_node_def]
  note p = wf_parts [OF wf] and a = add_node [OF wf refl c spec_data_fresh(1) spec_data_empty f_def]
  have bump: "ramfs_wf (fs\<lparr>rf_ino_ctr := (?i + 1) mod 2 ^ 64\<rparr>)"
    using ctr_bump [OF wf] c by simp
  consider "fs' = fs" | "fs' = fs\<lparr>rf_ino_ctr := (?i + 1) mod 2 ^ 64\<rparr>" | d where "node_data fs v = RD_Directory d" "map_of d name = None"
      "fs' = set_data f v (RD_Directory (AList.update name (new_dirent ?i (spec_node_type spec) name) d))"
    using ram_make_file_cases [OF m] unfolding f_def with_node_def by blast
  then show ?thesis
  proof cases
    case (3 d)
    let ?e = "new_dirent ?i (spec_node_type spec) name"
    have vf: "v \<in> set (rf_inodes f)" "node_data f v = RD_Directory d" using v 3(1) a(8) by (auto simp: f_def)
    have w: "distinct (map fst d)" "\<forall>x\<in>set d. entry_ok f x" using a(4) vf unfolding dirs_ok_def by force+
    have s: "same_nodes f fs'" using vf(2) by (simp add: same_nodes_def 3(3))
    have it: "?i \<in> set (rf_inodes f)" "node_data f ?i = ?x" by (simp_all add: f_def node_data_def mk_inode_def)
    have "dirs_ok fs'"
    proof (rule dirs_ok_change [OF a(4) s, where v = v])
      show "distinct (map fst (dir_entries (node_data fs' v)))" using w(1) by (simp add: 3(3) distinct_update)
      show "\<forall>x\<in>set (dir_entries (node_data fs' v)). entry_ok f x"
        using w(2) it 3(2) by (auto simp: 3(3) set_update entry_ok_def new_dirent_def)
    qed (simp add: 3(3))
    moreover have "sizes_ok fs'" using vf(2) by (intro sizes_ok_dirs [OF a(5)]) (auto simp: 3(3))
    moreover have rf: "refs fs' j = refs fs j + of_bool (?i = j)" for j
      using refs_change [OF _ vf(1), of fs' j 0 "of_bool (?i = j)"] names_ino_update [OF 3(2), of j ?e] vf(2) a(3,6)
      by (simp add: 3(3) new_dirent_def table_ok_def)
    moreover have "links_ok fs'" unfolding links_ok_def
    proof
      fix j assume j: "j \<in> set (rf_inodes fs')"
      have z: "refs fs ?i = 0" using a(6) [of ?i] a(7) by simp
      show "ri_links (rf_cell fs' j) = refs fs' j \<and> refs fs' j \<le> 65535 \<and> (0 < refs fs' j) = (j \<noteq> 1)"
      proof (cases "j = ?i")
        case True
        then show ?thesis using rf [of j] a(2) z by (simp add: 3(3) f_def mk_inode_def)
      next
        case False
        then have "j \<in> set (rf_inodes fs)" "ri_links (rf_cell fs' j) = ri_links (rf_cell fs j)" using j by (simp_all add: 3(3) f_def)
        then show ?thesis using rf [of j] False p(3) unfolding links_ok_def by simp
      qed
    qed
    ultimately show ?thesis using table_ok_same [OF a(3) s] by (simp add: ramfs_wf_def)
  qed (use wf bump in simp_all)
qed

subsection \<open>Moving a name\<close>

definition frame_ok :: "ram_fs \<Rightarrow> bool" where
  "frame_ok fs \<longleftrightarrow> table_ok fs \<and> dirs_ok fs \<and> sizes_ok fs"

lemma frame_dir:
  assumes "frame_ok fs" "v \<in> set (rf_inodes fs)" "node_data fs v = RD_Directory d"
  shows "distinct (map fst d)" "\<forall>x\<in>set d. entry_ok fs x" "distinct (rf_inodes fs)"
  using assms unfolding frame_ok_def dirs_ok_def table_ok_def by force+

lemma set_dir_frame:
  assumes "frame_ok fs" "node_data fs v = RD_Directory d" "distinct (map fst d')" "\<forall>x\<in>set d'. entry_ok fs x"
  shows "frame_ok (set_data fs v (RD_Directory d'))"
proof -
  have s: "same_nodes fs (set_data fs v (RD_Directory d'))" using assms(2) by (simp add: same_nodes_def)
  have "dirs_ok (set_data fs v (RD_Directory d'))"
    using assms by (intro dirs_ok_change [OF _ s, where v = v]) (simp_all add: frame_ok_def)
  moreover have "sizes_ok (set_data fs v (RD_Directory d'))"
  proof (rule sizes_ok_dirs)
    show "sizes_ok fs" using assms(1) by (simp add: frame_ok_def)
  qed (use assms(2) in simp_all)
  ultimately show ?thesis using table_ok_same [OF _ s] assms(1) by (simp add: frame_ok_def)
qed

lemma del_entry:
  assumes "frame_ok fs" "v \<in> set (rf_inodes fs)" "node_data fs v = RD_Directory d" "map_of d n = Some e"
  shows "frame_ok (set_data fs v (RD_Directory (AList.delete n d)))"
    "refs (set_data fs v (RD_Directory (AList.delete n d))) j + of_bool (de_ino e = j) = refs fs j"
proof -
  note f = frame_dir [OF assms(1-3)]
  show "frame_ok (set_data fs v (RD_Directory (AList.delete n d)))"
  proof (rule set_dir_frame [OF assms(1,3)])
    show "distinct (map fst (AList.delete n d))" by (rule distinct_delete [OF f(1)])
    show "\<forall>x\<in>set (AList.delete n d). entry_ok fs x" using f(2) by (auto simp: AList.delete_eq)
  qed
  show "refs (set_data fs v (RD_Directory (AList.delete n d))) j + of_bool (de_ino e = j) = refs fs j"
    using refs_change [OF f(3) assms(2), of "set_data fs v (RD_Directory (AList.delete n d))" j "of_bool (de_ino e = j)" 0]
      names_ino_delete [OF f(1) assms(4), of j] assms(3) by simp
qed

lemma add_entry:
  assumes "frame_ok fs" "v \<in> set (rf_inodes fs)" "node_data fs v = RD_Directory d" "map_of d n = None" "entry_ok fs (n, e)"
  shows "frame_ok (set_data fs v (RD_Directory (AList.update n e d)))"
    "refs (set_data fs v (RD_Directory (AList.update n e d))) j = refs fs j + of_bool (de_ino e = j)"
proof -
  note f = frame_dir [OF assms(1-3)]
  show "frame_ok (set_data fs v (RD_Directory (AList.update n e d)))"
    using f assms(4,5) by (intro set_dir_frame [OF assms(1,3)]) (auto simp: distinct_update set_update)
  show "refs (set_data fs v (RD_Directory (AList.update n e d))) j = refs fs j + of_bool (de_ino e = j)"
    using refs_change [OF f(3) assms(2), of "set_data fs v (RD_Directory (AList.update n e d))" j 0 "of_bool (de_ino e = j)"]
      names_ino_update [OF assms(4), of j e] assms(3) by simp
qed

lemma wf_frame: "ramfs_wf fs \<Longrightarrow> frame_ok fs"
  by (simp add: ramfs_wf_def frame_ok_def)

text \<open>Nothing but the entries changed, and every node is named as often as before.\<close>

lemma wf_rearranged:
  assumes "ramfs_wf fs" "frame_ok fs'" "rf_inodes fs' = rf_inodes fs" "\<And>j. refs fs' j = refs fs j"
    "\<And>j. ri_links (rf_cell fs' j) = ri_links (rf_cell fs j)"
  shows "ramfs_wf fs'"
  using assms by (simp add: ramfs_wf_def frame_ok_def links_ok_def)

lemma renamed_ok: "entry_ok fs (n, e) \<Longrightarrow> entry_ok fs (n', e\<lparr>de_name := n'\<rparr>)"
  by (simp add: entry_ok_def)

lemma ram_rename_wf:
  assumes wf: "ramfs_wf fs" and v: "v \<in> set (rf_inodes fs)" and r: "ram_rename fs v a b = (r, fs')"
  shows "ramfs_wf fs'"
proof (cases "fs' = fs")
  case False
  then obtain d e where d: "node_data fs v = RD_Directory d" "a \<noteq> b" "map_of d a = Some e" "map_of d b = None" and
    fs': "fs' = set_data fs v (RD_Directory (AList.delete a (AList.update b (e\<lparr>de_name := b\<rparr>) d)))"
    using r by (auto simp: ram_rename_def Let_def as_directory_iff split: option.splits if_splits)
  let ?e = "e\<lparr>de_name := b\<rparr>" and ?d = "AList.update b (e\<lparr>de_name := b\<rparr>) d"
  let ?f = "set_data fs v (RD_Directory ?d)"
  have en: "entry_ok fs (b, ?e)" by (rule renamed_ok [OF wf_entry(1) [OF wf v d(1,3)]])
  note ad = add_entry [OF wf_frame [OF wf] v d(1,4) en]
  have f: "v \<in> set (rf_inodes ?f)" "node_data ?f v = RD_Directory ?d" "map_of ?d a = Some e"
    using v d by (simp_all add: update_conv')
  note de = del_entry [OF ad(1) f]
  have e: "set_data ?f v (RD_Directory (AList.delete a ?d)) = fs'" by (simp add: fs' set_data_def)
  have "refs fs' j = refs fs j" for j using de(2) [of j, unfolded e] ad(2) [of j] by simp
  then show ?thesis using de(1) [unfolded e] by (intro wf_rearranged [OF wf]) (simp_all add: fs')
qed (use wf in simp)

lemma move_entry_wf:
  assumes wf: "ramfs_wf fs" and v: "v \<in> set (rf_inodes fs)" "w \<in> set (rf_inodes fs)"
    and r: "move_entry fs v a w b = Some (r, fs')" "r \<noteq> Err EEXIST"
  shows "ramfs_wf fs'"
proof (cases "fs' = fs")
  case False
  then obtain d e where d: "node_data fs v = RD_Directory d" "map_of d a = Some e"
    using r by (auto simp: move_entry_def Let_def as_directory_iff split: option.splits if_splits)
  let ?f = "set_data fs v (RD_Directory (AList.delete a d))"
  obtain dd where dd: "node_data ?f w = RD_Directory dd" "map_of dd b = None"
    "fs' = set_data ?f w (RD_Directory (AList.update b (e\<lparr>de_name := b\<rparr>) dd))"
    using r d unfolding move_entry_def Let_def by (auto simp: as_directory_iff split: option.splits if_splits)
  note de = del_entry [OF wf_frame [OF wf] v(1) d]
  have en: "entry_ok ?f (b, e\<lparr>de_name := b\<rparr>)"
    using wf_entry(1) [OF wf v(1) d] d(1) by (auto simp: entry_ok_def)
  have w: "w \<in> set (rf_inodes ?f)" using v(2) by simp
  note ad = add_entry [OF de(1) w dd(1,2) en]
  have "refs fs' j = refs fs j" for j using de(2) [of j] ad(2) [of j] unfolding dd(3) by simp
  then show ?thesis using ad(1) by (intro wf_rearranged [OF wf]) (simp_all add: dd(3))
qed (use wf in simp)

subsection \<open>Files\<close>

lemma read_multiple_length: "read_multiple m u i out = (r, new, m') \<Longrightarrow> length new = length out"
  using copy_from_user_spec [of out m "us_ptr u + i * us_size u"] by (auto simp: read_multiple_def copied_def)

text \<open>A regular file gets new contents, and the size that belongs to them.\<close>

lemma set_regular_wf:
  assumes wf: "ramfs_wf fs" and v: "node_data fs v = RD_Regular b"
    and fs': "rf_inodes fs' = rf_inodes fs" "rf_ino_ctr fs' = rf_ino_ctr fs"
      "\<And>i. i \<noteq> v \<Longrightarrow> rf_cell fs' i = rf_cell fs i" "ri_ino (rf_cell fs' v) = ri_ino (rf_cell fs v)"
      "ri_links (rf_cell fs' v) = ri_links (rf_cell fs v)" "node_data fs' v = RD_Regular b'"
      "v \<in> set (rf_inodes fs) \<Longrightarrow> ri_size (rf_cell fs' v) = length b'"
  shows "ramfs_wf fs'"
proof -
  note p = wf_parts [OF wf]
  have nd: "node_data fs' i = node_data fs i" if "i \<noteq> v" for i using fs'(3) [OF that] by (simp add: node_data_def)
  have de: "dir_entries (node_data fs' i) = dir_entries (node_data fs i)" for i
    using nd [of i] v fs'(6) by (cases "i = v") simp_all
  have s: "same_nodes fs fs'" unfolding same_nodes_def
  proof (intro conjI allI)
    fix i
    show "data_node_type (node_data fs' i) = data_node_type (node_data fs i)" using nd [of i] v fs'(6) by (cases "i = v") simp_all
    show "ri_ino (rf_cell fs' i) = ri_ino (rf_cell fs i)" using fs'(3) [of i] fs'(4) by (cases "i = v") simp_all
  qed (use fs'(1,2) in simp_all)
  have r: "refs fs' i = refs fs i" for i using fs'(1) de by (intro refs_cong) simp_all
  have l: "ri_links (rf_cell fs' i) = ri_links (rf_cell fs i)" for i using fs'(3) [of i] fs'(5) by (cases "i = v") simp_all
  have "dirs_ok fs'" using p(2) entry_ok_same [OF _ s] fs'(1) unfolding dirs_ok_def de by simp
  moreover have "links_ok fs'" using p(3) fs'(1) unfolding links_ok_def r l by simp
  moreover have "sizes_ok fs'" unfolding sizes_ok_def
  proof
    fix i assume "i \<in> set (rf_inodes fs')"
    then show "ri_size (rf_cell fs' i) = (case node_data fs' i of RD_Regular b \<Rightarrow> length b | _ \<Rightarrow> 0)"
      using fs'(1,3,6,7) nd [of i] p(4) by (cases "i = v") (simp_all add: sizes_ok_def)
  qed
  ultimately show ?thesis using table_ok_same [OF p(1) s] by (simp add: ramfs_wf_def)
qed

lemma ram_resize_wf:
  assumes wf: "ramfs_wf fs" and r: "ram_resize fs v n oom = (r, fs')"
  shows "ramfs_wf fs'"
proof (cases "as_regular (node_data fs v)")
  case (Some b)
  then have b: "node_data fs v = RD_Regular b" by (simp add: as_regular_iff)
  show ?thesis
  proof (cases oom)
    case False
    let ?b = "take n b @ replicate (n - length b) 0"
    have "fs' = (let f = set_data fs v (RD_Regular ?b) in f\<lparr>rf_cell := (rf_cell f)(v := (rf_cell f v)\<lparr>ri_size := n\<rparr>)\<rparr>)"
      using r False Some by (simp add: ram_resize_def Let_def)
    then show ?thesis
      by (intro set_regular_wf [OF wf b, of _ ?b]) (simp_all add: Let_def set_data_def node_data_def)
  qed (use r Some wf in \<open>simp add: ram_resize_def\<close>)
qed (use r wf in \<open>simp add: ram_resize_def\<close>)

lemma ram_write_wf:
  assumes wf: "ramfs_wf fs" and v: "v \<in> set (rf_inodes fs)" and w: "ram_write fs v m off u = (r, fs', m')"
  shows "ramfs_wf fs'"
proof (cases "fs' = fs")
  case False
  obtain b where b: "node_data fs v = RD_Regular b"
    using w False by (auto simp: ram_write_def as_regular_iff split: option.splits)
  have e: "off + us_length u \<le> usize_max \<and> off + us_length u \<le> length b"
    using w False b by (auto simp: ram_write_def as_regular_def checked_add_def split: if_splits)
  obtain new where new: "read_multiple m u off (take (us_length u) (drop off b)) = (r, new, m')"
    "fs' = set_data fs v (RD_Regular (take off b @ new @ drop (off + us_length u) b))"
    using w b e by (auto simp: ram_write_def as_regular_def checked_add_def split: prod.splits)
  have "ri_size (rf_cell fs v) = length b" using wf_parts(4) [OF wf] v b by (simp add: sizes_ok_def)
  moreover have "length (take off b @ new @ drop (off + us_length u) b) = length b"
    using read_multiple_length [OF new(1)] e by (simp add: min_def) linarith
  ultimately show ?thesis
    by (intro set_regular_wf [OF wf b, of _ "take off b @ new @ drop (off + us_length u) b"])
      (simp_all add: new(2) set_data_def node_data_def)
qed (use wf in simp)

section \<open>Runs\<close>

text \<open>
  One call on a vnode of the table. An \<open>unlink\<close> that fails its checks and a move onto an existing name
  are left out: they lose an entry (below).
\<close>

inductive ram_step :: "ram_fs \<Rightarrow> ram_fs \<Rightarrow> bool" where
  step_make: "v \<in> set (rf_inodes fs) \<Longrightarrow> rf_ino_ctr fs + 1 < 2 ^ 64 \<Longrightarrow> ram_make_file fail now fs v name spec = (r, fs') \<Longrightarrow> ram_step fs fs'"
| step_unlink: "v \<in> set (rf_inodes fs) \<Longrightarrow> ram_unlink fs v name mode = Some (r, fs') \<Longrightarrow>
    r \<notin> {Err EISDIR, Err ENOTEMPTY, Err ENOTDIR} \<Longrightarrow> ram_step fs fs'"
| step_link: "v \<in> set (rf_inodes fs) \<Longrightarrow> ram_link fail fs v name i = Some (r, fs') \<Longrightarrow> ram_step fs fs'"
| step_rename: "v \<in> set (rf_inodes fs) \<Longrightarrow> ram_rename fs v a b = (r, fs') \<Longrightarrow> ram_step fs fs'"
| step_move: "v \<in> set (rf_inodes fs) \<Longrightarrow> w \<in> set (rf_inodes fs) \<Longrightarrow> move_entry fs v a w b = Some (r, fs') \<Longrightarrow>
    r \<noteq> Err EEXIST \<Longrightarrow> ram_step fs fs'"
| step_resize: "ram_resize fs v n oom = (r, fs') \<Longrightarrow> ram_step fs fs'"
| step_write: "v \<in> set (rf_inodes fs) \<Longrightarrow> ram_write fs v m off u = (r, fs', m') \<Longrightarrow> ram_step fs fs'"

lemma ram_step_wf: "ram_step fs fs' \<Longrightarrow> ramfs_wf fs \<Longrightarrow> ramfs_wf fs'"
  by (induction rule: ram_step.induct)
    (blast intro: ram_make_file_wf ram_unlink_wf ram_link_wf ram_rename_wf move_entry_wf ram_resize_wf ram_write_wf)+


definition demo_fs :: ram_fs where
  "demo_fs = snd (ram_make_file None 0 (ramfs_new False 0) 1 [97] MF_Directory)"

lemma demo_fs_step: "ram_step (ramfs_new False 0) demo_fs"
proof -
  have "ram_make_file None 0 (ramfs_new False 0) 1 [97] MF_Directory = (fst (ram_make_file None 0 (ramfs_new False 0) 1 [97] MF_Directory), demo_fs)"
    by (simp add: demo_fs_def)
  then show ?thesis by (rule step_make [rotated 2]) (simp_all add: ramfs_new_def)
qed


section \<open>What the calls do to names\<close>

lemma find_dirent_set [simp]:
  "find_dirent (set_data fs v (RD_Directory d)) w n =
    (if w = v then (case map_of d n of None \<Rightarrow> Err ENOENT | Some e \<Rightarrow> Ok e) else find_dirent fs w n)"
  by (simp add: find_dirent_def)

lemma find_dirent_links [simp]: "find_dirent (set_links fs i k) w n = find_dirent fs w n"
  by (simp add: find_dirent_def)

lemma find_dirent_inodes [simp]: "find_dirent (fs\<lparr>rf_inodes := xs\<rparr>) w n = find_dirent fs w n"
  by (simp add: find_dirent_def)

lemma find_dirent_dir: "node_data fs v = RD_Directory d \<Longrightarrow> find_dirent fs v n = (case map_of d n of None \<Rightarrow> Err ENOENT | Some e \<Rightarrow> Ok e)"
  by (simp add: find_dirent_def)

lemma make_file_names:
  assumes "ramfs_wf fs" "v \<in> set (rf_inodes fs)" "w \<in> set (rf_inodes fs)" "ram_make_file fail now fs v name spec = (Ok (e, i), fs')"
  shows "i \<notin> set (rf_inodes fs) \<and> i \<in> set (rf_inodes fs') \<and> de_ino e = i \<and> ram_get_type fs' i = spec_node_type spec \<and>
    find_dirent fs v name = Err ENOENT \<and> find_dirent fs' w n = (if w = v \<and> n = name then Ok e else find_dirent fs w n)"
proof -
  let ?c = "rf_ino_ctr fs"
  obtain d where d: "node_data fs v = RD_Directory d" "map_of d name = None" "e = new_dirent ?c (spec_node_type spec) name" "i = ?c"
    "fs' = set_data (with_node fs (spec_data spec) now) v (RD_Directory (AList.update name e d))"
    using ram_make_file_cases [OF assms(4)] by auto
  have c: "?c \<notin> set (rf_inodes fs)" using wf_parts(1) [OF assms(1)] by (auto simp: table_ok_def)
  have nw: "node_data (with_node fs (spec_data spec) now) j = (if j = ?c then spec_data spec else node_data fs j)" for j
    by (simp add: with_node_def node_data_def mk_inode_def)
  have w: "w \<noteq> ?c" "v \<noteq> ?c" using c assms(2,3) by auto
  then have "find_dirent fs' w n = (if w = v \<and> n = name then Ok e else find_dirent fs w n)"
    using nw [of w] d(1) by (simp add: d(5) update_conv' find_dirent_def)
  moreover have "ram_get_type fs' i = spec_node_type spec" using w(2) nw [of ?c] by (simp add: ram_get_type_def d(4,5))
  ultimately show ?thesis using c d(1-4) by (simp add: find_dirent_def new_dirent_def d(5) with_node_def)
qed

lemma unlink_names:
  assumes "ramfs_wf fs" "v \<in> set (rf_inodes fs)" "ram_unlink fs v name mode = Some (Ok (), fs')"
  shows "\<exists>e. find_dirent fs v name = Ok e \<and> find_dirent fs' w n = (if w = v \<and> n = name then Err ENOENT else find_dirent fs w n) \<and>
    (de_ino e \<in> set (rf_inodes fs') \<longleftrightarrow> refs fs (de_ino e) \<noteq> 1)"
proof -
  have "\<exists>d e. node_data fs v = RD_Directory d \<and> map_of d name = Some e"
    using assms(3) ram_unlink_miss [of fs v name mode] by fastforce
  then obtain d e where d: "node_data fs v = RD_Directory d" "map_of d name = Some e" by blast
  note en = wf_entry [OF assms(1,2) d] and dt = wf_parts(5) [OF assms(1)]
  let ?f1 = "set_data fs v (RD_Directory (AList.delete name d))"
  let ?f2 = "set_links ?f1 (de_ino e) (ri_links (rf_cell fs (de_ino e)) - 1)"
  have fs': "fs' = (if ri_links (rf_cell fs (de_ino e)) = 1 then ?f2\<lparr>rf_inodes := remove1 (de_ino e) (rf_inodes ?f2)\<rparr> else ?f2)"
    using assms(3) ram_unlink_eq [OF assms(1,2) d refl refl, of mode]
    by (cases "unlink_check (node_data ?f1 (de_ino e)) mode") simp_all
  have f: "find_dirent fs' w n = find_dirent ?f2 w n" unfolding fs' by simp
  have "find_dirent ?f2 w n = (if w = v \<and> n = name then Err ENOENT else find_dirent fs w n)"
    using d by (simp add: delete_conv' find_dirent_def)
  moreover have "de_ino e \<in> set (rf_inodes fs') \<longleftrightarrow> refs fs (de_ino e) \<noteq> 1"
    unfolding fs' using en(2,4) dt by simp
  moreover have "find_dirent fs v name = Ok e" using d by (simp add: find_dirent_def)
  ultimately show ?thesis using f by auto
qed

lemma rename_names:
  assumes "ram_rename fs v a b = (Ok e, fs')" "a \<noteq> b"
  shows "\<exists>e0. find_dirent fs v a = Ok e0 \<and> e = e0\<lparr>de_name := b\<rparr> \<and> find_dirent fs v b = Err ENOENT \<and>
    find_dirent fs' w n = (if w = v \<and> n = a then Err ENOENT else if w = v \<and> n = b then Ok e else find_dirent fs w n)"
proof -
  obtain d where d: "node_data fs v = RD_Directory d"
    using assms(1) by (auto simp: ram_rename_def as_directory_iff split: option.splits)
  obtain e0 where e: "map_of d a = Some e0"
    using assms d by (cases "map_of d a") (simp_all add: ram_rename_def)
  have b: "map_of d b = None"
    using assms d e by (cases "map_of d b") (simp_all add: ram_rename_def)
  have "e = e0\<lparr>de_name := b\<rparr>" "fs' = set_data fs v (RD_Directory (AList.delete a (AList.update b e d)))"
    using assms d e b by (auto simp: ram_rename_def Let_def)
  then show ?thesis using d e b assms(2) by (auto simp: find_dirent_def delete_conv' update_conv')
qed

text \<open>
  C22. Creating, removing and renaming change exactly the names they are about: after a successful
  \<open>make_file\<close> the name, which was free, finds the new node, whose number was unused and whose type is the one
  asked for; after a successful \<open>unlink\<close> the name is free, and the node is gone exactly when that was its
  last name; after a successful \<open>rename\<close> the new name, which was free, finds the old entry and the old
  name is free. Every other name of every directory finds what it found before.
\<close>

theorem ramfs_names_correct:
  assumes "ramfs_wf fs" "v \<in> set (rf_inodes fs)" "w \<in> set (rf_inodes fs)" "a \<noteq> b"
  shows "(ram_make_file fail now fs v name spec = (Ok (e, i), fs') \<longrightarrow>
      i \<notin> set (rf_inodes fs) \<and> i \<in> set (rf_inodes fs') \<and> de_ino e = i \<and> ram_get_type fs' i = spec_node_type spec \<and>
      find_dirent fs v name = Err ENOENT \<and> find_dirent fs' w n = (if w = v \<and> n = name then Ok e else find_dirent fs w n)) \<and>
    (ram_unlink fs v name mode = Some (Ok (), fs') \<longrightarrow>
      (\<exists>e. find_dirent fs v name = Ok e \<and> find_dirent fs' w n = (if w = v \<and> n = name then Err ENOENT else find_dirent fs w n) \<and>
        (de_ino e \<in> set (rf_inodes fs') \<longleftrightarrow> refs fs (de_ino e) \<noteq> 1))) \<and>
    (ram_rename fs v a b = (Ok e, fs') \<longrightarrow>
      (\<exists>e0. find_dirent fs v a = Ok e0 \<and> e = e0\<lparr>de_name := b\<rparr> \<and> find_dirent fs v b = Err ENOENT \<and>
        find_dirent fs' w n = (if w = v \<and> n = a then Err ENOENT else if w = v \<and> n = b then Ok e else find_dirent fs w n)))"
proof (intro conjI impI)
  assume m: "ram_make_file fail now fs v name spec = (Ok (e, i), fs')"
  note t = make_file_names [OF assms(1-3) m, of n]
  show "i \<notin> set (rf_inodes fs)" "i \<in> set (rf_inodes fs')" "de_ino e = i" "ram_get_type fs' i = spec_node_type spec"
    "find_dirent fs v name = Err ENOENT" "find_dirent fs' w n = (if w = v \<and> n = name then Ok e else find_dirent fs w n)"
    using t by blast+
next
  assume "ram_unlink fs v name mode = Some (Ok (), fs')"
  then show "\<exists>e. find_dirent fs v name = Ok e \<and> find_dirent fs' w n = (if w = v \<and> n = name then Err ENOENT else find_dirent fs w n) \<and>
      (de_ino e \<in> set (rf_inodes fs') \<longleftrightarrow> refs fs (de_ino e) \<noteq> 1)" by (rule unlink_names [OF assms(1,2)])
next
  assume "ram_rename fs v a b = (Ok e, fs')"
  then show "\<exists>e0. find_dirent fs v a = Ok e0 \<and> e = e0\<lparr>de_name := b\<rparr> \<and> find_dirent fs v b = Err ENOENT \<and>
      find_dirent fs' w n = (if w = v \<and> n = a then Err ENOENT else if w = v \<and> n = b then Ok e else find_dirent fs w n)"
    using rename_names [OF _ assms(4)] by blast
qed

lemma demo_fs_eq: "demo_fs = set_data (with_node (ramfs_new False 0) (RD_Directory []) 0) 1
    (RD_Directory [([97], new_dirent 2 IT_Directory [97])])"
  by (simp add: demo_fs_def ram_make_file_def ramfs_new_def mk_inode_def node_data_def is_dev_spec_def Let_def with_node_def
    spec_data_def)

theorem ramfs_names_correct_witness:
  "\<exists>e fs'. ram_unlink demo_fs 1 [97] DirOnly = Some (Ok (), fs') \<and> find_dirent demo_fs 1 [97] = Ok e \<and>
    find_dirent fs' 1 [97] = Err ENOENT"
proof -
  have wf: "ramfs_wf demo_fs" using ram_step_wf [OF demo_fs_step ramfs_new_wf] .
  have v: "1 \<in> set (rf_inodes demo_fs)" using wf by (simp add: ramfs_wf_def table_ok_def)
  have "\<exists>fs'. ram_unlink demo_fs 1 [97] DirOnly = Some (Ok (), fs')"
    by (simp add: demo_fs_eq ram_unlink_def Let_def new_dirent_def with_node_def ramfs_new_def unlink_check_def node_data_def
      mk_inode_def set_data_def)
  then obtain fs' where u: "ram_unlink demo_fs 1 [97] DirOnly = Some (Ok (), fs')" by blast
  then show ?thesis using ramfs_names_correct [OF wf v v, of "[97]" "[98]" None 0 "[97]" MF_Fifo _ 0 fs' "[97]" DirOnly] by auto
qed

section \<open>Reading a directory\<close>

text \<open>A buffer with room for \<open>k\<close> entries, as the receivers of the system calls are.\<close>

definition push_upto :: "nat \<Rightarrow> dirent list \<Rightarrow> dirent \<Rightarrow> bool eresult \<times> dirent list" where
  "push_upto k buf e = (if length buf < k then (Ok True, buf @ [e]) else (Ok False, buf))"

lemma dirents_loop_upto:
  "length buf \<le> k \<Longrightarrow> dirents_loop (push_upto k) offset i buf es =
    (Ok (min (i + length es) (max i offset + (k - length buf))), buf @ take (k - length buf) (drop (offset - i) es))"
proof (induction es arbitrary: i buf)
  case (Cons e es)
  show ?case
  proof (cases "offset \<le> i")
    case True
    show ?thesis
    proof (cases "length buf < k")
      case l: True
      have t: "take (k - length buf) (e # es) = e # take (k - Suc (length buf)) es"
        using l by (simp add: take_Cons' Suc_diff_Suc)
      show ?thesis using True l Cons.IH [of "buf @ [e]" "i + 1"] t by (simp add: push_upto_def)
    qed (use True Cons.prems in \<open>simp add: push_upto_def\<close>)
  next
    case False
    then have "drop (offset - i) (e # es) = drop (offset - (i + 1)) es" by (simp add: drop_Cons' Suc_diff_Suc)
    then show ?thesis using False Cons.IH [OF Cons.prems, of "i + 1"] by simp
  qed
qed simp

text \<open>
  Successive calls deliver the entries of an unchanged directory in the order of names, none twice and
  none missed: from offset \<open>o\<close> the next \<open>k\<close> entries, and the offset to go on from.
\<close>

lemma get_dirents_upto:
  assumes "node_data fs v = RD_Directory d"
  shows "get_dirents (push_upto k) fs v off [] =
    (Ok (min (length d) (off + k)), take k (drop off (map snd (sort_key fst d))))"
  using assms dirents_loop_upto [of "[]" k off 0 "map snd (sort_key fst d)"] by (simp add: get_dirents_def)

section \<open>What goes wrong\<close>

text \<open>
  An \<open>unlink\<close> that its checks refuse has removed the entry already: the name is free, and the link count
  of the node no longer agrees with its entries.
\<close>

lemma refused_unlink_loses_entry:
  assumes wf: "ramfs_wf fs" and v: "v \<in> set (rf_inodes fs)" and u: "ram_unlink fs v name mode = Some (Err x, fs')"
    and x: "x \<in> {EISDIR, ENOTEMPTY, ENOTDIR}"
  shows "find_dirent fs' v name = Err ENOENT \<and> \<not> ramfs_wf fs'"
proof -
  have ne: "x \<noteq> EINVAL" "x \<noteq> ENOENT" using x
    by (auto simp: EISDIR_def ENOTEMPTY_def ENOTDIR_def EINVAL_def ENOENT_def)
  then have "\<exists>d e. node_data fs v = RD_Directory d \<and> map_of d name = Some e"
    using u ram_unlink_miss [of fs v name mode] by fastforce
  then obtain d e where d: "node_data fs v = RD_Directory d" "map_of d name = Some e" by blast
  let ?f = "set_data fs v (RD_Directory (AList.delete name d))"
  have f: "fs' = ?f" using u ram_unlink_eq [OF wf v d refl refl, of mode] by (auto split: option.splits)
  note en = wf_entry [OF wf v d]
  have "refs ?f (de_ino e) + 1 = refs fs (de_ino e)" using del_entry(2) [OF wf_frame [OF wf] v d, of "de_ino e"] by simp
  then have "ri_links (rf_cell ?f (de_ino e)) \<noteq> refs ?f (de_ino e)" using en(4) by simp
  then have "\<not> links_ok ?f" using en(2) unfolding links_ok_def by auto
  then show ?thesis using f by (simp add: ramfs_wf_def delete_conv')
qed

text \<open>A move onto an existing name has taken the entry out of its old directory before it fails.\<close>

lemma refused_move_loses_entry:
  assumes "move_entry fs v a w b = Some (Err EEXIST, fs')"
  shows "find_dirent fs' v a = Err ENOENT \<and> (\<exists>e. find_dirent fs v a = Ok e)"
proof -
  have "EEXIST \<noteq> ENOENT" by (simp add: EEXIST_def ENOENT_def)
  then obtain d e where d: "node_data fs v = RD_Directory d" "map_of d a = Some e"
    using assms by (auto simp: move_entry_def as_directory_iff split: option.splits)
  have "fs' = set_data fs v (RD_Directory (AList.delete a d))"
    using assms d unfolding move_entry_def Let_def by (auto split: option.splits if_splits)
  then show ?thesis using d by (simp add: delete_conv' find_dirent_def)
qed

text \<open>
  A write at an offset takes the bytes from that offset of the user's memory on, not from its start:
  here the first two bytes of the slice are 10 and 11, and the file gets the 12 and 13 behind its end.
\<close>

definition file_fs :: ram_fs where
  "file_fs = ramfs_new False 0\<lparr>rf_cell := (\<lambda>i. mk_inode (RD_Regular [0, 0, 0, 0]) 1 2 0)\<rparr>"

definition count_mem :: user_mem where
  "count_mem = \<lparr>um_byte = (\<lambda>a. Some (a - 4086)), um_writable = (\<lambda>a. True), um_sum = False\<rparr>"

lemma write_at_offset_skips_data:
  "node_data (fst (snd (ram_write file_fs 2 count_mem 2 \<lparr>us_ptr = 4096, us_length = 2, us_size = 1\<rparr>))) 2 = RD_Regular [0, 0, 12, 13]"
  by (simp add: ram_write_def file_fs_def ramfs_new_def node_data_def mk_inode_def as_regular_def checked_add_def usize_max_def
    read_multiple_def copy_from_user_def copy_from_loop.simps fallible_load_u8_def count_mem_def enable_sum_def wrapping_byte_add_def
    set_data_def)

text \<open>
  Nothing marks the vnode of a removed directory as removed, so a file can still be created through it;
  the new node is in the table, but no directory of the table names it.
\<close>

lemma create_in_removed_dir:
  assumes "ramfs_wf fs" "v \<notin> set (rf_inodes fs)" "v < rf_ino_ctr fs" "ram_make_file fail now fs v name spec = (Ok (e, i), fs')"
    "rf_ino_ctr fs + 1 < 2 ^ 64"
  shows "i \<in> set (rf_inodes fs') \<and> refs fs' i = 0"
proof -
  let ?c = "rf_ino_ctr fs"
  obtain d where d: "i = ?c" "fs' = set_data (with_node fs (spec_data spec) now) v (RD_Directory d)"
    using ram_make_file_cases [OF assms(4)] by auto
  note a = add_node [OF assms(1) refl assms(5) spec_data_fresh(1) spec_data_empty, of "with_node fs (spec_data spec) now" spec now]
  have vn: "v \<notin> set (rf_inodes (with_node fs (spec_data spec) now))" using assms(2,3) by (simp add: with_node_def)
  have "refs fs' i = refs (with_node fs (spec_data spec) now) i"
    using vn by (intro refs_cong) (auto simp: d(2))
  then show ?thesis using a(7) d by (simp add: with_node_def)
qed

end
