(* ===== verification/Path_Walk.thy ===== *)
theory Path_Walk
  imports Vfs_Types
begin

text \<open>
  Paths (\<open>src/filesystem/mod.rs\<close>): the walk from a directory down a path, through symbolic links, and the
  textual conversion of a path to an absolute one. The walk is over the directory cache: looking a
  name up, the kind of an entry and the root directory are arguments, with the state that looking up
  may change. The stack of pending link targets is a list with its top first; the code's is an array
  of \<open>LINK_MAX\<close> entries, so pushing beyond it is a panic, the value \<open>None\<close>.
\<close>

datatype dent_kind = DK_Negative | DK_Directory | DK_Symlink bytes | DK_File

abbreviation slash :: byte where "slash \<equiv> 47"

abbreviation dot :: byte where "dot \<equiv> 46"

section \<open>Walking\<close>

definition component_len :: "bytes \<Rightarrow> nat \<Rightarrow> nat" where
  "component_len name off = length (takeWhile (\<lambda>b. b \<noteq> slash) (drop off name))"

lemma component_len_pos: "off < length name \<Longrightarrow> name ! off \<noteq> slash \<Longrightarrow> 0 < component_len name off"
  unfolding component_len_def by (subst Cons_nth_drop_Suc [symmetric]) simp_all

lemma component_len_le: "component_len name off \<le> length name - off"
  unfolding component_len_def by (metis length_drop length_takeWhile_le)

lemma component_progress:
  assumes "off < length name" "name ! off \<noteq> slash"
  shows "length name - (off + component_len name off) < length name - off"
    "length name - (off + component_len name off) + x < length name + x - off"
  using component_len_pos [OF assms] component_len_le [of name off] assms(1) by linarith+

function walk_loop ::
  "('s \<Rightarrow> 'l \<Rightarrow> bytes \<Rightarrow> 'l eresult \<times> 's) \<Rightarrow> ('s \<Rightarrow> 'l \<Rightarrow> dent_kind) \<Rightarrow> ('s \<Rightarrow> 'l eresult) \<Rightarrow> bool \<Rightarrow>
   's \<Rightarrow> 'l \<Rightarrow> bytes \<Rightarrow> nat \<Rightarrow> (bytes \<times> nat) list \<Rightarrow> nat \<Rightarrow> ('l eresult \<times> 's) option" where
  "walk_loop lookup kind root follow s loc name off stack links_passed =
     (if off \<ge> length name then
        (case stack of [] \<Rightarrow> Some (Ok loc, s)
         | (name', off') # stack' \<Rightarrow> walk_loop lookup kind root follow s loc name' off' stack' links_passed)
      else if name ! off = slash then
        (case kind s loc of
           DK_Negative \<Rightarrow> Some (Err ENOENT, s)
         | DK_Directory \<Rightarrow> walk_loop lookup kind root follow s loc name (off + 1) stack links_passed
         | _ \<Rightarrow> Some (Err ENOTDIR, s))
      else
        let len = component_len name off in
        if len > NAME_MAX then Some (Err ENAMETOOLONG, s) else
        (case lookup s loc (take len (drop off name)) of
           (Inl e, s') \<Rightarrow> Some (Err e, s')
         | (Inr next, s') \<Rightarrow>
             let off' = off + len; has_more_path = (stack \<noteq> [] \<or> off' < length name) in
             (case kind s' next of
                DK_Symlink target \<Rightarrow>
                  if follow \<or> has_more_path then
                    if links_passed \<ge> LINK_MAX then Some (Err EMLINK, s')
                    else if length stack + 1 \<ge> LINK_MAX then None
                    else if target = [] then Some (Err ENOENT, s')
                    else if target ! 0 = slash then
                      (case root s' of
                         Inl e \<Rightarrow> Some (Err e, s')
                       | Inr r \<Rightarrow> walk_loop lookup kind root follow s' r target 0 ((name, off') # stack) (links_passed + 1))
                    else walk_loop lookup kind root follow s' loc target 0 ((name, off') # stack) (links_passed + 1)
                  else walk_loop lookup kind root follow s' loc name off' stack links_passed
              | k \<Rightarrow>
                  if k = DK_Negative \<and> has_more_path then Some (Err ENOENT, s')
                  else walk_loop lookup kind root follow s' next name off' stack links_passed)))"
  by pat_completeness auto

text \<open>Links are followed \<open>LINK_MAX\<close> times at most, and between two of them the pending paths get shorter.\<close>

termination
proof (relation "measures [\<lambda>(lookup, kind, root, follow, s, loc, name, off, stack, links). LINK_MAX - links,
    \<lambda>(lookup, kind, root, follow, s, loc, name, off, stack, links). length name - off + sum_list (map (\<lambda>(n, k). Suc (length n - k)) stack)]")
qed (auto simp: not_le component_progress)

declare walk_loop.simps [simp del]

text \<open>\<open>walk\<close>, with the mount table locked; the root directory is a directory of the cache.\<close>

definition path_walk ::
  "('s \<Rightarrow> 'l \<Rightarrow> bytes \<Rightarrow> 'l eresult \<times> 's) \<Rightarrow> ('s \<Rightarrow> 'l \<Rightarrow> dent_kind) \<Rightarrow> ('s \<Rightarrow> 'l eresult) \<Rightarrow> 's \<Rightarrow> 'l \<Rightarrow>
   bytes \<Rightarrow> bool \<Rightarrow> ('l eresult \<times> 's) option" where
  "path_walk lookup kind root s loc path follow =
     (if length path > PATH_MAX then Some (Err ENAMETOOLONG, s)
      else if length path = 0 then Some (Err ENOENT, s)
      else if path ! 0 = slash then
        (case root s of Inl e \<Rightarrow> Some (Err e, s) | Inr r \<Rightarrow> walk_loop lookup kind root follow s r path 0 [] 0)
      else walk_loop lookup kind root follow s loc path 0 [] 0)"

section \<open>Absolute paths\<close>

definition starts_with :: "bytes \<Rightarrow> bytes \<Rightarrow> bool" where
  "starts_with p xs \<longleftrightarrow> take (length p) xs = p"

text \<open>The position after the last slash, or 0.\<close>

definition after_last_slash :: "bytes \<Rightarrow> nat" where
  "after_last_slash xs = length xs - length (takeWhile (\<lambda>b. b \<noteq> slash) (rev xs))"

lemma after_last_slash_le: "after_last_slash xs \<le> length xs"
  by (simp add: after_last_slash_def)

function abspath_loop :: "bytes \<Rightarrow> nat \<Rightarrow> bytes" where
  "abspath_loop cur i =
     (if i < length cur then
        if starts_with [dot, slash] (drop i cur) then abspath_loop (take i cur @ drop (i + 2) cur) i
        else if starts_with [dot, dot, slash] (drop i cur) then
          abspath_loop (take (after_last_slash (take i cur)) cur @ drop (i + 1) cur) i
        else abspath_loop cur (i + 1)
      else cur)"
  by pat_completeness auto

termination
proof (relation "measure (\<lambda>(cur, i). length cur - i)")
  fix cur :: bytes and i
  assume "i < length cur"
  moreover have "after_last_slash (take i cur) \<le> i" using after_last_slash_le [of "take i cur"] by simp
  ultimately show "((take (after_last_slash (take i cur)) cur @ drop (i + 1) cur, i), (cur, i)) \<in> measure (\<lambda>(cur, i). length cur - i)"
    by (simp add: min_def)
qed auto

declare abspath_loop.simps [simp del]

definition abspath :: "bytes \<Rightarrow> bytes \<Rightarrow> bytes eresult" where
  "abspath old_cwd chdir_path =
     (if length old_cwd > PATH_MAX \<or> length chdir_path > PATH_MAX then Err ENAMETOOLONG
      else
        let cur = (if chdir_path \<noteq> [] \<and> hd chdir_path = slash then chdir_path else old_cwd @ chdir_path)
        in Ok (abspath_loop cur 0))"

text \<open>An absolute path stays absolute: nothing removes the slash it starts with.\<close>

lemma after_last_slash_pos: "slash \<in> set xs \<Longrightarrow> 0 < after_last_slash xs"
proof -
  assume "slash \<in> set xs"
  then have "length (takeWhile (\<lambda>b. b \<noteq> slash) (rev xs)) < length (rev xs)"
    by (metis (mono_tags, lifting) le_neq_implies_less length_takeWhile_le set_rev set_takeWhileD takeWhile_eq_take take_all order_refl)
  then show ?thesis by (simp add: after_last_slash_def)
qed

lemma abspath_loop_absolute:
  assumes "cur \<noteq> []" "hd cur = slash"
  shows "abspath_loop cur i \<noteq> [] \<and> hd (abspath_loop cur i) = slash"
  using assms
proof (induction cur i rule: abspath_loop.induct)
  case (1 cur i)
  have pos: "0 < i" if "starts_with (dot # p) (drop i cur)" "i < length cur" for p
  proof (rule ccontr)
    assume "\<not> 0 < i"
    then show False using that 1(4,5) by (cases cur) (auto simp: starts_with_def)
  qed
  have "slash \<in> set (take i cur)" if "0 < i" using 1(4,5) that by (cases cur; cases i) auto
  then have al: "0 < after_last_slash (take i cur)" if "0 < i" using that after_last_slash_pos by blast
  have hd: "take k cur @ ys \<noteq> [] \<and> hd (take k cur @ ys) = slash" if "0 < k" for k ys
    using 1(4,5) that by (cases cur; cases k) auto
  show ?case
    using 1 pos [of "[slash]"] pos [of "[dot, slash]"] al hd
    by (subst (1 2) abspath_loop.simps) auto
qed

section \<open>Resolving a path by its components\<close>

primrec split_slash :: "bytes \<Rightarrow> bytes list" where
  "split_slash [] = [[]]"
| "split_slash (b # bs) = (if b = slash then [] # split_slash bs else (b # hd (split_slash bs)) # tl (split_slash bs))"

definition comps :: "bytes \<Rightarrow> bytes list" where
  "comps p = filter (\<lambda>c. c \<noteq> []) (split_slash p)"

text \<open>
  Each component is looked up in what the one before it named, which must be a directory; so must the
  last one if a slash follows it.
\<close>

fun resolve ::
  "('s \<Rightarrow> 'l \<Rightarrow> bytes \<Rightarrow> 'l eresult \<times> 's) \<Rightarrow> ('s \<Rightarrow> 'l \<Rightarrow> dent_kind) \<Rightarrow> 's \<Rightarrow> 'l \<Rightarrow> bytes list \<Rightarrow> bool \<Rightarrow> 'l eresult \<times> 's" where
  "resolve lookup kind s loc [] trail = (Ok loc, s)"
| "resolve lookup kind s loc (c # cs) trail =
     (if length c > NAME_MAX then (Err ENAMETOOLONG, s) else
      case lookup s loc c of
        (Inl e, s') \<Rightarrow> (Err e, s')
      | (Inr next, s') \<Rightarrow>
          if cs = [] \<and> \<not> trail then (Ok next, s')
          else case kind s' next of
            DK_Directory \<Rightarrow> resolve lookup kind s' next cs trail
          | DK_Negative \<Rightarrow> (Err ENOENT, s')
          | _ \<Rightarrow> (Err ENOTDIR, s'))"

definition trails :: "bytes \<Rightarrow> bool" where
  "trails p \<longleftrightarrow> p \<noteq> [] \<and> last p = slash"

lemma split_slash_ne: "split_slash p \<noteq> []"
  by (cases p) auto

lemma comps_slash [simp]: "comps (slash # p) = comps p" "comps [] = []"
  by (simp_all add: comps_def)

lemma split_slash_run: "slash \<notin> set c \<Longrightarrow> split_slash (c @ p) = (c @ hd (split_slash p)) # tl (split_slash p)"
  by (induction c) (auto simp: split_slash_ne)

lemma comps_run: "slash \<notin> set c \<Longrightarrow> c \<noteq> [] \<Longrightarrow> p = [] \<or> hd p = slash \<Longrightarrow> comps (c @ p) = c # comps p"
  using split_slash_run [of c "[]"] by (cases p) (auto simp: comps_def split_slash_run)

lemma comps_trails: "p \<noteq> [] \<Longrightarrow> hd p = slash \<Longrightarrow> comps p = [] \<Longrightarrow> trails p"
proof (induction p)
  case (Cons b p)
  then show ?case
  proof (cases p)
    case (Cons a q)
    have "a = slash"
    proof (rule ccontr)
      assume "a \<noteq> slash"
      then have "comps p \<noteq> []" using Cons by (simp add: comps_def)
      then show False using Cons.prems by simp
    qed
    then show ?thesis using Cons.IH Cons.prems Cons by (simp add: trails_def)
  qed (simp add: trails_def)
qed simp

section \<open>The walk resolves the path\<close>

text \<open>The part of the name from the offset on: a slash, or a component and what follows it.\<close>

lemma drop_slash: "off < length name \<Longrightarrow> name ! off = slash \<Longrightarrow> drop off name = slash # drop (off + 1) name"
  using Cons_nth_drop_Suc [of off name] by simp

lemma drop_component:
  assumes "off < length name" "name ! off \<noteq> slash"
  defines "c \<equiv> take (component_len name off) (drop off name)" and "p \<equiv> drop (off + component_len name off) name"
  shows "drop off name = c @ p" "slash \<notin> set c" "c \<noteq> []" "p = [] \<or> hd p = slash" "length c = component_len name off"
proof -
  let ?d = "drop off name"
  have c: "c = takeWhile (\<lambda>b. b \<noteq> slash) ?d" unfolding c_def component_len_def by (metis takeWhile_eq_take)
  have p: "p = dropWhile (\<lambda>b. b \<noteq> slash) ?d"
    unfolding p_def component_len_def by (simp add: dropWhile_eq_drop add.commute)
  show "drop off name = c @ p" unfolding c p by simp
  show "slash \<notin> set c" unfolding c by (auto dest: set_takeWhileD)
  show l: "length c = component_len name off" unfolding c component_len_def by simp
  then show "c \<noteq> []" using component_len_pos [OF assms(1,2)] by auto
  show "p = [] \<or> hd p = slash" unfolding p using hd_dropWhile [of "\<lambda>b. b \<noteq> slash" ?d] by blast
qed

lemma trails_run: "p \<noteq> [] \<Longrightarrow> trails (c @ p) = trails p"
  by (simp add: trails_def)

lemma trails_slash: "p \<noteq> [] \<Longrightarrow> trails (slash # p) = trails p"
  by (simp add: trails_def)

lemma walk_loop_resolves:
  assumes "\<And>s l t. kind s l \<noteq> DK_Symlink t"
  shows "walk_loop lookup kind root follow s loc name off [] links =
    Some (if drop off name \<noteq> [] \<and> hd (drop off name) = slash \<and> kind s loc \<noteq> DK_Directory
          then (Err (if kind s loc = DK_Negative then ENOENT else ENOTDIR), s)
          else resolve lookup kind s loc (comps (drop off name)) (trails (drop off name)))"
proof (induction "length name - off" arbitrary: s loc off rule: less_induct)
  case less
  consider "length name \<le> off" | "off < length name" "name ! off = slash" | "off < length name" "name ! off \<noteq> slash" by linarith
  then show ?case
  proof cases
    case 1
    then show ?thesis by (simp add: walk_loop.simps)
  next
    case 2
    note d = drop_slash [OF 2]
    have r: "resolve lookup kind s loc (comps (drop (off + 1) name)) (trails (drop off name)) =
        resolve lookup kind s loc (comps (drop (off + 1) name)) (trails (drop (off + 1) name))"
      unfolding d by (cases "drop (off + 1) name") (simp_all add: trails_slash)
    show ?thesis
    proof (cases "kind s loc = DK_Directory")
      case True
      then show ?thesis using 2 less(1) [of "off + 1" s loc] r by (simp add: walk_loop.simps [of _ _ _ _ _ _ name off] d del: drop_Suc)
    next
      case False
      then show ?thesis using 2 assms [of s loc] d by (cases "kind s loc") (simp_all add: walk_loop.simps [of _ _ _ _ _ _ name off])
    qed
  next
    case 3
    let ?n = "component_len name off"
    let ?c = "take ?n (drop off name)" and ?p = "drop (off + ?n) name"
    note d = drop_component [OF 3]
    have cp: "comps (drop off name) = ?c # comps ?p" using comps_run [OF d(2-4)] d(1) by simp
    have lt: "length name - (off + ?n) < length name - off" by (rule component_progress(1) [OF 3])
    have h: "hd (drop off name) \<noteq> slash" using 3 by (simp add: hd_drop_conv_nth)
    obtain r s' where l: "lookup s loc ?c = (r, s')" by fastforce
    show ?thesis
    proof (cases "r")
      case (Inl e)
      then show ?thesis using 3 h cp l d(5) by (simp add: walk_loop.simps [of _ _ _ _ _ _ name off] Let_def)
    next
      case (Inr nx)
      note ih = less(1) [OF lt, of s' nx]
      have more: "off + ?n < length name \<longleftrightarrow> ?p \<noteq> []" by (simp add: not_le)
      have k: "kind s' nx = DK_Negative \<or> kind s' nx = DK_Directory \<or> kind s' nx = DK_File"
        using assms [of s' nx] by (cases "kind s' nx") auto
      show ?thesis
      proof (cases "?p = []")
        case True
        then have "\<not> trails (drop off name)" using d(1,2,3) by (metis append_Nil2 last_in_set trails_def)
        then show ?thesis using True 3 h cp l d(5) ih Inr k more
          by (elim disjE) (simp_all add: walk_loop.simps [of _ _ _ _ _ _ name off] Let_def)
      next
        case False
        then have t: "trails (drop off name) = trails ?p" "hd ?p = slash" "comps ?p = [] \<longrightarrow> trails ?p"
          using d(1,4) trails_run comps_trails by metis+
        then show ?thesis using False 3 h cp l d(5) ih Inr k more
          by (elim disjE) (auto simp: walk_loop.simps [of _ _ _ _ _ _ name off] Let_def)
      qed
    qed
  qed
qed


definition demo_lookup :: "unit \<Rightarrow> nat \<Rightarrow> bytes \<Rightarrow> nat eresult \<times> unit" where
  "demo_lookup s l c = (if l < 3 then (Ok (l + 1), ()) else (Err ENOTDIR, ()))"

definition demo_kind :: "unit \<Rightarrow> nat \<Rightarrow> dent_kind" where
  "demo_kind s l = (if l < 3 then DK_Directory else DK_File)"


section \<open>What goes wrong\<close>

text \<open>
  A link that is not to be followed is skipped: the walk returns the directory the link is in, not the
  link. So \<open>readlink\<close>, \<open>lstat\<close>, \<open>unlink\<close> and \<open>rename\<close> of a link act on its directory.
\<close>

lemma nofollow_gives_directory:
  assumes "path \<noteq> []" "slash \<notin> set path" "length path \<le> NAME_MAX" "lookup s loc path = (Ok l, s')" "kind s' l = DK_Symlink t"
  shows "path_walk lookup kind root s loc path False = Some (Ok loc, s')"
proof -
  have "path ! 0 \<noteq> slash" using assms(1,2) by (metis length_greater_0_conv nth_mem)
  moreover have "component_len path 0 = length path"
    using assms(2) takeWhile_eq_all_conv [of "\<lambda>b. b \<noteq> slash" path] unfolding component_len_def by (auto simp del: takeWhile_eq_all_conv)
  ultimately show ?thesis using assms
    by (simp add: path_walk_def PATH_MAX_def NAME_MAX_def walk_loop.simps [of _ _ _ _ _ _ path])
qed

text \<open>
  A chain of \<open>LINK_MAX\<close> links, each the whole target of the one before it, writes past the stack: the
  limit on the number of links allows one more than the stack holds.
\<close>

definition chain_lookup :: "unit \<Rightarrow> nat \<Rightarrow> bytes \<Rightarrow> nat eresult \<times> unit" where
  "chain_lookup s l c = (Ok (hd c), ())"

definition chain_kind :: "unit \<Rightarrow> nat \<Rightarrow> dent_kind" where
  "chain_kind s l = (if 65 \<le> l \<and> l < 97 then DK_Symlink [l + 1] else if l < 65 then DK_Directory else DK_File)"

lemma chain_panics:
  assumes "k \<le> 31" "length st = k"
  shows "walk_loop chain_lookup chain_kind root True () 0 [65 + k] 0 st k = None"
  using assms
proof (induction "31 - k" arbitrary: k st)
  case (Suc n)
  have c: "component_len [65 + k] 0 = 1" by (simp add: component_len_def)
  have "walk_loop chain_lookup chain_kind root True () 0 [65 + Suc k] 0 (([65 + k], 1) # st) (Suc k) = None"
    using Suc(1) [of "Suc k" "([65 + k], 1) # st"] Suc(2-4) by simp
  then show ?case using c Suc(2-4)
    by (simp add: walk_loop.simps [of _ _ _ _ _ _ "[65 + k]"] chain_lookup_def chain_kind_def NAME_MAX_def LINK_MAX_def)
qed (simp add: walk_loop.simps component_len_def chain_lookup_def chain_kind_def NAME_MAX_def LINK_MAX_def)

lemma nested_links_panic: "path_walk chain_lookup chain_kind (\<lambda>s. Ok 0) () 0 [65] True = None"
  using chain_panics [of 0 "[]"] by (simp add: path_walk_def PATH_MAX_def)

text \<open>
  Making a path absolute treats \<open>..\<close> in a directory below the working directory as \<open>.\<close> and joins the working
  directory to the path without a slash: \<open>a/../b\<close> in \<open>/\<close> becomes \<open>/a/b\<close>, and \<open>b\<close> in \<open>/a\<close> becomes \<open>/ab\<close>.
\<close>

lemma abspath_keeps_parent: "abspath [slash] [97, slash, dot, dot, slash, 98] = Ok [slash, 97, slash, 98]"
  by (simp add: abspath_def PATH_MAX_def abspath_loop.simps starts_with_def after_last_slash_def)

lemma abspath_joins: "abspath [slash, 97] [98] = Ok [slash, 97, 98]"
  by (simp add: abspath_def PATH_MAX_def abspath_loop.simps starts_with_def after_last_slash_def)

section \<open>What a walk keeps\<close>

text \<open>
  What a walk asks of the cache: looking up keeps an invariant of the state and gives a location of
  it, locations stay locations, and the root is one. Then a walk does the same.
\<close>

locale name_lookup =
  fixes lookup :: "'s \<Rightarrow> 'l \<Rightarrow> bytes \<Rightarrow> 'l eresult \<times> 's" and root :: "'s \<Rightarrow> 'l eresult"
    and inv :: "'s \<Rightarrow> bool" and loc_ok :: "'s \<Rightarrow> 'l \<Rightarrow> bool"
  assumes lookup_keeps: "inv s \<Longrightarrow> loc_ok s l \<Longrightarrow> lookup s l c = (r, s') \<Longrightarrow>
      inv s' \<and> (\<forall>x. r = Ok x \<longrightarrow> loc_ok s' x) \<and> (\<forall>x. loc_ok s x \<longrightarrow> loc_ok s' x)"
    and root_ok: "inv s \<Longrightarrow> root s = Ok x \<Longrightarrow> loc_ok s x"
begin

lemma walk_loop_inv:
  assumes "lk = lookup" "rt = root" "inv s" "loc_ok s loc" "walk_loop lk kind rt follow s loc name off stack links = Some (r, s')"
  shows "inv s' \<and> (\<forall>x. r = Ok x \<longrightarrow> loc_ok s' x)"
  using assms
proof (induction lk kind rt follow s loc name off stack links rule: walk_loop.induct)
  case (1 lk kind rt follow s loc name off stack links)
  note w = "1.prems"(5) [unfolded walk_loop.simps [of lk kind rt follow s loc name off stack links]]
  show ?case
  proof (cases "length name \<le> off \<or> name ! off = slash")
    case True
    show ?thesis
    proof (cases "length name \<le> off")
      case off: True
      then show ?thesis using w "1.prems"(1-4) "1.IH"(1) [OF off] by (cases stack) auto
    next
      case off: False
      then show ?thesis using w True "1.prems"(1-4) "1.IH"(2) [OF off] by (cases "kind s loc") auto
    qed
  next
    case False
    then have c: "\<not> length name \<le> off" "name ! off \<noteq> slash" by auto
    let ?n = "component_len name off"
    obtain rr s1 where l: "lk s loc (take ?n (drop off name)) = (rr, s1)" by fastforce
    note st = lookup_keeps [OF "1.prems"(3,4), of "take ?n (drop off name)" rr s1]
    show ?thesis
    proof (cases "NAME_MAX < ?n")
      case True
      then show ?thesis using w c "1.prems"(3) by (auto simp: Let_def)
    next
      case n: False
      show ?thesis
      proof (cases rr)
        case (Inl e)
        then show ?thesis using w c n l st "1.prems"(1) by (auto simp: Let_def)
      next
        case (Inr b)
        have b: "inv s1" "loc_ok s1 b" "loc_ok s1 loc" using st l "1.prems"(1,4) Inr by auto
        note IH = "1.IH"(3-8) [OF c refl n l [symmetric] Inr refl refl]
        show ?thesis
        proof (cases "kind s1 b")
          case DK_Negative
          then show ?thesis using w c n l Inr b "1.prems"(1,2) IH(1) [OF DK_Negative] by (auto simp: Let_def split: if_splits)
        next
          case DK_Directory
          then show ?thesis using w c n l Inr b "1.prems"(1,2) IH(2) [OF DK_Directory] by (auto simp: Let_def split: if_splits)
        next
          case (DK_Symlink t)
          let ?more = "stack \<noteq> [] \<or> off + ?n < length name"
          note w2 = w [simplified Let_def c l Inr n DK_Symlink if_False prod.case sum.case dent_kind.case]
          show ?thesis
          proof (cases "follow \<or> ?more")
            case False
            then show ?thesis using IH(5) [OF DK_Symlink False "1.prems"(1,2) b(1,3)] w2 by simp
          next
            case m: True
            show ?thesis
            proof (cases "LINK_MAX \<le> links \<or> LINK_MAX \<le> length stack + 1 \<or> t = []")
              case True
              then show ?thesis using w2 m b(1) by (auto split: if_splits)
            next
              case ok: False
              then have k: "\<not> LINK_MAX \<le> links" "\<not> LINK_MAX \<le> length stack + 1" "t \<noteq> []" by auto
              show ?thesis
              proof (cases "t ! 0 = slash")
                case abs: True
                show ?thesis
                proof (cases "rt s1")
                  case (Inl e)
                  then show ?thesis using w2 m k abs b(1) by auto
                next
                  case (Inr x)
                  then show ?thesis
                    using IH(3) [OF DK_Symlink m k abs Inr "1.prems"(1,2) b(1) root_ok [OF b(1)]] w2 m k abs "1.prems"(2) by simp
                qed
              next
                case rel: False
                then show ?thesis using IH(4) [OF DK_Symlink m k rel "1.prems"(1,2) b(1,3)] w2 m k by simp
              qed
            qed
          qed
        next
          case DK_File
          then show ?thesis using w c n l Inr b "1.prems"(1,2) IH(6) [OF DK_File] by (auto simp: Let_def split: if_splits)
        qed
      qed
    qed
  qed
qed

lemma path_walk_inv:
  assumes "inv s" "loc_ok s loc" "path_walk lookup kind root s loc path follow = Some (r, s')"
  shows "inv s' \<and> (\<forall>x. r = Ok x \<longrightarrow> loc_ok s' x)"
proof -
  note keeps = walk_loop_inv [OF refl refl assms(1)]
  consider "PATH_MAX < length path \<or> length path = 0" | "\<not> (PATH_MAX < length path \<or> length path = 0)" "path ! 0 = slash"
    | "\<not> (PATH_MAX < length path \<or> length path = 0)" "path ! 0 \<noteq> slash" by blast
  then show ?thesis
  proof cases
    case 1
    then show ?thesis using assms(1,3) by (auto simp: path_walk_def split: if_splits)
  next
    case 2
    show ?thesis
    proof (cases "root s")
      case (Inl e)
      then show ?thesis using 2 assms(1,3) by (auto simp: path_walk_def)
    next
      case (Inr x)
      then show ?thesis using 2 assms(3) keeps [OF root_ok [OF assms(1) Inr]] by (simp add: path_walk_def)
    qed
  next
    case 3
    then show ?thesis using assms(3) keeps [OF assms(2)] by (simp add: path_walk_def)
  qed
qed

end

end
