(* ===== verification/Dent_Cache.thy ===== *)
theory Dent_Cache
  imports Ram_Fs Path_Walk
begin

unbundle bit_operations_syntax

text \<open>
  The directory cache (\<open>src/filesystem/vfs.rs\<close>) over a mounted RAM filesystem, and the operations on paths
  that keep it (\<open>src/filesystem/mod.rs\<close>). Entries are numbered in the order they are allocated; entry 0 is
  the root directory. The references of a directory to its children are weak: \<open>vs_alive\<close> holds the entries
  whose memory has not been freed. The code frees an entry when the last reference to it goes; here freeing is a
  step of its own, which may come at any time after that, so every order of the two is covered.
  One filesystem is mounted, so entering and leaving mounts change
  nothing. Locks are taken and released within each operation, which runs alone. The RAM filesystem never sets
  the flag \<open>REMOVED\<close> of a vnode, so the tests of that flag fail. \<open>vs_open\<close> holds the numbers of the vnodes that are open.
  A failed allocation is an argument of the operations that allocate entries; those of \<open>realpath\<close> succeed.
\<close>

section \<open>Data\<close>

datatype dent_type =
  DT_Negative | DT_Directory (dt_children: "bytes \<Rightarrow> nat option") | DT_Symlink bytes | DT_File

record dent_cache =
  dc_type :: dent_type
  dc_parent :: "nat option"
  dc_dirent :: dirent

record vfs_state =
  vs_dent :: "nat \<Rightarrow> dent_cache"
  vs_next :: nat
  vs_alive :: "nat set"
  vs_open :: "nat set"
  vs_fs :: ram_fs
  vs_read_only :: bool

definition dent_kind_of :: "dent_type \<Rightarrow> dent_kind" where
  "dent_kind_of t = (case t of
     DT_Negative \<Rightarrow> DK_Negative
   | DT_Directory c \<Rightarrow> DK_Directory
   | DT_Symlink target \<Rightarrow> DK_Symlink target
   | DT_File \<Rightarrow> DK_File)"

definition kind_of :: "vfs_state \<Rightarrow> nat \<Rightarrow> dent_kind" where
  "kind_of s d = dent_kind_of (dc_type (vs_dent s d))"

definition as_dir :: "dent_type \<Rightarrow> (bytes \<Rightarrow> nat option) option" where
  "as_dir t = (case t of DT_Directory c \<Rightarrow> Some c | _ \<Rightarrow> None)"

definition is_negative :: "dent_type \<Rightarrow> bool" where
  "is_negative t = (case t of DT_Negative \<Rightarrow> True | _ \<Rightarrow> False)"

definition default_dirent :: "bytes \<Rightarrow> dirent" where
  "default_dirent name = \<lparr>de_ino = 0, de_type = IT_Unknown, de_name = name, de_disk_off = 0, de_off = 0\<rparr>"

definition vfs_new :: "ram_fs \<Rightarrow> vfs_state" where
  "vfs_new fs =
     \<lparr>vs_dent = (\<lambda>d. \<lparr>dc_type = DT_Directory Map.empty, dc_parent = None, dc_dirent = new_dirent 1 IT_Directory [slash]\<rparr>),
      vs_next = 1, vs_alive = {0}, vs_open = {1}, vs_fs = fs, vs_read_only = False\<rparr>"

text \<open>A child through its weak reference.\<close>

definition upgrade :: "vfs_state \<Rightarrow> nat option \<Rightarrow> nat option" where
  "upgrade s w = (case w of Some c \<Rightarrow> if c \<in> vs_alive s then Some c else None | None \<Rightarrow> None)"

definition set_children :: "vfs_state \<Rightarrow> nat \<Rightarrow> (bytes \<Rightarrow> nat option) \<Rightarrow> vfs_state" where
  "set_children s d c = s\<lparr>vs_dent := (vs_dent s)(d := (vs_dent s d)\<lparr>dc_type := DT_Directory c\<rparr>)\<rparr>"

text \<open>Allocating an entry below \<open>d\<close> and entering it into the children of \<open>d\<close>, which are \<open>c\<close>.\<close>

definition add_dent :: "vfs_state \<Rightarrow> nat \<Rightarrow> (bytes \<Rightarrow> nat option) \<Rightarrow> bytes \<Rightarrow> dent_type \<Rightarrow> dirent \<Rightarrow> nat \<times> vfs_state" where
  "add_dent s d c name t e =
     (let n = vs_next s;
          s = s\<lparr>vs_dent := (vs_dent s)(n := \<lparr>dc_type = t, dc_parent = Some d, dc_dirent = e\<rparr>), vs_next := n + 1,
                vs_alive := insert n (vs_alive s)\<rparr>
      in (n, set_children s d (c(name \<mapsto> n))))"

text \<open>A vnode that is open already is used as it is; otherwise the filesystem opens it.\<close>

definition open_ino :: "vfs_state \<Rightarrow> nat \<Rightarrow> nat eresult" where
  "open_ino s ino = (if ino \<in> vs_open s then Ok ino else open_impl (vs_fs s) ino)"

definition dent_ino :: "vfs_state \<Rightarrow> nat \<Rightarrow> nat" where
  "dent_ino s d = de_ino (dc_dirent (vs_dent s d))"

definition dent_name :: "vfs_state \<Rightarrow> nat \<Rightarrow> bytes" where
  "dent_name s d = de_name (dc_dirent (vs_dent s d))"

definition open_vnode :: "vfs_state \<Rightarrow> nat \<Rightarrow> nat eresult" where
  "open_vnode s d = open_ino s (dent_ino s d)"

section \<open>Looking a name up\<close>

text \<open>What a name that is not in the cache becomes; the flag says that the allocation fails.\<close>

definition lookup_miss :: "bool \<Rightarrow> vfs_state \<Rightarrow> nat \<Rightarrow> (bytes \<Rightarrow> nat option) \<Rightarrow> bytes \<Rightarrow> nat eresult \<times> vfs_state" where
  "lookup_miss oom s d c name =
     (case open_vnode s d of
        Inl e \<Rightarrow> (Err e, s)
      | Inr v \<Rightarrow>
          (case find_dirent (vs_fs s) v name of
             Inl x \<Rightarrow>
               if x = ENOENT then
                 if oom then (Err ENOMEM, s)
                 else (case add_dent s d c name DT_Negative (default_dirent name) of (n, s') \<Rightarrow> (Ok n, s'))
               else (Err x, s)
           | Inr e \<Rightarrow>
               (case de_type e of
                  IT_Directory \<Rightarrow>
                    if oom then (Err ENOMEM, s)
                    else (case add_dent s d c name (DT_Directory Map.empty) e of (n, s') \<Rightarrow> (Ok n, s'))
                | IT_Symlink \<Rightarrow>
                    (case open_ino s (de_ino e) of
                       Inl x \<Rightarrow> (Err x, s)
                     | Inr l \<Rightarrow>
                         (case readlink (vs_fs s) l of
                            Inl x \<Rightarrow> (Err x, s)
                          | Inr target \<Rightarrow>
                              if oom then (Err ENOMEM, s)
                              else (case add_dent s d c name (DT_Symlink target) e of (n, s') \<Rightarrow> (Ok n, s'))))
                | _ \<Rightarrow>
                    if oom then (Err ENOMEM, s)
                    else (case add_dent s d c name DT_File e of (n, s') \<Rightarrow> (Ok n, s')))))"

definition dent_lookup :: "bool \<Rightarrow> vfs_state \<Rightarrow> nat \<Rightarrow> bytes \<Rightarrow> nat eresult \<times> vfs_state" where
  "dent_lookup oom s d component =
     (if component = [dot] then (Ok d, s)
      else if component = [dot, dot] then
        (case dc_parent (vs_dent s d) of Some x \<Rightarrow> (Ok x, s) | None \<Rightarrow> (Ok d, s))
      else
        (case as_dir (dc_type (vs_dent s d)) of
           None \<Rightarrow> (Err ENOTDIR, s)
         | Some c \<Rightarrow>
             (case upgrade s (c component) of
                Some x \<Rightarrow> (Ok x, s)
              | None \<Rightarrow> lookup_miss oom s d c component)))"

definition vfs_walk :: "vfs_state \<Rightarrow> nat \<Rightarrow> bytes \<Rightarrow> bool \<Rightarrow> (nat eresult \<times> vfs_state) option" where
  "vfs_walk s d path follow = path_walk (dent_lookup False) kind_of (\<lambda>s. Ok 0) s d path follow"

text \<open>The names from the root down to an entry; the first argument bounds the number of parents.\<close>

fun parents_of :: "nat \<Rightarrow> vfs_state \<Rightarrow> nat \<Rightarrow> nat list option" where
  "parents_of 0 s d = None"
| "parents_of (Suc k) s d =
     (case dc_parent (vs_dent s d) of
        None \<Rightarrow> Some []
      | Some p \<Rightarrow> (case parents_of k s p of None \<Rightarrow> None | Some ds \<Rightarrow> Some (ds @ [d])))"

definition realpath :: "vfs_state \<Rightarrow> nat \<Rightarrow> bytes option" where
  "realpath s d =
     (case parents_of (Suc d) s d of
        None \<Rightarrow> None
      | Some ds \<Rightarrow>
          Some (if length ds = 0 then [slash]
                else concat (map (\<lambda>x. slash # dent_name s x) ds)))"

section \<open>Operations on paths\<close>

definition children_of :: "vfs_state \<Rightarrow> nat \<Rightarrow> (bytes \<Rightarrow> nat option) option" where
  "children_of s d = as_dir (dc_type (vs_dent s d))"

text \<open>\<open>None\<close> is a panic throughout: of the walk, of an \<open>unwrap\<close>, or of the filesystem.\<close>

definition vfs_unlink :: "vfs_state \<Rightarrow> nat \<Rightarrow> bytes \<Rightarrow> bool \<Rightarrow> (unit eresult \<times> vfs_state) option" where
  "vfs_unlink s at path is_rmdir =
     (case vfs_walk s at path False of
        None \<Rightarrow> None
      | Some (Inl e, s) \<Rightarrow> Some (Err e, s)
      | Some (Inr to_remove, s) \<Rightarrow>
          (case dc_parent (vs_dent s to_remove) of
             None \<Rightarrow> Some (Err (if is_rmdir then ENOTEMPTY else EISDIR), s)
           | Some dir \<Rightarrow>
               if vs_read_only s then Some (Err EROFS, s) else
               (case children_of s dir of
                  None \<Rightarrow> None
                | Some c \<Rightarrow>
                    (case open_vnode s dir of
                       Inl e \<Rightarrow> Some (Err e, s)
                     | Inr v \<Rightarrow>
                         let name = dent_name s to_remove in
                         (case ram_unlink (vs_fs s) v name (if is_rmdir then DirOnly else FileOnly) of
                            None \<Rightarrow> None
                          | Some (Inl e, fs) \<Rightarrow> Some (Err e, s\<lparr>vs_fs := fs\<rparr>)
                          | Some (Inr u, fs) \<Rightarrow> Some (Ok (), set_children (s\<lparr>vs_fs := fs\<rparr>) dir (c(name := None))))))))"

text \<open>What the cache records for a new file: for a link, its name.\<close>

definition made_type :: "make_file_spec \<Rightarrow> dirent \<Rightarrow> dent_type" where
  "made_type spec e = (case spec of
     MF_Directory \<Rightarrow> DT_Directory Map.empty
   | MF_Symlink t \<Rightarrow> DT_Symlink (de_name e)
   | _ \<Rightarrow> DT_File)"

definition vfs_make_file ::
  "errno option \<Rightarrow> bool \<Rightarrow> nat \<Rightarrow> vfs_state \<Rightarrow> nat \<Rightarrow> bytes \<Rightarrow> make_file_spec \<Rightarrow> (unit eresult \<times> vfs_state) option" where
  "vfs_make_file fail oom now s at path spec =
     (case vfs_walk s at path False of
        None \<Rightarrow> None
      | Some (Inl e, s) \<Rightarrow> Some (Err e, s)
      | Some (Inr to_create, s) \<Rightarrow>
          (case dc_parent (vs_dent s to_create) of
             None \<Rightarrow> Some (Err EEXIST, s)
           | Some dir \<Rightarrow>
               (case children_of s dir of
                  None \<Rightarrow> None
                | Some c \<Rightarrow>
                    let name = dent_name s to_create in
                    if (case upgrade s (c name) of None \<Rightarrow> False | Some x \<Rightarrow> \<not> is_negative (dc_type (vs_dent s x)))
                    then Some (Err EEXIST, s) else
                    (case open_vnode s dir of
                       Inl e \<Rightarrow> Some (Err e, s)
                     | Inr v \<Rightarrow>
                         if vs_read_only s then Some (Err EROFS, s) else
                         (case ram_make_file fail now (vs_fs s) v name spec of
                            (Inl e, fs) \<Rightarrow> Some (Err e, s\<lparr>vs_fs := fs\<rparr>)
                          | (Inr (e, i), fs) \<Rightarrow>
                              if oom then Some (Err ENOMEM, s\<lparr>vs_fs := fs\<rparr>)
                              else Some (Ok (), snd (add_dent (s\<lparr>vs_fs := fs\<rparr>) dir c (de_name e) (made_type spec e) e)))))))"

definition vfs_link ::
  "errno option \<Rightarrow> vfs_state \<Rightarrow> nat \<Rightarrow> bytes \<Rightarrow> nat \<Rightarrow> bytes \<Rightarrow> bool \<Rightarrow> (unit eresult \<times> vfs_state) option" where
  "vfs_link fail s old_at old_path new_at new_path follow =
     (case vfs_walk s old_at old_path follow of
        None \<Rightarrow> None
      | Some (Inl e, s) \<Rightarrow> Some (Err e, s)
      | Some (Inr old, s) \<Rightarrow>
          (case vfs_walk s new_at new_path follow of
             None \<Rightarrow> None
           | Some (Inl e, s) \<Rightarrow> Some (Err e, s)
           | Some (Inr new, s) \<Rightarrow>
               if children_of s old \<noteq> None then Some (Err EISDIR, s) else
               (case dc_parent (vs_dent s old) of
                  None \<Rightarrow> Some (Err EISDIR, s)
                | Some new_dir \<Rightarrow>
                    if vs_read_only s then Some (Err EROFS, s) else
                    (case children_of s new_dir of
                       None \<Rightarrow> None
                     | Some c \<Rightarrow>
                         (case open_vnode s new_dir of
                            Inl e \<Rightarrow> Some (Err e, s)
                          | Inr v \<Rightarrow>
                              (case open_vnode s old of
                                 Inl e \<Rightarrow> Some (Err e, s)
                               | Inr i \<Rightarrow>
                                   (case ram_link fail (vs_fs s) v (dent_name s new) i of
                                      None \<Rightarrow> None
                                    | Some (Inl e, fs) \<Rightarrow> Some (Err e, s\<lparr>vs_fs := fs\<rparr>)
                                    | Some (Inr u, fs) \<Rightarrow>
                                        Some (Ok (), set_children (s\<lparr>vs_fs := fs\<rparr>) new_dir (c(dent_name s new := None))))))))))"

section \<open>Renaming\<close>

definition NOREPLACE :: nat where "NOREPLACE = 2"

definition check_for_entry :: "vfs_state \<Rightarrow> (bytes \<Rightarrow> nat option) \<Rightarrow> nat \<Rightarrow> unit eresult" where
  "check_for_entry s c what =
     (case upgrade s (c (dent_name s what)) of
        None \<Rightarrow> Err ETIMEDOUT
      | Some x \<Rightarrow> if x \<noteq> what then Err ETIMEDOUT else Ok ())"

text \<open>The first argument bounds the number of parents; \<open>None\<close> is running out of it.\<close>

fun rename_check_loops :: "nat \<Rightarrow> vfs_state \<Rightarrow> nat \<Rightarrow> nat \<Rightarrow> unit eresult option" where
  "rename_check_loops 0 s old new = None"
| "rename_check_loops (Suc k) s old new =
     (case dc_parent (vs_dent s new) of
        None \<Rightarrow> Some (Ok ())
      | Some p \<Rightarrow> if old = p then Some (Err EINVAL) else rename_check_loops k s old p)"

text \<open>Removing what has the new name, from the directory the old name is in.\<close>

definition remove_target ::
  "vfs_state \<Rightarrow> nat \<Rightarrow> (bytes \<Rightarrow> nat option) \<Rightarrow> nat \<Rightarrow> nat \<Rightarrow> (unit eresult \<times> vfs_state) option" where
  "remove_target s old_v new_c new fl =
     (if \<not> is_negative (dc_type (vs_dent s new)) then
        if fl AND NOREPLACE \<noteq> 0 then Some (Err EEXIST, s) else
        (case ram_unlink (vs_fs s) old_v (dent_name s new) AnyNode of
           None \<Rightarrow> None
         | Some (Inl e, fs) \<Rightarrow> Some (Err e, s\<lparr>vs_fs := fs\<rparr>)
         | Some (Inr u, fs) \<Rightarrow> Some (Ok (), s\<lparr>vs_fs := fs\<rparr>))
      else (case check_for_entry s new_c new of Inl e \<Rightarrow> Some (Err e, s) | Inr u \<Rightarrow> Some (Ok (), s)))"

text \<open>Updating the cache once the filesystem has renamed the entry; \<open>None\<close> is a negative entry.\<close>

definition rename_dents :: "vfs_state \<Rightarrow> nat \<Rightarrow> nat \<Rightarrow> nat \<Rightarrow> dirent \<Rightarrow> vfs_state option" where
  "rename_dents s old old_dir new_dir e =
     (case children_of s old_dir of
        None \<Rightarrow> None
      | Some oc \<Rightarrow>
          let old_dentcache = upgrade s (oc (dent_name s old));
              s = set_children s old_dir (oc(dent_name s old := None)) in
          (case children_of s new_dir of
             None \<Rightarrow> None
           | Some nc \<Rightarrow>
               (case old_dentcache of
                  None \<Rightarrow> Some (set_children s new_dir (nc(de_name e := None)))
                | Some x \<Rightarrow>
                    if is_negative (dc_type (vs_dent s x)) then None
                    else Some (snd (add_dent s new_dir nc (de_name e) (dc_type (vs_dent s x)) e)))))"

definition rename_within :: "vfs_state \<Rightarrow> nat \<Rightarrow> nat \<Rightarrow> nat \<Rightarrow> nat \<Rightarrow> nat \<Rightarrow> (dirent eresult \<times> vfs_state) option" where
  "rename_within s old new dir v fl =
     (case children_of s dir of
        None \<Rightarrow> None
      | Some c \<Rightarrow>
          (case check_for_entry s c old of
             Inl e \<Rightarrow> Some (Err e, s)
           | Inr u \<Rightarrow>
               if vs_read_only s then Some (Err EROFS, s) else
               (case remove_target s v c new fl of
                  None \<Rightarrow> None
                | Some (Inl e, s) \<Rightarrow> Some (Err e, s)
                | Some (Inr u, s) \<Rightarrow>
                    (case ram_rename (vs_fs s) v (dent_name s old) (dent_name s new) of
                       (Inl e, fs) \<Rightarrow> Some (Err e, s\<lparr>vs_fs := fs\<rparr>)
                     | (Inr e, fs) \<Rightarrow> Some (Ok e, s\<lparr>vs_fs := fs\<rparr>)))))"

definition rename_across ::
  "vfs_state \<Rightarrow> nat \<Rightarrow> nat \<Rightarrow> nat \<Rightarrow> nat \<Rightarrow> nat \<Rightarrow> nat \<Rightarrow> (dirent eresult \<times> vfs_state) option" where
  "rename_across s old new old_dir new_dir old_v fl =
     (case open_vnode s new_dir of
        Inl e \<Rightarrow> Some (Err e, s)
      | Inr new_v \<Rightarrow>
          (case (children_of s old_dir, children_of s new_dir) of
             (Some oc, Some nc) \<Rightarrow>
               (case check_for_entry s oc old of
                  Inl e \<Rightarrow> Some (Err e, s)
                | Inr u \<Rightarrow>
                    if vs_read_only s then Some (Err EROFS, s) else
                    (case rename_check_loops (Suc new_dir) s old_dir new_dir of
                       None \<Rightarrow> None
                     | Some (Inl e) \<Rightarrow> Some (Err e, s)
                     | Some (Inr u) \<Rightarrow>
                         (case remove_target s old_v nc new fl of
                            None \<Rightarrow> None
                          | Some (Inl e, s) \<Rightarrow> Some (Err e, s)
                          | Some (Inr u, s) \<Rightarrow>
                              (case move_entry (vs_fs s) old_v (dent_name s old) new_v (dent_name s new) of
                                 None \<Rightarrow> None
                               | Some (Inl e, fs) \<Rightarrow> Some (Err e, s\<lparr>vs_fs := fs\<rparr>)
                               | Some (Inr e, fs) \<Rightarrow> Some (Ok e, s\<lparr>vs_fs := fs\<rparr>)))))
           | _ \<Rightarrow> None))"

definition rename_impl ::
  "vfs_state \<Rightarrow> nat \<Rightarrow> bytes \<Rightarrow> nat \<Rightarrow> bytes \<Rightarrow> nat \<Rightarrow> (unit eresult \<times> vfs_state) option" where
  "rename_impl s old_at old_path new_at new_path fl =
     (case vfs_walk s old_at old_path False of
        None \<Rightarrow> None
      | Some (Inl e, s) \<Rightarrow> Some (Err e, s)
      | Some (Inr old, s) \<Rightarrow>
          if is_negative (dc_type (vs_dent s old)) then Some (Err ENOENT, s) else
          (case vfs_walk s new_at new_path False of
             None \<Rightarrow> None
           | Some (Inl e, s) \<Rightarrow> Some (Err e, s)
           | Some (Inr new, s) \<Rightarrow>
               (case (dc_parent (vs_dent s old), dc_parent (vs_dent s new)) of
                  (Some old_dir, Some new_dir) \<Rightarrow>
                    (case open_vnode s old_dir of
                       Inl e \<Rightarrow> Some (Err e, s)
                     | Inr v \<Rightarrow>
                         (case (if old_dir = new_dir then rename_within s old new old_dir v fl
                                else rename_across s old new old_dir new_dir v fl) of
                            None \<Rightarrow> None
                          | Some (Inl e, s) \<Rightarrow> Some (Err e, s)
                          | Some (Inr e, s) \<Rightarrow>
                              (case rename_dents s old old_dir new_dir e of
                                 None \<Rightarrow> None
                               | Some s \<Rightarrow> Some (Ok (), s))))
                | _ \<Rightarrow> Some (Err EBUSY, s))))"

text \<open>Retrying while the entry is not where it was; \<open>None\<close> is that the retries given do not suffice.\<close>

fun vfs_rename ::
  "nat \<Rightarrow> vfs_state \<Rightarrow> nat \<Rightarrow> bytes \<Rightarrow> nat \<Rightarrow> bytes \<Rightarrow> nat \<Rightarrow> (unit eresult \<times> vfs_state) option option" where
  "vfs_rename 0 s old_at old_path new_at new_path fl = None"
| "vfs_rename (Suc k) s old_at old_path new_at new_path fl =
     (case rename_impl s old_at old_path new_at new_path fl of
        None \<Rightarrow> Some None
      | Some (res, s) \<Rightarrow> if res \<noteq> Err ETIMEDOUT then Some (Some (res, s)) else vfs_rename k s old_at old_path new_at new_path fl)"

section \<open>Opening\<close>

definition check_oflags :: "nat \<Rightarrow> nat eresult" where
  "check_oflags fl =
     (if fl AND DIR_ONLY \<noteq> 0 \<and> fl AND (CREATE OR EXCLUSIVE OR FILE_ONLY OR WRITE_ONLY OR APPEND OR TRUNCATE) \<noteq> 0 then Err EINVAL
      else if fl AND APPEND \<noteq> 0 \<and> fl AND WRITE_ONLY = 0 then Err EINVAL
      else if fl AND READ_WRITE = 0 then Ok (fl OR READ_ONLY)
      else if fl AND EXCLUSIVE \<noteq> 0 \<and> fl AND CREATE = 0 then Err EINVAL
      else Ok fl)"

definition o_creat_helper :: "errno option \<Rightarrow> bool \<Rightarrow> nat \<Rightarrow> vfs_state \<Rightarrow> nat \<Rightarrow> bool \<Rightarrow> (nat eresult \<times> vfs_state) option" where
  "o_creat_helper fail oom now s to_create exclusive =
     (case dc_parent (vs_dent s to_create) of
        None \<Rightarrow> None
      | Some dir \<Rightarrow>
          (case children_of s dir of
             None \<Rightarrow> None
           | Some c \<Rightarrow>
               let name = dent_name s to_create;
                   make = (case open_vnode s dir of
                       Inl e \<Rightarrow> Some (Err e, s)
                     | Inr v \<Rightarrow>
                         (case ram_make_file fail now (vs_fs s) v name MF_Regular of
                            (Inl e, fs) \<Rightarrow> Some (Err e, s\<lparr>vs_fs := fs\<rparr>)
                          | (Inr (e, i), fs) \<Rightarrow>
                              if oom then Some (Err ENOMEM, s\<lparr>vs_fs := fs\<rparr>)
                              else Some (Ok i, snd (add_dent (s\<lparr>vs_fs := fs\<rparr>) dir c (de_name e) DT_File e)))) in
               (case upgrade s (c name) of
                  None \<Rightarrow> make
                | Some x \<Rightarrow>
                    (case dc_type (vs_dent s x) of
                       DT_Negative \<Rightarrow> make
                     | DT_Directory y \<Rightarrow> Some (Err EISDIR, s)
                     | DT_Symlink y \<Rightarrow> Some (Err EAGAIN, s)
                     | DT_File \<Rightarrow> if exclusive then Some (Err EEXIST, s) else Some (open_vnode s x, s)))))"

text \<open>\<open>open\<close> up to the vnode that the file is made of, with the flags it will have.\<close>

definition vfs_open ::
  "errno option \<Rightarrow> bool \<Rightarrow> nat \<Rightarrow> vfs_state \<Rightarrow> nat \<Rightarrow> bytes \<Rightarrow> nat \<Rightarrow> ((nat \<times> nat) eresult \<times> vfs_state) option" where
  "vfs_open fail oom now s at path fl =
     (case check_oflags fl of
        Inl e \<Rightarrow> Some (Err e, s)
      | Inr fl \<Rightarrow>
          (case vfs_walk s at path (fl AND NOFOLLOW = 0) of
             None \<Rightarrow> None
           | Some (Inl e, s) \<Rightarrow> Some (Err e, s)
           | Some (Inr d, s) \<Rightarrow>
               (case (case kind_of s d of
                        DK_Negative \<Rightarrow>
                          if fl AND CREATE = 0 then Some (Err ENOENT, s)
                          else if vs_read_only s then Some (Err EROFS, s)
                          else o_creat_helper fail oom now s d (fl AND EXCLUSIVE \<noteq> 0)
                      | DK_Directory \<Rightarrow>
                          if fl AND EXCLUSIVE \<noteq> 0 then Some (Err EEXIST, s)
                          else if fl AND FILE_ONLY \<noteq> 0 then Some (Err EISDIR, s)
                          else Some (open_vnode s d, s)
                      | _ \<Rightarrow>
                          if fl AND DIR_ONLY \<noteq> 0 then Some (Err ENOTDIR, s)
                          else Some (open_vnode s d, s)) of
                  None \<Rightarrow> None
                | Some (Inl e, s) \<Rightarrow> Some (Err e, s)
                | Some (Inr v, s) \<Rightarrow> Some (Ok (v, fl), s))))"

end
