(* ===== verification/Dent_Cache_Props.thy ===== *)
theory Dent_Cache_Props
  imports Dent_Cache
begin

unbundle bit_operations_syntax

text \<open>
  The directory cache agrees with the filesystem: the invariant, that looking up and walking keep it,
  and that removing and creating files through paths keep it.
\<close>

section \<open>The invariant\<close>

definition type_agrees :: "ram_fs \<Rightarrow> dirent \<Rightarrow> dent_type \<Rightarrow> bool" where
  "type_agrees fs e t \<longleftrightarrow>
     (if de_type e = IT_Directory then as_dir t \<noteq> None
      else if de_type e = IT_Symlink then (\<exists>tg. t = DT_Symlink tg \<and> readlink fs (de_ino e) = Ok tg)
      else t = DT_File)"

text \<open>An entry of the cache agrees with what the directory \<open>i\<close> has under the name.\<close>

definition agrees :: "ram_fs \<Rightarrow> nat \<Rightarrow> bytes \<Rightarrow> dent_cache \<Rightarrow> bool" where
  "agrees fs i n x \<longleftrightarrow> de_name (dc_dirent x) = n \<and>
     (case find_dirent fs i n of
        Inl e \<Rightarrow> e = ENOENT \<and> dc_type x = DT_Negative
      | Inr e \<Rightarrow> dc_dirent x = e \<and> type_agrees fs e (dc_type x))"

definition tree_ok :: "vfs_state \<Rightarrow> bool" where
  "tree_ok s \<longleftrightarrow> 0 \<in> vs_alive s \<and> dc_parent (vs_dent s 0) = None \<and> children_of s 0 \<noteq> None \<and> dent_ino s 0 = 1 \<and>
     (\<forall>d\<in>vs_alive s. d < vs_next s \<and> (\<forall>c n x. children_of s d = Some c \<and> c n = Some x \<longrightarrow> x < vs_next s) \<and>
        (d \<noteq> 0 \<longrightarrow> (\<exists>p. dc_parent (vs_dent s d) = Some p \<and> p < d \<and> p \<in> vs_alive s \<and> children_of s p \<noteq> None)))"

text \<open>The cached children agree, all but the one of \<open>d\<close> under the name \<open>m\<close> if that is exempt.\<close>

definition kids_but :: "(nat \<times> bytes) option \<Rightarrow> vfs_state \<Rightarrow> bool" where
  "kids_but ex s \<longleftrightarrow> (\<forall>p\<in>vs_alive s. \<forall>c n x. children_of s p = Some c \<and> c n = Some x \<and> x \<in> vs_alive s \<and> ex \<noteq> Some (p, n) \<longrightarrow>
     dc_parent (vs_dent s x) = Some p \<and> agrees (vs_fs s) (dent_ino s p) n (vs_dent s x))"

text \<open>
  An entry that is a directory stands for one of the filesystem, for which no other entry stands; it
  is a cached child of its parent, or its directory has been removed and is empty.
\<close>

definition attached :: "vfs_state \<Rightarrow> nat \<Rightarrow> bool" where
  "attached s x \<longleftrightarrow> (\<exists>p c. dc_parent (vs_dent s x) = Some p \<and> children_of s p = Some c \<and> c (dent_name s x) = Some x)"

definition dir_dent_ok :: "vfs_state \<Rightarrow> nat \<Rightarrow> bool" where
  "dir_dent_ok s x \<longleftrightarrow> (\<exists>d. node_data (vs_fs s) (dent_ino s x) = RD_Directory d \<and>
       (dent_ino s x \<notin> set (rf_inodes (vs_fs s)) \<longrightarrow> d = [])) \<and>
     dent_ino s x < rf_ino_ctr (vs_fs s) \<and>
     (\<forall>y\<in>vs_alive s. children_of s y \<noteq> None \<and> dent_ino s y = dent_ino s x \<longrightarrow> y = x) \<and>
     (x = 0 \<or> dent_ino s x \<notin> set (rf_inodes (vs_fs s)) \<or> attached s x)"

definition dir_dents_ok :: "vfs_state \<Rightarrow> bool" where
  "dir_dents_ok s \<longleftrightarrow> (\<forall>x\<in>vs_alive s. children_of s x \<noteq> None \<longrightarrow> dir_dent_ok s x)"

text \<open>A directory of the filesystem has one name.\<close>

definition one_name :: "ram_fs \<Rightarrow> bool" where
  "one_name fs \<longleftrightarrow> (\<forall>v\<in>set (rf_inodes fs). \<forall>w\<in>set (rf_inodes fs). \<forall>n m e e'.
     find_dirent fs v n = Ok e \<and> find_dirent fs w m = Ok e' \<and> de_ino e = de_ino e' \<and> de_type e = IT_Directory \<longrightarrow> v = w \<and> n = m)"

definition coherent :: "vfs_state \<Rightarrow> bool" where
  "coherent s \<longleftrightarrow> ramfs_wf (vs_fs s) \<and> one_name (vs_fs s) \<and> tree_ok s \<and> kids_but None s \<and> dir_dents_ok s"

section \<open>Adding an entry\<close>

lemma children_of_iff: "children_of s d = Some c \<longleftrightarrow> dc_type (vs_dent s d) = DT_Directory c"
  by (auto simp: children_of_def as_dir_def split: dent_type.splits)

lemma set_children_simps [simp]:
  "vs_next (set_children s d c) = vs_next s" "vs_alive (set_children s d c) = vs_alive s" "vs_fs (set_children s d c) = vs_fs s"
  "vs_open (set_children s d c) = vs_open s" "vs_read_only (set_children s d c) = vs_read_only s"
  "dc_parent (vs_dent (set_children s d c) x) = dc_parent (vs_dent s x)" "dc_dirent (vs_dent (set_children s d c) x) = dc_dirent (vs_dent s x)"
  "dent_ino (set_children s d c) x = dent_ino s x" "dent_name (set_children s d c) x = dent_name s x"
  "children_of (set_children s d c) x = (if x = d then Some c else children_of s x)"
  by (simp_all add: set_children_def dent_ino_def dent_name_def children_of_def as_dir_def)

lemma set_children_other: "x \<noteq> d \<Longrightarrow> vs_dent (set_children s d c) x = vs_dent s x"
  by (simp add: set_children_def)

lemma fs_simps [simp]:
  "dent_ino (s\<lparr>vs_fs := fs\<rparr>) x = dent_ino s x" "dent_name (s\<lparr>vs_fs := fs\<rparr>) x = dent_name s x"
  "children_of (s\<lparr>vs_fs := fs\<rparr>) x = children_of s x"
  by (simp_all add: dent_ino_def dent_name_def children_of_def)

lemma add_dent_fields:
  assumes "add_dent s d c m t e = (k, s')" "d < vs_next s"
  shows "k = vs_next s" "vs_next s' = Suc k" "vs_alive s' = insert k (vs_alive s)" "vs_fs s' = vs_fs s" "vs_open s' = vs_open s"
    "vs_read_only s' = vs_read_only s"
    "vs_dent s' k = \<lparr>dc_type = t, dc_parent = Some d, dc_dirent = e\<rparr>"
    "\<And>x. x \<noteq> k \<Longrightarrow> dc_parent (vs_dent s' x) = dc_parent (vs_dent s x) \<and> dc_dirent (vs_dent s' x) = dc_dirent (vs_dent s x)"
    "\<And>x. x \<noteq> k \<Longrightarrow> x \<noteq> d \<Longrightarrow> vs_dent s' x = vs_dent s x"
    "\<And>x. children_of s' x = (if x = d then Some (c(m \<mapsto> k)) else if x = k then as_dir t else children_of s x)"
  using assms by (auto simp: add_dent_def Let_def set_children_def children_of_def as_dir_def)

lemma tree_okD:
  assumes "tree_ok s" "d \<in> vs_alive s"
  shows "d < vs_next s" "children_of s d = Some c \<Longrightarrow> c n = Some x \<Longrightarrow> x < vs_next s"
    "d \<noteq> 0 \<Longrightarrow> \<exists>p. dc_parent (vs_dent s d) = Some p \<and> p < d \<and> p \<in> vs_alive s \<and> children_of s p \<noteq> None"
  using assms unfolding tree_ok_def by blast+

lemma kidsD:
  assumes "kids_but ex s" "p \<in> vs_alive s" "children_of s p = Some c" "c n = Some x" "x \<in> vs_alive s" "ex \<noteq> Some (p, n)"
  shows "dc_parent (vs_dent s x) = Some p" "agrees (vs_fs s) (dent_ino s p) n (vs_dent s x)"
  using assms unfolding kids_but_def by blast+

lemma kids_but_weaken: "kids_but None s \<Longrightarrow> kids_but ex s"
  unfolding kids_but_def by blast

text \<open>Changing the children of a directory entry does not change what it agrees with.\<close>

lemma agrees_same_shape:
  assumes "agrees fs i n x" "dc_dirent y = dc_dirent x" "dc_type y = dc_type x \<or> as_dir (dc_type x) \<noteq> None \<and> as_dir (dc_type y) \<noteq> None"
  shows "agrees fs i n y"
proof (cases "dc_type y = dc_type x")
  case True
  then show ?thesis using assms(1,2) by (simp add: agrees_def split: sum.splits)
next
  case False
  then have d: "as_dir (dc_type x) \<noteq> None" "as_dir (dc_type y) \<noteq> None" using assms(3) by auto
  obtain c where c: "dc_type x = DT_Directory c" using d(1) by (auto simp: as_dir_def split: dent_type.splits)
  then obtain e where e: "find_dirent fs i n = Inr e" "dc_dirent x = e" "type_agrees fs e (dc_type x)"
    using assms(1) by (cases "find_dirent fs i n") (auto simp: agrees_def)
  have "de_type e = IT_Directory" using e(3) c by (auto simp: type_agrees_def split: if_splits)
  then show ?thesis using assms(1,2) e d(2) by (simp add: agrees_def type_agrees_def)
qed

lemma add_dent_tree:
  assumes t: "tree_ok s" and d: "d \<in> vs_alive s" "children_of s d = Some c" and a: "add_dent s d c m t e = (k, s')"
    and emp: "as_dir t = None \<or> as_dir t = Some Map.empty"
  shows "tree_ok s'"
proof -
  note f = add_dent_fields [OF a tree_okD(1) [OF t d(1)]] and dn = tree_okD(1) [OF t d(1)]
  have k0: "k \<noteq> 0" "k \<noteq> d" "0 \<noteq> k" using f(1) dn by auto
  have ch: "children_of s x \<noteq> None \<Longrightarrow> x < k \<Longrightarrow> children_of s' x \<noteq> None" for x using f(10) [of x] by auto
  have "x < vs_next s' \<and> (\<forall>c n y. children_of s' x = Some c \<and> c n = Some y \<longrightarrow> y < vs_next s') \<and>
      (x \<noteq> 0 \<longrightarrow> (\<exists>p. dc_parent (vs_dent s' x) = Some p \<and> p < x \<and> p \<in> vs_alive s' \<and> children_of s' p \<noteq> None))"
    if x: "x \<in> vs_alive s'" for x
  proof (cases "x = k")
    case True
    then show ?thesis using f(1-3,7,10) d dn k0 emp by auto
  next
    case False
    then have xa: "x \<in> vs_alive s" using x f(3) by auto
    note tx = tree_okD [OF t xa]
    have "\<forall>c' n y. children_of s' x = Some c' \<and> c' n = Some y \<longrightarrow> y < vs_next s'"
    proof (intro allI impI)
      fix c' n y assume h: "children_of s' x = Some c' \<and> c' n = Some y"
      show "y < vs_next s'"
      proof (cases "x = d")
        case True
        then show ?thesis using h f(1,2,10) tx(2) [of c n y] d(2) by (auto split: if_splits)
      next
        case xd: False
        then show ?thesis using h f(1,2,10) False tx(2) [of c' n y] by auto
      qed
    qed
    moreover have "\<exists>p. dc_parent (vs_dent s' x) = Some p \<and> p < x \<and> p \<in> vs_alive s' \<and> children_of s' p \<noteq> None" if x0: "x \<noteq> 0"
    proof -
      obtain p where p: "dc_parent (vs_dent s x) = Some p" "p < x" "p \<in> vs_alive s" "children_of s p \<noteq> None" using tx(3) [OF x0] by blast
      moreover have "p < k" using p(2) tx(1) f(1) by simp
      ultimately show ?thesis using f(3) f(8) [OF False] ch [of p] by auto
    qed
    ultimately show ?thesis using tx(1) f(1,2) by auto
  qed
  moreover have "0 \<in> vs_alive s'" "dc_parent (vs_dent s' 0) = None" "children_of s' 0 \<noteq> None" "dent_ino s' 0 = 1"
    using t f(3) f(8) [OF k0(3)] ch [of 0] k0(1) unfolding tree_ok_def by (auto simp: dent_ino_def)
  ultimately show ?thesis unfolding tree_ok_def by blast
qed

lemma add_dent_kids:
  assumes t: "tree_ok s" and kb: "kids_but (Some (d, m)) s" and d: "d \<in> vs_alive s" "children_of s d = Some c"
    and a: "add_dent s d c m t e = (k, s')" and emp: "as_dir t = None \<or> as_dir t = Some Map.empty"
    and ag: "agrees (vs_fs s) (dent_ino s d) m \<lparr>dc_type = t, dc_parent = Some d, dc_dirent = e\<rparr>"
  shows "kids_but None s'"
  unfolding kids_but_def
proof (intro ballI allI impI)
  fix p c' n x
  assume p: "p \<in> vs_alive s'" and h: "children_of s' p = Some c' \<and> c' n = Some x \<and> x \<in> vs_alive s' \<and> None \<noteq> Some (p, n)"
  note f = add_dent_fields [OF a tree_okD(1) [OF t d(1)]] and dn = tree_okD(1) [OF t d(1)]
  have pk: "p \<noteq> k" using h f(10) [of p] dn f(1) emp by auto
  then have pa: "p \<in> vs_alive s" "dent_ino s' p = dent_ino s p" using p f(3) f(8) [OF pk] by (auto simp: dent_ino_def)
  show "dc_parent (vs_dent s' x) = Some p \<and> agrees (vs_fs s') (dent_ino s' p) n (vs_dent s' x)"
  proof (cases "p = d \<and> n = m")
    case True
    then have "x = k" using h f(10) [of d] by auto
    then show ?thesis using True f(4,7) ag pa(2) by simp
  next
    case False
    then obtain c0 where c0: "children_of s p = Some c0" "c0 n = Some x" using h f(10) [of p] d(2) pk by (auto split: if_splits)
    have "x < k" using tree_okD(2) [OF t pa(1) c0] f(1) by simp
    then have xk: "x \<noteq> k" "x \<in> vs_alive s" using h f(3) by auto
    note kd = kidsD [OF kb pa(1) c0 xk(2)]
    have "dc_type (vs_dent s' x) = dc_type (vs_dent s x) \<or> as_dir (dc_type (vs_dent s x)) \<noteq> None \<and> as_dir (dc_type (vs_dent s' x)) \<noteq> None"
      using f(9) [OF xk(1)] f(10) [of d] d(2) by (cases "x = d") (auto simp: children_of_def)
    then show ?thesis using kd False f(4) f(8) [OF xk(1)] pa(2) agrees_same_shape [of "vs_fs s" "dent_ino s p" n "vs_dent s x" "vs_dent s' x"]
      by auto
  qed
qed

lemma add_dent_dirs:
  assumes t: "tree_ok s" and dd: "dir_dents_ok s" and d: "d \<in> vs_alive s" "children_of s d = Some c"
    and a: "add_dent s d c m t e = (k, s')"
    and free: "\<And>y. y \<in> vs_alive s \<Longrightarrow> c m = Some y \<Longrightarrow> children_of s y = None"
    and new: "as_dir t \<noteq> None \<Longrightarrow> de_name e = m \<and> (\<exists>dd. node_data (vs_fs s) (de_ino e) = RD_Directory dd) \<and>
      de_ino e \<in> set (rf_inodes (vs_fs s)) \<and> de_ino e < rf_ino_ctr (vs_fs s) \<and>
      (\<forall>y\<in>vs_alive s. children_of s y \<noteq> None \<longrightarrow> dent_ino s y \<noteq> de_ino e)"
  shows "dir_dents_ok s'"
  unfolding dir_dents_ok_def
proof (intro ballI impI)
  fix x assume x: "x \<in> vs_alive s'" "children_of s' x \<noteq> None"
  note f = add_dent_fields [OF a tree_okD(1) [OF t d(1)]] and dn = tree_okD(1) [OF t d(1)]
  have ki: "dent_ino s' k = de_ino e" "dent_name s' k = de_name e" using f(7) by (simp_all add: dent_ino_def dent_name_def)
  have oi: "dent_ino s' y = dent_ino s y" "dent_name s' y = dent_name s y" if "y \<noteq> k" for y
    using f(8) [OF that] by (simp_all add: dent_ino_def dent_name_def)
  have oc: "children_of s y \<noteq> None \<longleftrightarrow> children_of s' y \<noteq> None" if "y \<noteq> k" for y using f(10) [of y] that d(2) by auto
  show "dir_dent_ok s' x"
  proof (cases "x = k")
    case True
    then have n: "as_dir t \<noteq> None" using x(2) f(10) [of k] dn f(1) by auto
    have "attached s' k" unfolding attached_def using f(7,10) ki(2) new [OF n] by auto
    moreover have "\<forall>y\<in>vs_alive s'. children_of s' y \<noteq> None \<and> dent_ino s' y = dent_ino s' k \<longrightarrow> y = k"
      using new [OF n] f(3) oi(1) oc ki(1) by (metis insertE)
    ultimately show ?thesis unfolding dir_dent_ok_def True using new [OF n] ki(1) f(4) by auto
  next
    case False
    then have xa: "x \<in> vs_alive s" "children_of s x \<noteq> None" using x f(3) oc [OF False] by auto
    then have ok: "dir_dent_ok s x" using dd by (simp add: dir_dents_ok_def)
    have "attached s' x" if "attached s x"
    proof -
      obtain p c0 where p: "dc_parent (vs_dent s x) = Some p" "children_of s p = Some c0" "c0 (dent_name s x) = Some x"
        using \<open>attached s x\<close> by (auto simp: attached_def)
      have pk: "p \<noteq> k" using tree_okD(3) [OF t xa(1)] p(1) tree_okD(1) [OF t xa(1)] f(1) t
        by (cases "x = 0") (auto simp: tree_ok_def)
      have "\<not> (p = d \<and> dent_name s x = m)" using p(2,3) d(2) free [OF xa(1)] xa(2) by auto
      then have "\<exists>c1. children_of s' p = Some c1 \<and> c1 (dent_name s x) = Some x" using p(2,3) d(2) f(10) [of p] pk by auto
      then show ?thesis using p(1) f(8) [OF False] oi(2) [OF False] by (auto simp: attached_def)
    qed
    moreover have "\<forall>y\<in>vs_alive s'. children_of s' y \<noteq> None \<and> dent_ino s' y = dent_ino s' x \<longrightarrow> y = x"
    proof (intro ballI impI)
      fix y assume y: "y \<in> vs_alive s'" "children_of s' y \<noteq> None \<and> dent_ino s' y = dent_ino s' x"
      show "y = x"
      proof (cases "y = k")
        case True
        then have "as_dir t \<noteq> None" using y(2) f(10) [of k] dn f(1) by auto
        then show ?thesis using new xa y(2) True ki(1) oi(1) [OF False] by auto
      next
        case yk: False
        then show ?thesis using ok y f(3) oc [OF yk] oi(1) [OF yk] oi(1) [OF False] unfolding dir_dent_ok_def by auto
      qed
    qed
    ultimately show ?thesis using ok oi [OF False] f(4) unfolding dir_dent_ok_def by auto
  qed
qed

text \<open>Together: the cache is coherent again once the entry that agrees with the filesystem is added.\<close>

lemma add_dent_coherent:
  assumes "ramfs_wf (vs_fs s)" "one_name (vs_fs s)" "tree_ok s" "kids_but (Some (d, m)) s" "dir_dents_ok s"
    and "d \<in> vs_alive s" "children_of s d = Some c" "add_dent s d c m t e = (k, s')"
    and "as_dir t = None \<or> as_dir t = Some Map.empty"
    and "agrees (vs_fs s) (dent_ino s d) m \<lparr>dc_type = t, dc_parent = Some d, dc_dirent = e\<rparr>"
    and "\<And>y. y \<in> vs_alive s \<Longrightarrow> c m = Some y \<Longrightarrow> children_of s y = None"
    and "as_dir t \<noteq> None \<Longrightarrow> de_name e = m \<and> (\<exists>dd. node_data (vs_fs s) (de_ino e) = RD_Directory dd) \<and>
      de_ino e \<in> set (rf_inodes (vs_fs s)) \<and> de_ino e < rf_ino_ctr (vs_fs s) \<and>
      (\<forall>y\<in>vs_alive s. children_of s y \<noteq> None \<longrightarrow> dent_ino s y \<noteq> de_ino e)"
  shows "coherent s'"
proof -
  have "vs_fs s' = vs_fs s" using add_dent_fields(4) [OF assms(8) tree_okD(1) [OF assms(3,6)]] .
  then show ?thesis unfolding coherent_def
    using assms(1,2) add_dent_tree [OF assms(3,6,7,8,9)] add_dent_kids [OF assms(3,4,6,7,8,9,10)]
      add_dent_dirs [OF assms(3,5,6,7,8,11,12)] by simp
qed

section \<open>Looking up\<close>

lemma coherentD:
  assumes "coherent s"
  shows "ramfs_wf (vs_fs s)" "one_name (vs_fs s)" "tree_ok s" "kids_but None s" "dir_dents_ok s"
  using assms by (simp_all add: coherent_def)

lemma coherent_dir:
  assumes "coherent s" "d \<in> vs_alive s" "children_of s d \<noteq> None"
  shows "dir_dent_ok s d"
  using assms by (simp add: coherent_def dir_dents_ok_def)

lemma dir_entry:
  assumes "ramfs_wf (vs_fs s)" "dir_dent_ok s d" "find_dirent (vs_fs s) (dent_ino s d) n = Ok e"
  shows "dent_ino s d \<in> set (rf_inodes (vs_fs s))" "entry_ok (vs_fs s) (n, e)" "de_ino e \<noteq> 1"
proof -
  obtain D where D: "node_data (vs_fs s) (dent_ino s d) = RD_Directory D" "dent_ino s d \<notin> set (rf_inodes (vs_fs s)) \<longrightarrow> D = []"
    using assms(2) by (auto simp: dir_dent_ok_def)
  then have m: "map_of D n = Some e" using assms(3) by (auto simp: find_dirent_def split: option.splits)
  then show v: "dent_ino s d \<in> set (rf_inodes (vs_fs s))" using D(2) by auto
  show "entry_ok (vs_fs s) (n, e)" "de_ino e \<noteq> 1" using wf_entry(1,5) [OF assms(1) v D(1) m] .
qed

lemma cached_dir_entry:
  assumes "coherent s" "y \<in> vs_alive s" "children_of s y \<noteq> None" "y \<noteq> 0" "dent_ino s y \<in> set (rf_inodes (vs_fs s))"
  obtains p c where "dc_parent (vs_dent s y) = Some p" "p \<in> vs_alive s" "children_of s p = Some c" "c (dent_name s y) = Some y"
    "find_dirent (vs_fs s) (dent_ino s p) (dent_name s y) = Ok (dc_dirent (vs_dent s y))" "dir_dent_ok s p"
proof -
  note h = coherentD [OF assms(1)]
  obtain p c where p: "dc_parent (vs_dent s y) = Some p" "children_of s p = Some c" "c (dent_name s y) = Some y"
    using coherent_dir [OF assms(1-3)] assms(4,5) by (auto simp: dir_dent_ok_def attached_def)
  have pa: "p \<in> vs_alive s" using tree_okD(3) [OF h(3) assms(2,4)] p(1) by auto
  have "agrees (vs_fs s) (dent_ino s p) (dent_name s y) (vs_dent s y)" using kidsD(2) [OF h(4) pa p(2,3) assms(2)] by simp
  then have "find_dirent (vs_fs s) (dent_ino s p) (dent_name s y) = Ok (dc_dirent (vs_dent s y))"
    using assms(3) by (auto simp: agrees_def children_of_def as_dir_def split: sum.splits)
  then show thesis using that p pa coherent_dir [OF assms(1) pa] by simp
qed

text \<open>A directory that is looked up for the first time is not in the cache yet.\<close>

lemma entry_unseen:
  assumes co: "coherent s" and d: "d \<in> vs_alive s" "children_of s d = Some c" "upgrade s (c n) = None"
    and e: "find_dirent (vs_fs s) (dent_ino s d) n = Ok e" "de_type e = IT_Directory"
    and y: "y \<in> vs_alive s" "children_of s y \<noteq> None"
  shows "dent_ino s y \<noteq> de_ino e"
proof
  assume i: "dent_ino s y = de_ino e"
  note h = coherentD [OF co]
  have dd: "dir_dent_ok s d" using coherent_dir [OF co d(1)] d(2) by simp
  note en = dir_entry [OF h(1) dd e(1)]
  have "dent_ino s 0 = 1" using h(3) by (simp add: tree_ok_def)
  then have "y \<noteq> 0" using en(3) i by (cases "y = 0") simp_all
  moreover have "dent_ino s y \<in> set (rf_inodes (vs_fs s))" using en(2) i by (simp add: entry_ok_def)
  ultimately obtain p c1 where p: "p \<in> vs_alive s" "children_of s p = Some c1" "c1 (dent_name s y) = Some y"
    "find_dirent (vs_fs s) (dent_ino s p) (dent_name s y) = Ok (dc_dirent (vs_dent s y))" "dir_dent_ok s p"
    using cached_dir_entry [OF co y] by blast
  have "dent_ino s d = dent_ino s p \<and> n = dent_name s y"
    using h(2) en(1) dir_entry(1) [OF h(1) p(5,4)] e p(4) i unfolding one_name_def dent_ino_def by metis
  moreover from this have "d = p" using p(5) d(1,2) by (auto simp: dir_dent_ok_def)
  ultimately show False using p(2,3) d(2,3) y(1) by (auto simp: upgrade_def)
qed

text \<open>Adding what the filesystem has under a name that is not cached.\<close>

lemma add_found:
  assumes co: "coherent s" and d: "d \<in> vs_alive s" "children_of s d = Some c" "upgrade s (c n) = None"
    and e: "find_dirent (vs_fs s) (dent_ino s d) n = Ok e" "type_agrees (vs_fs s) e t" "as_dir t = None \<or> as_dir t = Some Map.empty"
    and a: "add_dent s d c n t e = (k, s')"
  shows "coherent s'"
proof (rule add_dent_coherent [OF coherentD(1-3) [OF co] kids_but_weaken [OF coherentD(4) [OF co]] coherentD(5) [OF co] d(1,2) a e(3)])
  have dd: "dir_dent_ok s d" using coherent_dir [OF co d(1)] d(2) by simp
  note en = dir_entry [OF coherentD(1) [OF co] dd e(1)]
  show "agrees (vs_fs s) (dent_ino s d) n \<lparr>dc_type = t, dc_parent = Some d, dc_dirent = e\<rparr>"
    using e en(2) by (simp add: agrees_def entry_ok_def)
  show "children_of s y = None" if "y \<in> vs_alive s" "c n = Some y" for y using that d(3) by (simp add: upgrade_def)
  assume "as_dir t \<noteq> None"
  then have ty: "de_type e = IT_Directory" using e(2) by (auto simp: type_agrees_def as_dir_def split: if_splits)
  have "de_ino e \<in> set (rf_inodes (vs_fs s))" "data_node_type (node_data (vs_fs s) (de_ino e)) = IT_Directory" "de_name e = n"
    using en(2) ty by (simp_all add: entry_ok_def)
  moreover from this have "\<exists>dd. node_data (vs_fs s) (de_ino e) = RD_Directory dd" "de_ino e < rf_ino_ctr (vs_fs s)"
    using coherentD(1) [OF co] by (auto simp: data_node_type_def ramfs_wf_def table_ok_def split: ram_fs_data.splits)
  ultimately show "de_name e = n \<and> (\<exists>dd. node_data (vs_fs s) (de_ino e) = RD_Directory dd) \<and>
      de_ino e \<in> set (rf_inodes (vs_fs s)) \<and> de_ino e < rf_ino_ctr (vs_fs s) \<and>
      (\<forall>y\<in>vs_alive s. children_of s y \<noteq> None \<longrightarrow> dent_ino s y \<noteq> de_ino e)"
    using entry_unseen [OF co d e(1) ty] by blast
qed

lemma add_missing:
  assumes co: "coherent s" and d: "d \<in> vs_alive s" "children_of s d = Some c" "upgrade s (c n) = None"
    and e: "find_dirent (vs_fs s) (dent_ino s d) n = Err ENOENT"
    and a: "add_dent s d c n DT_Negative (default_dirent n) = (k, s')"
  shows "coherent s'"
proof (rule add_dent_coherent [OF coherentD(1-3) [OF co] kids_but_weaken [OF coherentD(4) [OF co]] coherentD(5) [OF co] d(1,2) a])
  show "children_of s y = None" if "y \<in> vs_alive s" "c n = Some y" for y using that d(3) by (simp add: upgrade_def)
qed (simp_all add: e agrees_def as_dir_def default_dirent_def)


lemma open_ino_ok: "open_ino s i = Ok v \<Longrightarrow> v = i"
  by (auto simp: open_ino_def open_impl_def split: if_splits)

text \<open>
  A lookup keeps the cache coherent, frees nothing, leaves the filesystem alone, and gives an entry that is alive
  and, under a name other than \<open>.\<close> and \<open>..\<close>, agrees with the directory.
\<close>

lemma lookup_miss_cases:
  assumes "lookup_miss oom s d c n = (r, s')"
  obtains (err) x where "r = Err x" "s' = s"
  | (none) k where "find_dirent (vs_fs s) (dent_ino s d) n = Err ENOENT" "add_dent s d c n DT_Negative (default_dirent n) = (k, s')" "r = Ok k"
  | (some) k e t where "find_dirent (vs_fs s) (dent_ino s d) n = Ok e" "type_agrees (vs_fs s) e t" "as_dir t = None \<or> as_dir t = Some Map.empty"
      "add_dent s d c n t e = (k, s')" "r = Ok k"
proof (cases "open_vnode s d")
  case (Inl a)
  then have "r = Err a" "s' = s" using assms by (simp_all add: lookup_miss_def)
  then show thesis by (rule err)
next
  case (Inr v)
  have v: "v = dent_ino s d" using Inr open_ino_ok by (simp add: open_vnode_def)
  show thesis
  proof (cases "find_dirent (vs_fs s) v n")
    case i: (Inl a)
    then show thesis using assms Inr v err none by (auto simp: lookup_miss_def split: if_splits prod.splits)
  next
    case e: (Inr e)
    have add: thesis if "(if oom then (Err ENOMEM, s) else (case add_dent s d c n t e of (k, s') \<Rightarrow> (Ok k, s'))) = (r, s')"
      "type_agrees (vs_fs s) e t" "as_dir t = None \<or> as_dir t = Some Map.empty" for t
      using that err some e v by (auto split: if_splits prod.splits)
    show thesis
    proof (cases "de_type e = IT_Symlink")
      case False
      let ?t = "if de_type e = IT_Directory then DT_Directory Map.empty else DT_File"
      have "(if oom then (Err ENOMEM, s) else (case add_dent s d c n ?t e of (k, s') \<Rightarrow> (Ok k, s'))) = (r, s')"
        using assms Inr e False by (cases "de_type e") (auto simp: lookup_miss_def)
      then show thesis by (rule add) (simp_all add: type_agrees_def as_dir_def False)
    next
      case ln: True
      show thesis
      proof (cases "open_ino s (de_ino e)")
        case (Inl a)
        then have "r = Err a" "s' = s" using assms \<open>open_vnode s d = _\<close> e ln by (simp_all add: lookup_miss_def)
        then show thesis by (rule err)
      next
        case l: (Inr l)
        show thesis
        proof (cases "readlink (vs_fs s) l")
          case i: (Inl a)
          then show thesis using assms Inr e ln l err by (auto simp: lookup_miss_def)
        next
          case tg: (Inr tg)
          have "(if oom then (Err ENOMEM, s) else (case add_dent s d c n (DT_Symlink tg) e of (k, s') \<Rightarrow> (Ok k, s'))) = (r, s')"
            using assms Inr e ln l tg by (simp add: lookup_miss_def)
          then show thesis by (rule add) (use tg open_ino_ok [OF l] ln in \<open>simp_all add: type_agrees_def as_dir_def\<close>)
        qed
      qed
    qed
  qed
qed

lemma lookup_miss_coherent:
  assumes co: "coherent s" and d: "d \<in> vs_alive s" "children_of s d = Some c" "upgrade s (c n) = None"
    and l: "lookup_miss oom s d c n = (r, s')"
  shows "coherent s'" "vs_alive s \<subseteq> vs_alive s'" "vs_fs s' = vs_fs s" "r = Ok x \<Longrightarrow> x \<in> vs_alive s'"
    "r = Ok x \<Longrightarrow> agrees (vs_fs s') (dent_ino s' d) n (vs_dent s' x)"
proof -
  have dn: "d < vs_next s" using tree_okD(1) [OF coherentD(3) [OF co] d(1)] .
  have k: "vs_alive s \<subseteq> vs_alive s' \<and> vs_fs s' = vs_fs s \<and> k \<in> vs_alive s' \<and> children_of s' d = Some (c(n \<mapsto> k))"
    if "add_dent s d c n t e = (k, s')" for t e k
    using add_dent_fields [OF that dn] by auto
  have "coherent s' \<and> vs_alive s \<subseteq> vs_alive s' \<and> vs_fs s' = vs_fs s \<and>
    (\<forall>x. r = Ok x \<longrightarrow> x \<in> vs_alive s' \<and> (\<exists>c'. children_of s' d = Some c' \<and> c' n = Some x))"
    using l
  proof (cases rule: lookup_miss_cases)
    case err
    then show ?thesis using co by simp
  next
    case (none a)
    then show ?thesis using add_missing [OF co d none(1,2)] k [OF none(2)] by simp
  next
    case (some a e t)
    then show ?thesis using add_found [OF co d some(1-4)] k [OF some(4)] by simp
  qed
  then show c: "coherent s'" "vs_alive s \<subseteq> vs_alive s'" "vs_fs s' = vs_fs s" "r = Ok x \<Longrightarrow> x \<in> vs_alive s'"
    and "r = Ok x \<Longrightarrow> agrees (vs_fs s') (dent_ino s' d) n (vs_dent s' x)"
    using kidsD(2) [of None s' d] coherentD(4) [of s'] d(1) by blast+
qed

lemma dent_lookup_coherent:
  assumes co: "coherent s" and d: "d \<in> vs_alive s" and l: "dent_lookup oom s d n = (r, s')"
  shows "coherent s'" "vs_alive s \<subseteq> vs_alive s'" "vs_fs s' = vs_fs s" "r = Ok x \<Longrightarrow> x \<in> vs_alive s'"
    "r = Ok x \<Longrightarrow> n \<noteq> [dot] \<Longrightarrow> n \<noteq> [dot, dot] \<Longrightarrow> agrees (vs_fs s') (dent_ino s' d) n (vs_dent s' x)"
proof -
  have "coherent s' \<and> vs_alive s \<subseteq> vs_alive s' \<and> vs_fs s' = vs_fs s \<and> (\<forall>x. r = Ok x \<longrightarrow> x \<in> vs_alive s' \<and>
      (n \<noteq> [dot] \<longrightarrow> n \<noteq> [dot, dot] \<longrightarrow> agrees (vs_fs s') (dent_ino s' d) n (vs_dent s' x)))"
  proof (cases "n = [dot] \<or> n = [dot, dot]")
    case True
    have "p \<in> vs_alive s" if "dc_parent (vs_dent s d) = Some p" for p
      using tree_okD(3) [OF coherentD(3) [OF co] d] that coherentD(3) [OF co] by (cases "d = 0") (auto simp: tree_ok_def)
    then show ?thesis using True l d co by (auto simp: dent_lookup_def split: if_splits option.splits)
  next
    case False
    show ?thesis
    proof (cases "children_of s d")
      case None
      then show ?thesis using l co False by (auto simp: dent_lookup_def children_of_def)
    next
      case (Some c)
      show ?thesis
      proof (cases "upgrade s (c n)")
        case None
        then have "lookup_miss oom s d c n = (r, s')" using l False Some by (simp add: dent_lookup_def children_of_def)
        then show ?thesis using lookup_miss_coherent [OF co d Some None] by blast
      next
        case up: (Some y)
        then have y: "c n = Some y" "y \<in> vs_alive s" by (auto simp: upgrade_def split: option.splits if_splits)
        have "r = Ok y" "s' = s" using l False Some up by (simp_all add: dent_lookup_def children_of_def)
        then show ?thesis using kidsD(2) [OF coherentD(4) [OF co] d Some y] co y(2) by simp
      qed
    qed
  qed
  then show "coherent s'" "vs_alive s \<subseteq> vs_alive s'" "vs_fs s' = vs_fs s" "r = Ok x \<Longrightarrow> x \<in> vs_alive s'"
    "r = Ok x \<Longrightarrow> n \<noteq> [dot] \<Longrightarrow> n \<noteq> [dot, dot] \<Longrightarrow> agrees (vs_fs s') (dent_ino s' d) n (vs_dent s' x)"
    by blast+
qed

lemma dent_lookup_ino:
  assumes co: "coherent s" and d: "d \<in> vs_alive s" and l: "dent_lookup oom s d n = (r, s')"
  shows "dent_ino s' d = dent_ino s d"
proof -
  have dn: "d < vs_next s" using tree_okD(1) [OF coherentD(3) [OF co] d] .
  have a: "dent_ino s' d = dent_ino s d" if "add_dent s d c n t e = (k, s')" for c t e k
    using add_dent_fields(1,8) [OF that dn] dn by (auto simp: dent_ino_def)
  have "lookup_miss oom s d c n = (r, s') \<Longrightarrow> dent_ino s' d = dent_ino s d" for c
    by (erule lookup_miss_cases) (auto dest: a)
  then show ?thesis using l by (auto simp: dent_lookup_def split: if_splits option.splits)
qed

text \<open>The walk over paths relies on the cache as on any way to look names up.\<close>

interpretation dc: name_lookup "dent_lookup False" "\<lambda>s. Ok 0" "\<lambda>s. coherent s \<and> vs_fs s = fs \<and> A \<subseteq> vs_alive s" "\<lambda>s d. d \<in> vs_alive s"
  for fs A
proof
  fix s l c r s' assume a: "coherent s \<and> vs_fs s = fs \<and> A \<subseteq> vs_alive s" "l \<in> vs_alive s" "dent_lookup False s l c = (r, s')"
  show "(coherent s' \<and> vs_fs s' = fs \<and> A \<subseteq> vs_alive s') \<and> (\<forall>x. r = Ok x \<longrightarrow> x \<in> vs_alive s') \<and> (\<forall>x. x \<in> vs_alive s \<longrightarrow> x \<in> vs_alive s')"
    using a(1) dent_lookup_coherent(1-4) [OF conjunct1 [OF a(1)] a(2,3)] by auto
next
  fix s x assume "coherent s \<and> vs_fs s = fs \<and> A \<subseteq> vs_alive s" "(Ok 0 :: nat eresult) = Ok x"
  then show "x \<in> vs_alive s" by (simp add: coherent_def tree_ok_def)
qed

lemma vfs_walk_coherent:
  assumes "coherent s" "at \<in> vs_alive s" "vfs_walk s at path follow = Some (r, s')"
  shows "coherent s'" "vs_fs s' = vs_fs s" "vs_alive s \<subseteq> vs_alive s'" "r = Ok x \<Longrightarrow> x \<in> vs_alive s'"
  using dc.path_walk_inv [of s "vs_fs s" "vs_alive s" at kind_of path follow r s'] assms unfolding vfs_walk_def by auto

lemma parent_alive:
  assumes "coherent s" "x \<in> vs_alive s" "dc_parent (vs_dent s x) = Some p"
  shows "p \<in> vs_alive s" "children_of s p \<noteq> None"
proof -
  have "x \<noteq> 0" using coherentD(3) [OF assms(1)] assms(3) by (cases "x = 0") (auto simp: tree_ok_def)
  then show "p \<in> vs_alive s" "children_of s p \<noteq> None" using tree_okD(3) [OF coherentD(3) [OF assms(1)] assms(2)] assms(3) by auto
qed

section \<open>Climbing to the root\<close>

text \<open>Parents are allocated before their children, so the numbers of entries bound the climbs: the bounds chosen are enough.\<close>

lemma parents_of_ends:
  assumes "tree_ok s"
  shows "d \<in> vs_alive s \<Longrightarrow> d < k \<Longrightarrow> \<exists>ds. parents_of k s d = Some ds \<and> set ds \<subseteq> vs_alive s"
proof (induction k arbitrary: d)
  case (Suc k)
  show ?case
  proof (cases "d = 0")
    case True
    then show ?thesis using assms by (simp add: tree_ok_def)
  next
    case False
    then obtain p where p: "dc_parent (vs_dent s d) = Some p" "p < d" "p \<in> vs_alive s" using tree_okD(3) [OF assms Suc.prems(1)] by blast
    then show ?thesis using Suc.IH [of p] Suc.prems by auto
  qed
qed simp

lemma realpath_total:
  assumes "coherent s" "d \<in> vs_alive s"
  shows "\<exists>path. realpath s d = Some path \<and> path ! 0 = slash \<and> path \<noteq> []"
proof -
  obtain ds where "parents_of (Suc d) s d = Some ds" using parents_of_ends [of s d "Suc d"] assms by (auto simp: coherent_def)
  then show ?thesis by (cases ds) (auto simp: realpath_def)
qed

lemma rename_check_loops_ends:
  assumes "tree_ok s"
  shows "d \<in> vs_alive s \<Longrightarrow> d < k \<Longrightarrow> rename_check_loops k s x d \<noteq> None"
proof (induction k arbitrary: d)
  case (Suc k)
  show ?case
  proof (cases "d = 0")
    case True
    then show ?thesis using assms by (simp add: tree_ok_def)
  next
    case False
    then obtain p where p: "dc_parent (vs_dent s d) = Some p" "p < d" "p \<in> vs_alive s" using tree_okD(3) [OF assms Suc.prems(1)] by blast
    then show ?thesis using Suc.IH [of p] Suc.prems by auto
  qed
qed simp

section \<open>Removing a name\<close>

text \<open>A directory has one name, so it leaves the table with it.\<close>

lemma dir_refs:
  assumes wf: "ramfs_wf fs" and one: "one_name fs" and v: "v \<in> set (rf_inodes fs)"
    and e: "find_dirent fs v n = Ok e" "de_type e = IT_Directory"
  shows "refs fs (de_ino e) = 1"
proof -
  obtain D where D: "node_data fs v = RD_Directory D" "map_of D n = Some e"
    using e(1) by (auto simp: find_dirent_def as_directory_iff split: option.splits)
  have u: "w = v \<and> m = n" if w: "w \<in> set (rf_inodes fs)" "(m, e') \<in> set (dir_entries (node_data fs w))" "de_ino e' = de_ino e" for w m e'
  proof -
    have "distinct (map fst (dir_entries (node_data fs w)))" using wf_parts(2) [OF wf] w(1) by (simp add: dirs_ok_def)
    then have "map_of (dir_entries (node_data fs w)) m = Some e'" using w(2) by simp
    then have "find_dirent fs w m = Ok e'" using w(2)
      by (auto simp: find_dirent_def as_directory_def dir_entries_def split: ram_fs_data.splits)
    then show ?thesis using one v w(1,3) e unfolding one_name_def by metis
  qed
  have o: "names_ino (de_ino e) (dir_entries (node_data fs w)) = 0" if "w \<in> set (rf_inodes fs) - {v}" for w
    using u [of w] that by (auto simp: names_ino_def filter_empty_conv)
  have "refs fs (de_ino e) = names_ino (de_ino e) D"
    unfolding refs_def using v o D(1) by (simp add: sum.remove)
  also have "\<dots> \<le> 1"
  proof -
    let ?F = "filter (\<lambda>x. de_ino (snd x) = de_ino e) D"
    have "distinct (map fst ?F)" using wf_dir(1) [OF wf v D(1)] by (simp add: distinct_map_filter)
    moreover have "set (map fst ?F) \<subseteq> {n}" using u [OF v] D(1) by auto
    ultimately have "length (map fst ?F) \<le> 1" using card_mono [of "{n}" "set (map fst ?F)"] distinct_card by fastforce
    then show ?thesis by (simp add: names_ino_def)
  qed
  finally show ?thesis using wf_entry(3) [OF wf v D] by simp
qed

lemma unlink_effect:
  assumes wf: "ramfs_wf fs" and v: "v \<in> set (rf_inodes fs)" and u: "ram_unlink fs v name mode = Some (Ok (), fs')"
  obtains e where "find_dirent fs v name = Ok e"
    "\<And>w n. find_dirent fs' w n = (if w = v \<and> n = name then Err ENOENT else find_dirent fs w n)"
    "\<And>i. i \<in> set (rf_inodes fs') \<longleftrightarrow> i \<in> set (rf_inodes fs) \<and> (i = de_ino e \<longrightarrow> refs fs i \<noteq> 1)"
    "\<And>i. i \<noteq> v \<Longrightarrow> node_data fs' i = node_data fs i" "\<exists>d. node_data fs' v = RD_Directory d"
    "dir_entries (node_data fs' (de_ino e)) = []" "rf_ino_ctr fs' = rf_ino_ctr fs"
proof -
  have "\<exists>d e. node_data fs v = RD_Directory d \<and> map_of d name = Some e"
    using u ram_unlink_miss [of fs v name mode] by fastforce
  then obtain d e where d: "node_data fs v = RD_Directory d" "map_of d name = Some e" by blast
  note en = wf_entry [OF wf v d] and dt = wf_parts(5) [OF wf]
  let ?f1 = "set_data fs v (RD_Directory (AList.delete name d))"
  let ?f2 = "set_links ?f1 (de_ino e) (ri_links (rf_cell fs (de_ino e)) - 1)"
  have ck: "unlink_check (node_data ?f1 (de_ino e)) mode = None"
    and fs': "fs' = (if ri_links (rf_cell fs (de_ino e)) = 1 then ?f2\<lparr>rf_inodes := remove1 (de_ino e) (rf_inodes ?f2)\<rparr> else ?f2)"
    using u ram_unlink_eq [OF wf v d refl refl, of mode]
    by (cases "unlink_check (node_data ?f1 (de_ino e)) mode"; simp)+
  have nd: "node_data fs' i = (if i = v then RD_Directory (AList.delete name d) else node_data fs i)" for i
    by (simp add: fs')
  have fe: "find_dirent fs v name = Ok e" using d by (simp add: find_dirent_def)
  show thesis
  proof (rule that [of e])
    show "find_dirent fs v name = Ok e" by (rule fe)
    show "find_dirent fs' w n = (if w = v \<and> n = name then Err ENOENT else find_dirent fs w n)" for w n
      using unlink_names [OF wf v u, of w n] by auto
    show "i \<in> set (rf_inodes fs') \<longleftrightarrow> i \<in> set (rf_inodes fs) \<and> (i = de_ino e \<longrightarrow> refs fs i \<noteq> 1)" for i
      using en(4) dt by (auto simp: fs')
    show "dir_entries (node_data fs' (de_ino e)) = []" using unlink_check_none [OF ck] by (simp add: nd)
    show "rf_ino_ctr fs' = rf_ino_ctr fs" by (simp add: fs')
  qed (simp_all add: nd)
qed


lemma same_dir:
  assumes "coherent s" "p \<in> vs_alive s" "children_of s p \<noteq> None" "d \<in> vs_alive s" "children_of s d \<noteq> None"
  shows "dent_ino s p = dent_ino s d \<longleftrightarrow> p = d"
  using coherent_dir [OF assms(1,4,5)] assms(2,3) by (auto simp: dir_dent_ok_def)

lemma agrees_transfer:
  assumes "agrees fs i n x" "find_dirent fs' i n = find_dirent fs i n"
    "\<And>e. find_dirent fs i n = Ok e \<Longrightarrow> readlink fs' (de_ino e) = readlink fs (de_ino e)"
  shows "agrees fs' i n x"
proof (cases "find_dirent fs i n")
  case (Inr e)
  then have "type_agrees fs' e t = type_agrees fs e t" for t by (simp add: type_agrees_def assms(3))
  then show ?thesis using assms(1,2) Inr by (auto simp: agrees_def)
qed (use assms(1,2) in \<open>simp add: agrees_def\<close>)

text \<open>Replacing the children of a directory by fewer.\<close>

lemma set_children_tree:
  assumes "tree_ok s" "d \<in> vs_alive s" "children_of s d = Some c"
  shows "tree_ok (set_children (s\<lparr>vs_fs := fs\<rparr>) d (c(n := None)))"
proof -
  let ?s = "set_children (s\<lparr>vs_fs := fs\<rparr>) d (c(n := None))"
  have ch: "children_of ?s x \<noteq> None \<longleftrightarrow> children_of s x \<noteq> None" for x using assms(3) by simp
  have lt: "x < vs_next s" if "p \<in> vs_alive s" "children_of ?s p = Some c1" "c1 m = Some x" for p c1 m x
    using that tree_okD(2) [OF assms(1,2,3)] tree_okD(2) [OF assms(1) that(1)] by (auto split: if_splits)
  show ?thesis unfolding tree_ok_def ch using assms(1) lt by (simp add: tree_ok_def, blast)
qed

lemma ram_unlink_in_table:
  assumes "coherent s" "d \<in> vs_alive s" "children_of s d \<noteq> None" "ram_unlink (vs_fs s) (dent_ino s d) name mode = Some (Ok (), fs')"
  shows "dent_ino s d \<in> set (rf_inodes (vs_fs s))"
proof (rule ccontr)
  assume "dent_ino s d \<notin> set (rf_inodes (vs_fs s))"
  then have "node_data (vs_fs s) (dent_ino s d) = RD_Directory []" using coherent_dir [OF assms(1-3)] by (auto simp: dir_dent_ok_def)
  then show False using ram_unlink_miss [of "vs_fs s" "dent_ino s d" name mode] assms(4) by auto
qed

lemma remove_dirs:
  assumes co: "coherent s" and d: "d \<in> vs_alive s" "children_of s d = Some c" "dent_ino s d \<in> set (rf_inodes (vs_fs s))"
    and e: "find_dirent (vs_fs s) (dent_ino s d) name = Ok e"
    "\<And>i. i \<in> set (rf_inodes fs') \<longleftrightarrow> i \<in> set (rf_inodes (vs_fs s)) \<and> (i = de_ino e \<longrightarrow> refs (vs_fs s) i \<noteq> 1)"
    "\<And>i. i \<noteq> dent_ino s d \<Longrightarrow> node_data fs' i = node_data (vs_fs s) i" "\<exists>d'. node_data fs' (dent_ino s d) = RD_Directory d'"
    "dir_entries (node_data fs' (de_ino e)) = []" "rf_ino_ctr fs' = rf_ino_ctr (vs_fs s)"
  shows "dir_dents_ok (set_children (s\<lparr>vs_fs := fs'\<rparr>) d (c(name := None)))"
  unfolding dir_dents_ok_def
proof (intro ballI impI)
  let ?s = "set_children (s\<lparr>vs_fs := fs'\<rparr>) d (c(name := None))"
  note h = coherentD [OF co]
  fix x assume x0: "x \<in> vs_alive ?s" "children_of ?s x \<noteq> None"
  have ch: "children_of ?s y \<noteq> None \<longleftrightarrow> children_of s y \<noteq> None" for y using d(2) by simp
  have x: "x \<in> vs_alive s" "children_of s x \<noteq> None" using x0 ch by auto
  note ok = coherent_dir [OF co x]
  obtain D where D: "node_data (vs_fs s) (dent_ino s x) = RD_Directory D" "dent_ino s x \<notin> set (rf_inodes (vs_fs s)) \<longrightarrow> D = []"
    using ok by (auto simp: dir_dent_ok_def)
  obtain D' where D': "node_data fs' (dent_ino s x) = RD_Directory D'"
    using e(3) [of "dent_ino s x"] e(4) D(1) by (cases "dent_ino s x = dent_ino s d") auto
  have "D' = []" if "dent_ino s x \<notin> set (rf_inodes fs')"
  proof (cases "dent_ino s x \<in> set (rf_inodes (vs_fs s))")
    case True
    then have "dent_ino s x = de_ino e" using that e(2) [of "dent_ino s x"] by blast
    then show ?thesis using e(5) D' by simp
  next
    case False
    then show ?thesis using e(3) [of "dent_ino s x"] d(3) D D' by (cases "dent_ino s x = dent_ino s d") auto
  qed
  moreover have "attached ?s x" if t: "x \<noteq> 0" "dent_ino s x \<in> set (rf_inodes fs')"
  proof -
    obtain p c0 where p: "dc_parent (vs_dent s x) = Some p" "children_of s p = Some c0" "c0 (dent_name s x) = Some x"
      "find_dirent (vs_fs s) (dent_ino s p) (dent_name s x) = Ok (dc_dirent (vs_dent s x))" "dir_dent_ok s p"
      using cached_dir_entry [OF co x t(1)] t(2) e(2) [of "dent_ino s x"] by metis
    have ty: "de_type (dc_dirent (vs_dent s x)) = IT_Directory"
      using dir_entry(2) [OF h(1) p(5,4)] D(1) by (simp add: entry_ok_def dent_ino_def)
    have "\<not> (p = d \<and> dent_name s x = name)"
    proof
      assume "p = d \<and> dent_name s x = name"
      then have "dc_dirent (vs_dent s x) = e" using p(4) e(1) by simp
      then show False using dir_refs [OF h(1,2) d(3) e(1)] ty t(2) e(2) [of "de_ino e"] by (simp add: dent_ino_def)
    qed
    then show ?thesis using p(1-3) d(2) by (auto simp: attached_def)
  qed
  moreover have "\<forall>y\<in>vs_alive ?s. children_of ?s y \<noteq> None \<and> dent_ino ?s y = dent_ino ?s x \<longrightarrow> y = x"
    using ok ch unfolding dir_dent_ok_def by simp
  moreover have "dent_ino s x < rf_ino_ctr fs'" using ok e(6) by (simp add: dir_dent_ok_def)
  ultimately show "dir_dent_ok ?s x" using D' unfolding dir_dent_ok_def by (cases "x = 0") simp_all
qed

lemma remove_coherent:
  assumes co: "coherent s" and d: "d \<in> vs_alive s" "children_of s d = Some c"
    and u: "ram_unlink (vs_fs s) (dent_ino s d) name mode = Some (Ok (), fs')"
  shows "coherent (set_children (s\<lparr>vs_fs := fs'\<rparr>) d (c(name := None)))"
proof -
  let ?s = "set_children (s\<lparr>vs_fs := fs'\<rparr>) d (c(name := None))"
  note h = coherentD [OF co]
  have v: "dent_ino s d \<in> set (rf_inodes (vs_fs s))" using ram_unlink_in_table [OF co d(1) _ u] d(2) by simp
  obtain e where e: "find_dirent (vs_fs s) (dent_ino s d) name = Ok e"
    "\<And>w n. find_dirent fs' w n = (if w = dent_ino s d \<and> n = name then Err ENOENT else find_dirent (vs_fs s) w n)"
    "\<And>i. i \<in> set (rf_inodes fs') \<longleftrightarrow> i \<in> set (rf_inodes (vs_fs s)) \<and> (i = de_ino e \<longrightarrow> refs (vs_fs s) i \<noteq> 1)"
    "\<And>i. i \<noteq> dent_ino s d \<Longrightarrow> node_data fs' i = node_data (vs_fs s) i" "\<exists>d'. node_data fs' (dent_ino s d) = RD_Directory d'"
    "dir_entries (node_data fs' (de_ino e)) = []" "rf_ino_ctr fs' = rf_ino_ctr (vs_fs s)"
    using unlink_effect [OF h(1) v u] by blast
  have wf: "ramfs_wf fs'" using ram_unlink_wf [OF h(1) v u] by simp
  have one: "one_name fs'" unfolding one_name_def
  proof (intro ballI allI impI)
    fix v w n m x x' assume a: "v \<in> set (rf_inodes fs')" "w \<in> set (rf_inodes fs')"
      "find_dirent fs' v n = Ok x \<and> find_dirent fs' w m = Ok x' \<and> de_ino x = de_ino x' \<and> de_type x = IT_Directory"
    then have "find_dirent (vs_fs s) v n = Ok x" "find_dirent (vs_fs s) w m = Ok x'" using e(2) by (auto split: if_splits)
    then show "v = w \<and> n = m" using h(2) a e(3) unfolding one_name_def by blast
  qed
  have dirs: "\<exists>d. node_data (vs_fs s) (dent_ino s x) = RD_Directory d" if "x \<in> vs_alive s" "children_of s x \<noteq> None" for x
    using coherent_dir [OF co that] by (auto simp: dir_dent_ok_def)
  have rl: "readlink fs' j = readlink (vs_fs s) j" for j
    using e(4) [of j] e(5) dirs [of d] d by (cases "j = dent_ino s d") (auto simp: readlink_def as_symlink_def)
  have tree: "tree_ok ?s" using set_children_tree [OF h(3) d] .
  have kids: "kids_but None ?s" unfolding kids_but_def
  proof (intro ballI allI impI)
    fix p c1 n x assume p: "p \<in> vs_alive ?s"
      and a: "children_of ?s p = Some c1 \<and> c1 n = Some x \<and> x \<in> vs_alive ?s \<and> None \<noteq> Some (p, n)"
    obtain c0 where c0: "children_of s p = Some c0" "c0 n = Some x" "\<not> (p = d \<and> n = name)" using a d(2) by (auto split: if_splits)
    have x: "p \<in> vs_alive s" "x \<in> vs_alive s" using p a by auto
    have "dent_ino s p = dent_ino s d \<longleftrightarrow> p = d" using same_dir [OF co x(1) _ d(1)] c0(1) d(2) by simp
    then have "agrees fs' (dent_ino s p) n (vs_dent s x)"
      using agrees_transfer [OF kidsD(2) [OF h(4) x(1) c0(1,2) x(2)] _ rl] e(2) c0(3) by auto
    then have "agrees fs' (dent_ino s p) n (vs_dent ?s x)" by (rule agrees_same_shape)
      (use d(2) in \<open>auto simp: set_children_def children_of_def as_dir_def\<close>)
    then show "dc_parent (vs_dent ?s x) = Some p \<and> agrees (vs_fs ?s) (dent_ino ?s p) n (vs_dent ?s x)"
      using kidsD(1) [OF h(4) x(1) c0(1,2) x(2)] by simp
  qed
  show ?thesis unfolding coherent_def
    using wf one tree kids remove_dirs [OF co d v e(1,3-7)] by simp
qed

section \<open>Creating a file\<close>

lemma make_effect:
  assumes wf: "ramfs_wf fs" and v: "v \<in> set (rf_inodes fs)" and c: "rf_ino_ctr fs + 1 < 2 ^ 64"
    and m: "ram_make_file fail now fs v name spec = (Ok (e, i), fs')"
  shows "v \<noteq> rf_ino_ctr fs" "e = new_dirent (rf_ino_ctr fs) (spec_node_type spec) name" "node_data fs' (rf_ino_ctr fs) = spec_data spec"
    "rf_inodes fs' = rf_ino_ctr fs # rf_inodes fs" "rf_ino_ctr fs' = rf_ino_ctr fs + 1"
    "\<And>j. j \<noteq> rf_ino_ctr fs \<Longrightarrow> j \<noteq> v \<Longrightarrow> node_data fs' j = node_data fs j" "\<exists>d. node_data fs' v = RD_Directory d"
    "\<And>w n. w \<noteq> rf_ino_ctr fs \<Longrightarrow> find_dirent fs' w n = (if w = v \<and> n = name then Ok e else find_dirent fs w n)"
proof -
  let ?c = "rf_ino_ctr fs"
  obtain d where d: "node_data fs v = RD_Directory d" "map_of d name = None" "e = new_dirent ?c (spec_node_type spec) name" "i = ?c"
    "fs' = set_data (with_node fs (spec_data spec) now) v (RD_Directory (AList.update name e d))"
    using ram_make_file_cases [OF m] by auto
  have nw: "node_data (with_node fs (spec_data spec) now) j = (if j = ?c then spec_data spec else node_data fs j)" for j
    by (simp add: with_node_def node_data_def mk_inode_def)
  show vc: "v \<noteq> ?c" using wf_parts(1) [OF wf] v by (auto simp: table_ok_def)
  show "e = new_dirent ?c (spec_node_type spec) name" by (rule d(3))
  show "node_data fs' ?c = spec_data spec" "rf_inodes fs' = ?c # rf_inodes fs" "rf_ino_ctr fs' = ?c + 1" "\<exists>d. node_data fs' v = RD_Directory d"
    using vc nw c by (simp_all add: d(5)) (simp_all add: with_node_def)
  show "node_data fs' j = node_data fs j" if "j \<noteq> ?c" "j \<noteq> v" for j using that nw by (simp add: d(5))
  show "find_dirent fs' w n = (if w = v \<and> n = name then Ok e else find_dirent fs w n)" if "w \<noteq> ?c" for w n
    using that nw [of w] d(1) by (simp add: d(5) update_conv' find_dirent_def)
qed

lemma fresh_no_entries: "node_data fs j = spec_data spec \<Longrightarrow> find_dirent fs j n \<noteq> Ok e"
  by (cases spec) (auto simp: spec_data_def find_dirent_def as_directory_def split: if_splits)

lemma entry_ino_lt:
  assumes "ramfs_wf fs" "v \<in> set (rf_inodes fs)" "find_dirent fs v n = Ok e"
  shows "de_ino e < rf_ino_ctr fs"
proof -
  obtain d where d: "node_data fs v = RD_Directory d" "map_of d n = Some e"
    using assms(3) by (auto simp: find_dirent_def as_directory_iff split: option.splits)
  show ?thesis using wf_entry(2) [OF assms(1,2) d] wf_parts(1) [OF assms(1)] by (simp add: table_ok_def)
qed

lemma make_one_name:
  assumes wf: "ramfs_wf fs" "one_name fs" and v: "v \<in> set (rf_inodes fs)" and c: "rf_ino_ctr fs + 1 < 2 ^ 64"
    and m: "ram_make_file fail now fs v name spec = (Ok (e, i), fs')"
  shows "one_name fs'"
  unfolding one_name_def
proof (intro ballI allI impI)
  note f = make_effect [OF wf(1) v c m]
  have ei: "de_ino e = rf_ino_ctr fs" using f(2) by (simp add: new_dirent_def)
  have old: "w = v \<and> n = name \<and> x = e \<or> w \<in> set (rf_inodes fs) \<and> find_dirent fs w n = Ok x \<and> de_ino x < rf_ino_ctr fs"
    if "w \<in> set (rf_inodes fs')" "find_dirent fs' w n = Ok x" for w n x
  proof -
    have w: "w \<noteq> rf_ino_ctr fs" using that(2) fresh_no_entries [OF f(3)] by auto
    then have "w \<in> set (rf_inodes fs)" using that(1) f(4) by simp
    then show ?thesis using that(2) f(8) [OF w] entry_ino_lt [OF wf(1)] by (auto split: if_splits)
  qed
  fix a b n m x y
  assume a: "a \<in> set (rf_inodes fs')" "b \<in> set (rf_inodes fs')"
    and r: "find_dirent fs' a n = Ok x \<and> find_dirent fs' b m = Ok y \<and> de_ino x = de_ino y \<and> de_type x = IT_Directory"
  from old [OF a(1)] old [OF a(2)] r have
    "a = v \<and> n = name \<and> b = v \<and> m = name \<or> a \<in> set (rf_inodes fs) \<and> b \<in> set (rf_inodes fs) \<and> find_dirent fs a n = Ok x \<and> find_dirent fs b m = Ok y"
    using ei by fastforce
  then show "a = b \<and> n = m" using wf(2) r unfolding one_name_def by blast
qed


lemma make_kids:
  assumes co: "coherent s" and d: "d \<in> vs_alive s" "children_of s d = Some c" "dent_ino s d \<in> set (rf_inodes (vs_fs s))"
    and n: "rf_ino_ctr (vs_fs s) + 1 < 2 ^ 64"
    and m: "ram_make_file fail now (vs_fs s) (dent_ino s d) name spec = (Ok (e, i), fs')"
  shows "kids_but (Some (d, name)) (s\<lparr>vs_fs := fs'\<rparr>)"
  unfolding kids_but_def
proof (intro ballI allI impI)
  note h = coherentD [OF co] and f = make_effect [OF coherentD(1) [OF co] d(3) n m]
  fix p c0 k x assume p: "p \<in> vs_alive (s\<lparr>vs_fs := fs'\<rparr>)" and a: "children_of (s\<lparr>vs_fs := fs'\<rparr>) p = Some c0 \<and> c0 k = Some x \<and>
    x \<in> vs_alive (s\<lparr>vs_fs := fs'\<rparr>) \<and> Some (d, name) \<noteq> Some (p, k)"
  have x: "p \<in> vs_alive s" "children_of s p = Some c0" "c0 k = Some x" "x \<in> vs_alive s" using p a by simp_all
  have dp: "dir_dent_ok s p" using coherent_dir [OF co x(1)] x(2) by simp
  then have pc: "dent_ino s p \<noteq> rf_ino_ctr (vs_fs s)" by (auto simp: dir_dent_ok_def)
  have "dent_ino s p = dent_ino s d \<longleftrightarrow> p = d" using same_dir [OF co x(1) _ d(1)] x(2) d(2) by simp
  then have "find_dirent fs' (dent_ino s p) k = find_dirent (vs_fs s) (dent_ino s p) k" using f(8) [OF pc] a by auto
  moreover have "readlink fs' (de_ino g) = readlink (vs_fs s) (de_ino g)" if g: "find_dirent (vs_fs s) (dent_ino s p) k = Ok g" for g
  proof -
    have "de_ino g \<noteq> rf_ino_ctr (vs_fs s)" using entry_ino_lt [OF h(1) dir_entry(1) [OF h(1) dp g] g] by simp
    moreover obtain D where "node_data (vs_fs s) (dent_ino s d) = RD_Directory D"
      using coherent_dir [OF co d(1)] d(2) by (auto simp: dir_dent_ok_def)
    ultimately show ?thesis using f(6) [of "de_ino g"] f(7)
      by (cases "de_ino g = dent_ino s d") (auto simp: readlink_def as_symlink_def)
  qed
  moreover have "agrees (vs_fs s) (dent_ino s p) k (vs_dent s x)" using kidsD(2) [OF h(4) x] by simp
  ultimately have "agrees fs' (dent_ino s p) k (vs_dent s x)" using agrees_transfer by blast
  then show "dc_parent (vs_dent (s\<lparr>vs_fs := fs'\<rparr>) x) = Some p \<and>
    agrees (vs_fs (s\<lparr>vs_fs := fs'\<rparr>)) (dent_ino (s\<lparr>vs_fs := fs'\<rparr>) p) k (vs_dent (s\<lparr>vs_fs := fs'\<rparr>) x)"
    using kidsD(1) [OF h(4) x] by simp
qed

lemma make_dirs:
  assumes co: "coherent s" and d: "d \<in> vs_alive s" "children_of s d = Some c" "dent_ino s d \<in> set (rf_inodes (vs_fs s))"
    and n: "rf_ino_ctr (vs_fs s) + 1 < 2 ^ 64"
    and m: "ram_make_file fail now (vs_fs s) (dent_ino s d) name spec = (Ok (e, i), fs')"
  shows "dir_dents_ok (s\<lparr>vs_fs := fs'\<rparr>)"
  unfolding dir_dents_ok_def
proof (intro ballI impI)
  note f = make_effect [OF coherentD(1) [OF co] d(3) n m]
  let ?s = "s\<lparr>vs_fs := fs'\<rparr>"
  fix x assume "x \<in> vs_alive ?s" "children_of ?s x \<noteq> None"
  then have x: "x \<in> vs_alive s" "children_of s x \<noteq> None" by simp_all
  note ok = coherent_dir [OF co x, unfolded dir_dent_ok_def]
  obtain D where D: "node_data (vs_fs s) (dent_ino s x) = RD_Directory D" "dent_ino s x \<notin> set (rf_inodes (vs_fs s)) \<longrightarrow> D = []"
    using ok by blast
  have xc: "dent_ino s x < rf_ino_ctr (vs_fs s)" using ok by blast
  have "\<exists>D'. node_data fs' (dent_ino s x) = RD_Directory D' \<and> (dent_ino s x \<notin> set (rf_inodes fs') \<longrightarrow> D' = [])"
    using D f(4,7) f(6) [of "dent_ino s x"] xc d(3) by (cases "dent_ino s x = dent_ino s d") auto
  moreover have "attached ?s x = attached s x" by (simp add: attached_def)
  moreover have "dent_ino s x \<in> set (rf_inodes fs') \<longleftrightarrow> dent_ino s x \<in> set (rf_inodes (vs_fs s))" using f(4) xc by auto
  moreover have "x = 0 \<or> dent_ino s x \<notin> set (rf_inodes (vs_fs s)) \<or> attached s x"
    "\<forall>y\<in>vs_alive s. children_of s y \<noteq> None \<and> dent_ino s y = dent_ino s x \<longrightarrow> y = x" using ok by blast+
  ultimately show "dir_dent_ok ?s x" unfolding dir_dent_ok_def using xc f(5) by simp
qed

lemma make_coherent:
  assumes co: "coherent s" and d: "d \<in> vs_alive s" "children_of s d = Some c" "dent_ino s d \<in> set (rf_inodes (vs_fs s))"
    and n: "rf_ino_ctr (vs_fs s) + 1 < 2 ^ 64" and sp: "\<And>t. spec \<noteq> MF_Symlink t"
    and free: "\<And>y. upgrade s (c name) = Some y \<Longrightarrow> is_negative (dc_type (vs_dent s y))"
    and m: "ram_make_file fail now (vs_fs s) (dent_ino s d) name spec = (Ok (e, i), fs')"
    and a: "add_dent (s\<lparr>vs_fs := fs'\<rparr>) d c (de_name e) (made_type spec e) e = (k, s')"
  shows "coherent s'"
proof -
  let ?s = "s\<lparr>vs_fs := fs'\<rparr>"
  note h = coherentD [OF co] and f = make_effect [OF coherentD(1) [OF co] d(3) n m]
  have en: "de_name e = name" "de_ino e = rf_ino_ctr (vs_fs s)" "de_type e = spec_node_type spec" using f(2) by (simp_all add: new_dirent_def)
  have t: "tree_ok ?s" using h(3) by (simp add: tree_ok_def, blast)
  have ty: "type_agrees fs' e (made_type spec e)"
    using sp en(3) by (cases spec) (auto simp: type_agrees_def made_type_def spec_node_type_def as_dir_def)
  have nd: "dent_ino s y \<noteq> rf_ino_ctr (vs_fs s)" if "y \<in> vs_alive s" "children_of s y \<noteq> None" for y
    using coherent_dir [OF co that] by (auto simp: dir_dent_ok_def)
  show ?thesis
  proof (rule add_dent_coherent [of ?s d name])
    show "ramfs_wf (vs_fs ?s)" using ram_make_file_wf [OF h(1) d(3) n m] by simp
    show "one_name (vs_fs ?s)" using make_one_name [OF h(1,2) d(3) n m] by simp
    show "tree_ok ?s" by (rule t)
    show "kids_but (Some (d, name)) ?s" by (rule make_kids [OF co d n m])
    show "dir_dents_ok ?s" by (rule make_dirs [OF co d n m])
    show "d \<in> vs_alive ?s" "children_of ?s d = Some c" using d by simp_all
    show "add_dent ?s d c name (made_type spec e) e = (k, s')" using a en(1) by simp
    show "as_dir (made_type spec e) = None \<or> as_dir (made_type spec e) = Some Map.empty"
      by (cases spec) (simp_all add: made_type_def as_dir_def)
    show "agrees (vs_fs ?s) (dent_ino ?s d) name \<lparr>dc_type = made_type spec e, dc_parent = Some d, dc_dirent = e\<rparr>"
      using f(8) [OF f(1), of name] ty en(1) by (simp add: agrees_def)
    show "children_of ?s y = None" if "y \<in> vs_alive ?s" "c name = Some y" for y
      using that free [of y] by (simp add: upgrade_def children_of_def as_dir_def is_negative_def split: dent_type.splits)
    show "de_name e = name \<and> (\<exists>dd. node_data (vs_fs ?s) (de_ino e) = RD_Directory dd) \<and>
      de_ino e \<in> set (rf_inodes (vs_fs ?s)) \<and> de_ino e < rf_ino_ctr (vs_fs ?s) \<and>
      (\<forall>y\<in>vs_alive ?s. children_of ?s y \<noteq> None \<longrightarrow> dent_ino ?s y \<noteq> de_ino e)" if "as_dir (made_type spec e) \<noteq> None"
      using that en f(3,4,5) nd by (cases spec) (auto simp: made_type_def as_dir_def spec_data_def)
  qed
qed


text \<open>A failed creation at most uses up an inode number.\<close>

lemma make_err_coherent:
  assumes co: "coherent s" and n: "rf_ino_ctr (vs_fs s) + 1 < 2 ^ 64"
    and m: "ram_make_file fail now (vs_fs s) v name spec = (Err x, fs')"
  shows "coherent (s\<lparr>vs_fs := fs'\<rparr>)"
proof -
  note h = coherentD [OF co]
  have "fs' = vs_fs s \<or> fs' = (vs_fs s)\<lparr>rf_ino_ctr := (rf_ino_ctr (vs_fs s) + 1) mod 2 ^ 64\<rparr>" using ram_make_file_cases [OF m] by auto
  then obtain k where k: "rf_ino_ctr (vs_fs s) \<le> k" "fs' = (vs_fs s)\<lparr>rf_ino_ctr := k\<rparr>"
  proof
    assume "fs' = vs_fs s"
    then show thesis using that [of "rf_ino_ctr (vs_fs s)"] by simp
  next
    assume "fs' = (vs_fs s)\<lparr>rf_ino_ctr := (rf_ino_ctr (vs_fs s) + 1) mod 2 ^ 64\<rparr>"
    then show thesis using that [of "rf_ino_ctr (vs_fs s) + 1"] n by simp
  qed
  have fd: "find_dirent fs' w m = find_dirent (vs_fs s) w m" "readlink fs' j = readlink (vs_fs s) j" "rf_inodes fs' = rf_inodes (vs_fs s)"
    "node_data fs' j = node_data (vs_fs s) j" for w m j
    by (simp_all add: k(2) find_dirent_def readlink_def)
  have "one_name fs'" using h(2) unfolding one_name_def fd .
  moreover have "tree_ok (s\<lparr>vs_fs := fs'\<rparr>)" using h(3) by (simp add: tree_ok_def, blast)
  moreover have "agrees fs' w m x" if "agrees (vs_fs s) w m x" for w m x using agrees_transfer [OF that] fd by simp
  then have "kids_but None (s\<lparr>vs_fs := fs'\<rparr>)" using h(4) unfolding kids_but_def by (simp, blast)
  moreover have "dir_dents_ok (s\<lparr>vs_fs := fs'\<rparr>)"
    using h(5) k unfolding dir_dents_ok_def dir_dent_ok_def attached_def by (auto simp: fd)
  ultimately show ?thesis using ctr_bump [OF h(1) k(1)] k(2) by (simp add: coherent_def)
qed

text \<open>The new file is in a directory that has not been removed.\<close>

definition dir_in_table :: "vfs_state \<Rightarrow> nat \<Rightarrow> bytes \<Rightarrow> bool \<Rightarrow> bool" where
  "dir_in_table s at path follow \<longleftrightarrow>
     (case vfs_walk s at path follow of
        Some (Inr x, s) \<Rightarrow> (case dc_parent (vs_dent s x) of Some p \<Rightarrow> dent_ino s p \<in> set (rf_inodes (vs_fs s)) | None \<Rightarrow> True)
      | _ \<Rightarrow> True)"

lemma vfs_unlink_coherent:
  assumes co: "coherent s" "at \<in> vs_alive s" and u: "vfs_unlink s at path is_rmdir = Some (Ok (), s')"
  shows "coherent s' \<and> vs_alive s \<subseteq> vs_alive s'"
proof -
  obtain x s1 where w: "vfs_walk s at path False = Some (Ok x, s1)"
    using u by (auto simp: vfs_unlink_def split: option.splits sum.splits prod.splits)
  note k = vfs_walk_coherent [OF co w]
  obtain p where p: "dc_parent (vs_dent s1 x) = Some p" using u w by (auto simp: vfs_unlink_def split: option.splits)
  note pa = parent_alive [OF k(1) k(4) [OF refl] p]
  obtain c where c: "children_of s1 p = Some c" using pa(2) by blast
  obtain v where v: "open_vnode s1 p = Ok v" using u w p c by (auto simp: vfs_unlink_def split: if_splits sum.splits)
  have vi: "v = dent_ino s1 p" using open_ino_ok v by (simp add: open_vnode_def)
  obtain fs where "ram_unlink (vs_fs s1) v (dent_name s1 x) (if is_rmdir then DirOnly else FileOnly) = Some (Ok (), fs)"
    "s' = set_children (s1\<lparr>vs_fs := fs\<rparr>) p (c(dent_name s1 x := None))"
    using u w p c v by (auto simp: vfs_unlink_def Let_def split: if_splits option.splits prod.splits sum.splits)
  then show ?thesis using remove_coherent [OF k(1) pa(1) c] k(3) vi by simp
qed


lemma make_stage:
  assumes "coherent s" "p \<in> vs_alive s" "children_of s p = Some c" "dent_ino s p \<in> set (rf_inodes (vs_fs s))"
    "rf_ino_ctr (vs_fs s) + 1 < 2 ^ 64" "\<And>t. spec \<noteq> MF_Symlink t"
    "\<And>y. upgrade s (c name) = Some y \<Longrightarrow> is_negative (dc_type (vs_dent s y))"
    "open_vnode s p = Ok v" "ram_make_file fail now (vs_fs s) v name spec = (r, fs')"
  shows "r = Err x \<Longrightarrow> coherent (s\<lparr>vs_fs := fs'\<rparr>)"
    "r = Ok (e, i) \<Longrightarrow> coherent (snd (add_dent (s\<lparr>vs_fs := fs'\<rparr>) p c (de_name e) (made_type spec e) e))"
    "vs_alive s \<subseteq> vs_alive (snd (add_dent (s\<lparr>vs_fs := fs'\<rparr>) p c m t g))"
proof -
  have v: "v = dent_ino s p" using open_ino_ok assms(8) by (simp add: open_vnode_def)
  show "coherent (s\<lparr>vs_fs := fs'\<rparr>)" if "r = Err x" using make_err_coherent [OF assms(1,5)] assms(9) that by blast
  show "coherent (snd (add_dent (s\<lparr>vs_fs := fs'\<rparr>) p c (de_name e) (made_type spec e) e))" if "r = Ok (e, i)"
    using make_coherent [OF assms(1-6) assms(7) assms(9) [unfolded v that] surjective_pairing] by blast
  show "vs_alive s \<subseteq> vs_alive (snd (add_dent (s\<lparr>vs_fs := fs'\<rparr>) p c m t g))" by (auto simp: add_dent_def Let_def)
qed

lemma vfs_make_file_coherent:
  assumes co: "coherent s" "at \<in> vs_alive s" and t: "dir_in_table s at path False" and n: "rf_ino_ctr (vs_fs s) + 1 < 2 ^ 64"
    and sp: "\<And>t. spec \<noteq> MF_Symlink t" and m: "vfs_make_file fail False now s at path spec = Some (r, s')"
  shows "coherent s' \<and> vs_alive s \<subseteq> vs_alive s'"
proof -
  obtain rx s1 where w: "vfs_walk s at path False = Some (rx, s1)" using m by (auto simp: vfs_make_file_def split: option.splits)
  note k = vfs_walk_coherent [OF co w] and mm = m [unfolded vfs_make_file_def w option.case prod.case]
  show ?thesis
  proof (cases "s' = s1")
    case True
    then show ?thesis using k(1,3) by simp
  next
    case False
    obtain x where x: "rx = Ok x" using mm False by (cases rx) auto
    obtain p where p: "dc_parent (vs_dent s1 x) = Some p" using mm x False by (auto split: option.splits)
    note pa = parent_alive [OF k(1) k(4) [OF x] p]
    obtain c where c: "children_of s1 p = Some c" using pa(2) by blast
    obtain v where v: "open_vnode s1 p = Ok v" using mm x p c False by (auto simp: Let_def split: if_splits sum.splits)
    have free: "is_negative (dc_type (vs_dent s1 y))" if "upgrade s1 (c (dent_name s1 x)) = Some y" for y
      using mm x p c that False by (auto simp: Let_def split: if_splits)
    have tb: "dent_ino s1 p \<in> set (rf_inodes (vs_fs s1))" using t w x p by (simp add: dir_in_table_def)
    obtain mr fs where mk: "ram_make_file fail now (vs_fs s1) v (dent_name s1 x) spec = (mr, fs)" by fastforce
    note st = make_stage [OF k(1) pa(1) c tb _ sp free v mk, unfolded k(2), OF n]
    show ?thesis
    proof (cases mr)
      case (Inl e)
      then have "s' = s1\<lparr>vs_fs := fs\<rparr>" using mm x p c v mk False by (auto simp: Let_def split: if_splits)
      then show ?thesis using st(1) Inl k(3) by simp
    next
      case (Inr a)
      obtain e i where a: "a = (e, i)" by fastforce
      have "s' = snd (add_dent (s1\<lparr>vs_fs := fs\<rparr>) p c (de_name e) (made_type spec e) e)"
        using mm x p c v mk Inr a False by (auto simp: Let_def split: if_splits)
      then show ?thesis using st(2,3) Inr a k(3) by blast
    qed
  qed
qed


lemma o_creat_coherent:
  assumes co: "coherent s" and x: "x \<in> vs_alive s" and t: "\<And>p. dc_parent (vs_dent s x) = Some p \<Longrightarrow> dent_ino s p \<in> set (rf_inodes (vs_fs s))"
    and n: "rf_ino_ctr (vs_fs s) + 1 < 2 ^ 64" and m: "o_creat_helper fail False now s x excl = Some (r, s')"
  shows "coherent s' \<and> vs_alive s \<subseteq> vs_alive s'"
proof (cases "s' = s")
  case False
  obtain p where p: "dc_parent (vs_dent s x) = Some p" using m by (auto simp: o_creat_helper_def split: option.splits)
  note pa = parent_alive [OF co x p]
  obtain c where c: "children_of s p = Some c" using pa(2) by blast
  let ?n = "dent_name s x"
  have free: "is_negative (dc_type (vs_dent s y))" if "upgrade s (c ?n) = Some y" for y
    using m p c that False by (auto simp: o_creat_helper_def Let_def is_negative_def split: dent_type.splits if_splits)
  have mk: "(case open_vnode s p of
                       Inl e \<Rightarrow> Some (Err e, s)
                     | Inr v \<Rightarrow>
                         (case ram_make_file fail now (vs_fs s) v ?n MF_Regular of
                            (Inl e, fs) \<Rightarrow> Some (Err e, s\<lparr>vs_fs := fs\<rparr>)
                          | (Inr (e, i), fs) \<Rightarrow> if False then Some (Err ENOMEM, s\<lparr>vs_fs := fs\<rparr>) else Some (Ok i, snd (add_dent (s\<lparr>vs_fs := fs\<rparr>) p c (de_name e) DT_File e)))) = Some (r, s')"
    using m p c free
    by (cases "upgrade s (c ?n)") (auto simp: o_creat_helper_def Let_def is_negative_def split: dent_type.splits if_splits)
  obtain v where v: "open_vnode s p = Ok v" using mk False by (cases "open_vnode s p") auto
  obtain mr fs where k: "ram_make_file fail now (vs_fs s) v ?n MF_Regular = (mr, fs)" by fastforce
  note st = make_stage [OF co pa(1) c t [OF p] n _ free v k]
  show ?thesis
  proof (cases mr)
    case (Inl e)
    then show ?thesis using mk v k st(1) by auto
  next
    case (Inr a)
    obtain e i where a: "a = (e, i)" by fastforce
    have "made_type MF_Regular e = DT_File" by (simp add: made_type_def)
    then show ?thesis using mk v k Inr a st(2) [of e i] st(3) [of "de_name e" DT_File e] by auto
  qed
qed (use co in simp)

lemma vfs_open_coherent:
  assumes co: "coherent s" "at \<in> vs_alive s" and t: "\<And>f. dir_in_table s at path f" and n: "rf_ino_ctr (vs_fs s) + 1 < 2 ^ 64"
    and m: "vfs_open fail False now s at path fl = Some (r, s')"
  shows "coherent s' \<and> vs_alive s \<subseteq> vs_alive s'"
proof (cases "check_oflags fl")
  case (Inl a)
  then show ?thesis using m co by (simp add: vfs_open_def)
next
  case (Inr g)
  obtain rx s1 where w: "vfs_walk s at path (g AND NOFOLLOW = 0) = Some (rx, s1)" using m Inr by (auto simp: vfs_open_def split: option.splits)
  note k = vfs_walk_coherent [OF co w] and mm = m [unfolded vfs_open_def Inr sum.case w option.case prod.case]
  show ?thesis
  proof (cases "s' = s1")
    case True
    then show ?thesis using k(1,3) by simp
  next
    case False
    obtain x where x: "rx = Ok x" using mm False by (cases rx) auto
    have "\<exists>r. o_creat_helper fail False now s1 x (g AND EXCLUSIVE \<noteq> 0) = Some (r, s')"
      using mm x False by (cases "kind_of s1 x") (auto split: option.splits sum.splits if_splits prod.splits)
    moreover have "dent_ino s1 p \<in> set (rf_inodes (vs_fs s1))" if "dc_parent (vs_dent s1 x) = Some p" for p
      using t [of "g AND NOFOLLOW = 0"] w x that by (simp add: dir_in_table_def)
    ultimately show ?thesis using o_creat_coherent [OF k(1) k(4) [OF x]] k(2,3) n by fastforce
  qed
qed


section \<open>Runs\<close>

lemma free_coherent:
  assumes co: "coherent s" and x: "x \<noteq> 0" "\<forall>y\<in>vs_alive s. dc_parent (vs_dent s y) \<noteq> Some x"
  shows "coherent (s\<lparr>vs_alive := vs_alive s - {x}\<rparr>)"
proof -
  let ?s = "s\<lparr>vs_alive := vs_alive s - {x}\<rparr>"
  have f: "children_of ?s y = children_of s y" "dent_ino ?s y = dent_ino s y" "dent_name ?s y = dent_name s y" "attached ?s y = attached s y" for y
    by (simp_all add: children_of_def dent_ino_def dent_name_def attached_def)
  note h = coherentD [OF co]
  have p: "\<exists>p. dc_parent (vs_dent s d) = Some p \<and> p < d \<and> p \<in> vs_alive s - {x} \<and> children_of s p \<noteq> None" if "d \<in> vs_alive s" "d \<noteq> 0" for d
    using tree_okD(3) [OF h(3) that] x(2) that(1) by fastforce
  have "tree_ok ?s" unfolding tree_ok_def f using h(3) x(1) p tree_okD(1,2) [OF h(3)] by (simp add: tree_ok_def, blast)
  moreover have "kids_but None ?s" using h(4) unfolding kids_but_def f by (simp, blast)
  moreover have "dir_dents_ok ?s" unfolding dir_dents_ok_def
  proof (intro ballI impI)
    fix y assume "y \<in> vs_alive ?s" "children_of ?s y \<noteq> None"
    then have "dir_dent_ok s y" using coherent_dir [OF co] f by simp
    then show "dir_dent_ok ?s y" unfolding dir_dent_ok_def f by simp
  qed
  ultimately show ?thesis using h(1,2) by (simp add: coherent_def)
qed

lemma open_coherent:
  assumes "coherent s"
  shows "coherent (s\<lparr>vs_open := V\<rparr>)"
proof -
  have f: "children_of (s\<lparr>vs_open := V\<rparr>) = children_of s" "dent_ino (s\<lparr>vs_open := V\<rparr>) = dent_ino s" "dent_name (s\<lparr>vs_open := V\<rparr>) = dent_name s"
    by (simp_all add: fun_eq_iff children_of_def dent_ino_def dent_name_def)
  have g: "attached (s\<lparr>vs_open := V\<rparr>) = attached s" by (simp add: fun_eq_iff attached_def f)
  have "coherent (s\<lparr>vs_open := V\<rparr>) \<longleftrightarrow> coherent s"
    unfolding coherent_def tree_ok_def kids_but_def dir_dents_ok_def dir_dent_ok_def f g by simp
  then show ?thesis using assms by simp
qed

text \<open>
  What happens to a mounted filesystem: lookups and walks, which may run out of memory; files and directories are removed, created and
  opened by path; vnodes are opened and closed; an entry that nothing refers to is freed. The
  operations that fail while they remove, that create links, and that run out of memory after
  they have created the file are not among the steps: they can leave the cache and the filesystem
  apart.
\<close>

inductive dc_step :: "vfs_state \<Rightarrow> vfs_state \<Rightarrow> bool" where
  lookup: "at \<in> vs_alive s \<Longrightarrow> dent_lookup oom s at n = (r, s') \<Longrightarrow> dc_step s s'"
| walk: "at \<in> vs_alive s \<Longrightarrow> vfs_walk s at path follow = Some (r, s') \<Longrightarrow> dc_step s s'"
| unlink: "at \<in> vs_alive s \<Longrightarrow> vfs_unlink s at path is_rmdir = Some (Ok (), s') \<Longrightarrow> dc_step s s'"
| make: "at \<in> vs_alive s \<Longrightarrow> dir_in_table s at path False \<Longrightarrow> rf_ino_ctr (vs_fs s) + 1 < 2 ^ 64 \<Longrightarrow> (\<And>t. spec \<noteq> MF_Symlink t) \<Longrightarrow>
    vfs_make_file fail False now s at path spec = Some (r, s') \<Longrightarrow> dc_step s s'"
| opens: "at \<in> vs_alive s \<Longrightarrow> (\<And>f. dir_in_table s at path f) \<Longrightarrow> rf_ino_ctr (vs_fs s) + 1 < 2 ^ 64 \<Longrightarrow>
    vfs_open fail False now s at path fl = Some (rv, s') \<Longrightarrow> dc_step s s'"
| vnodes: "dc_step s (s\<lparr>vs_open := V\<rparr>)"
| free: "x \<noteq> 0 \<Longrightarrow> \<forall>y\<in>vs_alive s. dc_parent (vs_dent s y) \<noteq> Some x \<Longrightarrow> dc_step s (s\<lparr>vs_alive := vs_alive s - {x}\<rparr>)"

lemma dc_step_coherent: "dc_step s s' \<Longrightarrow> coherent s \<Longrightarrow> coherent s'"
proof (induction rule: dc_step.induct)
  case lookup
  then show ?case using dent_lookup_coherent(1) by blast
next
  case walk
  then show ?case using vfs_walk_coherent(1) by blast
next
  case unlink
  then show ?case using vfs_unlink_coherent by blast
next
  case make
  then show ?case using vfs_make_file_coherent by blast
next
  case opens
  then show ?case using vfs_open_coherent by blast
qed (auto intro: free_coherent open_coherent)

lemma vfs_new_coherent: "coherent (vfs_new (ramfs_new allow now))"
proof -
  have "node_data (ramfs_new allow now) 1 = RD_Directory []" "rf_inodes (ramfs_new allow now) = [1]" "1 < rf_ino_ctr (ramfs_new allow now)"
    by (simp_all add: ramfs_new_def node_data_def mk_inode_def)
  then show ?thesis using ramfs_new_wf
    by (simp add: coherent_def tree_ok_def kids_but_def dir_dents_ok_def dir_dent_ok_def one_name_def vfs_new_def children_of_def
        as_dir_def dent_ino_def new_dirent_def find_dirent_def)
qed

lemma dc_run_coherent: "dc_step\<^sup>*\<^sup>* (vfs_new (ramfs_new allow now)) s \<Longrightarrow> coherent s"
  by (induction rule: rtranclp_induct) (auto intro: vfs_new_coherent dc_step_coherent)




lemmas vfs_eval = vfs_walk_def path_walk_def walk_loop.simps component_len_def dent_lookup_def lookup_miss_def open_vnode_def open_ino_def open_impl_def
  find_dirent_def node_data_def as_directory_def as_dir_def upgrade_def add_dent_def set_children_def children_of_def dent_ino_def dent_name_def
  kind_of_def dent_kind_of_def is_negative_def default_dirent_def new_dirent_def Let_def NAME_MAX_def PATH_MAX_def LINK_MAX_def
  vfs_new_def ramfs_new_def mk_inode_def vfs_make_file_def ram_make_file_def set_data_def spec_data_def made_type_def spec_node_type_def
  is_dev_spec_def dir_in_table_def

lemma demo_make:
  "\<exists>s x s'. vfs_make_file None False 0 (vfs_new (ramfs_new False 0)) 0 [97] MF_Directory = Some (Ok (), s) \<and> 0 \<in> vs_alive s \<and>
    dent_lookup False s 0 [97] = (Ok x, s') \<and> (\<exists>e. find_dirent (vs_fs s) (dent_ino s 0) [97] = Ok e \<and> de_type e = IT_Directory)"
  by (simp add: vfs_eval)



section \<open>What goes wrong\<close>

text \<open>
  Creating exclusively a file that exists opens it: \<open>open\<close> looks at \<open>EXCLUSIVE\<close> only for directories and for names
  that are free. The flag \<open>TRUNCATE\<close> is checked for consistency and then ignored.
\<close>

lemma open_existing:
  assumes "vfs_walk s at path True = Some (Ok d, s')" "kind_of s' d = DK_File" "open_vnode s' d = Ok v"
  shows "vfs_open fail oom now s at path (CREATE OR EXCLUSIVE OR READ_WRITE) = Some (Ok (v, CREATE OR EXCLUSIVE OR READ_WRITE), s')"
    "vfs_open fail oom now s at path (TRUNCATE OR WRITE_ONLY) = Some (Ok (v, TRUNCATE OR WRITE_ONLY), s')"
  using assms
  by (simp_all add: vfs_open_def check_oflags_def CREATE_def EXCLUSIVE_def READ_WRITE_def NOFOLLOW_def DIR_ONLY_def TRUNCATE_def WRITE_ONLY_def
      FILE_ONLY_def APPEND_def READ_ONLY_def)

text \<open>
  Renaming into a directory right below is refused as if the entry were moved into itself: the check for
  loops is asked about the directory the entry is in, not about the entry.
\<close>

lemma rename_down_refused:
  assumes "open_vnode s new_dir = Ok new_v" "children_of s old_dir = Some oc" "children_of s new_dir = Some nc"
    "check_for_entry s oc old = Ok ()" "\<not> vs_read_only s" "dc_parent (vs_dent s new_dir) = Some old_dir"
  shows "rename_across s old new old_dir new_dir old_v fl = Some (Err EINVAL, s)"
  using assms by (simp add: rename_across_def)

text \<open>Replacing a file of another directory removes the target from the directory of the old name, where it is not.\<close>

lemma rename_across_target:
  assumes "\<not> is_negative (dc_type (vs_dent s new))" "node_data (vs_fs s) old_v = RD_Directory d" "map_of d (dent_name s new) = None"
  shows "remove_target s old_v nc new 0 = Some (Err ENOENT, s)"
  using assms by (simp add: remove_target_def ram_unlink_def)

text \<open>Renaming a file to its own name removes it: the target is unlinked first, and then the old name is gone.\<close>

lemma rename_to_itself:
  assumes co: "coherent s" and x: "x \<in> vs_alive s" "dc_type (vs_dent s x) = DT_File" "dc_parent (vs_dent s x) = Some p"
    and c: "children_of s p = Some c" "c (dent_name s x) = Some x"
    and ro: "\<not> vs_read_only s" and v: "open_vnode s p = Ok v" and w: "vfs_walk s at path False = Some (Ok x, s)"
  shows "\<exists>s'. rename_impl s at path at path 0 = Some (Err ENOENT, s') \<and>
    find_dirent (vs_fs s) v (dent_name s x) = Ok (dc_dirent (vs_dent s x)) \<and> find_dirent (vs_fs s') v (dent_name s x) = Err ENOENT"
proof -
  note h = coherentD [OF co] and pa = parent_alive [OF co x(1,3)]
  let ?n = "dent_name s x" and ?e = "dc_dirent (vs_dent s x)"
  have vi: "v = dent_ino s p" using open_ino_ok v by (simp add: open_vnode_def)
  have "agrees (vs_fs s) v ?n (vs_dent s x)" using kidsD(2) [OF h(4) pa(1) c x(1)] vi by simp
  then have f: "find_dirent (vs_fs s) v ?n = Ok ?e" "de_type ?e \<noteq> IT_Directory"
    using x(2) by (auto simp: agrees_def type_agrees_def as_dir_def split: sum.splits if_splits)
  note en = dir_entry [OF h(1) coherent_dir [OF co pa] f(1) [unfolded vi]]
  obtain d where d: "node_data (vs_fs s) v = RD_Directory d" "map_of d ?n = Some ?e"
    using f(1) by (auto simp: find_dirent_def as_directory_iff split: option.splits)
  let ?f1 = "set_data (vs_fs s) v (RD_Directory (AList.delete ?n d))"
  have "data_node_type (node_data (vs_fs s) (de_ino ?e)) \<noteq> IT_Directory" using en(2) f(2) by (simp add: entry_ok_def)
  then have "unlink_check (node_data ?f1 (de_ino ?e)) AnyNode = None"
    using d(1) by (cases "de_ino ?e = v") (auto simp: unlink_check_def data_node_type_def split: ram_fs_data.splits)
  then obtain fs where u: "ram_unlink (vs_fs s) v ?n AnyNode = Some (Ok (), fs)"
    using ram_unlink_eq [OF h(1) _ d refl refl, of AnyNode] en(1) vi by auto
  have gone: "find_dirent fs v ?n = Err ENOENT" using unlink_names [OF h(1) _ u, of v ?n] en(1) vi by auto
  then obtain d' where d': "node_data fs v = RD_Directory d'" "map_of d' ?n = None"
    by (auto simp: find_dirent_def as_directory_def ENOENT_def EINVAL_def split: ram_fs_data.splits option.splits)
  have rn: "ram_rename fs v ?n ?n = (Err ENOENT, fs)" using d' by (simp add: ram_rename_def)
  have "check_for_entry s c x = Ok ()" using c x(1) by (simp add: check_for_entry_def upgrade_def)
  then have "rename_within s x x p v 0 = Some (Err ENOENT, s\<lparr>vs_fs := fs\<rparr>)"
    using c ro u rn x(2) by (simp add: rename_within_def remove_target_def is_negative_def)
  then have "rename_impl s at path at path 0 = Some (Err ENOENT, s\<lparr>vs_fs := fs\<rparr>)"
    using w x(2,3) v by (simp add: rename_impl_def is_negative_def)
  then show ?thesis using f(1) gone by auto
qed

text \<open>A hard link is entered into the directory of the old path, whatever the directory of the new path is.\<close>

lemma link_ignores_new_directory:
  assumes "vfs_walk s oa op follow = Some (Ok old, s1)" "vfs_walk s1 na np follow = Some (Ok new, s2)"
    and l: "vfs_link fail s oa op na np follow = Some (Ok (), s')"
  shows "\<exists>p e. dc_parent (vs_dent s2 old) = Some p \<and> find_dirent (vs_fs s') (dent_ino s2 p) (dent_name s2 new) = Ok e \<and>
    (\<forall>w. w \<noteq> dent_ino s2 p \<longrightarrow> find_dirent (vs_fs s') w = find_dirent (vs_fs s2) w)"
proof -
  have nd: "children_of s2 old = None" using l assms(1,2) by (auto simp: vfs_link_def split: if_splits)
  obtain p where p: "dc_parent (vs_dent s2 old) = Some p" using l assms(1,2) nd by (auto simp: vfs_link_def split: option.splits)
  obtain c where c: "children_of s2 p = Some c" using l assms(1,2) nd p by (auto simp: vfs_link_def split: option.splits if_splits)
  obtain v where v: "open_vnode s2 p = Ok v" using l assms(1,2) nd p c by (auto simp: vfs_link_def split: sum.splits if_splits)
  obtain i where i: "open_vnode s2 old = Ok i" using l assms(1,2) nd p c v by (auto simp: vfs_link_def split: sum.splits if_splits)
  obtain fs where k: "ram_link fail (vs_fs s2) v (dent_name s2 new) i = Some (Ok (), fs)" "vs_fs s' = fs"
    using l assms(1,2) nd p c v i by (auto simp: vfs_link_def split: sum.splits if_splits option.splits prod.splits)
  have vi: "v = dent_ino s2 p" using open_ino_ok v by (simp add: open_vnode_def)
  have "\<exists>e. find_dirent fs v (dent_name s2 new) = Ok e \<and> (\<forall>w. w \<noteq> v \<longrightarrow> find_dirent fs w = find_dirent (vs_fs s2) w)"
    using k(1) by (auto simp: ram_link_def Let_def fun_eq_iff update_conv' split: option.splits if_splits)
  then show ?thesis using p k(2) vi by blast
qed


text \<open>
  Renaming an entry that its directory does not list any more, as a removed directory that is still open is by
  the path \<open>.\<close>, retries without end: the test for a race fails each time, and nothing changes between the tries.
\<close>

lemma rename_removed_never_returns:
  assumes "vfs_walk s oa op False = Some (Ok old, s)" "vfs_walk s na np False = Some (Ok new, s)"
    "\<not> is_negative (dc_type (vs_dent s old))" "dc_parent (vs_dent s old) = Some p" "dc_parent (vs_dent s new) = Some p"
    "open_vnode s p = Ok v" "children_of s p = Some c" "c (dent_name s old) = None"
  shows "vfs_rename k s oa op na np fl = None"
proof -
  have "rename_impl s oa op na np fl = Some (Err ETIMEDOUT, s)"
    using assms by (simp add: rename_impl_def rename_within_def check_for_entry_def upgrade_def)
  then show ?thesis by (induction k) simp_all
qed

end
