(* ===== verification/Fd_Table.thy ===== *)
theory Fd_Table
  imports Path_Walk
begin

unbundle bit_operations_syntax

text \<open>
  The file descriptor table of a process (\<open>src/process/files.rs\<close>). Descriptors are \<open>i32\<close>, open files are of
  any type. Opening a directory and finding the real path of an open one, which changing the working
  directory needs, are arguments.
\<close>

definition FILE_MAX :: int where "FILE_MAX = 256"

definition O_CLOEXEC :: nat where "O_CLOEXEC = 65536"

definition AT_FDCWD :: int where "AT_FDCWD = - 100"

record 'f file_desc =
  fd_flags :: nat
  fd_file :: 'f

record 'f fd_table =
  ft_inner :: "int \<Rightarrow> 'f file_desc option"
  ft_cwd :: bytes
  ft_fd_cwd :: "'f option"

definition fdtable_new :: "'f fd_table" where
  "fdtable_new = \<lparr>ft_inner = Map.empty, ft_cwd = [slash], ft_fd_cwd = None\<rparr>"

definition fchdir :: "('f \<Rightarrow> bytes \<Rightarrow> bool \<Rightarrow> bytes eresult) \<Rightarrow> 'f fd_table \<Rightarrow> 'f \<Rightarrow> unit eresult \<times> 'f fd_table" where
  "fchdir realpath t file =
     (case realpath file [dot] False of
        Inl e \<Rightarrow> (Err e, t)
      | Inr path \<Rightarrow> (Ok (), t\<lparr>ft_cwd := path, ft_fd_cwd := Some file\<rparr>))"

definition chdir :: "('f option \<Rightarrow> bytes \<Rightarrow> nat \<Rightarrow> 'f eresult) \<Rightarrow> 'f fd_table \<Rightarrow> bytes \<Rightarrow> unit eresult \<times> 'f fd_table" where
  "chdir open_file t path =
     (case abspath (ft_cwd t) path of
        Inl e \<Rightarrow> (Err e, t)
      | Inr cwd \<Rightarrow>
          (case open_file (ft_fd_cwd t) path DIR_ONLY of
             Inl e \<Rightarrow> (Err e, t)
           | Inr f \<Rightarrow> (Ok (), t\<lparr>ft_cwd := cwd, ft_fd_cwd := Some f\<rparr>)))"

definition get_file :: "'f fd_table \<Rightarrow> int \<Rightarrow> 'f eresult" where
  "get_file t fileno = (case ft_inner t fileno of Some f \<Rightarrow> Ok (fd_file f) | None \<Rightarrow> Err EBADF)"

definition get_atfile :: "'f fd_table \<Rightarrow> int \<Rightarrow> 'f option eresult" where
  "get_atfile t fileno =
     (if fileno = - 100 then Ok (ft_fd_cwd t)
      else case get_file t fileno of Inl e \<Rightarrow> Err e | Inr f \<Rightarrow> Ok (Some f))"

definition replace_file :: "'f fd_table \<Rightarrow> int \<Rightarrow> 'f file_desc \<Rightarrow> unit eresult \<times> 'f fd_table" where
  "replace_file t fileno file =
     (if fileno < 0 \<or> fileno \<ge> FILE_MAX then (Err EMFILE, t)
      else
        (case ft_inner t fileno of Some old \<Rightarrow> Ok () | None \<Rightarrow> Err EBADF,
         t\<lparr>ft_inner := (ft_inner t)(fileno \<mapsto> file)\<rparr>))"

definition insert_file :: "'f fd_table \<Rightarrow> int \<Rightarrow> 'f file_desc \<Rightarrow> int eresult \<times> 'f fd_table" where
  "insert_file t minfd file =
     (case find (\<lambda>i. ft_inner t i = None) [minfd..FILE_MAX - 1] of
        None \<Rightarrow> (Err EMFILE, t)
      | Some i \<Rightarrow> (Ok i, t\<lparr>ft_inner := (ft_inner t)(i \<mapsto> file)\<rparr>))"

text \<open>The loop of \<open>insert_dual_file\<close> with the two descriptors found so far.\<close>

fun dual_loop :: "'f fd_table \<Rightarrow> int list \<Rightarrow> int option \<Rightarrow> int option \<times> int option" where
  "dual_loop t [] fileno0 = (fileno0, None)"
| "dual_loop t (i # is) fileno0 =
     (if ft_inner t i = None then
        case fileno0 of None \<Rightarrow> dual_loop t is (Some i) | Some j \<Rightarrow> (fileno0, Some i)
      else dual_loop t is fileno0)"

definition insert_dual_file ::
  "'f fd_table \<Rightarrow> 'f file_desc \<Rightarrow> 'f file_desc \<Rightarrow> (int \<times> int) eresult \<times> 'f fd_table" where
  "insert_dual_file t file0 file1 =
     (case dual_loop t [0..FILE_MAX - 1] None of
        (Some a, Some b) \<Rightarrow> (Ok (a, b), t\<lparr>ft_inner := (ft_inner t)(a \<mapsto> file0, b \<mapsto> file1)\<rparr>)
      | _ \<Rightarrow> (Err EMFILE, t))"

definition remove_file :: "'f fd_table \<Rightarrow> int \<Rightarrow> unit eresult \<times> 'f fd_table" where
  "remove_file t fileno =
     (case ft_inner t fileno of
        None \<Rightarrow> (Err EBADF, t)
      | Some f \<Rightarrow> (Ok (), t\<lparr>ft_inner := (ft_inner t)(fileno := None)\<rparr>))"

definition close_cloexec :: "'f fd_table \<Rightarrow> 'f fd_table" where
  "close_cloexec t =
     t\<lparr>ft_inner := (\<lambda>i. case ft_inner t i of
        Some f \<Rightarrow> if fd_flags f AND O_CLOEXEC = 0 then Some f else None
      | None \<Rightarrow> None)\<rparr>"

definition fdtable_clear :: "'f fd_table \<Rightarrow> 'f fd_table" where
  "fdtable_clear t = t\<lparr>ft_inner := Map.empty\<rparr>"

definition DUP_FCNTL :: nat where "DUP_FCNTL = 2048"

text \<open>The system call \<open>dup\<close> (\<open>src/process/syscall/fs.rs\<close>), with its flags as the unsigned number they are taken for.\<close>

definition sys_dup :: "'f fd_table \<Rightarrow> int \<Rightarrow> nat \<Rightarrow> int \<Rightarrow> int eresult \<times> 'f fd_table" where
  "sys_dup t fd fl newfd =
     (case get_file t fd of
        Inl e \<Rightarrow> (Err e, t)
      | Inr f \<Rightarrow>
          let desc = \<lparr>fd_flags = fl AND 4294901760, fd_file = f\<rparr> in
          if newfd = - 1 then insert_file t 0 desc
          else if fl AND DUP_FCNTL \<noteq> 0 then insert_file t newfd desc
          else if newfd > 0 \<and> newfd < FILE_MAX then
            (case replace_file t newfd desc of (Inl e, t) \<Rightarrow> (Err e, t) | (Inr x, t) \<Rightarrow> (Ok newfd, t))
          else (Err EINVAL, t))"

section \<open>Searching for a free descriptor\<close>

lemma find_upto_None: "find P [a..b] = None \<longleftrightarrow> (\<forall>j. a \<le> j \<and> j \<le> b \<longrightarrow> \<not> P j)"
  by (auto simp: find_None_iff)

lemma find_upto_Some:
  assumes "find P [a..b] = Some i"
  shows "a \<le> i" "i \<le> b" "P i" "a \<le> j \<Longrightarrow> j < i \<Longrightarrow> \<not> P j"
proof -
  obtain k where k: "k < length [a..b]" "P ([a..b] ! k)" "i = [a..b] ! k" "\<forall>j<k. \<not> P ([a..b] ! j)"
    using assms by (auto simp: find_Some_iff)
  have n: "[a..b] ! m = a + int m" if "m \<le> k" for m using that k(1) by (intro nth_upto) auto
  show "a \<le> i" "i \<le> b" "P i" using k(1-3) n [of k] by auto
  show "\<not> P j" if "a \<le> j" "j < i"
  proof -
    have "nat (j - a) < k" using that k(3) n [of k] by auto
    then show ?thesis using k(4) n [of "nat (j - a)"] that(1) by auto
  qed
qed

text \<open>The first free descriptor from \<open>a\<close> on.\<close>

definition first_free :: "'f fd_table \<Rightarrow> int \<Rightarrow> int \<Rightarrow> bool" where
  "first_free t a i \<longleftrightarrow> a \<le> i \<and> i < FILE_MAX \<and> ft_inner t i = None \<and> (\<forall>j. a \<le> j \<and> j < i \<longrightarrow> ft_inner t j \<noteq> None)"

lemma insert_file_cases:
  "(\<exists>i. first_free t a i \<and> insert_file t a f = (Ok i, t\<lparr>ft_inner := (ft_inner t)(i \<mapsto> f)\<rparr>)) \<or>
   (\<forall>j. a \<le> j \<and> j < FILE_MAX \<longrightarrow> ft_inner t j \<noteq> None) \<and> insert_file t a f = (Err EMFILE, t)"
proof (cases "find (\<lambda>i. ft_inner t i = None) [a..FILE_MAX - 1]")
  case None
  then have "insert_file t a f = (Err EMFILE, t)" by (simp add: insert_file_def)
  then show ?thesis using None unfolding find_upto_None by simp
next
  case (Some i)
  then show ?thesis using find_upto_Some [OF Some] by (auto simp: insert_file_def first_free_def)
qed

lemma first_free_unique: "first_free t a i \<Longrightarrow> first_free t a j \<Longrightarrow> i = j"
  unfolding first_free_def by (metis linorder_neqE_linordered_idom)

text \<open>The two descriptors of \<open>insert_dual_file\<close> are the two that two single insertions would give.\<close>

lemma dual_loop_Some:
  "dual_loop t is (Some a) = (Some a, find (\<lambda>i. ft_inner t i = None) is)"
  by (induction "is") auto

lemma dual_loop_None:
  "dual_loop t [x..y] None =
    (case find (\<lambda>i. ft_inner t i = None) [x..y] of
       None \<Rightarrow> (None, None)
     | Some a \<Rightarrow> (Some a, find (\<lambda>i. ft_inner t i = None) [a + 1..y]))"
proof (induction "nat (y + 1 - x)" arbitrary: x)
  case (Suc n)
  then have xy: "x \<le> y" "n = nat (y + 1 - (x + 1))" by auto
  show ?case using Suc(1) [OF xy(2)] upto_rec1 [OF xy(1)] by (simp add: dual_loop_Some)
qed simp

lemma insert_dual_file_twice:
  "insert_dual_file t f g =
    (case insert_file t 0 f of
       (Inl e, t') \<Rightarrow> (Err e, t)
     | (Inr a, t') \<Rightarrow> (case insert_file t' 0 g of (Inl e, t'') \<Rightarrow> (Err e, t) | (Inr b, t'') \<Rightarrow> (Ok (a, b), t'')))"
proof (cases "find (\<lambda>i. ft_inner t i = None) [0..FILE_MAX - 1]")
  case None
  then show ?thesis by (simp add: insert_dual_file_def dual_loop_None insert_file_def)
next
  case (Some a)
  note s = find_upto_Some [OF Some]
  let ?P = "\<lambda>i. ft_inner t i = None" and ?Q = "\<lambda>i. ((ft_inner t)(a \<mapsto> f)) i = None"
  have Q: "?Q i \<longleftrightarrow> a + 1 \<le> i \<and> ?P i" if "0 \<le> i" for i using s(3) s(4) [of i] that by (cases i a rule: linorder_cases) auto
  have eq: "find ?Q [0..FILE_MAX - 1] = find ?P [a + 1..FILE_MAX - 1]"
  proof (cases "find ?P [a + 1..FILE_MAX - 1]")
    case None
    have "find ?Q [0..FILE_MAX - 1] = None" unfolding find_upto_None using Q iffD1 [OF find_upto_None None] by blast
    then show ?thesis using None by simp
  next
    case b: (Some b)
    note sb = find_upto_Some [OF b]
    show ?thesis
    proof (cases "find ?Q [0..FILE_MAX - 1]")
      case None
      have "0 \<le> b \<and> b \<le> FILE_MAX - 1" using sb(1,2) s(1) by simp
      then have "\<not> ?Q b" using iffD1 [OF find_upto_None None] by blast
      then show ?thesis using Q [of b] sb(1,3) s(1) by auto
    next
      case c: (Some c)
      note sc = find_upto_Some [OF c]
      have "\<not> c < b" using Q [of c] sc(1,3) sb(4) [of c] by auto
      moreover have "\<not> b < c" using Q [of b] sb(1-3) s(1) sc(4) [of b] by auto
      ultimately show ?thesis using b c by simp
    qed
  qed
  show ?thesis using Some eq by (auto simp: insert_dual_file_def dual_loop_None insert_file_def split: option.splits)
qed

section \<open>Properties\<close>



section \<open>What goes wrong\<close>

text \<open>
  \<open>replace_file\<close> of a descriptor that is not open inserts the file and reports an error, so \<open>dup\<close> to an
  unused descriptor fails with \<open>EBADF\<close> and leaves the descriptor open.
\<close>

lemma dup_unused_fails_and_opens:
  assumes "ft_inner t fd = Some d" "0 < newfd" "newfd < FILE_MAX" "ft_inner t newfd = None"
  shows "\<exists>t'. sys_dup t fd 0 newfd = (Err EBADF, t') \<and> get_file t' newfd = Ok (fd_file d)"
  using assms by (simp add: sys_dup_def get_file_def replace_file_def DUP_FCNTL_def)

text \<open>The smallest descriptor asked for may be negative, and then a negative descriptor is handed out.\<close>

lemma dup_negative:
  assumes "ft_inner t fd = Some d" "ft_inner t (- 5) = None"
  shows "fst (sys_dup t fd DUP_FCNTL (- 5)) = Ok (- 5)"
proof -
  have "first_free t (- 5) i \<Longrightarrow> i = - 5" for i
    using assms(2) first_free_unique [of t "- 5" i "- 5"] by (simp add: first_free_def FILE_MAX_def)
  then show ?thesis
    using assms insert_file_cases [of t "- 5" "\<lparr>fd_flags = DUP_FCNTL AND 4294901760, fd_file = fd_file d\<rparr>"]
    by (auto simp: sys_dup_def get_file_def DUP_FCNTL_def FILE_MAX_def dest: spec [of _ "- 5"])
qed

end
