(* ===== verification/Spec2Isabelle.thy ===== *)
theory Spec2Isabelle
  imports Badger_Prelude Id_Alloc Page_Source Intrusive_List Radix_Iter Fifo Slabs Vm_Space Mutex Scheduler Dent_Cache_Props Fd_Table
begin

text \<open>
  BadgerOS is a Unix-like kernel in Rust for RISC-V and x86-64. This development models its memory
  management, its synchronisation and scheduling, the core of its file layer and the data structures
  they share, and proves what makes them correct. Paths below are relative to the sources' \<open>src/\<close>.

  \<^bold>\<open>The parts and how they interact.\<close>
  The physical memory manager hands out blocks of pages. The kernel heap cuts them into slots, the page
  tables take pages for their tables, and address spaces take pages for anonymous memory. An
  address space is a list of entries over memory objects; its operations change the list, the page
  tables and a set of TLB fences, and a page fault fills in one page. Threads are kept by the
  scheduler, one queue a CPU; spinlocks, mutexes, semaphores and wait lists block and wake them, and
  RCU generations advance in the scheduler's callback. A system call reaches files through the
  descriptor table of its process and names through a walk over the directory cache, which is
  filled from the filesystem below it; data crosses to and from user memory by fallible copies, and
  results go back as error numbers in a register.

  \<^bold>\<open>Conventions.\<close>
  \<open>Badger_Prelude\<close> has the result type (\<open>Ok\<close> and \<open>Err\<close> are the injections of a sum), the Rust integer operations
  and the lemmas shared by all. A panic is \<open>None\<close> or an error of its own where it is told apart. Machine integers are
  natural numbers with their width written out where the code can reach it, and words where bits
  are packed. State is a record, passed and returned. Code that is not in the sources, and answers from outside
  (whether an allocation succeeds, what the clock reads, which page the allocator hands out), are arguments.

  \<^bold>\<open>Theories and sources.\<close>
  \<^item> \<open>Id_Alloc\<close>: \<open>util/id_alloc.rs\<close>. The sorted ranges of free IDs as a set; allocation, release and reuse; the
    locale \<open>id_source\<close> and its interpretation give that no ID is in use twice.
  \<^item> \<open>Intrusive_List\<close>: \<open>util/list.rs\<close>. Doubly linked lists in a memory of nodes refine lists of addresses; their
    loops end; the locale \<open>fifo_queue\<close> is what the queues built on them rely on.
  \<^item> \<open>Radix_Tree\<close>, \<open>Radix_Iter\<close>: \<open>util/rtree.rs\<close>. The tree refines a finite map (locale \<open>key_map\<close>); the iterator
    lists the entries in the order of the keys.
  \<^item> \<open>Fifo\<close>: \<open>util/fifo.rs\<close>. The ring buffer refines a bounded queue of bytes, faults in the copies included.
  \<^item> \<open>Bit_Set\<close>: \<open>util/bitset.rs\<close>, \<open>util/atomic_bitset.rs\<close>. Every operation is the set operation of its name.
  \<^item> \<open>Free_List\<close>, \<open>Pmm\<close>, \<open>Page_Source\<close>: \<open>mem/pmm/mod.rs\<close>. The buddy allocator on free lists threaded through the
    blocks; allocation, release with coalescing, marking memory free; the locale \<open>page_source\<close> is the contract
    for its clients, and over any run of calls no page is handed out twice.
  \<^item> \<open>Slabs\<close>: \<open>mem/heap/slabs.rs\<close>, \<open>mem/heap/mod.rs\<close>. Slots are aligned, disjoint and handed out once.
  \<^item> \<open>Page_Table\<close>: entries and canonical addresses of both architectures, \<open>arch/riscv64/mmu.rs\<close>,
    \<open>arch/x86_64/mmu.rs\<close>, \<open>mem/vmm/mod.rs\<close>. Packing an entry and reading it back gives the entry.
  \<^item> \<open>Phys_Map\<close>, \<open>Phys_Map_Tree\<close>, \<open>Phys_Map_Ops\<close>, \<open>Phys_Map_Props\<close>: \<open>mem/vmm/physmap.rs\<close>. The tables are a tree and
    define a translation of page numbers; mapping, unmapping and protecting change the translation of exactly the
    pages given, whatever tables are created or large pages split.
  \<^item> \<open>Vm_Fence\<close>: \<open>mem/vmm/vmfence.rs\<close>. A fence set fences every address that was added to it.
  \<^item> \<open>Mem_Object\<close>, \<open>Vm_Entry\<close>, \<open>Vm_Map\<close>, \<open>Vm_Map_Inv\<close>, \<open>Vm_Map_Props\<close>, \<open>Vm_Space\<close>: \<open>mem/vmm/memobject.rs\<close>,
    \<open>mem/vmm/map.rs\<close>. Entries with their anonymous overlay and copy on write, every operation of an
    address space, and page faults. The locale \<open>page_tables\<close> is what the address spaces rely on; it is interpreted on
    \<open>Phys_Map\<close>. The properties go from the user's call down to the translation and the fences.
  \<^item> \<open>Lock_Word\<close>, \<open>Waitlist\<close>, \<open>Mutex\<close>, \<open>Rcu\<close>: \<open>kcore/sync/\<close>. Step relations with one atomic access or one critical section
    a step, for any number and any interleaving of threads. Mutual exclusion is proved once in the locale \<open>rw_lock\<close> and
    holds of spinlocks and mutexes; wake-ups are not lost; generations advance only after every CPU has passed.
  \<^item> \<open>Scheduler\<close>: \<open>kcore/sched/mod.rs\<close>, \<open>kcore/sched/rr.rs\<close>. Yield, tick, blocking, stealing and reaping keep every thread in exactly one
    place, and a runnable thread runs after at most as many yields as its place in the queue.
  \<^item> \<open>Errno\<close>, \<open>User_Copy\<close>: \<open>error.rs\<close>, \<open>process/usercopy.rs\<close>. Results survive the way through a register; copies touch user
    addresses only, stop at the first fault and leave the access to user memory disabled.
  \<^item> \<open>Vfs_Types\<close>, \<open>Ram_Fs\<close>: the types of \<open>filesystem/mod.rs\<close>, and \<open>filesystem/ramfs.rs\<close>. Over any run every entry names a node of its
    type and link counts are the numbers of names; every call changes exactly the names it is about.
  \<^item> \<open>Path_Walk\<close>: the walk of \<open>filesystem/mod.rs\<close> over any way to look names up. It resolves a path component by component;
    the locale \<open>name_lookup\<close> says what a walk keeps.
  \<^item> \<open>Dent_Cache\<close>, \<open>Dent_Cache_Props\<close>: the directory cache of \<open>filesystem/vfs.rs\<close> and \<open>open\<close>, \<open>link\<close>, \<open>unlink\<close>, \<open>make_file\<close> and \<open>rename\<close> of
    \<open>filesystem/mod.rs\<close> over \<open>Ram_Fs\<close>. The cache agrees with the filesystem after any run, so that a cached lookup
    finds what the filesystem has; it interprets \<open>name_lookup\<close>.
  \<^item> \<open>Fd_Table\<close>: \<open>process/files.rs\<close> and \<open>dup\<close> of \<open>process/syscall/fs.rs\<close>. The lowest free descriptor is handed out, and every operation changes
    exactly the descriptors it is about.

  Each theory ends with what its part does that it should not, as lemmas: a property that would fail is stated with the
  condition under which it holds, and the failure is proved beside it.

  \<^bold>\<open>Bounds and fuel.\<close>
  Recursion is structural or has a measure: the walk over a path decreases the links it may still follow, then the
  path left on its stack (\<open>LINK_MAX\<close> is the code's limit). Loops over linked memory that need not end are partial functions into \<open>option\<close>, and
  lemmas show that on well-formed lists they return. \<open>fault_loop\<close> has as fuel the number of bytes of the range: a turn that maps a
  page covers at least one, and \<open>fault_returns\<close> shows that it suffices. \<open>parents_of\<close> and \<open>rename_check_loops\<close> have as fuel
  the number of the entry plus one: a parent is allocated before its children, so the numbers
  decrease (\<open>parents_of_ends\<close>, \<open>rename_check_loops_ends\<close>). \<open>vfs_rename\<close> has the number of retries as fuel, since the code may retry for ever.
  The radix tree has 64-bit keys and four bits a level, so 16 levels; its interpretation as a map grants 40
  allocations, more than an insertion needs. Inode numbers are a 64-bit counter; runs are those in which it does not wrap.

  \<^bold>\<open>Assumptions.\<close>
  Atomic accesses are sequentially consistent. Code under a lock is one step or runs alone. The model
  is of a release build, without debug assertions.

  \<^bold>\<open>Not modelled.\<close>
  The FAT and ext2 filesystems, the page cache, partition tables and mounts stand on block media, whose contents and
  timing nothing in the kernel constrains; the directory cache is over one RAM filesystem. Open files, pipes and device
  nodes pass data between the parts modelled and devices. Processes, program loading and the system calls other than \<open>dup\<close>
  compose the parts modelled with files read through the page cache. Exceptions, context switches, timers, firmware calls, booting,
  drivers and buses are assembly and hardware registers; device tree and ACPI are parsers of firmware tables. Logging, the
  test harness and string routines have no state that a property here depends on. Of the blocking FIFO only the buffer, of the
  intrusive lists only the raw lists are modelled; the owning wrappers call them.
\<close>

end
